(* ===== verification/Yamux_Prelude.thy ===== *)
theory Yamux_Prelude
  imports Main "HOL-Library.Word" "HOL-Library.Monad_Syntax"
begin

text \<open>
  Shared vocabulary of the development: the names of the C types, the reading of
  \<^verbatim>\<open>size_t\<close> values as \<^verbatim>\<open>int\<close>, the two primitives every component uses
  (\<^verbatim>\<open>assert\<close> and \<^verbatim>\<open>malloc\<close>), and the generic lemmas on options, lists and
  words that the component proofs share.

  Every C function of the model returns \<open>'a option\<close>. \<open>Some\<close> carries the values the
  function returns together with the state it leaves; \<open>None\<close> says that the call does not
  return normally: a failed \<^verbatim>\<open>assert\<close>, a dereference of \<^verbatim>\<open>NULL\<close> or of freed
  memory, a loop that never ends, a thread that locks a mutex it already holds, or a
  system call that blocks for ever. An error the code reports (\<^verbatim>\<open>return -1\<close>) is an
  ordinary \<open>Some\<close> value, so the two kinds of failure are never confused.
\<close>

named_theorems yamux_defs \<open>definitions of straight-line operations, for unfolding\<close>
named_theorems bio_simps \<open>laws of the byte queues\<close>
named_theorems lock_simps \<open>laws of the mutexes\<close>

section \<open>C types\<close>

type_synonym byte = "8 word"
type_synonym uint8 = "8 word"
type_synonym uint16 = "16 word"
type_synonym uint32 = "32 word"

text \<open>Addresses of heap objects and pointers to them; \<open>None\<close> is \<^verbatim>\<open>NULL\<close>.\<close>

type_synonym addr = nat
type_synonym ptr = "addr option"

text \<open>
  A \<^verbatim>\<open>size_t\<close> is a natural number: the values the code computes are sizes of live
  objects and never reach \<open>2 ^ 64\<close> by addition. Subtraction is written with its
  wrap-around, and the conversion of a \<^verbatim>\<open>size_t\<close> to the \<^verbatim>\<open>int\<close> a function
  returns keeps the low 32 bits, read as two's complement.
\<close>

definition size_sub :: "nat \<Rightarrow> nat \<Rightarrow> nat" where
  "size_sub a b = (if b \<le> a then a - b else a + 2 ^ 64 - b)"

definition to_int :: "nat \<Rightarrow> int" where
  "to_int n = (int n + 2 ^ 31) mod 2 ^ 32 - 2 ^ 31"

lemma size_sub_le [simp]: "b \<le> a \<Longrightarrow> size_sub a b = a - b"
  by (simp add: size_sub_def)

lemma to_int_small: "n < 2 ^ 31 \<Longrightarrow> to_int n = int n"
  by (simp add: to_int_def)

lemma to_int_0 [simp]: "to_int 0 = 0"
  by (simp add: to_int_def)

section \<open>Assertions and allocation\<close>

definition c_assert :: "bool \<Rightarrow> unit option" where
  "c_assert b = (if b then Some () else None)"

lemma c_assert_simps [simp]: "c_assert True = Some ()" "c_assert False = None"
  by (simp_all add: c_assert_def)

lemma c_assert_eq_Some [simp]: "c_assert b = Some u \<longleftrightarrow> b"
  by (simp add: c_assert_def)

text \<open>
  \<^verbatim>\<open>malloc\<close> may fail at any call. The allocator state counts the calls and says of
  each whether it succeeds; which address a successful call returns is decided where the
  object is stored, as one that is not in use there.
\<close>

record alloc =
  calls :: nat
  succeeds :: "nat \<Rightarrow> bool"

definition malloc :: "alloc \<Rightarrow> bool \<times> alloc" where
  "malloc al = (succeeds al (calls al), al\<lparr>calls := Suc (calls al)\<rparr>)"

text \<open>An allocator that never fails, the usual hypothesis of a success path.\<close>

definition never_fails :: "alloc \<Rightarrow> bool" where
  "never_fails al \<longleftrightarrow> (\<forall>n. succeeds al n)"

lemma malloc_never_fails:
  "never_fails al \<Longrightarrow> malloc al = (True, al\<lparr>calls := Suc (calls al)\<rparr>)"
  by (simp add: malloc_def never_fails_def)

lemma never_fails_calls [simp]: "never_fails (al\<lparr>calls := n\<rparr>) = never_fails al"
  by (simp add: never_fails_def)

lemma succeeds_malloc: "malloc al = (ok, al') \<Longrightarrow> succeeds al' = succeeds al"
  by (auto simp: malloc_def)

section \<open>Options and lists\<close>

lemma bind_eq_Some_iff:
  "Option.bind m f = Some y \<longleftrightarrow> (\<exists>x. m = Some x \<and> f x = Some y)"
  by (cases m) auto

lemma take_append_take_drop: "take m xs @ take n (drop m xs) = take (m + n) xs"
  by (simp add: take_add)

lemma drop_drop_add: "drop n (drop m xs) = drop (m + n) xs"
  by (simp add: add.commute)

section \<open>Total correctness\<close>

text \<open>
  \<open>wp m Q\<close>: the call \<open>m\<close> returns and its result satisfies \<open>Q\<close>. The rules push \<open>Q\<close> through
  a straight-line body; a call of another operation is discharged by its own lemma with
  \<open>wp_call\<close>.
\<close>

definition wp :: "'a option \<Rightarrow> ('a \<Rightarrow> bool) \<Rightarrow> bool" where
  "wp m Q = (case m of None \<Rightarrow> False | Some x \<Rightarrow> Q x)"

lemma wp_simps [simp]:
  "wp (Some x) Q = Q x" "wp None Q = False" "wp (Option.bind m f) Q = wp m (\<lambda>x. wp (f x) Q)"
  by (simp_all add: wp_def bind_split split: option.splits)

lemma wp_if [simp]: "wp (if b then m else m') Q = (if b then wp m Q else wp m' Q)"
  by simp

lemma wp_let [simp]: "wp (let x = e in f x) Q = (let x = e in wp (f x) Q)"
  by simp

lemma wp_assert [simp]: "wp (c_assert b) Q \<longleftrightarrow> b \<and> Q ()"
  by (cases b) auto

lemma wp_call: "wp m P \<Longrightarrow> (\<And>x. P x \<Longrightarrow> Q x) \<Longrightarrow> wp m Q"
  by (auto simp: wp_def split: option.splits)

lemma wp_call2: "wp m P \<Longrightarrow> (\<And>r w. P (r, w) \<Longrightarrow> Q (r, w)) \<Longrightarrow> wp m Q"
  by (auto simp: wp_def split: option.splits)

lemma wp_iff: "wp m Q \<longleftrightarrow> (\<exists>x. m = Some x \<and> Q x)"
  by (auto simp: wp_def split: option.splits)

lemma wpD: "wp m Q \<Longrightarrow> \<exists>x. m = Some x \<and> Q x"
  by (simp add: wp_iff)

end
