(* ===== verification/Splay_Tree.thy ===== *)
theory Splay_Tree
  imports Yamux_Prelude
begin

text \<open>
  The splay trees of \<^verbatim>\<open>tree.h\<close> (the \<^verbatim>\<open>SPLAY_\<close> macros) at pointer level. A node is an element or the variable \<^verbatim>\<open>__node\<close> of the
  splay functions, from which the two side trees hang while a tree is taken apart. Pointers in the
  nodes always point to elements. The comparison function of the user is a parameter; \<open>probe\<close> is the comparison
  of the sought element with another one.
\<close>

section \<open>Nodes\<close>

datatype splay_node = Local | Elm addr

record splay_head =
  sph_root :: ptr
  spe_left :: "splay_node \<Rightarrow> ptr"
  spe_right :: "splay_node \<Rightarrow> ptr"

definition SPLAY_INIT :: "splay_head \<Rightarrow> splay_head" where
  "SPLAY_INIT h = h\<lparr>sph_root := None\<rparr>"

definition SPLAY_EMPTY :: "splay_head \<Rightarrow> bool" where
  "SPLAY_EMPTY h \<longleftrightarrow> sph_root h = None"

definition set_spe_left :: "splay_node \<Rightarrow> ptr \<Rightarrow> splay_head \<Rightarrow> splay_head" where
  "set_spe_left n p h = h\<lparr>spe_left := (spe_left h)(n := p)\<rparr>"

definition set_spe_right :: "splay_node \<Rightarrow> ptr \<Rightarrow> splay_head \<Rightarrow> splay_head" where
  "set_spe_right n p h = h\<lparr>spe_right := (spe_right h)(n := p)\<rparr>"

section \<open>The macros\<close>

definition SPLAY_ROTATE_RIGHT :: "splay_head \<Rightarrow> addr \<Rightarrow> splay_head option" where
  "SPLAY_ROTATE_RIGHT h tmp = do {
     root \<leftarrow> sph_root h;
     let h = set_spe_left (Elm root) (spe_right h (Elm tmp)) h;
     let h = set_spe_right (Elm tmp) (sph_root h) h;
     Some (h\<lparr>sph_root := Some tmp\<rparr>)
   }"

definition SPLAY_ROTATE_LEFT :: "splay_head \<Rightarrow> addr \<Rightarrow> splay_head option" where
  "SPLAY_ROTATE_LEFT h tmp = do {
     root \<leftarrow> sph_root h;
     let h = set_spe_right (Elm root) (spe_left h (Elm tmp)) h;
     let h = set_spe_left (Elm tmp) (sph_root h) h;
     Some (h\<lparr>sph_root := Some tmp\<rparr>)
   }"

definition SPLAY_LINKLEFT :: "splay_head \<Rightarrow> splay_node \<Rightarrow> (splay_head \<times> splay_node) option" where
  "SPLAY_LINKLEFT h tmp = do {
     let h = set_spe_left tmp (sph_root h) h;
     root \<leftarrow> sph_root h;
     Some (h\<lparr>sph_root := spe_left h (Elm root)\<rparr>, Elm root)
   }"

definition SPLAY_LINKRIGHT :: "splay_head \<Rightarrow> splay_node \<Rightarrow> (splay_head \<times> splay_node) option" where
  "SPLAY_LINKRIGHT h tmp = do {
     let h = set_spe_right tmp (sph_root h) h;
     root \<leftarrow> sph_root h;
     Some (h\<lparr>sph_root := spe_right h (Elm root)\<rparr>, Elm root)
   }"

definition SPLAY_ASSEMBLE :: "splay_head \<Rightarrow> splay_node \<Rightarrow> splay_node \<Rightarrow> splay_head option" where
  "SPLAY_ASSEMBLE h left right = do {
     root \<leftarrow> sph_root h;
     let h = set_spe_right left (spe_left h (Elm root)) h;
     let h = set_spe_left right (spe_right h (Elm root)) h;
     let h = set_spe_left (Elm root) (spe_right h Local) h;
     Some (set_spe_right (Elm root) (spe_left h Local) h)
   }"

section \<open>The splay functions\<close>

text \<open>The loop of \<^verbatim>\<open>_SPLAY\<close>; leaving it with \<^verbatim>\<open>break\<close> or because the comparison is 0 gives the head and the two ends.\<close>

partial_function (option) splay_loop ::
  "(addr \<Rightarrow> int) \<Rightarrow> splay_head \<Rightarrow> splay_node \<Rightarrow> splay_node \<Rightarrow> (splay_head \<times> splay_node \<times> splay_node) option" where
  "splay_loop probe h left right = do {
     root \<leftarrow> sph_root h;
     if probe root = 0 then Some (h, left, right)
     else if probe root < 0 then
       (case spe_left h (Elm root) of
          None \<Rightarrow> Some (h, left, right)
        | Some tmp \<Rightarrow>
            if probe tmp < 0 then do {
              h \<leftarrow> SPLAY_ROTATE_RIGHT h tmp;
              root \<leftarrow> sph_root h;
              if spe_left h (Elm root) = None then Some (h, left, right)
              else do { (h, right) \<leftarrow> SPLAY_LINKLEFT h right; splay_loop probe h left right }
            }
            else do { (h, right) \<leftarrow> SPLAY_LINKLEFT h right; splay_loop probe h left right })
     else
       (case spe_right h (Elm root) of
          None \<Rightarrow> Some (h, left, right)
        | Some tmp \<Rightarrow>
            if probe tmp > 0 then do {
              h \<leftarrow> SPLAY_ROTATE_LEFT h tmp;
              root \<leftarrow> sph_root h;
              if spe_right h (Elm root) = None then Some (h, left, right)
              else do { (h, left) \<leftarrow> SPLAY_LINKRIGHT h left; splay_loop probe h left right }
            }
            else do { (h, left) \<leftarrow> SPLAY_LINKRIGHT h left; splay_loop probe h left right })
   }"

definition SPLAY :: "(addr \<Rightarrow> int) \<Rightarrow> splay_head \<Rightarrow> splay_head option" where
  "SPLAY probe h = do {
     let h = set_spe_left Local None (set_spe_right Local None h);
     (h, left, right) \<leftarrow> splay_loop probe h Local Local;
     SPLAY_ASSEMBLE h left right
   }"

partial_function (option) splay_minmax_loop ::
  "int \<Rightarrow> splay_head \<Rightarrow> splay_node \<Rightarrow> splay_node \<Rightarrow> (splay_head \<times> splay_node \<times> splay_node) option" where
  "splay_minmax_loop cmpr h left right =
     (if cmpr < 0 then do {
        root \<leftarrow> sph_root h;
        case spe_left h (Elm root) of
          None \<Rightarrow> Some (h, left, right)
        | Some tmp \<Rightarrow>
            if cmpr < 0 then do {
              h \<leftarrow> SPLAY_ROTATE_RIGHT h tmp;
              root \<leftarrow> sph_root h;
              if spe_left h (Elm root) = None then Some (h, left, right)
              else do { (h, right) \<leftarrow> SPLAY_LINKLEFT h right; splay_minmax_loop cmpr h left right }
            }
            else do { (h, right) \<leftarrow> SPLAY_LINKLEFT h right; splay_minmax_loop cmpr h left right }
      }
      else if cmpr > 0 then do {
        root \<leftarrow> sph_root h;
        case spe_right h (Elm root) of
          None \<Rightarrow> Some (h, left, right)
        | Some tmp \<Rightarrow>
            if cmpr > 0 then do {
              h \<leftarrow> SPLAY_ROTATE_LEFT h tmp;
              root \<leftarrow> sph_root h;
              if spe_right h (Elm root) = None then Some (h, left, right)
              else do { (h, left) \<leftarrow> SPLAY_LINKRIGHT h left; splay_minmax_loop cmpr h left right }
            }
            else do { (h, left) \<leftarrow> SPLAY_LINKRIGHT h left; splay_minmax_loop cmpr h left right }
      }
      else splay_minmax_loop cmpr h left right)"

definition SPLAY_MINMAX :: "int \<Rightarrow> splay_head \<Rightarrow> splay_head option" where
  "SPLAY_MINMAX cmpr h = do {
     let h = set_spe_left Local None (set_spe_right Local None h);
     (h, left, right) \<leftarrow> splay_minmax_loop cmpr h Local Local;
     SPLAY_ASSEMBLE h left right
   }"

section \<open>The operations\<close>

definition SPLAY_INSERT :: "(addr \<Rightarrow> addr \<Rightarrow> int) \<Rightarrow> splay_head \<Rightarrow> addr \<Rightarrow> (ptr \<times> splay_head) option" where
  "SPLAY_INSERT cmp h elm =
     (if SPLAY_EMPTY h then
        let h = set_spe_left (Elm elm) None (set_spe_right (Elm elm) None h) in
        Some (None, h\<lparr>sph_root := Some elm\<rparr>)
      else do {
        h \<leftarrow> SPLAY (cmp elm) h;
        root \<leftarrow> sph_root h;
        if cmp elm root < 0 then
          let h = set_spe_left (Elm elm) (spe_left h (Elm root)) h;
              h = set_spe_right (Elm elm) (sph_root h) h;
              h = set_spe_left (Elm root) None h
          in Some (None, h\<lparr>sph_root := Some elm\<rparr>)
        else if cmp elm root > 0 then
          let h = set_spe_right (Elm elm) (spe_right h (Elm root)) h;
              h = set_spe_left (Elm elm) (sph_root h) h;
              h = set_spe_right (Elm root) None h
          in Some (None, h\<lparr>sph_root := Some elm\<rparr>)
        else Some (sph_root h, h)
      })"

definition SPLAY_REMOVE :: "(addr \<Rightarrow> addr \<Rightarrow> int) \<Rightarrow> splay_head \<Rightarrow> addr \<Rightarrow> (ptr \<times> splay_head) option" where
  "SPLAY_REMOVE cmp h elm =
     (if SPLAY_EMPTY h then Some (None, h)
      else do {
        h \<leftarrow> SPLAY (cmp elm) h;
        root \<leftarrow> sph_root h;
        if cmp elm root = 0 then
          (if spe_left h (Elm root) = None then Some (Some elm, h\<lparr>sph_root := spe_right h (Elm root)\<rparr>)
           else do {
             let tmp = spe_right h (Elm root);
             h \<leftarrow> SPLAY (cmp elm) (h\<lparr>sph_root := spe_left h (Elm root)\<rparr>);
             root \<leftarrow> sph_root h;
             Some (Some elm, set_spe_right (Elm root) tmp h)
           })
        else Some (None, h)
      })"

definition SPLAY_FIND :: "(addr \<Rightarrow> addr \<Rightarrow> int) \<Rightarrow> splay_head \<Rightarrow> addr \<Rightarrow> (ptr \<times> splay_head) option" where
  "SPLAY_FIND cmp h elm =
     (if SPLAY_EMPTY h then Some (None, h)
      else do {
        h \<leftarrow> SPLAY (cmp elm) h;
        root \<leftarrow> sph_root h;
        Some (if cmp elm root = 0 then sph_root h else None, h)
      })"

partial_function (option) splay_leftmost :: "splay_head \<Rightarrow> addr \<Rightarrow> addr option" where
  "splay_leftmost h elm =
     (case spe_left h (Elm elm) of None \<Rightarrow> Some elm | Some l \<Rightarrow> splay_leftmost h l)"

definition SPLAY_NEXT :: "(addr \<Rightarrow> addr \<Rightarrow> int) \<Rightarrow> splay_head \<Rightarrow> addr \<Rightarrow> (ptr \<times> splay_head) option" where
  "SPLAY_NEXT cmp h elm = do {
     h \<leftarrow> SPLAY (cmp elm) h;
     case spe_right h (Elm elm) of
       None \<Rightarrow> Some (None, h)
     | Some r \<Rightarrow> do { x \<leftarrow> splay_leftmost h r; Some (Some x, h) }
   }"

definition SPLAY_MIN_MAX :: "int \<Rightarrow> splay_head \<Rightarrow> (ptr \<times> splay_head) option" where
  "SPLAY_MIN_MAX val h = do { h \<leftarrow> SPLAY_MINMAX val h; Some (sph_root h, h) }"

definition SPLAY_MIN :: "splay_head \<Rightarrow> (ptr \<times> splay_head) option" where
  "SPLAY_MIN h = (if SPLAY_EMPTY h then Some (None, h) else SPLAY_MIN_MAX (- 1) h)"

definition SPLAY_MAX :: "splay_head \<Rightarrow> (ptr \<times> splay_head) option" where
  "SPLAY_MAX h = (if SPLAY_EMPTY h then Some (None, h) else SPLAY_MIN_MAX 1 h)"

text \<open>The elements that \<^verbatim>\<open>SPLAY_FOREACH\<close> visits, and the tree it leaves.\<close>

partial_function (option) splay_foreach_loop ::
  "(addr \<Rightarrow> addr \<Rightarrow> int) \<Rightarrow> ptr \<Rightarrow> splay_head \<Rightarrow> (addr list \<times> splay_head) option" where
  "splay_foreach_loop cmp x h =
     (case x of None \<Rightarrow> Some ([], h)
      | Some a \<Rightarrow> do {
          (n, h) \<leftarrow> SPLAY_NEXT cmp h a;
          (xs, h) \<leftarrow> splay_foreach_loop cmp n h;
          Some (a # xs, h)
        })"

definition SPLAY_FOREACH :: "(addr \<Rightarrow> addr \<Rightarrow> int) \<Rightarrow> splay_head \<Rightarrow> (addr list \<times> splay_head) option" where
  "SPLAY_FOREACH cmp h = do { (x, h) \<leftarrow> SPLAY_MIN h; splay_foreach_loop cmp x h }"

end
