(* ===== verification/Splay_Proofs.thy ===== *)
theory Splay_Proofs
  imports Splay_Tree "HOL-Library.Tree"
begin

text \<open>
  The splay trees as ordered sequences. \<open>tree_at\<close> relates the nodes to a binary tree; the sequence is its
  inorder. While a tree is splayed it is in three parts: the left side tree (all elements below the
  sought one), the rest, and the right side tree (all above). The loop keeps the sequence of the three
  parts together and ends, since the rest gets smaller.
\<close>

section \<open>Trees in memory\<close>

primrec tree_at :: "splay_head \<Rightarrow> ptr \<Rightarrow> addr tree \<Rightarrow> bool" where
  "tree_at h p Leaf \<longleftrightarrow> p = None"
| "tree_at h p (Node l a r) \<longleftrightarrow> p = Some a \<and> tree_at h (spe_left h (Elm a)) l \<and> tree_at h (spe_right h (Elm a)) r"

text \<open>The side trees, the node added last first: \<open>lefts h L n\<close> hangs from the right pointer of \<^verbatim>\<open>__node\<close> and ends in \<open>n\<close>,
  \<open>rights h R n\<close> from its left pointer.\<close>

primrec lefts :: "splay_head \<Rightarrow> (addr tree \<times> addr) list \<Rightarrow> splay_node \<Rightarrow> bool" where
  "lefts h [] n \<longleftrightarrow> n = Local"
| "lefts h (p # L) n \<longleftrightarrow> n = Elm (snd p) \<and> tree_at h (spe_left h n) (fst p) \<and> (\<exists>n'. lefts h L n' \<and> spe_right h n' = Some (snd p))"

primrec rights :: "splay_head \<Rightarrow> (addr \<times> addr tree) list \<Rightarrow> splay_node \<Rightarrow> bool" where
  "rights h [] n \<longleftrightarrow> n = Local"
| "rights h (p # R) n \<longleftrightarrow> n = Elm (fst p) \<and> tree_at h (spe_right h n) (snd p) \<and> (\<exists>n'. rights h R n' \<and> spe_left h n' = Some (fst p))"

primrec lseq :: "(addr tree \<times> addr) list \<Rightarrow> addr list" where
  "lseq [] = []"
| "lseq (p # L) = lseq L @ inorder (fst p) @ [snd p]"

primrec rseq :: "(addr \<times> addr tree) list \<Rightarrow> addr list" where
  "rseq [] = []"
| "rseq (p # R) = fst p # inorder (snd p) @ rseq R"

lemma Elm_image [simp]: "Elm a \<in> Elm ` S \<longleftrightarrow> a \<in> S" "Local \<notin> Elm ` S"
  by auto

lemma set_spe_simps [simp]:
  "sph_root (set_spe_left n p h) = sph_root h" "spe_left (set_spe_left n p h) = (spe_left h)(n := p)"
  "spe_right (set_spe_left n p h) = spe_right h" "sph_root (set_spe_right n p h) = sph_root h"
  "spe_left (set_spe_right n p h) = spe_left h" "spe_right (set_spe_right n p h) = (spe_right h)(n := p)"
  by (simp_all add: set_spe_left_def set_spe_right_def)

lemma tree_at_cong:
  assumes "\<And>a. a \<in> set (inorder t) \<Longrightarrow> spe_left h' (Elm a) = spe_left h (Elm a) \<and> spe_right h' (Elm a) = spe_right h (Elm a)"
  shows "tree_at h' p t = tree_at h p t"
  using assms by (induction t arbitrary: p) auto

lemma tree_at_upd [simp]:
  "n \<notin> Elm ` set (inorder t) \<Longrightarrow> tree_at (set_spe_left n q h) p t = tree_at h p t"
  "n \<notin> Elm ` set (inorder t) \<Longrightarrow> tree_at (set_spe_right n q h) p t = tree_at h p t"
  "tree_at (h\<lparr>sph_root := q\<rparr>) p t = tree_at h p t"
  by (rule tree_at_cong; auto)+

lemma tree_at_Some: "tree_at h (Some a) t \<Longrightarrow> \<exists>l r. t = Node l a r"
  by (cases t) auto

lemma tree_at_None [simp]: "tree_at h None t \<longleftrightarrow> t = Leaf"
  by (cases t) auto

lemma lefts_end: "lefts h L n \<Longrightarrow> n = Local \<or> n \<in> Elm ` set (lseq L)"
  by (cases L) auto

lemma rights_end: "rights h R n \<Longrightarrow> n = Local \<or> n \<in> Elm ` set (rseq R)"
  by (cases R) auto

text \<open>A side tree does not see changes outside it, nor of the link at its end, nor of the other link of \<^verbatim>\<open>__node\<close>.\<close>

lemma lefts_cong:
  assumes "\<And>a. a \<in> set (lseq L) \<Longrightarrow> spe_left h' (Elm a) = spe_left h (Elm a)"
    and "\<And>k. k = Local \<or> k \<in> Elm ` set (lseq L) \<Longrightarrow> k \<noteq> n \<Longrightarrow> spe_right h' k = spe_right h k"
    and "distinct (lseq L)"
  shows "lefts h' L n = lefts h L n"
  using assms
proof (induction L arbitrary: n)
  case (Cons p L)
  show ?case
  proof (cases "n = Elm (snd p)")
    case True
    have "tree_at h' (spe_left h n) (fst p) = tree_at h (spe_left h n) (fst p)"
    proof (intro tree_at_cong conjI)
      fix a assume "a \<in> set (inorder (fst p))"
      then show "spe_left h' (Elm a) = spe_left h (Elm a)" "spe_right h' (Elm a) = spe_right h (Elm a)"
        using Cons.prems(1) [of a] Cons.prems(2) [of "Elm a"] Cons.prems(3) True by auto
    qed
    moreover have "spe_left h' n = spe_left h n" using Cons.prems(1) True by simp
    moreover have "lefts h' L n' \<and> spe_right h' n' = Some (snd p) \<longleftrightarrow> lefts h L n' \<and> spe_right h n' = Some (snd p)" for n'
    proof -
      have "lefts h' L n' = lefts h L n'" using Cons.prems True by (intro Cons.IH) auto
      moreover have "lefts h L n' \<Longrightarrow> spe_right h' n' = spe_right h n'"
        using lefts_end [of h L n'] Cons.prems(2,3) True by auto
      ultimately show ?thesis by auto
    qed
    ultimately show ?thesis by simp
  qed simp
qed simp

lemma rights_cong:
  assumes "\<And>a. a \<in> set (rseq R) \<Longrightarrow> spe_right h' (Elm a) = spe_right h (Elm a)"
    and "\<And>k. k = Local \<or> k \<in> Elm ` set (rseq R) \<Longrightarrow> k \<noteq> n \<Longrightarrow> spe_left h' k = spe_left h k"
    and "distinct (rseq R)"
  shows "rights h' R n = rights h R n"
  using assms
proof (induction R arbitrary: n)
  case (Cons p R)
  show ?case
  proof (cases "n = Elm (fst p)")
    case True
    have "tree_at h' (spe_right h n) (snd p) = tree_at h (spe_right h n) (snd p)"
    proof (intro tree_at_cong conjI)
      fix a assume "a \<in> set (inorder (snd p))"
      then show "spe_left h' (Elm a) = spe_left h (Elm a)" "spe_right h' (Elm a) = spe_right h (Elm a)"
        using Cons.prems(1) [of a] Cons.prems(2) [of "Elm a"] Cons.prems(3) True by auto
    qed
    moreover have "spe_right h' n = spe_right h n" using Cons.prems(1) True by simp
    moreover have "rights h' R n' \<and> spe_left h' n' = Some (fst p) \<longleftrightarrow> rights h R n' \<and> spe_left h n' = Some (fst p)" for n'
    proof -
      have "rights h' R n' = rights h R n'" using Cons.prems True by (intro Cons.IH) auto
      moreover have "rights h R n' \<Longrightarrow> spe_left h' n' = spe_left h n'"
        using rights_end [of h R n'] Cons.prems(2,3) True by auto
      ultimately show ?thesis by auto
    qed
    ultimately show ?thesis by simp
  qed simp
qed simp

section \<open>The steps of the loop\<close>

definition parts :: "splay_head \<Rightarrow> splay_node \<Rightarrow> splay_node \<Rightarrow> (addr tree \<times> addr) list \<Rightarrow> addr tree \<Rightarrow> (addr \<times> addr tree) list \<Rightarrow> bool" where
  "parts h lt rt L t R \<longleftrightarrow> tree_at h (sph_root h) t \<and> lefts h L lt \<and> rights h R rt \<and> distinct (lseq L @ inorder t @ rseq R)"

text \<open>Outside the elements \<open>xs\<close> nothing is different.\<close>

definition agree :: "addr list \<Rightarrow> splay_head \<Rightarrow> splay_head \<Rightarrow> bool" where
  "agree xs h h' \<longleftrightarrow> (\<forall>b. b \<notin> set xs \<longrightarrow> spe_left h' (Elm b) = spe_left h (Elm b) \<and> spe_right h' (Elm b) = spe_right h (Elm b))"

lemma agree_trans: "agree xs h h1 \<Longrightarrow> agree xs h1 h2 \<Longrightarrow> agree xs h h2"
  by (simp add: agree_def)

lemma agree_tree: "agree xs h h' \<Longrightarrow> set xs \<inter> set (inorder t) = {} \<Longrightarrow> tree_at h' p t = tree_at h p t"
  by (rule tree_at_cong) (auto simp: agree_def)

lemma parts_change:
  assumes "parts h lt rt L t R"
    and "\<And>a. a \<notin> set (inorder t) \<Longrightarrow> spe_left h' (Elm a) = spe_left h (Elm a) \<and> spe_right h' (Elm a) = spe_right h (Elm a)"
    and "spe_left h' Local = spe_left h Local" "spe_right h' Local = spe_right h Local"
    and "tree_at h' (sph_root h') t'" and "inorder t' = inorder t"
  shows "parts h' lt rt L t' R"
proof -
  have d: "distinct (lseq L @ inorder t @ rseq R)" using assms(1) by (simp add: parts_def)
  have "lefts h' L lt = lefts h L lt" using d assms(2-4) by (intro lefts_cong) auto
  moreover have "rights h' R rt = rights h R rt" using d assms(2-4) by (intro rights_cong) auto
  ultimately show ?thesis using assms by (simp add: parts_def)
qed

lemma rotate_right:
  assumes "parts h lt rt L (Node (Node ll b lr) a r) R"
  shows "\<exists>h'. SPLAY_ROTATE_RIGHT h b = Some h' \<and> parts h' lt rt L (Node ll b (Node lr a r)) R \<and>
    agree (lseq L @ inorder (Node (Node ll b lr) a r) @ rseq R) h h'"
proof -
  have t: "tree_at h (sph_root h) (Node (Node ll b lr) a r)" "distinct (inorder (Node (Node ll b lr) a r))"
    using assms by (auto simp: parts_def)
  let ?h = "(set_spe_right (Elm b) (Some a) (set_spe_left (Elm a) (spe_right h (Elm b)) h))\<lparr>sph_root := Some b\<rparr>"
  have "SPLAY_ROTATE_RIGHT h b = Some ?h" using t(1) by (simp add: SPLAY_ROTATE_RIGHT_def)
  moreover have "tree_at ?h (sph_root ?h) (Node ll b (Node lr a r))" using t by auto
  then have "parts ?h lt rt L (Node ll b (Node lr a r)) R" by (intro parts_change [OF assms]) auto
  ultimately show ?thesis by (auto simp: agree_def)
qed

lemma rotate_left:
  assumes "parts h lt rt L (Node l a (Node rl b rr)) R"
  shows "\<exists>h'. SPLAY_ROTATE_LEFT h b = Some h' \<and> parts h' lt rt L (Node (Node l a rl) b rr) R \<and>
    agree (lseq L @ inorder (Node l a (Node rl b rr)) @ rseq R) h h'"
proof -
  have t: "tree_at h (sph_root h) (Node l a (Node rl b rr))" "distinct (inorder (Node l a (Node rl b rr)))"
    using assms by (auto simp: parts_def)
  let ?h = "(set_spe_left (Elm b) (Some a) (set_spe_right (Elm a) (spe_left h (Elm b)) h))\<lparr>sph_root := Some b\<rparr>"
  have "SPLAY_ROTATE_LEFT h b = Some ?h" using t(1) by (simp add: SPLAY_ROTATE_LEFT_def)
  moreover have "tree_at ?h (sph_root ?h) (Node (Node l a rl) b rr)" using t by auto
  then have "parts ?h lt rt L (Node (Node l a rl) b rr) R" by (intro parts_change [OF assms]) auto
  ultimately show ?thesis by (auto simp: agree_def)
qed

lemma link_left:
  assumes "parts h lt rt L (Node l a r) R"
  shows "\<exists>h'. SPLAY_LINKLEFT h rt = Some (h', Elm a) \<and> parts h' lt (Elm a) L l ((a, r) # R) \<and>
    agree (lseq L @ inorder (Node l a r) @ rseq R) h h'"
proof -
  have p: "tree_at h (sph_root h) (Node l a r)" "lefts h L lt" "rights h R rt" "distinct (lseq L @ inorder (Node l a r) @ rseq R)"
    using assms by (simp_all add: parts_def)
  let ?h = "set_spe_left rt (Some a) h"
  have e: "rt \<notin> Elm ` set (lseq L @ inorder (Node l a r))" using rights_end [OF p(3)] p(4) by auto
  then have "spe_left ?h (Elm a) = spe_left h (Elm a)" by auto
  then have "SPLAY_LINKLEFT h rt = Some (?h\<lparr>sph_root := spe_left h (Elm a)\<rparr>, Elm a)" using p(1) by (simp add: SPLAY_LINKLEFT_def)
  moreover have "lefts (?h\<lparr>sph_root := spe_left h (Elm a)\<rparr>) L lt = lefts h L lt" using e p(4) by (intro lefts_cong) auto
  moreover have "rights (?h\<lparr>sph_root := spe_left h (Elm a)\<rparr>) R rt = rights h R rt" using e p(4) by (intro rights_cong) auto
  moreover have "tree_at ?h (spe_left h (Elm a)) l" "tree_at ?h (spe_right h (Elm a)) r" using e p(1) by (auto simp: image_Un)
  moreover have "agree (lseq L @ inorder (Node l a r) @ rseq R) h (?h\<lparr>sph_root := spe_left h (Elm a)\<rparr>)"
    using rights_end [OF p(3)] by (auto simp: agree_def)
  ultimately show ?thesis using p by (auto simp: parts_def intro!: exI [of _ rt])
qed

lemma link_right:
  assumes "parts h lt rt L (Node l a r) R"
  shows "\<exists>h'. SPLAY_LINKRIGHT h lt = Some (h', Elm a) \<and> parts h' (Elm a) rt ((l, a) # L) r R \<and>
    agree (lseq L @ inorder (Node l a r) @ rseq R) h h'"
proof -
  have p: "tree_at h (sph_root h) (Node l a r)" "lefts h L lt" "rights h R rt" "distinct (lseq L @ inorder (Node l a r) @ rseq R)"
    using assms by (simp_all add: parts_def)
  let ?h = "set_spe_right lt (Some a) h"
  have e: "lt \<notin> Elm ` set (inorder (Node l a r) @ rseq R)" using lefts_end [OF p(2)] p(4) by auto
  then have "spe_right ?h (Elm a) = spe_right h (Elm a)" by auto
  then have "SPLAY_LINKRIGHT h lt = Some (?h\<lparr>sph_root := spe_right h (Elm a)\<rparr>, Elm a)" using p(1) by (simp add: SPLAY_LINKRIGHT_def)
  moreover have "lefts (?h\<lparr>sph_root := spe_right h (Elm a)\<rparr>) L lt = lefts h L lt" using e p(4) by (intro lefts_cong) auto
  moreover have "rights (?h\<lparr>sph_root := spe_right h (Elm a)\<rparr>) R rt = rights h R rt" using e p(4) by (intro rights_cong) auto
  moreover have "tree_at ?h (spe_left h (Elm a)) l" "tree_at ?h (spe_right h (Elm a)) r" using e p(1) by (auto simp: image_Un)
  moreover have "agree (lseq L @ inorder (Node l a r) @ rseq R) h (?h\<lparr>sph_root := spe_right h (Elm a)\<rparr>)"
    using lefts_end [OF p(2)] by (auto simp: agree_def)
  ultimately show ?thesis using p by (auto simp: parts_def intro!: exI [of _ lt])
qed

section \<open>Putting the parts together\<close>

primrec lbuild :: "(addr tree \<times> addr) list \<Rightarrow> addr tree \<Rightarrow> addr tree" where
  "lbuild [] t = t"
| "lbuild (p # L) t = lbuild L (Node (fst p) (snd p) t)"

primrec rbuild :: "(addr \<times> addr tree) list \<Rightarrow> addr tree \<Rightarrow> addr tree" where
  "rbuild [] t = t"
| "rbuild (p # R) t = rbuild R (Node t (fst p) (snd p))"

lemma inorder_build [simp]: "inorder (lbuild L t) = lseq L @ inorder t" "inorder (rbuild R t) = inorder t @ rseq R"
  by (induction L arbitrary: t, auto) (induction R arbitrary: t, auto)

lemma lefts_build: "lefts h L n \<Longrightarrow> tree_at h (spe_right h n) t \<Longrightarrow> tree_at h (spe_right h Local) (lbuild L t)"
  by (induction L arbitrary: n t) auto

lemma rights_build: "rights h R n \<Longrightarrow> tree_at h (spe_left h n) t \<Longrightarrow> tree_at h (spe_left h Local) (rbuild R t)"
  by (induction R arbitrary: n t) auto

lemma assemble:
  assumes "parts h lt rt L (Node l x r) R"
  shows "\<exists>h'. SPLAY_ASSEMBLE h lt rt = Some h' \<and> tree_at h' (sph_root h') (Node (lbuild L l) x (rbuild R r)) \<and>
    agree (lseq L @ inorder (Node l x r) @ rseq R) h h'"
proof -
  have p: "tree_at h (sph_root h) (Node l x r)" "lefts h L lt" "rights h R rt" "distinct (lseq L @ inorder (Node l x r) @ rseq R)"
    using assms by (simp_all add: parts_def)
  have e: "lt \<notin> Elm ` set (inorder (Node l x r) @ rseq R)" "rt \<notin> Elm ` set (lseq L @ inorder (Node l x r))"
    using lefts_end [OF p(2)] rights_end [OF p(3)] p(4) by auto
  let ?h1 = "set_spe_right lt (spe_left h (Elm x)) h" let ?h2 = "set_spe_left rt (spe_right h (Elm x)) ?h1"
  let ?h3 = "set_spe_left (Elm x) (spe_right ?h2 Local) ?h2" let ?h4 = "set_spe_right (Elm x) (spe_left ?h2 Local) ?h3"
  have "lt \<noteq> Elm x" "rt \<noteq> Elm x" using e by auto
  then have run: "SPLAY_ASSEMBLE h lt rt = Some ?h4" using p(1) by (simp add: SPLAY_ASSEMBLE_def Let_def)
  have "lefts ?h2 L lt = lefts h L lt" using e p(4) by (intro lefts_cong) auto
  moreover have "tree_at ?h2 (spe_left h (Elm x)) l" using e p(1) by (auto simp: image_Un)
  ultimately have L: "tree_at ?h2 (spe_right ?h2 Local) (lbuild L l)" using p(2) by (intro lefts_build [of ?h2 L lt]) simp_all
  have "rights ?h2 R rt = rights h R rt" using e p(4) by (intro rights_cong) auto
  moreover have "tree_at ?h2 (spe_right h (Elm x)) r" using e p(1) by (auto simp: image_Un)
  ultimately have R: "tree_at ?h2 (spe_left ?h2 Local) (rbuild R r)" using p(3) by (intro rights_build [of ?h2 R rt]) simp_all
  have "x \<notin> set (inorder (lbuild L l))" "x \<notin> set (inorder (rbuild R r))" using p(4) by auto
  then have "tree_at ?h4 (spe_right ?h2 Local) (lbuild L l)" "tree_at ?h4 (spe_left ?h2 Local) (rbuild R r)"
    using L R by (auto simp del: inorder_build set_inorder)
  then have "tree_at ?h4 (sph_root ?h4) (Node (lbuild L l) x (rbuild R r))" using p(1) by auto
  moreover have "agree (lseq L @ inorder (Node l x r) @ rseq R) h ?h4"
    using lefts_end [OF p(2)] rights_end [OF p(3)] by (auto simp: agree_def)
  ultimately show ?thesis using run by blast
qed

section \<open>The loop\<close>

text \<open>The elements below the sought one, then at most one equal to it, then those above it.\<close>

definition guided :: "(addr \<Rightarrow> int) \<Rightarrow> addr list \<Rightarrow> bool" where
  "guided probe = sorted_wrt (\<lambda>x y. probe x \<le> 0 \<longrightarrow> probe y < 0)"

definition loop_ends :: "(addr \<Rightarrow> int) \<Rightarrow> splay_head \<Rightarrow> (splay_head \<times> splay_node \<times> splay_node) option \<Rightarrow> addr list \<Rightarrow> bool" where
  "loop_ends probe h0 res xs \<longleftrightarrow> (\<exists>h lt rt L l x r R. res = Some (h, lt, rt) \<and> parts h lt rt L (Node l x r) R \<and> agree xs h0 h \<and>
     lseq L @ inorder (Node l x r) @ rseq R = xs \<and> (\<forall>u\<in>set (lseq L @ inorder l). probe u > 0) \<and>
     (\<forall>v\<in>set (inorder r @ rseq R). probe v < 0))"

lemma loop_stops:
  assumes "parts h lt rt L (Node l x r) R" and "guided probe (lseq L @ inorder (Node l x r) @ rseq R)"
    and "\<forall>u\<in>set (lseq L). probe u > 0" and "\<forall>v\<in>set (rseq R). probe v < 0" and "agree (lseq L @ inorder (Node l x r) @ rseq R) h0 h"
    and "probe x = 0 \<or> probe x < 0 \<and> l = Leaf \<or> probe x > 0 \<and> r = Leaf"
  shows "loop_ends probe h0 (Some (h, lt, rt)) (lseq L @ inorder (Node l x r) @ rseq R)"
proof -
  have "\<forall>u\<in>set (lseq L @ inorder l). probe u > 0" "\<forall>v\<in>set (inorder r @ rseq R). probe v < 0"
    using assms(2-4,6) by (force simp: guided_def sorted_wrt_append)+
  with assms(1,5) show ?thesis unfolding loop_ends_def by blast
qed

text \<open>A state of the loop, and one turn of it in either direction: it ends or goes on with a smaller rest.\<close>

definition loop_at :: "(addr \<Rightarrow> int) \<Rightarrow> addr list \<Rightarrow> splay_head \<Rightarrow> splay_head \<Rightarrow> splay_node \<Rightarrow> splay_node \<Rightarrow> addr tree \<Rightarrow> bool" where
  "loop_at probe xs h0 h lt rt t \<longleftrightarrow> agree xs h0 h \<and> (\<exists>L R. parts h lt rt L t R \<and> lseq L @ inorder t @ rseq R = xs \<and>
     (\<forall>u\<in>set (lseq L). probe u > 0) \<and> (\<forall>v\<in>set (rseq R). probe v < 0))"

definition loop_turns :: "(addr \<Rightarrow> int) \<Rightarrow> addr list \<Rightarrow> splay_head \<Rightarrow> splay_head \<Rightarrow> splay_node \<Rightarrow> splay_node \<Rightarrow> addr tree \<Rightarrow> bool" where
  "loop_turns probe xs h0 h lt rt t \<longleftrightarrow> loop_ends probe h0 (splay_loop probe h lt rt) xs \<or>
     (\<exists>h' lt' rt' t'. splay_loop probe h lt rt = splay_loop probe h' lt' rt' \<and> loop_at probe xs h0 h' lt' rt' t' \<and>
        t' \<noteq> Leaf \<and> size t' < size t)"

lemma loop_goes:
  "splay_loop probe h lt rt = splay_loop probe h' lt' rt' \<Longrightarrow> loop_at probe xs h0 h' lt' rt' t' \<Longrightarrow> t' \<noteq> Leaf \<Longrightarrow>
    size t' < size t \<Longrightarrow> loop_turns probe xs h0 h lt rt t"
  unfolding loop_turns_def by blast

lemma loop_turns_left:
  assumes "loop_at probe xs h0 h lt rt (Node (Node ll b lr) a r)" and g: "guided probe xs" and a: "probe a < 0"
  shows "loop_turns probe xs h0 h lt rt (Node (Node ll b lr) a r)"
proof -
  from assms(1) obtain L R where p: "parts h lt rt L (Node (Node ll b lr) a r) R"
    and xs: "lseq L @ inorder (Node (Node ll b lr) a r) @ rseq R = xs"
    and side: "\<forall>u\<in>set (lseq L). probe u > 0" "\<forall>v\<in>set (rseq R). probe v < 0" and ag: "agree xs h0 h" by (auto simp: loop_at_def)
  have at: "sph_root h = Some a" "spe_left h (Elm a) = Some b" using p by (simp_all add: parts_def)
  show ?thesis
  proof (cases "probe b < 0")
    case True
    from rotate_right [OF p] obtain h1 where
      h1: "SPLAY_ROTATE_RIGHT h b = Some h1" "parts h1 lt rt L (Node ll b (Node lr a r)) R" "agree xs h h1" unfolding xs by blast
    have r1: "sph_root h1 = Some b" "tree_at h1 (spe_left h1 (Elm b)) ll" using h1(2) by (simp_all add: parts_def)
    from link_left [OF h1(2)] obtain h2 where
      h2: "SPLAY_LINKLEFT h1 rt = Some (h2, Elm b)" "parts h2 lt (Elm b) L ll ((b, Node lr a r) # R)" "agree xs h1 h2" using xs by auto
    have run: "splay_loop probe h lt rt = (if ll = Leaf then Some (h1, lt, rt) else splay_loop probe h2 lt (Elm b))"
      using at a True h1(1) r1 h2(1) by (subst splay_loop.simps) (cases ll; simp)
    show ?thesis
    proof (cases "ll = Leaf")
      case leaf: True
      with loop_stops [OF h1(2) _ side, of h0] agree_trans [OF ag h1(3)] g xs True run show ?thesis by (simp add: loop_turns_def)
    next
      case False
      have "loop_at probe xs h0 h2 lt (Elm b) ll" unfolding loop_at_def
        using agree_trans [OF agree_trans [OF ag h1(3)] h2(3)] h2(2) xs side g True by (intro conjI exI [of _ L] exI [of _ "(b, Node lr a r) # R"]) (auto simp: guided_def sorted_wrt_append)
      with run False show ?thesis by (intro loop_goes) auto
    qed
  next
    case False
    from link_left [OF p] obtain h2 where
      h2: "SPLAY_LINKLEFT h rt = Some (h2, Elm a)" "parts h2 lt (Elm a) L (Node ll b lr) ((a, r) # R)" "agree xs h h2" unfolding xs by blast
    have "loop_at probe xs h0 h2 lt (Elm a) (Node ll b lr)" unfolding loop_at_def
      using agree_trans [OF ag h2(3)] h2(2) xs side g a by (intro conjI exI [of _ L] exI [of _ "(a, r) # R"]) (auto simp: guided_def sorted_wrt_append)
    moreover have "splay_loop probe h lt rt = splay_loop probe h2 lt (Elm a)"
      using at a False h2(1) by (subst splay_loop.simps) simp
    ultimately show ?thesis by (intro loop_goes) auto
  qed
qed

lemma loop_turns_right:
  assumes "loop_at probe xs h0 h lt rt (Node l a (Node rl b rr))" and g: "guided probe xs" and a: "probe a > 0"
  shows "loop_turns probe xs h0 h lt rt (Node l a (Node rl b rr))"
proof -
  from assms(1) obtain L R where p: "parts h lt rt L (Node l a (Node rl b rr)) R"
    and xs: "lseq L @ inorder (Node l a (Node rl b rr)) @ rseq R = xs"
    and side: "\<forall>u\<in>set (lseq L). probe u > 0" "\<forall>v\<in>set (rseq R). probe v < 0" and ag: "agree xs h0 h" by (auto simp: loop_at_def)
  have at: "sph_root h = Some a" "spe_right h (Elm a) = Some b" using p by (simp_all add: parts_def)
  show ?thesis
  proof (cases "probe b > 0")
    case True
    from rotate_left [OF p] obtain h1 where
      h1: "SPLAY_ROTATE_LEFT h b = Some h1" "parts h1 lt rt L (Node (Node l a rl) b rr) R" "agree xs h h1" unfolding xs by blast
    have r1: "sph_root h1 = Some b" "tree_at h1 (spe_right h1 (Elm b)) rr" using h1(2) by (simp_all add: parts_def)
    from link_right [OF h1(2)] obtain h2 where
      h2: "SPLAY_LINKRIGHT h1 lt = Some (h2, Elm b)" "parts h2 (Elm b) rt ((Node l a rl, b) # L) rr R" "agree xs h1 h2" using xs by auto
    have run: "splay_loop probe h lt rt = (if rr = Leaf then Some (h1, lt, rt) else splay_loop probe h2 (Elm b) rt)"
      using at a True h1(1) r1 h2(1) by (subst splay_loop.simps) (cases rr; simp)
    show ?thesis
    proof (cases "rr = Leaf")
      case leaf: True
      with loop_stops [OF h1(2) _ side, of h0] agree_trans [OF ag h1(3)] g xs True run show ?thesis by (simp add: loop_turns_def)
    next
      case False
      have "loop_at probe xs h0 h2 (Elm b) rt rr" unfolding loop_at_def
        using agree_trans [OF agree_trans [OF ag h1(3)] h2(3)] h2(2) xs side g True by (intro conjI exI [of _ "(Node l a rl, b) # L"] exI [of _ R]) (force simp: guided_def sorted_wrt_append)+
      with run False show ?thesis by (intro loop_goes) auto
    qed
  next
    case False
    from link_right [OF p] obtain h2 where
      h2: "SPLAY_LINKRIGHT h lt = Some (h2, Elm a)" "parts h2 (Elm a) rt ((l, a) # L) (Node rl b rr) R" "agree xs h h2" unfolding xs by blast
    have "loop_at probe xs h0 h2 (Elm a) rt (Node rl b rr)" unfolding loop_at_def
      using agree_trans [OF ag h2(3)] h2(2) xs side g a by (intro conjI exI [of _ "(l, a) # L"] exI [of _ R]) (force simp: guided_def sorted_wrt_append)+
    moreover have "splay_loop probe h lt rt = splay_loop probe h2 (Elm a) rt"
      using at a False h2(1) by (subst splay_loop.simps) simp
    ultimately show ?thesis by (intro loop_goes) auto
  qed
qed

lemma splay_loop_ok:
  assumes "loop_at probe xs h0 h lt rt t" and "t \<noteq> Leaf" and g: "guided probe xs"
  shows "loop_ends probe h0 (splay_loop probe h lt rt) xs"
  using assms(1,2)
proof (induction "size t" arbitrary: h lt rt t rule: less_induct)
  case less
  from less.prems(2) obtain l a r where t: "t = Node l a r" by (cases t) auto
  from less.prems(1) obtain L R where p: "parts h lt rt L (Node l a r) R" "lseq L @ inorder (Node l a r) @ rseq R = xs"
    "\<forall>u\<in>set (lseq L). probe u > 0" "\<forall>v\<in>set (rseq R). probe v < 0" "agree xs h0 h" by (auto simp: loop_at_def t)
  consider (stop) "probe a = 0 \<or> probe a < 0 \<and> l = Leaf \<or> probe a > 0 \<and> r = Leaf"
    | (lower) "probe a < 0" "l \<noteq> Leaf" | (upper) "probe a > 0" "r \<noteq> Leaf" by linarith
  then have "loop_turns probe xs h0 h lt rt t"
  proof cases
    case stop
    then have "splay_loop probe h lt rt = Some (h, lt, rt)" using p(1) by (subst splay_loop.simps) (auto simp: parts_def)
    with loop_stops [OF p(1) _ p(3,4) _ stop, of h0] g p(2,5) show ?thesis by (simp add: loop_turns_def)
  next
    case lower
    then obtain ll b lr where "l = Node ll b lr" by (cases l) auto
    with loop_turns_left less.prems(1) g lower t show ?thesis by blast
  next
    case upper
    then obtain rl b rr where "r = Node rl b rr" by (cases r) auto
    with loop_turns_right less.prems(1) g upper t show ?thesis by blast
  qed
  with less.hyps show ?case unfolding loop_turns_def by auto
qed

section \<open>Splaying\<close>

text \<open>\<open>splay_rep h xs\<close>: the tree of \<open>h\<close> has the elements \<open>xs\<close> in order. \<open>root_at h us x vs\<close>: moreover \<open>x\<close> is its root.\<close>

definition splay_rep :: "splay_head \<Rightarrow> addr list \<Rightarrow> bool" where
  "splay_rep h xs \<longleftrightarrow> (\<exists>t. tree_at h (sph_root h) t \<and> inorder t = xs) \<and> distinct xs"

definition root_at :: "splay_head \<Rightarrow> addr list \<Rightarrow> addr \<Rightarrow> addr list \<Rightarrow> bool" where
  "root_at h us x vs \<longleftrightarrow> (\<exists>l r. tree_at h (sph_root h) (Node l x r) \<and> inorder l = us \<and> inorder r = vs) \<and> distinct (us @ x # vs)"

lemma root_at_rep: "root_at h us x vs \<Longrightarrow> splay_rep h (us @ x # vs)"
  unfolding root_at_def splay_rep_def by (fastforce intro: exI [of _ "Node _ x _"])

lemma splay_rep_empty: "splay_rep h xs \<Longrightarrow> SPLAY_EMPTY h \<longleftrightarrow> xs = []"
proof -
  assume "splay_rep h xs"
  then obtain t where "tree_at h (sph_root h) t" "inorder t = xs" by (auto simp: splay_rep_def)
  then show ?thesis by (cases t) (auto simp: SPLAY_EMPTY_def)
qed

text \<open>\<open>splayed probe h us x vs\<close>: after splaying, all elements left of the root are below the sought one, and all right of it above.\<close>

definition splayed :: "(addr \<Rightarrow> int) \<Rightarrow> splay_head \<Rightarrow> addr list \<Rightarrow> addr \<Rightarrow> addr list \<Rightarrow> bool" where
  "splayed probe h us x vs \<longleftrightarrow> root_at h us x vs \<and> (\<forall>u\<in>set us. probe u > 0) \<and> (\<forall>v\<in>set vs. probe v < 0)"

lemma loop_start:
  assumes "tree_at h (sph_root h) t" and "distinct (inorder t)"
  shows "loop_at probe (inorder t) h (set_spe_left Local None (set_spe_right Local None h)) Local Local t"
  unfolding loop_at_def using assms by (intro conjI exI [of _ "[]"]) (auto simp: parts_def agree_def)

lemma loop_ends_assemble:
  assumes "loop_ends probe h0 res xs"
  shows "\<exists>h lt rt h' us x vs. res = Some (h, lt, rt) \<and> SPLAY_ASSEMBLE h lt rt = Some h' \<and> splayed probe h' us x vs \<and> us @ x # vs = xs \<and> agree xs h0 h'"
proof -
  from assms obtain h lt rt L l x r R where p: "res = Some (h, lt, rt)" "parts h lt rt L (Node l x r) R"
    "lseq L @ inorder (Node l x r) @ rseq R = xs" "\<forall>u\<in>set (lseq L @ inorder l). probe u > 0"
    "\<forall>v\<in>set (inorder r @ rseq R). probe v < 0" "agree xs h0 h" unfolding loop_ends_def by blast
  from assemble [OF p(2)] obtain h' where h': "SPLAY_ASSEMBLE h lt rt = Some h'" "tree_at h' (sph_root h') (Node (lbuild L l) x (rbuild R r))"
    "agree xs h h'" unfolding p(3) by blast
  have "distinct ((lseq L @ inorder l) @ x # inorder r @ rseq R)" using p(2) by (simp add: parts_def)
  then have "root_at h' (lseq L @ inorder l) x (inorder r @ rseq R)" unfolding root_at_def
    using h'(2) by (intro conjI exI [of _ "lbuild L l"] exI [of _ "rbuild R r"]) auto
  then have "splayed probe h' (lseq L @ inorder l) x (inorder r @ rseq R)" using p(4,5) by (simp add: splayed_def)
  with p(1,3) h'(1) agree_trans [OF p(6) h'(3)] show ?thesis by fastforce
qed

lemma SPLAY_rep:
  assumes "splay_rep h xs" and "xs \<noteq> []" and "guided probe xs"
  shows "\<exists>h' us x vs. SPLAY probe h = Some h' \<and> splayed probe h' us x vs \<and> us @ x # vs = xs \<and> agree xs h h'"
proof -
  from assms(1) obtain t where t: "tree_at h (sph_root h) t" "inorder t = xs" "distinct xs" by (auto simp: splay_rep_def)
  have "t \<noteq> Leaf" using t(2) assms(2) by auto
  from loop_ends_assemble [OF splay_loop_ok [OF loop_start [OF t(1)] this]] t assms(3) show ?thesis
    by (fastforce simp: SPLAY_def)
qed

text \<open>\<^verbatim>\<open>_SPLAY_MINMAX\<close> is \<^verbatim>\<open>_SPLAY\<close> with a constant comparison, unless that is 0: then its loop does not end.\<close>

lemma splay_minmax_loop_eq:
  assumes "splay_loop (\<lambda>_. c) h lt rt = Some y" and "c < 0 \<or> c > 0"
  shows "splay_minmax_loop c h lt rt = Some y"
proof -
  let ?P = "\<lambda>(probe :: addr \<Rightarrow> int) h lt rt y. probe = (\<lambda>_. c) \<longrightarrow> splay_minmax_loop c h lt rt = Some y"
  have "?P (\<lambda>_. c) h lt rt y"
  proof (rule splay_loop.raw_induct [where P = ?P, OF _ assms(1)], rule impI, goal_cases)
    case (1 f probe h lt rt y)
    note body = 1(2) [unfolded 1(3)]
    have IH: "f (\<lambda>_. c) h lt rt = Some y \<Longrightarrow> splay_minmax_loop c h lt rt = Some y" for h lt rt y
      using 1(1) [of "\<lambda>_. c" h lt rt] by (cases y) auto
    from body obtain root where root: "sph_root h = Some root" by (cases "sph_root h") auto
    from assms(2) show ?case
    proof
      assume c: "c < 0"
      show ?thesis
      proof (cases "spe_left h (Elm root)")
        case None
        with c root body show ?thesis by (subst splay_minmax_loop.simps) simp
      next
        case (Some tmp)
        with c root body obtain h1 root1 where h1: "SPLAY_ROTATE_RIGHT h tmp = Some h1" "sph_root h1 = Some root1"
          by (auto simp: bind_eq_Some_iff)
        with c root Some body show ?thesis
          by (subst splay_minmax_loop.simps) (cases "spe_left h1 (Elm root1)"; auto simp: bind_eq_Some_iff intro: IH)
      qed
    next
      assume c: "c > 0"
      show ?thesis
      proof (cases "spe_right h (Elm root)")
        case None
        with c root body show ?thesis by (subst splay_minmax_loop.simps) simp
      next
        case (Some tmp)
        with c root body obtain h1 root1 where h1: "SPLAY_ROTATE_LEFT h tmp = Some h1" "sph_root h1 = Some root1"
          by (auto simp: bind_eq_Some_iff)
        with c root Some body show ?thesis
          by (subst splay_minmax_loop.simps) (cases "spe_right h1 (Elm root1)"; auto simp: bind_eq_Some_iff intro: IH)
      qed
    qed
  qed
  then show ?thesis by simp
qed

lemma SPLAY_MINMAX_rep:
  assumes "splay_rep h xs" and "xs \<noteq> []" and "c < 0 \<or> c > 0"
  shows "\<exists>h' us x vs. SPLAY_MINMAX c h = Some h' \<and> splayed (\<lambda>_. c) h' us x vs \<and> us @ x # vs = xs"
proof -
  have g: "guided (\<lambda>_. c) xs" using assms(3) by (auto simp: guided_def intro: sorted_wrt_mono_rel [of _ "\<lambda>_ _. True"])
  from SPLAY_rep [OF assms(1,2) g] obtain h' us x vs where h': "SPLAY (\<lambda>_. c) h = Some h'" "splayed (\<lambda>_. c) h' us x vs" "us @ x # vs = xs" by blast
  then have "SPLAY_MINMAX c h = Some h'" using splay_minmax_loop_eq [of c] assms(3)
    by (auto simp: SPLAY_def SPLAY_MINMAX_def bind_eq_Some_iff Let_def)
  with h' show ?thesis by blast
qed

section \<open>The operations\<close>

text \<open>What splaying says of the sequence.\<close>

lemma splayed_seq:
  assumes "splayed probe h us x vs"
  shows "List.find (\<lambda>y. probe y = 0) (us @ x # vs) = (if probe x = 0 then Some x else None)"
    "[y \<leftarrow> us @ x # vs. probe y > 0] = us @ (if probe x > 0 then [x] else [])"
    "[y \<leftarrow> us @ x # vs. probe y < 0] = (if probe x < 0 then [x] else []) @ vs"
    "[y \<leftarrow> us @ x # vs. probe y \<noteq> 0] = us @ (if probe x = 0 then [] else [x]) @ vs"
proof -
  have u: "\<forall>y\<in>set us. probe y > 0" "\<forall>y\<in>set vs. probe y < 0" using assms by (auto simp: splayed_def)
  then have "List.find (\<lambda>y. probe y = 0) (us @ zs) = List.find (\<lambda>y. probe y = 0) zs" for zs by (induction us) auto
  moreover have "List.find (\<lambda>y. probe y = 0) vs = None" using u(2) by (auto simp: find_None_iff)
  ultimately show "List.find (\<lambda>y. probe y = 0) (us @ x # vs) = (if probe x = 0 then Some x else None)" by simp
  have "filter (\<lambda>y. probe y > 0) us = us" "filter (\<lambda>y. probe y > 0) vs = []" "filter (\<lambda>y. probe y < 0) us = []"
    "filter (\<lambda>y. probe y < 0) vs = vs" "filter (\<lambda>y. probe y \<noteq> 0) us = us" "filter (\<lambda>y. probe y \<noteq> 0) vs = vs"
    using u by (auto simp: filter_id_conv filter_empty_conv)
  then show "[y \<leftarrow> us @ x # vs. probe y > 0] = us @ (if probe x > 0 then [x] else [])"
    "[y \<leftarrow> us @ x # vs. probe y < 0] = (if probe x < 0 then [x] else []) @ vs"
    "[y \<leftarrow> us @ x # vs. probe y \<noteq> 0] = us @ (if probe x = 0 then [] else [x]) @ vs" by simp_all
qed

lemma splayed_root: "splayed probe h us x vs \<Longrightarrow> sph_root h = Some x" "splayed probe h us x vs \<Longrightarrow> splay_rep h (us @ x # vs)"
  by (auto simp: splayed_def root_at_rep) (auto simp: root_at_def)

lemma SPLAY_FIND_rep:
  assumes "splay_rep h xs" and "guided (cmp a) xs"
  shows "\<exists>h'. SPLAY_FIND cmp h a = Some (List.find (\<lambda>x. cmp a x = 0) xs, h') \<and> splay_rep h' xs"
proof (cases "xs = []")
  case True
  with assms(1) show ?thesis by (simp add: SPLAY_FIND_def splay_rep_empty)
next
  case False
  from SPLAY_rep [OF assms(1) False assms(2)] obtain h' us x vs where
    h': "SPLAY (cmp a) h = Some h'" "splayed (cmp a) h' us x vs" "us @ x # vs = xs" by blast
  then show ?thesis using splayed_seq(1) [OF h'(2)] splayed_root [OF h'(2)] False splay_rep_empty [OF assms(1)]
    by (auto simp: SPLAY_FIND_def)
qed

lemma SPLAY_INSERT_rep:
  assumes "splay_rep h xs" and "guided (cmp a) xs" and "a \<notin> set xs"
  shows "\<exists>h'. SPLAY_INSERT cmp h a = Some (List.find (\<lambda>x. cmp a x = 0) xs, h') \<and>
    splay_rep h' (if List.find (\<lambda>x. cmp a x = 0) xs = None then [x \<leftarrow> xs. cmp a x > 0] @ a # [x \<leftarrow> xs. cmp a x < 0] else xs)"
proof (cases "xs = []")
  case True
  let ?h = "(set_spe_left (Elm a) None (set_spe_right (Elm a) None h))\<lparr>sph_root := Some a\<rparr>"
  have "splay_rep ?h [a]" unfolding splay_rep_def by (intro conjI exI [of _ "Node Leaf a Leaf"]) auto
  then show ?thesis using True splay_rep_empty [OF assms(1)] by (simp add: SPLAY_INSERT_def)
next
  case False
  from SPLAY_rep [OF assms(1) False assms(2)] obtain h1 us x vs where
    h1: "SPLAY (cmp a) h = Some h1" "splayed (cmp a) h1 us x vs" "us @ x # vs = xs" by blast
  then obtain l r where lr: "tree_at h1 (sph_root h1) (Node l x r)" "inorder l = us" "inorder r = vs" "distinct (us @ x # vs)"
    by (auto simp: splayed_def root_at_def)
  note q = splayed_seq [OF h1(2), unfolded h1(3)]
  have a: "a \<noteq> x" "a \<notin> set (inorder l)" "a \<notin> set (inorder r)" using assms(3) h1(3) lr by auto
  have x: "x \<notin> set (inorder l)" "x \<notin> set (inorder r)" using lr by auto
  consider (less) "cmp a x < 0" | (greater) "cmp a x > 0" | (equal) "cmp a x = 0" by linarith
  then show ?thesis
  proof cases
    case less
    let ?h = "(set_spe_left (Elm x) None (set_spe_right (Elm a) (Some x) (set_spe_left (Elm a) (spe_left h1 (Elm x)) h1)))\<lparr>sph_root := Some a\<rparr>"
    have "SPLAY_INSERT cmp h a = Some (None, ?h)"
      using h1(1) less False splay_rep_empty [OF assms(1)] splayed_root [OF h1(2)] by (simp add: SPLAY_INSERT_def Let_def)
    moreover have "tree_at ?h (sph_root ?h) (Node l a (Node Leaf x r))" using lr(1) a x by (simp del: set_inorder)
    then have "splay_rep ?h (us @ a # x # vs)" unfolding splay_rep_def
      using lr a by (intro conjI exI [of _ "Node l a (Node Leaf x r)"]) auto
    ultimately show ?thesis using q less by simp
  next
    case greater
    let ?h = "(set_spe_right (Elm x) None (set_spe_left (Elm a) (Some x) (set_spe_right (Elm a) (spe_right h1 (Elm x)) h1)))\<lparr>sph_root := Some a\<rparr>"
    have "SPLAY_INSERT cmp h a = Some (None, ?h)"
      using h1(1) greater False splay_rep_empty [OF assms(1)] splayed_root [OF h1(2)] by (simp add: SPLAY_INSERT_def Let_def)
    moreover have "tree_at ?h (sph_root ?h) (Node (Node l x Leaf) a r)" using lr(1) a x by (simp del: set_inorder)
    then have "splay_rep ?h (us @ x # a # vs)" unfolding splay_rep_def
      using lr a by (intro conjI exI [of _ "Node (Node l x Leaf) a r"]) auto
    ultimately show ?thesis using q greater by simp
  next
    case equal
    then show ?thesis using h1 q splayed_root [OF h1(2)] False splay_rep_empty [OF assms(1)] by (simp add: SPLAY_INSERT_def)
  qed
qed

text \<open>Joining two trees of which all elements of the first are below the sought one: its largest element becomes the root.\<close>

lemma splay_join:
  assumes "tree_at h (sph_root h) l" and "l \<noteq> Leaf" and "tree_at h p r" and "distinct (inorder l @ inorder r)"
    and "\<forall>u\<in>set (inorder l). probe u > 0"
  shows "\<exists>h' y. SPLAY probe h = Some h' \<and> sph_root h' = Some y \<and> splay_rep (set_spe_right (Elm y) p h') (inorder l @ inorder r)"
proof -
  have "splay_rep h (inorder l)" using assms(1,4) by (auto simp: splay_rep_def)
  moreover have "inorder l \<noteq> []" using assms(2) by (cases l) auto
  moreover have "guided probe (inorder l)" unfolding guided_def
    by (rule sorted_wrt_mono_rel [of _ "\<lambda>_ _. True"]) (use assms(5) in \<open>auto simp: sorted_wrt_iff_nth_less\<close>)
  ultimately obtain h' us y vs where h': "SPLAY probe h = Some h'" "splayed probe h' us y vs" "us @ y # vs = inorder l" "agree (inorder l) h h'"
    using SPLAY_rep by blast
  have "vs = []"
  proof (cases vs)
    case (Cons v ws)
    then have "v \<in> set (inorder l)" "v \<in> set vs" unfolding h'(3) [symmetric] by simp_all
    then have "probe v > 0" "probe v < 0" using assms(5) h'(2) by (auto simp: splayed_def simp del: set_inorder)
    then show ?thesis by simp
  qed
  then obtain ll where t: "tree_at h' (sph_root h') (Node ll y Leaf)" "inorder ll = us"
    using h'(2) by (force simp: splayed_def root_at_def)
  let ?h = "set_spe_right (Elm y) p h'"
  have y: "y \<in> set (inorder l)" "y \<notin> set (inorder ll)" using h'(3) t(2) assms(4) \<open>vs = []\<close>
    by (metis in_set_conv_decomp) (metis assms(4) distinct_append h'(3) not_distinct_conv_prefix t(2))
  have "tree_at h' p r" using agree_tree [OF h'(4), of r p] assms(3,4) by auto
  then have "tree_at ?h p r" using y(1) assms(4) by (subst tree_at_upd) auto
  then have "tree_at ?h (sph_root ?h) (Node ll y r)" using t(1) y(2) by (simp del: set_inorder)
  moreover have "inorder (Node ll y r) = inorder l @ inorder r" using t(2) h'(3) \<open>vs = []\<close> by simp
  ultimately have "splay_rep ?h (inorder l @ inorder r)" unfolding splay_rep_def using assms(4) by blast
  with h'(1) t(1) show ?thesis by auto
qed

lemma SPLAY_REMOVE_rep:
  assumes "splay_rep h xs" and "guided (cmp a) xs"
  shows "\<exists>h'. SPLAY_REMOVE cmp h a = Some (if \<exists>x\<in>set xs. cmp a x = 0 then Some a else None, h') \<and> splay_rep h' [x \<leftarrow> xs. cmp a x \<noteq> 0]"
proof (cases "xs = []")
  case True
  with assms(1) show ?thesis by (simp add: SPLAY_REMOVE_def splay_rep_empty)
next
  case False
  from SPLAY_rep [OF assms(1) False assms(2)] obtain h1 us x vs where
    h1: "SPLAY (cmp a) h = Some h1" "splayed (cmp a) h1 us x vs" "us @ x # vs = xs" by blast
  then obtain l r where lr: "tree_at h1 (sph_root h1) (Node l x r)" "inorder l = us" "inorder r = vs" "distinct (us @ x # vs)"
    by (auto simp: splayed_def root_at_def)
  have sides: "\<forall>u\<in>set (inorder l). cmp a u > 0" "\<forall>v\<in>set vs. cmp a v < 0" using h1(2) lr(2) by (auto simp: splayed_def)
  have ex: "(\<exists>x\<in>set xs. cmp a x = 0) \<longleftrightarrow> cmp a x = 0" using sides lr(2) unfolding h1(3) [symmetric] by force
  have seq: "[x \<leftarrow> xs. cmp a x \<noteq> 0] = us @ (if cmp a x = 0 then [] else [x]) @ vs" using splayed_seq(4) [OF h1(2)] h1(3) by simp
  have run: "SPLAY_REMOVE cmp h a = do {
      if cmp a x = 0 then
        (if l = Leaf then Some (Some a, h1\<lparr>sph_root := spe_right h1 (Elm x)\<rparr>)
         else do {
           h2 \<leftarrow> SPLAY (cmp a) (h1\<lparr>sph_root := spe_left h1 (Elm x)\<rparr>);
           root \<leftarrow> sph_root h2;
           Some (Some a, set_spe_right (Elm root) (spe_right h1 (Elm x)) h2)
         })
      else Some (None, h1) }"
    using h1(1) False splay_rep_empty [OF assms(1)] lr(1) by (cases l) (auto simp: SPLAY_REMOVE_def)
  show ?thesis
  proof (cases "cmp a x = 0")
    case False
    then show ?thesis using run ex seq splayed_root [OF h1(2)] by simp
  next
    case True
    show ?thesis
    proof (cases "l = Leaf")
      case leaf: True
      have "splay_rep (h1\<lparr>sph_root := spe_right h1 (Elm x)\<rparr>) vs" unfolding splay_rep_def using lr by (intro conjI exI [of _ r]) auto
      with leaf True run ex seq lr(2) show ?thesis by simp
    next
      case node: False
      let ?h = "h1\<lparr>sph_root := spe_left h1 (Elm x)\<rparr>"
      from splay_join [of ?h l "spe_right h1 (Elm x)" r "cmp a"] lr sides(1) node obtain h2 y where
        "SPLAY (cmp a) ?h = Some h2" "sph_root h2 = Some y" "splay_rep (set_spe_right (Elm y) (spe_right h1 (Elm x)) h2) (us @ vs)" by auto
      with node True run ex seq show ?thesis by simp
    qed
  qed
qed

section \<open>Iteration\<close>

lemma splay_leftmost_tree: "tree_at h (Some a) t \<Longrightarrow> splay_leftmost h a = Some (hd (inorder t))"
proof (induction t arbitrary: a)
  case (Node l x r)
  show ?case
  proof (cases l)
    case Leaf
    then show ?thesis using Node.prems by (subst splay_leftmost.simps) simp
  next
    case (Node ll b lr)
    then have "splay_leftmost h b = Some (hd (inorder l))" using Node.IH(1) [of b] Node.prems by simp
    moreover have "inorder l \<noteq> []" using Node by simp
    ultimately show ?thesis using Node Node.prems by (subst splay_leftmost.simps) (simp add: hd_append)
  qed
qed simp

lemma SPLAY_NEXT_rep:
  assumes "splay_rep h (us @ a # vs)" and "guided (cmp a) (us @ a # vs)" and "cmp a a = 0"
  shows "\<exists>h'. SPLAY_NEXT cmp h a = Some (if vs = [] then None else Some (hd vs), h') \<and> splay_rep h' (us @ a # vs)"
proof -
  from SPLAY_rep [OF assms(1) _ assms(2)] obtain h' us' x vs' where
    h': "SPLAY (cmp a) h = Some h'" "splayed (cmp a) h' us' x vs'" "us' @ x # vs' = us @ a # vs" by blast
  have "a \<in> set (us' @ x # vs')" unfolding h'(3) by simp
  then have "a = x" using h'(2) assms(3) by (auto simp: splayed_def)
  moreover have "distinct (us @ a # vs)" using assms(1) by (simp add: splay_rep_def)
  ultimately have e: "us' = us" "x = a" "vs' = vs" using h'(3) append_Cons_eq_iff [of a us vs us' vs'] by auto
  from h'(2) obtain l r where lr: "tree_at h' (sph_root h') (Node l a r)" "inorder r = vs" by (auto simp: splayed_def root_at_def e)
  show ?thesis
  proof (cases r)
    case Leaf
    then show ?thesis using h'(1) lr splayed_root(2) [OF h'(2)] e by (auto simp: SPLAY_NEXT_def)
  next
    case (Node rl b rr)
    then have "splay_leftmost h' b = Some (hd vs)" "vs \<noteq> []" using splay_leftmost_tree [of h' b r] lr by auto
    then show ?thesis using Node h'(1) lr splayed_root(2) [OF h'(2)] e by (auto simp: SPLAY_NEXT_def)
  qed
qed

lemma SPLAY_MIN_rep:
  assumes "splay_rep h xs"
  shows "\<exists>h'. SPLAY_MIN h = Some (if xs = [] then None else Some (hd xs), h') \<and> splay_rep h' xs"
proof (cases "xs = []")
  case False
  from SPLAY_MINMAX_rep [OF assms False, of "- 1"] obtain h' us x vs where
    h': "SPLAY_MINMAX (- 1) h = Some h'" "splayed (\<lambda>_. - 1) h' us x vs" "us @ x # vs = xs" by auto
  moreover have "us = []" using h'(2) by (cases us) (auto simp: splayed_def)
  ultimately show ?thesis using False splay_rep_empty [OF assms] splayed_root [OF h'(2)]
    by (auto simp: SPLAY_MIN_def SPLAY_MIN_MAX_def)
qed (use assms in \<open>simp add: SPLAY_MIN_def splay_rep_empty\<close>)

lemma SPLAY_MAX_rep:
  assumes "splay_rep h xs"
  shows "\<exists>h'. SPLAY_MAX h = Some (if xs = [] then None else Some (last xs), h') \<and> splay_rep h' xs"
proof (cases "xs = []")
  case False
  from SPLAY_MINMAX_rep [OF assms False, of 1] obtain h' us x vs where
    h': "SPLAY_MINMAX 1 h = Some h'" "splayed (\<lambda>_. 1) h' us x vs" "us @ x # vs = xs" by auto
  moreover have "vs = []" using h'(2) by (cases vs) (auto simp: splayed_def)
  ultimately show ?thesis using False splay_rep_empty [OF assms] splayed_root [OF h'(2)]
    by (auto simp: SPLAY_MAX_def SPLAY_MIN_MAX_def)
qed (use assms in \<open>simp add: SPLAY_MAX_def splay_rep_empty\<close>)

section \<open>Ordered by a key\<close>

text \<open>A comparison function that orders by a key, and a tree whose elements are in the order of their keys.\<close>

definition compares :: "(addr \<Rightarrow> 'k :: linorder) \<Rightarrow> (addr \<Rightarrow> addr \<Rightarrow> int) \<Rightarrow> bool" where
  "compares key cmp \<longleftrightarrow> (\<forall>a b. (cmp a b < 0 \<longleftrightarrow> key a < key b) \<and> (cmp a b = 0 \<longleftrightarrow> key a = key b))"

definition key_sorted :: "(addr \<Rightarrow> 'k :: linorder) \<Rightarrow> addr list \<Rightarrow> bool" where
  "key_sorted key = sorted_wrt (\<lambda>x y. key x < key y)"

lemma comparesD:
  assumes "compares key cmp"
  shows "cmp a b < 0 \<longleftrightarrow> key a < key b" "cmp a b = 0 \<longleftrightarrow> key a = key b" "cmp a b > 0 \<longleftrightarrow> key b < key a"
  using assms by (auto simp: compares_def) (metis linorder_less_linear not_less_iff_gr_or_eq)+

lemma key_sorted_guided: "compares key cmp \<Longrightarrow> key_sorted key xs \<Longrightarrow> guided (cmp a) xs"
  unfolding key_sorted_def guided_def
  by (rule sorted_wrt_mono_rel [of _ "\<lambda>x y. key x < key y"]) (auto simp: comparesD not_less [symmetric])

lemma splay_foreach_rep:
  assumes "splay_rep h (us @ vs)" and "compares key cmp" and "key_sorted key (us @ vs)"
  shows "\<exists>h'. splay_foreach_loop cmp (if vs = [] then None else Some (hd vs)) h = Some (vs, h') \<and> splay_rep h' (us @ vs)"
  using assms(1,3)
proof (induction vs arbitrary: us h)
  case Nil
  then show ?case by (simp add: splay_foreach_loop.simps)
next
  case (Cons a vs)
  have "cmp a a = 0" using assms(2) by (simp add: comparesD)
  from SPLAY_NEXT_rep [where cmp = cmp, OF Cons.prems(1) key_sorted_guided [OF assms(2) Cons.prems(2)] this] obtain h1 where
    h1: "SPLAY_NEXT cmp h a = Some (if vs = [] then None else Some (hd vs), h1)" "splay_rep h1 (us @ a # vs)" by blast
  from Cons.IH [of h1 "us @ [a]"] h1(2) Cons.prems(2) obtain h' where
    "splay_foreach_loop cmp (if vs = [] then None else Some (hd vs)) h1 = Some (vs, h')" "splay_rep h' (us @ a # vs)" by auto
  with h1(1) show ?case by (subst splay_foreach_loop.simps) auto
qed

section \<open>Properties\<close>

text \<open>A tree of the elements 1, 2 and 5, with 5 at the root, ordered by their addresses.\<close>

definition splay3 :: splay_head where
  "splay3 = \<lparr>sph_root = Some 5, spe_left = (\<lambda>_. None)(Elm 5 := Some 2, Elm 2 := Some 1), spe_right = (\<lambda>_. None)\<rparr>"

definition by_address :: "addr \<Rightarrow> addr \<Rightarrow> int" where
  "by_address a b = int a - int b"

lemma splay3_rep: "splay_rep splay3 [1, 2, 5]" "compares (\<lambda>a. a) by_address" "key_sorted (\<lambda>a. a) [1, 2, 5 :: addr]"
proof -
  have "tree_at splay3 (sph_root splay3) (Node (Node (Node Leaf 1 Leaf) 2 Leaf) 5 Leaf)" by (simp add: splay3_def)
  then show "splay_rep splay3 [1, 2, 5]" unfolding splay_rep_def
    by (intro conjI exI [of _ "Node (Node (Node Leaf 1 Leaf) 2 Leaf) 5 Leaf"]) simp_all
  show "compares (\<lambda>a. a) by_address" by (auto simp: compares_def by_address_def)
  show "key_sorted (\<lambda>a. a) [1, 2, 5 :: addr]" by (simp add: key_sorted_def)
qed

text \<open>C29: The splay tree is an ordered set of keys. On a tree whose elements are in the order of their keys, \<^verbatim>\<open>SPLAY_INSERT\<close> of an element with a
  new key puts it at its place and returns \<^verbatim>\<open>NULL\<close>; with a key that is there it returns the element that has it and changes no
  order. The result is again in the order of the keys.\<close>

theorem splay_insert_refines:
  assumes "splay_rep h xs" and "compares key cmp" and "key_sorted key xs" and "a \<notin> set xs"
  shows "\<exists>p h'. SPLAY_INSERT cmp h a = Some (p, h') \<and>
    (if key a \<in> key ` set xs then (\<exists>x\<in>set xs. p = Some x \<and> key x = key a) \<and> splay_rep h' xs
     else p = None \<and> splay_rep h' ([x \<leftarrow> xs. key x < key a] @ a # [x \<leftarrow> xs. key a < key x]) \<and>
       key_sorted key ([x \<leftarrow> xs. key x < key a] @ a # [x \<leftarrow> xs. key a < key x]))"
proof -
  let ?f = "List.find (\<lambda>x. cmp a x = 0) xs"
  have e: "[x \<leftarrow> xs. cmp a x > 0] = [x \<leftarrow> xs. key x < key a]" "[x \<leftarrow> xs. cmp a x < 0] = [x \<leftarrow> xs. key a < key x]"
    by (simp_all add: comparesD [OF assms(2)])
  from SPLAY_INSERT_rep [where cmp = cmp and a = a, OF assms(1) key_sorted_guided [OF assms(2,3)] assms(4)] obtain h' where
    h': "SPLAY_INSERT cmp h a = Some (?f, h')"
      "splay_rep h' (if ?f = None then [x \<leftarrow> xs. key x < key a] @ a # [x \<leftarrow> xs. key a < key x] else xs)"
    unfolding e by blast
  have f: "?f = None \<longleftrightarrow> key a \<notin> key ` set xs" "\<And>x. ?f = Some x \<Longrightarrow> x \<in> set xs \<and> key x = key a"
    by (auto simp: find_None_iff find_Some_iff comparesD [OF assms(2)])
  have "key_sorted key ([x \<leftarrow> xs. key x < key a] @ a # [x \<leftarrow> xs. key a < key x])"
    using assms(3) by (auto simp: key_sorted_def sorted_wrt_append intro!: sorted_wrt_filter)
  with h' f show ?thesis by (cases ?f) auto
qed

theorem splay_insert_refines_witness:
  "\<exists>h'. SPLAY_INSERT by_address splay3 4 = Some (None, h') \<and> splay_rep h' [1, 2, 4, 5]"
  using splay_insert_refines [OF splay3_rep, of 4] by auto

text \<open>\<^verbatim>\<open>SPLAY_REMOVE\<close> takes out the element with the key of its argument, if there is one, and keeps the order of the others; \<^verbatim>\<open>SPLAY_FIND\<close> finds
  exactly the elements of the tree and keeps all of them.\<close>

theorem splay_remove_find_refine:
  assumes "splay_rep h xs" and "compares key cmp" and "key_sorted key xs"
  shows "(\<exists>h'. SPLAY_REMOVE cmp h a = Some (if key a \<in> key ` set xs then Some a else None, h') \<and>
      splay_rep h' [x \<leftarrow> xs. key x \<noteq> key a] \<and> key_sorted key [x \<leftarrow> xs. key x \<noteq> key a]) \<and>
    (\<exists>p h'. SPLAY_FIND cmp h a = Some (p, h') \<and> splay_rep h' xs \<and> (\<forall>x. p = Some x \<longleftrightarrow> x \<in> set xs \<and> key x = key a))"
proof (rule conjI)
  note g = key_sorted_guided [OF assms(2,3)]
  have "key_sorted key [x \<leftarrow> xs. key x \<noteq> key a]" using assms(3) by (auto simp: key_sorted_def intro: sorted_wrt_filter)
  moreover have "(\<exists>x\<in>set xs. cmp a x = 0) \<longleftrightarrow> key a \<in> key ` set xs" by (auto simp: comparesD [OF assms(2)])
  moreover have "[x \<leftarrow> xs. cmp a x \<noteq> 0] = [x \<leftarrow> xs. key x \<noteq> key a]" by (auto simp: comparesD [OF assms(2)] intro: filter_cong)
  ultimately show "\<exists>h'. SPLAY_REMOVE cmp h a = Some (if key a \<in> key ` set xs then Some a else None, h') \<and>
      splay_rep h' [x \<leftarrow> xs. key x \<noteq> key a] \<and> key_sorted key [x \<leftarrow> xs. key x \<noteq> key a]"
    using SPLAY_REMOVE_rep [where cmp = cmp and a = a, OF assms(1) g] by simp
  have inj: "x = y" if "x \<in> set xs" "y \<in> set xs" "key x = key y" for x y
    using assms(3) that unfolding key_sorted_def sorted_wrt_iff_nth_less by (metis in_set_conv_nth linorder_less_linear order_less_irrefl)
  have "List.find (\<lambda>x. cmp a x = 0) xs = Some x \<longleftrightarrow> x \<in> set xs \<and> key x = key a" for x
    by (cases "List.find (\<lambda>x. cmp a x = 0) xs")
      (auto simp: find_None_iff comparesD [OF assms(2)] intro: inj dest!: find_Some_iff [THEN iffD1])
  with SPLAY_FIND_rep [where cmp = cmp and a = a, OF assms(1) g] show "\<exists>p h'. SPLAY_FIND cmp h a = Some (p, h') \<and> splay_rep h' xs \<and>
      (\<forall>x. p = Some x \<longleftrightarrow> x \<in> set xs \<and> key x = key a)" by blast
qed

theorem splay_remove_find_refine_witness:
  "(\<exists>h'. SPLAY_REMOVE by_address splay3 2 = Some (Some 2, h') \<and> splay_rep h' [1, 5]) \<and>
    (\<exists>h'. SPLAY_FIND by_address splay3 2 = Some (Some 2, h') \<and> splay_rep h' [1, 2, 5])"
  using splay_remove_find_refine [OF splay3_rep, of 2] by auto

text \<open>\<^verbatim>\<open>SPLAY_FOREACH\<close> visits every element once, in the order of the keys, although every step changes the shape of the tree; \<^verbatim>\<open>SPLAY_MIN\<close> and
  \<^verbatim>\<open>SPLAY_MAX\<close> return the first and the last.\<close>

theorem splay_iterates_in_order:
  assumes "splay_rep h xs" and "compares key cmp" and "key_sorted key xs"
  shows "(\<exists>h'. SPLAY_FOREACH cmp h = Some (xs, h') \<and> splay_rep h' xs) \<and>
    (xs \<noteq> [] \<longrightarrow> (\<exists>h'. SPLAY_MIN h = Some (Some (hd xs), h') \<and> splay_rep h' xs) \<and>
      (\<exists>h'. SPLAY_MAX h = Some (Some (last xs), h') \<and> splay_rep h' xs))"
proof -
  from SPLAY_MIN_rep [OF assms(1)] obtain h1 where
    h1: "SPLAY_MIN h = Some (if xs = [] then None else Some (hd xs), h1)" "splay_rep h1 xs" by blast
  with splay_foreach_rep [of h1 "[]" xs key cmp] assms(2,3) have "\<exists>h'. SPLAY_FOREACH cmp h = Some (xs, h') \<and> splay_rep h' xs"
    by (auto simp: SPLAY_FOREACH_def)
  with h1 SPLAY_MAX_rep [OF assms(1)] show ?thesis by auto
qed

theorem splay_iterates_in_order_witness:
  "(\<exists>h'. SPLAY_FOREACH by_address splay3 = Some ([1, 2, 5], h') \<and> splay_rep h' [1, 2, 5]) \<and>
    (\<exists>h'. SPLAY_MIN splay3 = Some (Some 1, h')) \<and> (\<exists>h'. SPLAY_MAX splay3 = Some (Some 5, h'))"
  using splay_iterates_in_order [OF splay3_rep] by auto

end
