(* ===== verification/RB_Tree.thy ===== *)
theory RB_Tree
  imports Yamux_Prelude
begin

text \<open>
  The red-black trees of \<^verbatim>\<open>tree.h\<close> (the \<^verbatim>\<open>RB_\<close> macros) at pointer level: nodes with
  left, right and parent links and a colour, and a root pointer. Each macro and each
  generated function is translated statement by statement, with every dereference of
  \<^verbatim>\<open>NULL\<close> a failure. \<^verbatim>\<open>RB_AUGMENT\<close> is empty in this program and is left out.
\<close>

section \<open>Nodes, field access, field update\<close>

datatype rb_color = RB_BLACK | RB_RED

record rb_entry =
  rbe_left :: ptr
  rbe_right :: ptr
  rbe_parent :: ptr
  rbe_color :: rb_color

record rb_head =
  rbh_root :: ptr
  rbe :: "addr \<Rightarrow> rb_entry"

definition RB_INIT :: "rb_head \<Rightarrow> rb_head" where
  "RB_INIT h = h\<lparr>rbh_root := None\<rparr>"

definition RB_LEFT :: "rb_head \<Rightarrow> ptr \<Rightarrow> ptr option" where
  "RB_LEFT h p = map_option (\<lambda>a. rbe_left (rbe h a)) p"

definition RB_RIGHT :: "rb_head \<Rightarrow> ptr \<Rightarrow> ptr option" where
  "RB_RIGHT h p = map_option (\<lambda>a. rbe_right (rbe h a)) p"

definition RB_PARENT :: "rb_head \<Rightarrow> ptr \<Rightarrow> ptr option" where
  "RB_PARENT h p = map_option (\<lambda>a. rbe_parent (rbe h a)) p"

definition RB_COLOR :: "rb_head \<Rightarrow> ptr \<Rightarrow> rb_color option" where
  "RB_COLOR h p = map_option (\<lambda>a. rbe_color (rbe h a)) p"

definition upd_entry :: "(rb_entry \<Rightarrow> rb_entry) \<Rightarrow> rb_head \<Rightarrow> ptr \<Rightarrow> rb_head option" where
  "upd_entry f h p = map_option (\<lambda>a. h\<lparr>rbe := (rbe h)(a := f (rbe h a))\<rparr>) p"

definition set_left :: "rb_head \<Rightarrow> ptr \<Rightarrow> ptr \<Rightarrow> rb_head option" where
  "set_left h p v = upd_entry (rbe_left_update (\<lambda>_. v)) h p"

definition set_right :: "rb_head \<Rightarrow> ptr \<Rightarrow> ptr \<Rightarrow> rb_head option" where
  "set_right h p v = upd_entry (rbe_right_update (\<lambda>_. v)) h p"

definition set_parent :: "rb_head \<Rightarrow> ptr \<Rightarrow> ptr \<Rightarrow> rb_head option" where
  "set_parent h p v = upd_entry (rbe_parent_update (\<lambda>_. v)) h p"

definition set_color :: "rb_head \<Rightarrow> ptr \<Rightarrow> rb_color \<Rightarrow> rb_head option" where
  "set_color h p v = upd_entry (rbe_color_update (\<lambda>_. v)) h p"

text \<open>The guards \<^verbatim>\<open>p && RB_COLOR(p) == RB_RED\<close> and \<^verbatim>\<open>p == NULL || RB_COLOR(p) == RB_BLACK\<close>.\<close>

definition is_red :: "rb_head \<Rightarrow> ptr \<Rightarrow> bool" where
  "is_red h p \<longleftrightarrow> p \<noteq> None \<and> RB_COLOR h p = Some RB_RED"

section \<open>The macros\<close>

definition RB_SET :: "rb_head \<Rightarrow> ptr \<Rightarrow> ptr \<Rightarrow> rb_head option" where
  "RB_SET h elm parent = do {
     h \<leftarrow> set_parent h elm parent;
     h \<leftarrow> set_right h elm None;
     h \<leftarrow> set_left h elm None;
     set_color h elm RB_RED
   }"

definition RB_SET_BLACKRED :: "rb_head \<Rightarrow> ptr \<Rightarrow> ptr \<Rightarrow> rb_head option" where
  "RB_SET_BLACKRED h black red = do { h \<leftarrow> set_color h black RB_BLACK; set_color h red RB_RED }"

text \<open>The pointer that refers to \<open>elm\<close>, in its parent \<open>p\<close> or in the head, is made \<open>v\<close>.\<close>

definition replace_child :: "rb_head \<Rightarrow> ptr \<Rightarrow> ptr \<Rightarrow> ptr \<Rightarrow> rb_head option" where
  "replace_child h p elm v =
     (if p \<noteq> None then do {
        l \<leftarrow> RB_LEFT h p;
        if l = elm then set_left h p v else set_right h p v
      }
      else Some (h\<lparr>rbh_root := v\<rparr>))"

definition RB_ROTATE_LEFT :: "rb_head \<Rightarrow> ptr \<Rightarrow> rb_head option" where
  "RB_ROTATE_LEFT h elm = do {
     tmp \<leftarrow> RB_RIGHT h elm;
     l \<leftarrow> RB_LEFT h tmp;
     h \<leftarrow> set_right h elm l;
     h \<leftarrow> (if l \<noteq> None then set_parent h l elm else Some h);
     p \<leftarrow> RB_PARENT h elm;
     h \<leftarrow> set_parent h tmp p;
     h \<leftarrow> replace_child h p elm tmp;
     h \<leftarrow> set_left h tmp elm;
     set_parent h elm tmp
   }"

definition RB_ROTATE_RIGHT :: "rb_head \<Rightarrow> ptr \<Rightarrow> rb_head option" where
  "RB_ROTATE_RIGHT h elm = do {
     tmp \<leftarrow> RB_LEFT h elm;
     r \<leftarrow> RB_RIGHT h tmp;
     h \<leftarrow> set_left h elm r;
     h \<leftarrow> (if r \<noteq> None then set_parent h r elm else Some h);
     p \<leftarrow> RB_PARENT h elm;
     h \<leftarrow> set_parent h tmp p;
     h \<leftarrow> replace_child h p elm tmp;
     h \<leftarrow> set_right h tmp elm;
     set_parent h elm tmp
   }"

section \<open>Insertion\<close>

partial_function (option) RB_INSERT_COLOR_loop :: "rb_head \<Rightarrow> ptr \<Rightarrow> rb_head option" where
  "RB_INSERT_COLOR_loop h elm = do {
     parent \<leftarrow> RB_PARENT h elm;
     if is_red h parent then do {
       gparent \<leftarrow> RB_PARENT h parent;
       gl \<leftarrow> RB_LEFT h gparent;
       if parent = gl then do {
         tmp \<leftarrow> RB_RIGHT h gparent;
         if is_red h tmp then do {
           h \<leftarrow> set_color h tmp RB_BLACK;
           h \<leftarrow> RB_SET_BLACKRED h parent gparent;
           RB_INSERT_COLOR_loop h gparent
         } else do {
           pr \<leftarrow> RB_RIGHT h parent;
           (h, parent, elm) \<leftarrow>
             (if pr = elm then do { h \<leftarrow> RB_ROTATE_LEFT h parent; Some (h, elm, parent) }
              else Some (h, parent, elm));
           h \<leftarrow> RB_SET_BLACKRED h parent gparent;
           h \<leftarrow> RB_ROTATE_RIGHT h gparent;
           RB_INSERT_COLOR_loop h elm
         }
       } else do {
         tmp \<leftarrow> RB_LEFT h gparent;
         if is_red h tmp then do {
           h \<leftarrow> set_color h tmp RB_BLACK;
           h \<leftarrow> RB_SET_BLACKRED h parent gparent;
           RB_INSERT_COLOR_loop h gparent
         } else do {
           pl \<leftarrow> RB_LEFT h parent;
           (h, parent, elm) \<leftarrow>
             (if pl = elm then do { h \<leftarrow> RB_ROTATE_RIGHT h parent; Some (h, elm, parent) }
              else Some (h, parent, elm));
           h \<leftarrow> RB_SET_BLACKRED h parent gparent;
           h \<leftarrow> RB_ROTATE_LEFT h gparent;
           RB_INSERT_COLOR_loop h elm
         }
       }
     } else Some h
   }"

definition RB_INSERT_COLOR :: "rb_head \<Rightarrow> ptr \<Rightarrow> rb_head option" where
  "RB_INSERT_COLOR h elm = do {
     h \<leftarrow> RB_INSERT_COLOR_loop h elm;
     set_color h (rbh_root h) RB_BLACK
   }"

text \<open>
  The descent of \<^verbatim>\<open>RB_INSERT\<close>. \<open>cmp a\<close> is the comparison of the new element with the node
  at \<open>a\<close>; the result is the node with an equal key, or the last node visited with the
  comparison made there.
\<close>

partial_function (option) RB_INSERT_search ::
  "(addr \<Rightarrow> int option) \<Rightarrow> rb_head \<Rightarrow> ptr \<Rightarrow> ptr \<Rightarrow> int \<Rightarrow> (ptr \<times> ptr \<times> int) option" where
  "RB_INSERT_search cmp h tmp parent cp =
     (case tmp of
        None \<Rightarrow> Some (None, parent, cp)
      | Some a \<Rightarrow> do {
          cp \<leftarrow> cmp a;
          if cp < 0 then do { l \<leftarrow> RB_LEFT h tmp; RB_INSERT_search cmp h l tmp cp }
          else if cp > 0 then do { r \<leftarrow> RB_RIGHT h tmp; RB_INSERT_search cmp h r tmp cp }
          else Some (tmp, tmp, cp)
        })"

definition RB_INSERT :: "(addr \<Rightarrow> int option) \<Rightarrow> rb_head \<Rightarrow> addr \<Rightarrow> (ptr \<times> rb_head) option" where
  "RB_INSERT cmp h elm = do {
     (tmp, parent, cp) \<leftarrow> RB_INSERT_search cmp h (rbh_root h) None 0;
     if tmp \<noteq> None then Some (tmp, h)
     else do {
       h \<leftarrow> RB_SET h (Some elm) parent;
       h \<leftarrow> (if parent \<noteq> None then
               (if cp < 0 then set_left h parent (Some elm) else set_right h parent (Some elm))
             else Some (h\<lparr>rbh_root := Some elm\<rparr>));
       h \<leftarrow> RB_INSERT_COLOR h (Some elm);
       Some (None, h)
     }
   }"

section \<open>Removal\<close>

partial_function (option) RB_REMOVE_COLOR_loop ::
  "rb_head \<Rightarrow> ptr \<Rightarrow> ptr \<Rightarrow> (rb_head \<times> ptr) option" where
  "RB_REMOVE_COLOR_loop h parent elm =
     (if \<not> is_red h elm \<and> elm \<noteq> rbh_root h then do {
        pl \<leftarrow> RB_LEFT h parent;
        if pl = elm then do {
          tmp \<leftarrow> RB_RIGHT h parent;
          c \<leftarrow> RB_COLOR h tmp;
          (h, tmp) \<leftarrow>
            (if c = RB_RED then do {
               h \<leftarrow> RB_SET_BLACKRED h tmp parent;
               h \<leftarrow> RB_ROTATE_LEFT h parent;
               tmp \<leftarrow> RB_RIGHT h parent;
               Some (h, tmp)
             } else Some (h, tmp));
          tl \<leftarrow> RB_LEFT h tmp;
          tr \<leftarrow> RB_RIGHT h tmp;
          if \<not> is_red h tl \<and> \<not> is_red h tr then do {
            h \<leftarrow> set_color h tmp RB_RED;
            pp \<leftarrow> RB_PARENT h parent;
            RB_REMOVE_COLOR_loop h pp parent
          } else do {
            (h, tmp) \<leftarrow>
              (if \<not> is_red h tr then do {
                 h \<leftarrow> (if tl \<noteq> None then set_color h tl RB_BLACK else Some h);
                 h \<leftarrow> set_color h tmp RB_RED;
                 h \<leftarrow> RB_ROTATE_RIGHT h tmp;
                 tmp \<leftarrow> RB_RIGHT h parent;
                 Some (h, tmp)
               } else Some (h, tmp));
            pc \<leftarrow> RB_COLOR h parent;
            h \<leftarrow> set_color h tmp pc;
            h \<leftarrow> set_color h parent RB_BLACK;
            tr \<leftarrow> RB_RIGHT h tmp;
            h \<leftarrow> (if tr \<noteq> None then set_color h tr RB_BLACK else Some h);
            h \<leftarrow> RB_ROTATE_LEFT h parent;
            Some (h, rbh_root h)
          }
        } else do {
          tmp \<leftarrow> RB_LEFT h parent;
          c \<leftarrow> RB_COLOR h tmp;
          (h, tmp) \<leftarrow>
            (if c = RB_RED then do {
               h \<leftarrow> RB_SET_BLACKRED h tmp parent;
               h \<leftarrow> RB_ROTATE_RIGHT h parent;
               tmp \<leftarrow> RB_LEFT h parent;
               Some (h, tmp)
             } else Some (h, tmp));
          tl \<leftarrow> RB_LEFT h tmp;
          tr \<leftarrow> RB_RIGHT h tmp;
          if \<not> is_red h tl \<and> \<not> is_red h tr then do {
            h \<leftarrow> set_color h tmp RB_RED;
            pp \<leftarrow> RB_PARENT h parent;
            RB_REMOVE_COLOR_loop h pp parent
          } else do {
            (h, tmp) \<leftarrow>
              (if \<not> is_red h tl then do {
                 h \<leftarrow> (if tr \<noteq> None then set_color h tr RB_BLACK else Some h);
                 h \<leftarrow> set_color h tmp RB_RED;
                 h \<leftarrow> RB_ROTATE_LEFT h tmp;
                 tmp \<leftarrow> RB_LEFT h parent;
                 Some (h, tmp)
               } else Some (h, tmp));
            pc \<leftarrow> RB_COLOR h parent;
            h \<leftarrow> set_color h tmp pc;
            h \<leftarrow> set_color h parent RB_BLACK;
            tl \<leftarrow> RB_LEFT h tmp;
            h \<leftarrow> (if tl \<noteq> None then set_color h tl RB_BLACK else Some h);
            h \<leftarrow> RB_ROTATE_RIGHT h parent;
            Some (h, rbh_root h)
          }
        }
      }
      else Some (h, elm))"

definition RB_REMOVE_COLOR :: "rb_head \<Rightarrow> ptr \<Rightarrow> ptr \<Rightarrow> rb_head option" where
  "RB_REMOVE_COLOR h parent elm = do {
     (h, elm) \<leftarrow> RB_REMOVE_COLOR_loop h parent elm;
     if elm \<noteq> None then set_color h elm RB_BLACK else Some h
   }"

text \<open>\<^verbatim>\<open>while ((left = RB_LEFT(elm))) elm = left;\<close>\<close>

partial_function (option) rb_leftmost :: "rb_head \<Rightarrow> ptr \<Rightarrow> ptr option" where
  "rb_leftmost h elm = do {
     l \<leftarrow> RB_LEFT h elm;
     if l \<noteq> None then rb_leftmost h l else Some elm
   }"

partial_function (option) rb_rightmost :: "rb_head \<Rightarrow> ptr \<Rightarrow> ptr option" where
  "rb_rightmost h elm = do {
     r \<leftarrow> RB_RIGHT h elm;
     if r \<noteq> None then rb_rightmost h r else Some elm
   }"

text \<open>The part of \<^verbatim>\<open>RB_REMOVE\<close> that unlinks an element with at most one child.\<close>

definition rb_unlink :: "rb_head \<Rightarrow> ptr \<Rightarrow> ptr \<Rightarrow> (rb_head \<times> ptr \<times> rb_color) option" where
  "rb_unlink h elm child = do {
     parent \<leftarrow> RB_PARENT h elm;
     color \<leftarrow> RB_COLOR h elm;
     h \<leftarrow> (if child \<noteq> None then set_parent h child parent else Some h);
     h \<leftarrow> replace_child h parent elm child;
     Some (h, parent, color)
   }"

text \<open>
  \<^verbatim>\<open>RB_REMOVE\<close>. In the two-child case the in-order successor \<open>elm\<close> is unlinked and then
  takes the place of \<open>old\<close>, entry and all.
\<close>

definition RB_REMOVE :: "rb_head \<Rightarrow> addr \<Rightarrow> rb_head option" where
  "RB_REMOVE h e = do {
     let old = Some e;
     l \<leftarrow> RB_LEFT h old;
     r \<leftarrow> RB_RIGHT h old;
     (h, parent, child, color) \<leftarrow>
       (if l = None then do {
          (h, parent, color) \<leftarrow> rb_unlink h old r;
          Some (h, parent, r, color)
        }
        else if r = None then do {
          (h, parent, color) \<leftarrow> rb_unlink h old l;
          Some (h, parent, l, color)
        }
        else do {
          elm \<leftarrow> rb_leftmost h r;
          child \<leftarrow> RB_RIGHT h elm;
          (h, parent, color) \<leftarrow> rb_unlink h elm child;
          ep \<leftarrow> RB_PARENT h elm;
          let parent = (if ep = old then elm else parent);
          h \<leftarrow> upd_entry (\<lambda>_. rbe h e) h elm;
          opar \<leftarrow> RB_PARENT h old;
          h \<leftarrow> replace_child h opar old elm;
          ol \<leftarrow> RB_LEFT h old;
          h \<leftarrow> set_parent h ol elm;
          ort \<leftarrow> RB_RIGHT h old;
          h \<leftarrow> (if ort \<noteq> None then set_parent h ort elm else Some h);
          Some (h, parent, child, color)
        });
     if color = RB_BLACK then RB_REMOVE_COLOR h parent child else Some h
   }"

section \<open>Search and traversal\<close>

partial_function (option) RB_FIND_loop :: "(addr \<Rightarrow> int option) \<Rightarrow> rb_head \<Rightarrow> ptr \<Rightarrow> ptr option" where
  "RB_FIND_loop cmp h tmp =
     (case tmp of
        None \<Rightarrow> Some None
      | Some a \<Rightarrow> do {
          cp \<leftarrow> cmp a;
          if cp < 0 then do { l \<leftarrow> RB_LEFT h tmp; RB_FIND_loop cmp h l }
          else if cp > 0 then do { r \<leftarrow> RB_RIGHT h tmp; RB_FIND_loop cmp h r }
          else Some tmp
        })"

definition RB_FIND :: "(addr \<Rightarrow> int option) \<Rightarrow> rb_head \<Rightarrow> ptr option" where
  "RB_FIND cmp h = RB_FIND_loop cmp h (rbh_root h)"

partial_function (option) RB_NFIND_loop ::
  "(addr \<Rightarrow> int option) \<Rightarrow> rb_head \<Rightarrow> ptr \<Rightarrow> ptr \<Rightarrow> ptr option" where
  "RB_NFIND_loop cmp h tmp res =
     (case tmp of
        None \<Rightarrow> Some res
      | Some a \<Rightarrow> do {
          cp \<leftarrow> cmp a;
          if cp < 0 then do { l \<leftarrow> RB_LEFT h tmp; RB_NFIND_loop cmp h l tmp }
          else if cp > 0 then do { r \<leftarrow> RB_RIGHT h tmp; RB_NFIND_loop cmp h r res }
          else Some tmp
        })"

definition RB_NFIND :: "(addr \<Rightarrow> int option) \<Rightarrow> rb_head \<Rightarrow> ptr option" where
  "RB_NFIND cmp h = RB_NFIND_loop cmp h (rbh_root h) None"

text \<open>Climbing while \<open>elm\<close> is a right (left) child, then to the parent.\<close>

partial_function (option) rb_climb_right :: "rb_head \<Rightarrow> ptr \<Rightarrow> ptr option" where
  "rb_climb_right h elm = do {
     p \<leftarrow> RB_PARENT h elm;
     if p = None then Some None
     else do {
       r \<leftarrow> RB_RIGHT h p;
       if elm = r then rb_climb_right h p else Some p
     }
   }"

partial_function (option) rb_climb_left :: "rb_head \<Rightarrow> ptr \<Rightarrow> ptr option" where
  "rb_climb_left h elm = do {
     p \<leftarrow> RB_PARENT h elm;
     if p = None then Some None
     else do {
       l \<leftarrow> RB_LEFT h p;
       if elm = l then rb_climb_left h p else Some p
     }
   }"

definition RB_NEXT :: "rb_head \<Rightarrow> ptr \<Rightarrow> ptr option" where
  "RB_NEXT h elm = do {
     r \<leftarrow> RB_RIGHT h elm;
     if r \<noteq> None then rb_leftmost h r
     else do {
       p \<leftarrow> RB_PARENT h elm;
       pl \<leftarrow> (if p \<noteq> None then RB_LEFT h p else Some None);
       if p \<noteq> None \<and> elm = pl then Some p else rb_climb_right h elm
     }
   }"

definition RB_PREV :: "rb_head \<Rightarrow> ptr \<Rightarrow> ptr option" where
  "RB_PREV h elm = do {
     l \<leftarrow> RB_LEFT h elm;
     if l \<noteq> None then rb_rightmost h l
     else do {
       p \<leftarrow> RB_PARENT h elm;
       pr \<leftarrow> (if p \<noteq> None then RB_RIGHT h p else Some None);
       if p \<noteq> None \<and> elm = pr then Some p else rb_climb_left h elm
     }
   }"

partial_function (option) RB_MINMAX_loop :: "rb_head \<Rightarrow> int \<Rightarrow> ptr \<Rightarrow> ptr \<Rightarrow> ptr option" where
  "RB_MINMAX_loop h val tmp parent =
     (if tmp \<noteq> None then do {
        n \<leftarrow> (if val < 0 then RB_LEFT h tmp else RB_RIGHT h tmp);
        RB_MINMAX_loop h val n tmp
      } else Some parent)"

definition RB_MINMAX :: "rb_head \<Rightarrow> int \<Rightarrow> ptr option" where
  "RB_MINMAX h val = RB_MINMAX_loop h val (rbh_root h) None"

partial_function (option) rb_foreach_from :: "rb_head \<Rightarrow> ptr \<Rightarrow> addr list option" where
  "rb_foreach_from h x =
     (case x of
        None \<Rightarrow> Some []
      | Some a \<Rightarrow> do { y \<leftarrow> RB_NEXT h x; r \<leftarrow> rb_foreach_from h y; Some (a # r) })"

text \<open>\<^verbatim>\<open>RB_FOREACH\<close> and \<^verbatim>\<open>RB_FOREACH_SAFE\<close>: the nodes visited, from the minimum on.\<close>

definition RB_FOREACH :: "rb_head \<Rightarrow> addr list option" where
  "RB_FOREACH h = do { x \<leftarrow> RB_MINMAX h (- 1); rb_foreach_from h x }"

end
