(* ===== verification/RB_Repr.thy ===== *)
theory RB_Repr
  imports RB_Tree
begin

text \<open>
  The abstraction of the pointer trees of \<^verbatim>\<open>tree.h\<close>: the functional tree the links
  spell, and one-hole contexts (zippers) for the place an operation works at. Each
  primitive step of the code (a field read, a recolouring, a rotation, linking and
  unlinking a node) is proved to act on the functional tree in place, whatever the
  surrounding context; the algorithms are then verified on functional trees only.
\<close>

section \<open>Trees and contexts\<close>

datatype rbtree = Tip | Br rb_color rbtree addr rbtree

fun addrs :: "rbtree \<Rightarrow> addr list" where
  "addrs Tip = []"
| "addrs (Br c l a r) = addrs l @ a # addrs r"

fun rtop :: "rbtree \<Rightarrow> ptr" where
  "rtop Tip = None"
| "rtop (Br c l a r) = Some a"

fun col :: "rbtree \<Rightarrow> rb_color" where
  "col Tip = RB_BLACK"
| "col (Br c l a r) = c"

fun paint :: "rb_color \<Rightarrow> rbtree \<Rightarrow> rbtree" where
  "paint c Tip = Tip"
| "paint c (Br d l a r) = Br c l a r"

text \<open>\<open>LH c a r\<close>: the hole is the left child of \<open>a\<close>; \<open>RH c l a\<close>: it is the right child.
  A context lists the nodes from the hole up to the root.\<close>

datatype crumb = LH rb_color addr rbtree | RH rb_color rbtree addr

fun plug :: "crumb list \<Rightarrow> rbtree \<Rightarrow> rbtree" where
  "plug [] t = t"
| "plug (LH c a r # k) t = plug k (Br c t a r)"
| "plug (RH c l a # k) t = plug k (Br c l a t)"

fun ctop :: "crumb list \<Rightarrow> ptr" where
  "ctop [] = None"
| "ctop (LH c a r # k) = Some a"
| "ctop (RH c l a # k) = Some a"

fun cl :: "crumb list \<Rightarrow> addr list" where
  "cl [] = []"
| "cl (LH c a r # k) = cl k"
| "cl (RH c l a # k) = cl k @ addrs l @ [a]"

fun cr :: "crumb list \<Rightarrow> addr list" where
  "cr [] = []"
| "cr (LH c a r # k) = a # addrs r @ cr k"
| "cr (RH c l a # k) = cr k"

lemma addrs_plug [simp]: "addrs (plug k t) = cl k @ addrs t @ cr k"
  by (induction k t rule: plug.induct) auto

lemma addrs_paint [simp]: "addrs (paint c t) = addrs t"
  by (cases t) auto

lemma top_eq_None [simp]: "rtop t = None \<longleftrightarrow> t = Tip" "None = rtop t \<longleftrightarrow> t = Tip"
  by (cases t; simp)+

lemma top_in: "rtop t = Some a \<Longrightarrow> a \<in> set (addrs t)"
  by (cases t) auto

lemma top_neq: "a \<notin> set (addrs t) \<Longrightarrow> rtop t \<noteq> Some a" "a \<notin> set (addrs t) \<Longrightarrow> Some a \<noteq> rtop t"
  by (cases t; auto)+

lemma plug_append: "plug (k @ k') t = plug k' (plug k t)"
  by (induction k t rule: plug.induct) auto

section \<open>What the heap represents\<close>

fun rtree :: "rb_head \<Rightarrow> ptr \<Rightarrow> rbtree \<Rightarrow> bool" where
  "rtree h par Tip = True"
| "rtree h par (Br c l a r) \<longleftrightarrow>
     rbe h a = \<lparr>rbe_left = rtop l, rbe_right = rtop r, rbe_parent = par, rbe_color = c\<rparr> \<and>
     rtree h (Some a) l \<and> rtree h (Some a) r"

fun rctx :: "rb_head \<Rightarrow> crumb list \<Rightarrow> ptr \<Rightarrow> bool" where
  "rctx h [] p \<longleftrightarrow> rbh_root h = p"
| "rctx h (LH c a r # k) p \<longleftrightarrow>
     rbe h a = \<lparr>rbe_left = p, rbe_right = rtop r, rbe_parent = ctop k, rbe_color = c\<rparr> \<and>
     rtree h (Some a) r \<and> rctx h k (Some a)"
| "rctx h (RH c l a # k) p \<longleftrightarrow>
     rbe h a = \<lparr>rbe_left = rtop l, rbe_right = p, rbe_parent = ctop k, rbe_color = c\<rparr> \<and>
     rtree h (Some a) l \<and> rctx h k (Some a)"

definition rrep :: "rb_head \<Rightarrow> rbtree \<Rightarrow> bool" where
  "rrep h t \<longleftrightarrow> rbh_root h = rtop t \<and> rtree h None t \<and> distinct (addrs t)"

lemma rrep_plug:
  "rrep h (plug k t) \<longleftrightarrow>
     rctx h k (rtop t) \<and> rtree h (ctop k) t \<and> distinct (cl k @ addrs t @ cr k)"
proof -
  have "rbh_root h = rtop (plug k t) \<and> rtree h None (plug k t) \<longleftrightarrow>
      rctx h k (rtop t) \<and> rtree h (ctop k) t"
    by (induction k t rule: plug.induct) auto
  then show ?thesis by (auto simp: rrep_def)
qed

lemma rtree_cong:
  "\<forall>a \<in> set (addrs t). rbe h' a = rbe h a \<Longrightarrow> rtree h' par t = rtree h par t"
  by (induction t arbitrary: par) auto

lemma rctx_cong:
  "\<forall>a \<in> set (cl k) \<union> set (cr k). rbe h' a = rbe h a \<Longrightarrow> rbh_root h' = rbh_root h \<Longrightarrow>
     rctx h' k p = rctx h k p"
proof (induction h k p rule: rctx.induct)
  case (2 h c a r k p)
  then show ?case using rtree_cong [of r h' h] by (simp add: ball_Un)
next
  case (3 h c l a k p)
  then show ?case using rtree_cong [of l h' h] by (simp add: ball_Un)
qed simp

lemma rtree_upd [simp]:
  "a \<notin> set (addrs t) \<Longrightarrow> rtree (h\<lparr>rbe := (rbe h)(a := e)\<rparr>) par t = rtree h par t"
  "rtree (h\<lparr>rbh_root := p\<rparr>) par t = rtree h par t"
  by (rule rtree_cong; auto)+

lemma rctx_upd [simp]:
  "a \<notin> set (cl k) \<Longrightarrow> a \<notin> set (cr k) \<Longrightarrow>
     rctx (h\<lparr>rbe := (rbe h)(a := e)\<rparr>) k p = rctx h k p"
  by (rule rctx_cong) auto

text \<open>Setting the pointer in the hole of a context.\<close>

fun set_hole :: "rb_head \<Rightarrow> crumb list \<Rightarrow> ptr \<Rightarrow> rb_head" where
  "set_hole h [] v = h\<lparr>rbh_root := v\<rparr>"
| "set_hole h (LH c a r # k) v = h\<lparr>rbe := (rbe h)(a := (rbe h a)\<lparr>rbe_left := v\<rparr>)\<rparr>"
| "set_hole h (RH c l a # k) v = h\<lparr>rbe := (rbe h)(a := (rbe h a)\<lparr>rbe_right := v\<rparr>)\<rparr>"

lemma rctx_set_hole:
  "rctx h k p \<Longrightarrow> distinct (cl k @ cr k) \<Longrightarrow> rctx (set_hole h k v) k v"
  by (cases k rule: ctop.cases; auto)

lemma rbe_set_hole:
  "a \<notin> set (cl k) \<Longrightarrow> a \<notin> set (cr k) \<Longrightarrow> rbe (set_hole h k v) a = rbe h a"
  by (cases k rule: ctop.cases; auto)

lemma rtree_set_hole:
  "set (addrs t) \<inter> (set (cl k) \<union> set (cr k)) = {} \<Longrightarrow> rtree (set_hole h k v) par t = rtree h par t"
  by (rule rtree_cong) (auto intro: rbe_set_hole)

lemma replace_child_hole:
  assumes "rctx h k p" and "distinct (cl k @ cr k)" and "\<And>a. p = Some a \<Longrightarrow> a \<notin> set (cl k) \<union> set (cr k)"
    and "p \<noteq> None"
  shows "replace_child h (ctop k) p v = Some (set_hole h k v)"
  using assms top_neq
  by (cases k rule: ctop.cases)
    (auto simp: replace_child_def RB_LEFT_def set_left_def set_right_def upd_entry_def)

text \<open>Giving the root of a subtree another parent.\<close>

definition reparent :: "rb_head \<Rightarrow> rbtree \<Rightarrow> ptr \<Rightarrow> rb_head" where
  "reparent h t v = (case rtop t of None \<Rightarrow> h
     | Some a \<Rightarrow> h\<lparr>rbe := (rbe h)(a := (rbe h a)\<lparr>rbe_parent := v\<rparr>)\<rparr>)"

lemma set_parent_top:
  "(if rtop t \<noteq> None then set_parent h (rtop t) v else Some h) = Some (reparent h t v)"
  by (cases t) (auto simp: reparent_def set_parent_def upd_entry_def)

lemma rtree_reparent: "rtree h par t \<Longrightarrow> distinct (addrs t) \<Longrightarrow> rtree (reparent h t v) v t"
  by (cases t) (auto simp: reparent_def)

lemma rbe_reparent: "a \<notin> set (addrs t) \<Longrightarrow> rbe (reparent h t v) a = rbe h a"
  by (cases t) (auto simp: reparent_def)

lemma root_reparent [simp]: "rbh_root (reparent h t v) = rbh_root h"
  by (cases t) (auto simp: reparent_def)

section \<open>Primitive steps in a context\<close>

lemmas rb_access_defs = RB_LEFT_def RB_RIGHT_def RB_PARENT_def RB_COLOR_def
lemmas rb_update_defs = set_left_def set_right_def set_parent_def set_color_def upd_entry_def

lemma rb_access:
  assumes "rrep h (plug k (Br c l a r))"
  shows "RB_LEFT h (Some a) = Some (rtop l)" "RB_RIGHT h (Some a) = Some (rtop r)"
    "RB_PARENT h (Some a) = Some (ctop k)" "RB_COLOR h (Some a) = Some c"
  using assms by (auto simp: rrep_plug rb_access_defs)

lemma is_red_top: "rrep h (plug k t) \<Longrightarrow> is_red h (rtop t) \<longleftrightarrow> col t = RB_RED"
  by (cases t) (auto simp: is_red_def rrep_plug RB_COLOR_def)

lemma set_color_spec:
  assumes "rrep h (plug k (Br c l a r))"
  shows "\<exists>h'. set_color h (Some a) c' = Some h' \<and> rrep h' (plug k (Br c' l a r))"
  using assms by (auto simp: rrep_plug rb_update_defs)

lemma rotation:
  assumes h1: "h1 = h\<lparr>rbe := (rbe h)(x := f (rbe h x))\<rparr>" and h2: "h2 = reparent h1 m (Some x)"
    and h3: "h3 = h2\<lparr>rbe := (rbe h2)(y := (rbe h2 y)\<lparr>rbe_parent := ctop k\<rparr>)\<rparr>" and h4: "h4 = set_hole h3 k (Some y)"
    and h5: "h5 = h4\<lparr>rbe := (rbe h4)(y := g (rbe h4 y))\<rparr>"
    and h6: "h6 = h5\<lparr>rbe := (rbe h5)(x := (rbe h5 x)\<lparr>rbe_parent := Some y\<rparr>)\<rparr>"
    and d: "distinct (x # y # addrs m @ cl k @ cr k)" and cx: "rctx h k (Some x)" and m: "rtree h (Some y) m"
  shows "replace_child h3 (ctop k) (Some x) (Some y) = Some h4" "rbe h2 x = f (rbe h x)"
    "rbe h6 x = (f (rbe h x))\<lparr>rbe_parent := Some y\<rparr>" "rbe h6 y = g ((rbe h y)\<lparr>rbe_parent := ctop k\<rparr>)"
    "rctx h6 k (Some y)" "rtree h6 (Some x) m"
    "\<And>a. a \<notin> set (x # y # addrs m @ cl k @ cr k) \<Longrightarrow> rbe h6 a = rbe h a"
proof -
  have r2: "rbe h2 a = rbe h1 a" if "a \<notin> set (addrs m)" for a using that by (simp add: h2 rbe_reparent)
  have r4: "rbe h4 a = rbe h3 a" if "a \<notin> set (cl k)" "a \<notin> set (cr k)" for a using that by (simp add: h4 rbe_set_hole)
  show "rbe h2 x = f (rbe h x)" "rbe h6 x = (f (rbe h x))\<lparr>rbe_parent := Some y\<rparr>"
    "rbe h6 y = g ((rbe h y)\<lparr>rbe_parent := ctop k\<rparr>)"
    "\<And>a. a \<notin> set (x # y # addrs m @ cl k @ cr k) \<Longrightarrow> rbe h6 a = rbe h a"
    using d r2 r4 by (auto simp: h1 h3 h5 h6)
  have dj: "\<forall>a \<in> set (cl k) \<union> set (cr k). a \<noteq> x \<and> a \<noteq> y \<and> a \<notin> set (addrs m)" using d by auto
  then have "rctx h3 k (Some x)"
    using cx by (subst rctx_cong [of _ _ h]) (auto simp: h3 h1 h2 rbe_reparent)
  then show "replace_child h3 (ctop k) (Some x) (Some y) = Some h4" and "rctx h6 k (Some y)"
    using d rctx_set_hole [of h3 k "Some x" "Some y"] rctx_cong [of k h6 h4] dj
    unfolding h4 by (auto simp: h6 h5 h4 intro!: replace_child_hole)
  have "rtree h2 (Some x) m" unfolding h2 using m d by (intro rtree_reparent) (simp_all add: h1)
  moreover have "\<forall>a \<in> set (addrs m). a \<notin> set (cl k) \<and> a \<notin> set (cr k) \<and> a \<noteq> x \<and> a \<noteq> y" using d by auto
  then have "\<forall>a \<in> set (addrs m). rbe h6 a = rbe h2 a" using r4 by (simp add: h3 h5 h6)
  ultimately show "rtree h6 (Some x) m" using rtree_cong [of m h6 h2] by simp
qed

lemma RB_ROTATE_LEFT_spec:
  assumes "rrep h (plug k (Br c l x (Br d m y r)))"
  shows "\<exists>h'. RB_ROTATE_LEFT h (Some x) = Some h' \<and> rrep h' (plug k (Br d (Br c l x m) y r))"
proof -
  define h1 where "h1 = h\<lparr>rbe := (rbe h)(x := (rbe h x)\<lparr>rbe_right := rtop m\<rparr>)\<rparr>"
  define h2 where "h2 = reparent h1 m (Some x)"
  define h3 where "h3 = h2\<lparr>rbe := (rbe h2)(y := (rbe h2 y)\<lparr>rbe_parent := ctop k\<rparr>)\<rparr>"
  define h4 where "h4 = set_hole h3 k (Some y)"
  define h5 where "h5 = h4\<lparr>rbe := (rbe h4)(y := (rbe h4 y)\<lparr>rbe_left := Some x\<rparr>)\<rparr>"
  define h6 where "h6 = h5\<lparr>rbe := (rbe h5)(x := (rbe h5 x)\<lparr>rbe_parent := Some y\<rparr>)\<rparr>"
  from assms have d: "distinct (cl k @ (addrs l @ x # addrs m @ y # addrs r) @ cr k)" and cx: "rctx h k (Some x)"
    and t: "rbe h x = \<lparr>rbe_left = rtop l, rbe_right = Some y, rbe_parent = ctop k, rbe_color = c\<rparr>"
      "rbe h y = \<lparr>rbe_left = rtop m, rbe_right = rtop r, rbe_parent = Some x, rbe_color = d\<rparr>"
      "rtree h (Some x) l" "rtree h (Some y) m" "rtree h (Some y) r"
    by (auto simp: rrep_plug)
  have d': "distinct (x # y # addrs m @ cl k @ cr k)" using d by auto
  note rot = rotation [where f = "rbe_right_update (\<lambda>_. rtop m)" and g = "rbe_left_update (\<lambda>_. Some x)",
    OF h1_def h2_def h3_def h4_def h5_def h6_def d' cx t(4)]
  have "RB_RIGHT h (Some x) = Some (Some y)" "RB_LEFT h (Some y) = Some (rtop m)"
    "set_right h (Some x) (rtop m) = Some h1" "RB_PARENT h2 (Some x) = Some (ctop k)"
    "set_parent h2 (Some y) (ctop k) = Some h3"
    "set_left h4 (Some y) (Some x) = Some h5" "set_parent h5 (Some x) (Some y) = Some h6"
    using t rot(2) by (simp_all add: rb_access_defs rb_update_defs h1_def h3_def h5_def h6_def)
  then have "RB_ROTATE_LEFT h (Some x) = Some h6"
    using set_parent_top [of m h1 "Some x", folded h2_def] rot(1) by (simp only: RB_ROTATE_LEFT_def Option.bind.simps)
  moreover have "\<forall>a \<in> set (addrs l) \<union> set (addrs r). rbe h6 a = rbe h a" using d by (intro ballI rot(7)) auto
  then have "rtree h6 (Some x) l" "rtree h6 (Some y) r"
    using t rtree_cong [of l h6 h] rtree_cong [of r h6 h] by simp_all
  ultimately show ?thesis using rot(3-6) t d by (auto simp: rrep_plug)
qed

lemma RB_ROTATE_RIGHT_spec:
  assumes "rrep h (plug k (Br c (Br d l y m) x r))"
  shows "\<exists>h'. RB_ROTATE_RIGHT h (Some x) = Some h' \<and> rrep h' (plug k (Br d l y (Br c m x r)))"
proof -
  define h1 where "h1 = h\<lparr>rbe := (rbe h)(x := (rbe h x)\<lparr>rbe_left := rtop m\<rparr>)\<rparr>"
  define h2 where "h2 = reparent h1 m (Some x)"
  define h3 where "h3 = h2\<lparr>rbe := (rbe h2)(y := (rbe h2 y)\<lparr>rbe_parent := ctop k\<rparr>)\<rparr>"
  define h4 where "h4 = set_hole h3 k (Some y)"
  define h5 where "h5 = h4\<lparr>rbe := (rbe h4)(y := (rbe h4 y)\<lparr>rbe_right := Some x\<rparr>)\<rparr>"
  define h6 where "h6 = h5\<lparr>rbe := (rbe h5)(x := (rbe h5 x)\<lparr>rbe_parent := Some y\<rparr>)\<rparr>"
  from assms have d: "distinct (cl k @ (addrs l @ y # addrs m @ x # addrs r) @ cr k)" and cx: "rctx h k (Some x)"
    and t: "rbe h x = \<lparr>rbe_left = Some y, rbe_right = rtop r, rbe_parent = ctop k, rbe_color = c\<rparr>"
      "rbe h y = \<lparr>rbe_left = rtop l, rbe_right = rtop m, rbe_parent = Some x, rbe_color = d\<rparr>"
      "rtree h (Some x) r" "rtree h (Some y) m" "rtree h (Some y) l"
    by (auto simp: rrep_plug)
  have d': "distinct (x # y # addrs m @ cl k @ cr k)" using d by auto
  note rot = rotation [where f = "rbe_left_update (\<lambda>_. rtop m)" and g = "rbe_right_update (\<lambda>_. Some x)",
    OF h1_def h2_def h3_def h4_def h5_def h6_def d' cx t(4)]
  have "RB_LEFT h (Some x) = Some (Some y)" "RB_RIGHT h (Some y) = Some (rtop m)"
    "set_left h (Some x) (rtop m) = Some h1" "RB_PARENT h2 (Some x) = Some (ctop k)"
    "set_parent h2 (Some y) (ctop k) = Some h3"
    "set_right h4 (Some y) (Some x) = Some h5" "set_parent h5 (Some x) (Some y) = Some h6"
    using t rot(2) by (simp_all add: rb_access_defs rb_update_defs h1_def h3_def h5_def h6_def)
  then have "RB_ROTATE_RIGHT h (Some x) = Some h6"
    using set_parent_top [of m h1 "Some x", folded h2_def] rot(1) by (simp only: RB_ROTATE_RIGHT_def Option.bind.simps)
  moreover have "\<forall>a \<in> set (addrs l) \<union> set (addrs r). rbe h6 a = rbe h a" using d by (intro ballI rot(7)) auto
  then have "rtree h6 (Some x) r" "rtree h6 (Some y) l"
    using t rtree_cong [of l h6 h] rtree_cong [of r h6 h] by simp_all
  ultimately show ?thesis using rot(3-6) t d by (auto simp: rrep_plug)
qed

end
