(* ===== verification/RB_Insert.thy ===== *)
theory RB_Insert
  imports RB_Repr
begin

text \<open>
  \<^verbatim>\<open>RB_INSERT\<close> and \<^verbatim>\<open>RB_FIND\<close> of \<^verbatim>\<open>tree.h\<close>: the balance invariant in zipper form, the
  recolouring loop, the search order, and the correctness of insertion and lookup.
\<close>

section \<open>Balance\<close>

fun bl :: "rb_color \<Rightarrow> nat" where
  "bl RB_BLACK = 1"
| "bl RB_RED = 0"

fun bh :: "rbtree \<Rightarrow> nat" where
  "bh Tip = 0"
| "bh (Br c l a r) = bh l + bl c"

fun rb_inv :: "rbtree \<Rightarrow> bool" where
  "rb_inv Tip = True"
| "rb_inv (Br c l a r) \<longleftrightarrow> rb_inv l \<and> rb_inv r \<and> bh l = bh r \<and>
     (c = RB_RED \<longrightarrow> col l = RB_BLACK \<and> col r = RB_BLACK)"

definition rb_ok :: "rbtree \<Rightarrow> bool" where
  "rb_ok t \<longleftrightarrow> rb_inv t \<and> col t = RB_BLACK"

fun ccol :: "crumb list \<Rightarrow> rb_color" where
  "ccol [] = RB_BLACK"
| "ccol (LH c a r # k) = c"
| "ccol (RH c l a # k) = c"

text \<open>\<open>kinv k n\<close>: the context \<open>k\<close> is balanced around a hole of black height \<open>n\<close>.\<close>

fun kinv :: "crumb list \<Rightarrow> nat \<Rightarrow> bool" where
  "kinv [] n = True"
| "kinv (LH c a r # k) n \<longleftrightarrow> rb_inv r \<and> bh r = n \<and>
     (c = RB_RED \<longrightarrow> col r = RB_BLACK \<and> k \<noteq> [] \<and> ccol k = RB_BLACK) \<and> kinv k (n + bl c)"
| "kinv (RH c l a # k) n \<longleftrightarrow> rb_inv l \<and> bh l = n \<and>
     (c = RB_RED \<longrightarrow> col l = RB_BLACK \<and> k \<noteq> [] \<and> ccol k = RB_BLACK) \<and> kinv k (n + bl c)"

lemma rb_color_neq [simp]: "c \<noteq> RB_BLACK \<longleftrightarrow> c = RB_RED" "c \<noteq> RB_RED \<longleftrightarrow> c = RB_BLACK"
  by (cases c; simp)+

lemma rb_ok_plug:
  "rb_ok (plug k t) \<longleftrightarrow>
     kinv k (bh t) \<and> rb_inv t \<and> (ccol k = RB_RED \<or> k = [] \<longrightarrow> col t = RB_BLACK)"
  by (induction k t rule: plug.induct) (auto simp: rb_ok_def)

lemma inv_paint_black: "rb_inv t \<Longrightarrow> rb_ok (paint RB_BLACK t)"
  by (cases t) (auto simp: rb_ok_def)

lemma paint_col: "col t = c \<Longrightarrow> paint c t = t"
  by (cases t) auto

lemma col_redE:
  assumes "col t = RB_RED" obtains l a r where "t = Br RB_RED l a r"
  using assms by (cases t) auto

section \<open>The recolouring loop\<close>

lemma INSERT_COLOR_stop:
  assumes "rrep h (plug k (Br c l e r))" and "ccol k = RB_BLACK"
  shows "RB_INSERT_COLOR_loop h (Some e) = Some h"
proof -
  have "\<not> is_red h (ctop k)"
    using assms by (cases k rule: ctop.cases) (auto simp: is_red_def rb_access rrep_plug RB_COLOR_def)
  then show ?thesis
    using rb_access [OF assms(1)] by (subst RB_INSERT_COLOR_loop.simps) simp
qed

text \<open>Recolouring of parent and grandparent, on either side.\<close>

lemma SET_BLACKRED_spec:
  assumes "rrep h (plug k t)"
    and "t = Br cg (Br cp l p r) g u \<and> t' = Br RB_RED (Br RB_BLACK l p r) g u \<or>
         t = Br cg u g (Br cp l p r) \<and> t' = Br RB_RED u g (Br RB_BLACK l p r)"
  shows "\<exists>h'. RB_SET_BLACKRED h (Some p) (Some g) = Some h' \<and> rrep h' (plug k t')"
  using assms(2)
proof (elim disjE conjE)
  assume t: "t = Br cg (Br cp l p r) g u" "t' = Br RB_RED (Br RB_BLACK l p r) g u"
  from set_color_spec [of h "LH cg g u # k" cp l p r RB_BLACK] assms(1) t obtain h1 where
    h1: "set_color h (Some p) RB_BLACK = Some h1" "rrep h1 (plug k (Br cg (Br RB_BLACK l p r) g u))"
    by auto
  from set_color_spec [OF h1(2), of RB_RED] h1 t show ?thesis by (auto simp: RB_SET_BLACKRED_def)
next
  assume t: "t = Br cg u g (Br cp l p r)" "t' = Br RB_RED u g (Br RB_BLACK l p r)"
  from set_color_spec [of h "RH cg u g # k" cp l p r RB_BLACK] assms(1) t obtain h1 where
    h1: "set_color h (Some p) RB_BLACK = Some h1" "rrep h1 (plug k (Br cg u g (Br RB_BLACK l p r)))"
    by auto
  from set_color_spec [OF h1(2), of RB_RED] h1 t show ?thesis by (auto simp: RB_SET_BLACKRED_def)
qed

text \<open>The uncle is red: both children of the grandparent turn black.\<close>

lemma recolor_spec:
  assumes "rrep h (plug k t)"
    and "t = Br cg (Br cp l p r) g (Br cu ul u ur) \<and> t' = Br RB_RED (Br RB_BLACK l p r) g (Br RB_BLACK ul u ur) \<or>
         t = Br cg (Br cu ul u ur) g (Br cp l p r) \<and> t' = Br RB_RED (Br RB_BLACK ul u ur) g (Br RB_BLACK l p r)"
  shows "\<exists>h1 h2. set_color h (Some u) RB_BLACK = Some h1 \<and>
    RB_SET_BLACKRED h1 (Some p) (Some g) = Some h2 \<and> rrep h2 (plug k t')"
  using assms(2)
proof (elim disjE conjE)
  assume t: "t = Br cg (Br cp l p r) g (Br cu ul u ur)"
    "t' = Br RB_RED (Br RB_BLACK l p r) g (Br RB_BLACK ul u ur)"
  from set_color_spec [of h "RH cg (Br cp l p r) g # k" cu ul u ur RB_BLACK] assms(1) t obtain h1
    where h1: "set_color h (Some u) RB_BLACK = Some h1"
      "rrep h1 (plug k (Br cg (Br cp l p r) g (Br RB_BLACK ul u ur)))" by auto
  from SET_BLACKRED_spec [OF h1(2)] h1(1) t show ?thesis by blast
next
  assume t: "t = Br cg (Br cu ul u ur) g (Br cp l p r)"
    "t' = Br RB_RED (Br RB_BLACK ul u ur) g (Br RB_BLACK l p r)"
  from set_color_spec [of h "LH cg g (Br cp l p r) # k" cu ul u ur RB_BLACK] assms(1) t obtain h1
    where h1: "set_color h (Some u) RB_BLACK = Some h1"
      "rrep h1 (plug k (Br cg (Br RB_BLACK ul u ur) g (Br cp l p r)))" by auto
  from SET_BLACKRED_spec [OF h1(2)] h1(1) t show ?thesis by blast
qed

text \<open>The uncle is black: the grandparent is rotated below the parent, and the loop stops.\<close>

lemma rotate_right_done:
  assumes "rrep h (plug k (Br cg (Br cp (Br ce l e m) p r) g u))"
  shows "\<exists>h1 h2. RB_SET_BLACKRED h (Some p) (Some g) = Some h1 \<and>
    RB_ROTATE_RIGHT h1 (Some g) = Some h2 \<and> RB_INSERT_COLOR_loop h2 (Some e) = Some h2 \<and>
    rrep h2 (plug k (Br RB_BLACK (Br ce l e m) p (Br RB_RED r g u)))"
proof -
  from SET_BLACKRED_spec [OF assms] obtain h1 where
    h1: "RB_SET_BLACKRED h (Some p) (Some g) = Some h1"
      "rrep h1 (plug k (Br RB_RED (Br RB_BLACK (Br ce l e m) p r) g u))" by blast
  from RB_ROTATE_RIGHT_spec [OF h1(2)] obtain h2 where
    h2: "RB_ROTATE_RIGHT h1 (Some g) = Some h2"
      "rrep h2 (plug k (Br RB_BLACK (Br ce l e m) p (Br RB_RED r g u)))" by blast
  from h2(2) have "rrep h2 (plug (LH RB_BLACK p (Br RB_RED r g u) # k) (Br ce l e m))" by simp
  from INSERT_COLOR_stop [OF this] h1 h2 show ?thesis by auto
qed

lemma rotate_left_done:
  assumes "rrep h (plug k (Br cg u g (Br cp l p (Br ce m e r))))"
  shows "\<exists>h1 h2. RB_SET_BLACKRED h (Some p) (Some g) = Some h1 \<and>
    RB_ROTATE_LEFT h1 (Some g) = Some h2 \<and> RB_INSERT_COLOR_loop h2 (Some e) = Some h2 \<and>
    rrep h2 (plug k (Br RB_BLACK (Br RB_RED u g l) p (Br ce m e r)))"
proof -
  from SET_BLACKRED_spec [OF assms] obtain h1 where
    h1: "RB_SET_BLACKRED h (Some p) (Some g) = Some h1"
      "rrep h1 (plug k (Br RB_RED u g (Br RB_BLACK l p (Br ce m e r))))" by blast
  from RB_ROTATE_LEFT_spec [OF h1(2)] obtain h2 where
    h2: "RB_ROTATE_LEFT h1 (Some g) = Some h2"
      "rrep h2 (plug k (Br RB_BLACK (Br RB_RED u g l) p (Br ce m e r)))" by blast
  from h2(2) have "rrep h2 (plug (RH RB_BLACK (Br RB_RED u g l) p # k) (Br ce m e r))" by simp
  from INSERT_COLOR_stop [OF this] h1 h2 show ?thesis by auto
qed

text \<open>
  One iteration with a red parent, for the four positions of the element below its
  grandparent: either the violation moves two levels up with the loop, or the loop ends
  with the tree repaired.
\<close>

definition insert_fixed :: "rb_head \<Rightarrow> crumb list \<Rightarrow> rbtree \<Rightarrow> addr \<Rightarrow> bool" where
  "insert_fixed h k t e \<longleftrightarrow> (\<exists>h' T. RB_INSERT_COLOR_loop h (Some e) = Some h' \<and> rrep h' T \<and>
     addrs T = addrs (plug k t) \<and> rb_inv T)"

lemma insert_fixed_step:
  "RB_INSERT_COLOR_loop h (Some e) = RB_INSERT_COLOR_loop h1 (Some e1) \<Longrightarrow>
   insert_fixed h1 k1 t1 e1 \<Longrightarrow> addrs (plug k1 t1) = addrs (plug k t) \<Longrightarrow> insert_fixed h k t e"
  by (simp add: insert_fixed_def)

lemma insert_fixed_done:
  assumes "RB_INSERT_COLOR_loop h (Some e) = Some h'" and "rrep h' (plug k' t')"
    and "addrs (plug k' t') = addrs (plug k t)" and "kinv k' (bh t')" "rb_inv t'" "col t' = RB_BLACK"
  shows "insert_fixed h k t e"
proof -
  have "rb_inv (plug k' t')" using rb_ok_plug [of k' t'] assms(4-6) by (simp add: rb_ok_def)
  with assms(1-3) show ?thesis unfolding insert_fixed_def by blast
qed

lemma insert_left_left:
  assumes rep: "rrep h (plug (LH RB_RED p s # LH RB_BLACK g u # k) (Br RB_RED l e r))"
    and ok: "kinv (LH RB_RED p s # LH RB_BLACK g u # k) (bh l)" "rb_inv (Br RB_RED l e r)"
    and IH: "\<And>h' l' e' r'. rrep h' (plug k (Br RB_RED l' e' r')) \<Longrightarrow> kinv k (bh l') \<Longrightarrow>
      rb_inv (Br RB_RED l' e' r') \<Longrightarrow> insert_fixed h' k (Br RB_RED l' e' r') e'"
  shows "insert_fixed h (LH RB_RED p s # LH RB_BLACK g u # k) (Br RB_RED l e r) e"
proof -
  let ?t = "Br RB_RED l e r"
  let ?P = "Br RB_RED ?t p s"
  have rep': "rrep h (plug k (Br RB_BLACK ?P g u))" using rep by simp
  note acc = rb_access [OF rep] rb_access [of h "LH RB_BLACK g u # k" RB_RED ?t p s]
    rb_access [OF rep']
  have red: "is_red h (Some p)" "is_red h (rtop u) \<longleftrightarrow> col u = RB_RED"
    and ne: "rtop s \<noteq> Some e" "rtop u \<noteq> Some p" "Some p \<noteq> rtop u"
    using rep is_red_top [of h "LH RB_BLACK g u # k" ?P] is_red_top [of h "RH RB_BLACK ?P g # k" u]
      top_neq [of e s] top_neq [of p u] by (auto simp: rrep_plug)
  show ?thesis
  proof (cases "col u = RB_RED")
    case True
    then obtain ul v ur where u: "u = Br RB_RED ul v ur" by (rule col_redE)
    from recolor_spec [OF rep' [unfolded u] disjI1 [OF conjI [OF refl refl]]] obtain h1 h2 where
      h: "set_color h (Some v) RB_BLACK = Some h1" "RB_SET_BLACKRED h1 (Some p) (Some g) = Some h2"
      "rrep h2 (plug k (Br RB_RED (Br RB_BLACK ?t p s) g (Br RB_BLACK ul v ur)))" by blast
    have "RB_INSERT_COLOR_loop h (Some e) = RB_INSERT_COLOR_loop h2 (Some g)"
      using rep acc red ne u h by (subst RB_INSERT_COLOR_loop.simps) simp
    then show ?thesis
      by (rule insert_fixed_step [OF _ IH [OF h(3)]]) (use ok u in auto)
  next
    case False
    from rotate_right_done [OF rep'] obtain h1 h2 where h:
      "RB_SET_BLACKRED h (Some p) (Some g) = Some h1" "RB_ROTATE_RIGHT h1 (Some g) = Some h2"
      "RB_INSERT_COLOR_loop h2 (Some e) = Some h2" "rrep h2 (plug k (Br RB_BLACK ?t p (Br RB_RED s g u)))" by blast
    have "RB_INSERT_COLOR_loop h (Some e) = Some h2"
      using rep acc red False ne h by (subst RB_INSERT_COLOR_loop.simps) simp
    then show ?thesis
      using h(4) by (rule insert_fixed_done) (use ok False in simp_all)
  qed
qed

lemma insert_left_right:
  assumes rep: "rrep h (plug (RH RB_RED s p # LH RB_BLACK g u # k) (Br RB_RED l e r))"
    and ok: "kinv (RH RB_RED s p # LH RB_BLACK g u # k) (bh l)" "rb_inv (Br RB_RED l e r)"
    and IH: "\<And>h' l' e' r'. rrep h' (plug k (Br RB_RED l' e' r')) \<Longrightarrow> kinv k (bh l') \<Longrightarrow>
      rb_inv (Br RB_RED l' e' r') \<Longrightarrow> insert_fixed h' k (Br RB_RED l' e' r') e'"
  shows "insert_fixed h (RH RB_RED s p # LH RB_BLACK g u # k) (Br RB_RED l e r) e"
proof -
  let ?t = "Br RB_RED l e r"
  let ?P = "Br RB_RED s p ?t"
  have rep': "rrep h (plug k (Br RB_BLACK ?P g u))" using rep by simp
  note acc = rb_access [OF rep] rb_access [of h "LH RB_BLACK g u # k" RB_RED s p ?t]
    rb_access [OF rep']
  have red: "is_red h (Some p)" "is_red h (rtop u) \<longleftrightarrow> col u = RB_RED"
    and ne: "rtop s \<noteq> Some e" "rtop u \<noteq> Some p" "Some p \<noteq> rtop u"
    using rep is_red_top [of h "LH RB_BLACK g u # k" ?P] is_red_top [of h "RH RB_BLACK ?P g # k" u]
      top_neq [of e s] top_neq [of p u] by (auto simp: rrep_plug)
  show ?thesis
  proof (cases "col u = RB_RED")
    case True
    then obtain ul v ur where u: "u = Br RB_RED ul v ur" by (rule col_redE)
    from recolor_spec [OF rep' [unfolded u] disjI1 [OF conjI [OF refl refl]]] obtain h1 h2 where
      h: "set_color h (Some v) RB_BLACK = Some h1" "RB_SET_BLACKRED h1 (Some p) (Some g) = Some h2"
      "rrep h2 (plug k (Br RB_RED (Br RB_BLACK s p ?t) g (Br RB_BLACK ul v ur)))" by blast
    have "RB_INSERT_COLOR_loop h (Some e) = RB_INSERT_COLOR_loop h2 (Some g)"
      using rep acc red ne u h by (subst RB_INSERT_COLOR_loop.simps) simp
    then show ?thesis
      by (rule insert_fixed_step [OF _ IH [OF h(3)]]) (use ok u in auto)
  next
    case False
    from RB_ROTATE_LEFT_spec [of h "LH RB_BLACK g u # k" RB_RED s p RB_RED l e r] rep obtain h0 where
      h0: "RB_ROTATE_LEFT h (Some p) = Some h0" "rrep h0 (plug k (Br RB_BLACK (Br RB_RED (Br RB_RED s p l) e r) g u))" by auto
    from rotate_right_done [OF h0(2)] obtain h1 h2 where h:
      "RB_SET_BLACKRED h0 (Some e) (Some g) = Some h1" "RB_ROTATE_RIGHT h1 (Some g) = Some h2"
      "RB_INSERT_COLOR_loop h2 (Some p) = Some h2" "rrep h2 (plug k (Br RB_BLACK (Br RB_RED s p l) e (Br RB_RED r g u)))" by blast
    have "RB_INSERT_COLOR_loop h (Some e) = Some h2"
      using rep acc red False ne h0 h by (subst RB_INSERT_COLOR_loop.simps) simp
    then show ?thesis
      using h(4) by (rule insert_fixed_done) (use ok False in simp_all)
  qed
qed

lemma insert_right_right:
  assumes rep: "rrep h (plug (RH RB_RED s p # RH RB_BLACK u g # k) (Br RB_RED l e r))"
    and ok: "kinv (RH RB_RED s p # RH RB_BLACK u g # k) (bh l)" "rb_inv (Br RB_RED l e r)"
    and IH: "\<And>h' l' e' r'. rrep h' (plug k (Br RB_RED l' e' r')) \<Longrightarrow> kinv k (bh l') \<Longrightarrow>
      rb_inv (Br RB_RED l' e' r') \<Longrightarrow> insert_fixed h' k (Br RB_RED l' e' r') e'"
  shows "insert_fixed h (RH RB_RED s p # RH RB_BLACK u g # k) (Br RB_RED l e r) e"
proof -
  let ?t = "Br RB_RED l e r"
  let ?P = "Br RB_RED s p ?t"
  have rep': "rrep h (plug k (Br RB_BLACK u g ?P))" using rep by simp
  note acc = rb_access [OF rep] rb_access [of h "RH RB_BLACK u g # k" RB_RED s p ?t]
    rb_access [OF rep']
  have red: "is_red h (Some p)" "is_red h (rtop u) \<longleftrightarrow> col u = RB_RED"
    and ne: "rtop s \<noteq> Some e" "rtop u \<noteq> Some p" "Some p \<noteq> rtop u"
    using rep is_red_top [of h "RH RB_BLACK u g # k" ?P] is_red_top [of h "LH RB_BLACK g ?P # k" u]
      top_neq [of e s] top_neq [of p u] by (auto simp: rrep_plug)
  show ?thesis
  proof (cases "col u = RB_RED")
    case True
    then obtain ul v ur where u: "u = Br RB_RED ul v ur" by (rule col_redE)
    from recolor_spec [OF rep' [unfolded u] disjI2 [OF conjI [OF refl refl]]] obtain h1 h2 where
      h: "set_color h (Some v) RB_BLACK = Some h1" "RB_SET_BLACKRED h1 (Some p) (Some g) = Some h2"
      "rrep h2 (plug k (Br RB_RED (Br RB_BLACK ul v ur) g (Br RB_BLACK s p ?t)))" by blast
    have "RB_INSERT_COLOR_loop h (Some e) = RB_INSERT_COLOR_loop h2 (Some g)"
      using rep acc red ne u h by (subst RB_INSERT_COLOR_loop.simps) simp
    then show ?thesis
      by (rule insert_fixed_step [OF _ IH [OF h(3)]]) (use ok u in auto)
  next
    case False
    from rotate_left_done [OF rep'] obtain h1 h2 where h:
      "RB_SET_BLACKRED h (Some p) (Some g) = Some h1" "RB_ROTATE_LEFT h1 (Some g) = Some h2"
      "RB_INSERT_COLOR_loop h2 (Some e) = Some h2" "rrep h2 (plug k (Br RB_BLACK (Br RB_RED u g s) p ?t))" by blast
    have "RB_INSERT_COLOR_loop h (Some e) = Some h2"
      using rep acc red False ne h by (subst RB_INSERT_COLOR_loop.simps) simp
    then show ?thesis
      using h(4) by (rule insert_fixed_done) (use ok False in simp_all)
  qed
qed

lemma insert_right_left:
  assumes rep: "rrep h (plug (LH RB_RED p s # RH RB_BLACK u g # k) (Br RB_RED l e r))"
    and ok: "kinv (LH RB_RED p s # RH RB_BLACK u g # k) (bh l)" "rb_inv (Br RB_RED l e r)"
    and IH: "\<And>h' l' e' r'. rrep h' (plug k (Br RB_RED l' e' r')) \<Longrightarrow> kinv k (bh l') \<Longrightarrow>
      rb_inv (Br RB_RED l' e' r') \<Longrightarrow> insert_fixed h' k (Br RB_RED l' e' r') e'"
  shows "insert_fixed h (LH RB_RED p s # RH RB_BLACK u g # k) (Br RB_RED l e r) e"
proof -
  let ?t = "Br RB_RED l e r"
  let ?P = "Br RB_RED ?t p s"
  have rep': "rrep h (plug k (Br RB_BLACK u g ?P))" using rep by simp
  note acc = rb_access [OF rep] rb_access [of h "RH RB_BLACK u g # k" RB_RED ?t p s]
    rb_access [OF rep']
  have red: "is_red h (Some p)" "is_red h (rtop u) \<longleftrightarrow> col u = RB_RED"
    and ne: "rtop s \<noteq> Some e" "rtop u \<noteq> Some p" "Some p \<noteq> rtop u"
    using rep is_red_top [of h "RH RB_BLACK u g # k" ?P] is_red_top [of h "LH RB_BLACK g ?P # k" u]
      top_neq [of e s] top_neq [of p u] by (auto simp: rrep_plug)
  show ?thesis
  proof (cases "col u = RB_RED")
    case True
    then obtain ul v ur where u: "u = Br RB_RED ul v ur" by (rule col_redE)
    from recolor_spec [OF rep' [unfolded u] disjI2 [OF conjI [OF refl refl]]] obtain h1 h2 where
      h: "set_color h (Some v) RB_BLACK = Some h1" "RB_SET_BLACKRED h1 (Some p) (Some g) = Some h2"
      "rrep h2 (plug k (Br RB_RED (Br RB_BLACK ul v ur) g (Br RB_BLACK ?t p s)))" by blast
    have "RB_INSERT_COLOR_loop h (Some e) = RB_INSERT_COLOR_loop h2 (Some g)"
      using rep acc red ne u h by (subst RB_INSERT_COLOR_loop.simps) simp
    then show ?thesis
      by (rule insert_fixed_step [OF _ IH [OF h(3)]]) (use ok u in auto)
  next
    case False
    from RB_ROTATE_RIGHT_spec [of h "RH RB_BLACK u g # k" RB_RED RB_RED l e r p s] rep obtain h0 where
      h0: "RB_ROTATE_RIGHT h (Some p) = Some h0" "rrep h0 (plug k (Br RB_BLACK u g (Br RB_RED l e (Br RB_RED r p s))))" by auto
    from rotate_left_done [OF h0(2)] obtain h1 h2 where h:
      "RB_SET_BLACKRED h0 (Some e) (Some g) = Some h1" "RB_ROTATE_LEFT h1 (Some g) = Some h2"
      "RB_INSERT_COLOR_loop h2 (Some p) = Some h2" "rrep h2 (plug k (Br RB_BLACK (Br RB_RED u g l) e (Br RB_RED r p s)))" by blast
    have "RB_INSERT_COLOR_loop h (Some e) = Some h2"
      using rep acc red False ne h0 h by (subst RB_INSERT_COLOR_loop.simps) simp
    then show ?thesis
      using h(4) by (rule insert_fixed_done) (use ok False in simp_all)
  qed
qed

lemma INSERT_COLOR_loop_correct:
  assumes "rrep h (plug k (Br RB_RED l e r))" and "kinv k (bh l)" and "rb_inv (Br RB_RED l e r)"
  shows "insert_fixed h k (Br RB_RED l e r) e"
  using assms
proof (induction k arbitrary: h l e r rule: length_induct)
  case (1 k)
  show ?case
  proof (cases "ccol k = RB_BLACK")
    case True
    have "rb_inv (plug k (Br RB_RED l e r))"
      using rb_ok_plug [of k "Br RB_RED l e r"] "1.prems" True
      by (cases k rule: ccol.cases) (auto simp: rb_ok_def)
    then show ?thesis
      using INSERT_COLOR_stop [OF "1.prems"(1) True] "1.prems"(1) unfolding insert_fixed_def by blast
  next
    case False
    with "1.prems"(2) obtain c1 c2 k2 where k: "k = c1 # c2 # k2"
      by (cases k rule: ccol.cases) (auto simp: neq_Nil_conv)
    have IH: "insert_fixed h' k2 (Br RB_RED l' e' r') e'"
      if "rrep h' (plug k2 (Br RB_RED l' e' r'))" "kinv k2 (bh l')" "rb_inv (Br RB_RED l' e' r')"
      for h' l' e' r'
      using "1.IH" that k by simp
    from False "1.prems"(2) k consider
      p s g u where "c1 = LH RB_RED p s" "c2 = LH RB_BLACK g u"
    | p s g u where "c1 = RH RB_RED s p" "c2 = LH RB_BLACK g u"
    | p s g u where "c1 = RH RB_RED s p" "c2 = RH RB_BLACK u g"
    | p s g u where "c1 = LH RB_RED p s" "c2 = RH RB_BLACK u g"
      by (cases c1; cases c2) auto
    then show ?thesis
      using "1.prems" k IH
      by cases (auto intro!: insert_left_left insert_left_right insert_right_right insert_right_left
          simp del: plug.simps kinv.simps rb_inv.simps)
  qed
qed

lemma RB_INSERT_COLOR_correct:
  assumes "rrep h (plug k (Br RB_RED Tip e Tip))" and "kinv k 0"
  shows "\<exists>h' T. RB_INSERT_COLOR h (Some e) = Some h' \<and> rrep h' T \<and>
    addrs T = cl k @ e # cr k \<and> rb_ok T"
proof -
  from INSERT_COLOR_loop_correct [of h k Tip e Tip] assms obtain h1 T where
    h1: "RB_INSERT_COLOR_loop h (Some e) = Some h1" "rrep h1 T" and T: "addrs T = cl k @ e # cr k" "rb_inv T"
    by (auto simp: insert_fixed_def)
  then obtain c l a r where t: "T = Br c l a r" by (cases T) auto
  from set_color_spec [of h1 "[]" c l a r RB_BLACK] h1(2) t obtain h2 where
    "set_color h1 (rbh_root h1) RB_BLACK = Some h2" "rrep h2 (Br RB_BLACK l a r)"
    by (auto simp: rrep_def)
  with h1 T t show ?thesis
    by (auto simp: RB_INSERT_COLOR_def rb_ok_def intro!: exI [of _ "Br RB_BLACK l a r"])
qed

section \<open>Search order\<close>

text \<open>
  The comparison of a search key with the nodes: \<open>cmp_for key x cmp A\<close> says that on the
  nodes \<open>A\<close> the callback orders \<open>x\<close> against \<open>key a\<close>, as \<^verbatim>\<open>stream_compare\<close> and
  \<^verbatim>\<open>event_compare\<close> do.
\<close>

definition cmp_for :: "(addr \<Rightarrow> 'k :: linorder) \<Rightarrow> 'k \<Rightarrow> (addr \<Rightarrow> int option) \<Rightarrow> addr set \<Rightarrow> bool" where
  "cmp_for key x cmp A \<longleftrightarrow>
     (\<forall>a\<in>A. \<exists>c. cmp a = Some c \<and> (c < 0 \<longleftrightarrow> x < key a) \<and> (c > 0 \<longleftrightarrow> key a < x))"

definition key_sorted :: "(addr \<Rightarrow> 'k :: linorder) \<Rightarrow> addr list \<Rightarrow> bool" where
  "key_sorted key xs \<longleftrightarrow> sorted_wrt (<) (map key xs)"

lemma key_sorted_simps [simp]:
  "key_sorted key []"
  "key_sorted key (a # xs) \<longleftrightarrow> (\<forall>b\<in>set xs. key a < key b) \<and> key_sorted key xs"
  "key_sorted key (xs @ ys) \<longleftrightarrow>
     key_sorted key xs \<and> key_sorted key ys \<and> (\<forall>a\<in>set xs. \<forall>b\<in>set ys. key a < key b)"
  by (auto simp: key_sorted_def sorted_wrt_append)

lemma key_sorted_distinct: "key_sorted key xs \<Longrightarrow> distinct xs"
  by (induction xs) auto

lemma cmp_for_Br:
  "cmp_for key x cmp (set (addrs (Br c l a r))) \<longleftrightarrow>
     cmp_for key x cmp (set (addrs l)) \<and> cmp_for key x cmp (set (addrs r)) \<and> cmp_for key x cmp {a}"
  by (auto simp: cmp_for_def)

text \<open>The node a key designates, if there is one.\<close>

definition lookup :: "(addr \<Rightarrow> 'k :: linorder) \<Rightarrow> addr list \<Rightarrow> 'k \<Rightarrow> ptr" where
  "lookup key xs x = find (\<lambda>a. key a = x) xs"

lemma lookup_append:
  "lookup key (xs @ ys) x = (case lookup key xs x of None \<Rightarrow> lookup key ys x | Some a \<Rightarrow> Some a)"
  by (induction xs) (auto simp: lookup_def)

lemma lookup_None_iff: "lookup key xs x = None \<longleftrightarrow> (\<forall>a\<in>set xs. key a \<noteq> x)"
  by (auto simp: lookup_def find_None_iff)

lemma lookup_SomeD: "lookup key xs x = Some a \<Longrightarrow> a \<in> set xs \<and> key a = x"
  by (auto simp: lookup_def find_Some_iff)

lemma lookup_Cons: "lookup key (a # xs) x = (if key a = x then Some a else lookup key xs x)"
  by (simp add: lookup_def)

section \<open>Lookup\<close>

lemma RB_FIND_loop_correct:
  assumes "rrep h (plug k t)" and "cmp_for key x cmp (set (addrs t))" and "key_sorted key (addrs t)"
  shows "RB_FIND_loop cmp h (rtop t) = Some (lookup key (addrs t) x)"
  using assms
proof (induction t arbitrary: k)
  case Tip
  then show ?case by (simp add: RB_FIND_loop.simps lookup_def)
next
  case (Br c l a r)
  from Br.prems(2) obtain v where v: "cmp a = Some v" "v < 0 \<longleftrightarrow> x < key a" "v > 0 \<longleftrightarrow> key a < x"
    by (auto simp: cmp_for_def)
  have IH: "RB_FIND_loop cmp h (rtop l) = Some (lookup key (addrs l) x)"
    "RB_FIND_loop cmp h (rtop r) = Some (lookup key (addrs r) x)"
    using Br.IH(1) [of "LH c a r # k"] Br.IH(2) [of "RH c l a # k"] Br.prems
    by (simp_all only: plug.simps cmp_for_Br) auto
  have "x < key a \<Longrightarrow> lookup key (a # addrs r) x = None"
    and "key a \<le> x \<Longrightarrow> lookup key (addrs l) x = None"
    using Br.prems(3) by (auto simp: lookup_None_iff)
  with v IH rb_access [OF Br.prems(1)] show ?case
    by (subst RB_FIND_loop.simps) (auto simp: lookup_append lookup_Cons split: option.splits)
qed

lemma RB_FIND_correct:
  assumes "rrep h t" and "cmp_for key x cmp (set (addrs t))" and "key_sorted key (addrs t)"
  shows "RB_FIND cmp h = Some (lookup key (addrs t) x)"
  using RB_FIND_loop_correct [of h "[]" t] assms by (simp add: RB_FIND_def rrep_def)

section \<open>Insertion\<close>

definition dir_ok :: "crumb list \<Rightarrow> int \<Rightarrow> bool" where
  "dir_ok k cp = (case k of [] \<Rightarrow> True | LH _ _ _ # _ \<Rightarrow> cp < 0 | RH _ _ _ # _ \<Rightarrow> \<not> cp < 0)"

lemma INSERT_search_correct:
  assumes "rrep h (plug k t)" and "cmp_for key x cmp (set (addrs t))" and "key_sorted key (addrs t)"
    and "dir_ok k cp" and "\<forall>a\<in>set (cl k). key a < x" and "\<forall>a\<in>set (cr k). x < key a"
  shows "\<exists>par c. RB_INSERT_search cmp h (rtop t) (ctop k) cp = Some (lookup key (addrs t) x, par, c) \<and>
    (lookup key (addrs t) x = None \<longrightarrow> (\<exists>k'. par = ctop k' \<and> dir_ok k' c \<and> plug k' Tip = plug k t \<and>
      (\<forall>a\<in>set (cl k'). key a < x) \<and> (\<forall>a\<in>set (cr k'). x < key a)))"
  using assms
proof (induction t arbitrary: k cp)
  case Tip
  then show ?case by (auto simp: RB_INSERT_search.simps lookup_def)
next
  case (Br c l a r)
  from Br.prems(2) obtain v where v: "cmp a = Some v" "v < 0 \<longleftrightarrow> x < key a" "v > 0 \<longleftrightarrow> key a < x"
    by (auto simp: cmp_for_def)
  note acc = rb_access [OF Br.prems(1)]
  have sub: "cmp_for key x cmp (set (addrs l))" "cmp_for key x cmp (set (addrs r))"
    using Br.prems(2) by (auto simp: cmp_for_def)
  consider (less) "x < key a" | (eq) "x = key a" | (greater) "key a < x" by fastforce
  then show ?case
  proof cases
    case less
    with Br.prems(3) have "lookup key (a # addrs r) x = None"
      by (auto simp: lookup_None_iff)
    then have "lookup key (addrs (Br c l a r)) x = lookup key (addrs l) x"
      by (auto simp: lookup_append split: option.splits)
    moreover have "RB_INSERT_search cmp h (Some a) (ctop k) cp =
        RB_INSERT_search cmp h (rtop l) (ctop (LH c a r # k)) v"
      using less v acc by (subst RB_INSERT_search.simps) simp
    moreover have "\<forall>b\<in>set (cr (LH c a r # k)). x < key b" "dir_ok (LH c a r # k) v"
      using Br.prems(3,6) less v by (auto simp: dir_ok_def)
    ultimately show ?thesis
      using Br.IH(1) [of "LH c a r # k" v] Br.prems sub by simp
  next
    case eq
    with Br.prems(3) have "lookup key (addrs l) x = None" by (auto simp: lookup_None_iff)
    with eq have "lookup key (addrs (Br c l a r)) x = Some a"
      by (simp add: lookup_append lookup_Cons)
    with eq v show ?thesis by (subst RB_INSERT_search.simps) auto
  next
    case greater
    with Br.prems(3) have "lookup key (addrs l) x = None" by (fastforce simp: lookup_None_iff)
    with greater have "lookup key (addrs (Br c l a r)) x = lookup key (addrs r) x"
      by (auto simp: lookup_append lookup_Cons)
    moreover have "RB_INSERT_search cmp h (Some a) (ctop k) cp =
        RB_INSERT_search cmp h (rtop r) (ctop (RH c l a # k)) v"
      using greater v acc by (subst RB_INSERT_search.simps) simp
    moreover have "\<forall>b\<in>set (cl (RH c l a # k)). key b < x" "dir_ok (RH c l a # k) v"
      using Br.prems(3,5) greater v by (auto simp: dir_ok_def)
    ultimately show ?thesis
      using Br.IH(2) [of "RH c l a # k" v] Br.prems sub by simp
  qed
qed

lemma link_spec:
  assumes "rrep h (plug k Tip)" and "e \<notin> set (cl k @ cr k)" and "dir_ok k cp"
  shows "\<exists>h1 h2. RB_SET h (Some e) (ctop k) = Some h1 \<and>
    (if ctop k \<noteq> None then
       (if cp < 0 then set_left h1 (ctop k) (Some e) else set_right h1 (ctop k) (Some e))
     else Some (h1\<lparr>rbh_root := Some e\<rparr>)) = Some h2 \<and>
    rrep h2 (plug k (Br RB_RED Tip e Tip))"
proof -
  let ?h1 = "h\<lparr>rbe := (rbe h)(e := \<lparr>rbe_left = None, rbe_right = None, rbe_parent = ctop k, rbe_color = RB_RED\<rparr>)\<rparr>"
  have "RB_SET h (Some e) (ctop k) = Some ?h1"
    by (cases "rbe h e") (simp add: RB_SET_def rb_update_defs)
  moreover have "(if ctop k \<noteq> None then
       (if cp < 0 then set_left ?h1 (ctop k) (Some e) else set_right ?h1 (ctop k) (Some e))
     else Some (?h1\<lparr>rbh_root := Some e\<rparr>)) = Some (set_hole ?h1 k (Some e))"
    using assms(2,3) by (cases k rule: ctop.cases) (auto simp: dir_ok_def rb_update_defs)
  moreover have "rctx (set_hole ?h1 k (Some e)) k (Some e)"
    using assms(1,2) by (intro rctx_set_hole) (auto simp: rrep_plug)
  moreover have "rbe (set_hole ?h1 k (Some e)) e = rbe ?h1 e"
    using assms(2) by (intro rbe_set_hole) auto
  ultimately show ?thesis using assms(1,2) by (auto simp: rrep_plug)
qed

text \<open>
  The tree as a finite ordered index: \<open>rb_index key h xs\<close> says that \<open>h\<close> is a balanced
  search tree on the nodes \<open>xs\<close>, listed by increasing key.
\<close>

definition rb_index :: "(addr \<Rightarrow> 'k :: linorder) \<Rightarrow> rb_head \<Rightarrow> addr list \<Rightarrow> bool" where
  "rb_index key h xs \<longleftrightarrow> (\<exists>t. rrep h t \<and> rb_ok t \<and> addrs t = xs \<and> key_sorted key xs)"

lemma rb_index_FIND:
  "rb_index key h xs \<Longrightarrow> cmp_for key x cmp (set xs) \<Longrightarrow> RB_FIND cmp h = Some (lookup key xs x)"
  by (auto simp: rb_index_def intro: RB_FIND_correct)

lemma rb_index_INSERT:
  assumes "rb_index key h xs" and "cmp_for key (key e) cmp (set xs)" and "e \<notin> set xs"
  shows "\<exists>h'. RB_INSERT cmp h e = Some (lookup key xs (key e), h') \<and>
    (case lookup key xs (key e) of
       Some a \<Rightarrow> h' = h
     | None \<Rightarrow> \<exists>us vs. xs = us @ vs \<and> rb_index key h' (us @ e # vs))"
proof -
  from assms(1) obtain t where t: "rrep h t" "rb_ok t" "addrs t = xs" "key_sorted key xs"
    by (auto simp: rb_index_def)
  from INSERT_search_correct [of h "[]" t key "key e" cmp 0] t assms(2) obtain par c where
    search: "RB_INSERT_search cmp h (rbh_root h) None 0 = Some (lookup key xs (key e), par, c)"
    and pos: "lookup key xs (key e) = None \<longrightarrow> (\<exists>k. par = ctop k \<and> dir_ok k c \<and> plug k Tip = t \<and>
      (\<forall>a\<in>set (cl k). key a < key e) \<and> (\<forall>a\<in>set (cr k). key e < key a))"
    by (auto simp: dir_ok_def rrep_def)
  show ?thesis
  proof (cases "lookup key xs (key e)")
    case (Some a)
    with search show ?thesis by (simp add: RB_INSERT_def)
  next
    case None
    with pos obtain k where k: "par = ctop k" "dir_ok k c" "plug k Tip = t"
      and ord: "\<forall>a\<in>set (cl k). key a < key e" "\<forall>a\<in>set (cr k). key e < key a" by blast
    from k(3) t(3) have xs: "xs = cl k @ cr k" by auto
    from link_spec [of h k e c] k t(1) xs assms(3) obtain h1 h2 where
      h: "RB_SET h (Some e) (ctop k) = Some h1"
        "(if ctop k \<noteq> None then
           (if c < 0 then set_left h1 (ctop k) (Some e) else set_right h1 (ctop k) (Some e))
         else Some (h1\<lparr>rbh_root := Some e\<rparr>)) = Some h2"
        "rrep h2 (plug k (Br RB_RED Tip e Tip))" by auto
    from t(2) k(3) have "kinv k 0" using rb_ok_plug [of k Tip] by simp
    from RB_INSERT_COLOR_correct [OF h(3) this] obtain h3 T where
      h3: "RB_INSERT_COLOR h2 (Some e) = Some h3" "rrep h3 T" "addrs T = cl k @ e # cr k" "rb_ok T"
      by blast
    have "RB_INSERT cmp h e = Some (None, h3)"
      using search None k(1) h(1,2) h3(1) unfolding RB_INSERT_def
      by (simp only: Option.bind.simps prod.case simp_thms if_False if_True)
    moreover have "rb_index key h3 (cl k @ e # cr k)"
      unfolding rb_index_def using h3 ord t(4) xs by auto
    ultimately show ?thesis using None xs by auto
  qed
qed

end
