(* ===== verification/RB_Remove.thy ===== *)
theory RB_Remove
  imports RB_Insert
begin

text \<open>
  \<^verbatim>\<open>RB_REMOVE\<close> of \<^verbatim>\<open>tree.h\<close>: unlinking a node, moving the in-order successor into the
  place of a node with two children, and the rebalancing loop \<^verbatim>\<open>RB_REMOVE_COLOR\<close>. The
  theory closes with the ordered-index interface that \<^verbatim>\<open>mux.c\<close> and
  \<^verbatim>\<open>event-epoll.c\<close> rely on.
\<close>

section \<open>The rebalancing loop\<close>

definition remove_fixed :: "rb_head \<Rightarrow> crumb list \<Rightarrow> rbtree \<Rightarrow> bool" where
  "remove_fixed h k t \<longleftrightarrow> (\<exists>h' T. RB_REMOVE_COLOR h (ctop k) (rtop t) = Some h' \<and> rrep h' T \<and>
     rb_ok T \<and> addrs T = addrs (plug k t))"

lemma remove_fixed_step:
  assumes "RB_REMOVE_COLOR_loop h (ctop k) (rtop t) = RB_REMOVE_COLOR_loop h1 (ctop k1) (rtop t1)"
    and "remove_fixed h1 k1 t1" and "addrs (plug k1 t1) = addrs (plug k t)"
  shows "remove_fixed h k t"
  using assms by (simp add: remove_fixed_def RB_REMOVE_COLOR_def)

lemma remove_fixed_done:
  assumes "RB_REMOVE_COLOR_loop h (ctop k) (rtop t) = Some (h1, rbh_root h1)"
    and "rrep h1 (plug k1 t1)" and "rb_ok (plug k1 t1)" and "addrs (plug k1 t1) = addrs (plug k t)"
  shows "remove_fixed h k t"
proof (cases "plug k1 t1")
  case Tip
  with assms show ?thesis
    by (auto simp: remove_fixed_def RB_REMOVE_COLOR_def rrep_def intro!: exI [of _ Tip])
next
  case (Br c l a r)
  with assms(2,3) have rep: "rrep h1 (plug [] (Br c l a r))" and c: "c = RB_BLACK"
    by (auto simp: rb_ok_def)
  from set_color_spec [OF rep, of RB_BLACK] obtain h' where
    "set_color h1 (Some a) RB_BLACK = Some h'" "rrep h' (Br RB_BLACK l a r)" by auto
  moreover have "rbh_root h1 = Some a" using rep by (simp add: rrep_def)
  ultimately show ?thesis
    using assms(1,3,4) Br c unfolding remove_fixed_def RB_REMOVE_COLOR_def
    by (intro exI [of _ h'] exI [of _ "Br RB_BLACK l a r"]) simp
qed

lemma remove_fixed_root:
  assumes "rrep h t" and "rb_inv (paint RB_BLACK t)"
  shows "remove_fixed h [] t"
proof (cases t)
  case Tip
  with assms show ?thesis
    unfolding remove_fixed_def RB_REMOVE_COLOR_def
    by (subst RB_REMOVE_COLOR_loop.simps) (auto simp: rrep_def rb_ok_def intro!: exI [of _ Tip])
next
  case (Br c l a r)
  from set_color_spec [of h "[]" c l a r RB_BLACK] assms(1) Br obtain h' where
    "set_color h (Some a) RB_BLACK = Some h'" "rrep h' (Br RB_BLACK l a r)" by auto
  with assms Br show ?thesis
    unfolding remove_fixed_def RB_REMOVE_COLOR_def
    by (subst RB_REMOVE_COLOR_loop.simps)
      (auto simp: rrep_def rb_ok_def intro!: exI [of _ "Br RB_BLACK l a r"])
qed

lemma remove_fixed_red:
  assumes "rrep h (plug k t)" and "col t = RB_RED" and "kinv k (Suc (bh t))" and "rb_inv (paint RB_BLACK t)"
  shows "remove_fixed h k t"
proof -
  from assms(2) obtain l a r where t: "t = Br RB_RED l a r" by (rule col_redE)
  from set_color_spec [of h k RB_RED l a r RB_BLACK] assms(1) t obtain h' where
    h': "set_color h (Some a) RB_BLACK = Some h'" "rrep h' (plug k (Br RB_BLACK l a r))" by auto
  have "rb_ok (plug k (Br RB_BLACK l a r))"
    unfolding rb_ok_plug using assms(3,4) t by simp
  moreover have "is_red h (Some a)" using is_red_top [OF assms(1)] t by simp
  ultimately show ?thesis
    using h' t unfolding remove_fixed_def RB_REMOVE_COLOR_def
    by (subst RB_REMOVE_COLOR_loop.simps) auto
qed

lemma cl_append [simp]: "cl (k @ k') = cl k' @ cl k"
  by (induction k rule: cl.induct) auto

lemma cr_append [simp]: "cr (k @ k') = cr k @ cr k'"
  by (induction k rule: cr.induct) auto

lemma hole_not_root: "rrep h (plug (b # k) t) \<Longrightarrow> rtop t \<noteq> rbh_root h"
proof -
  assume rep: "rrep h (plug (b # k) t)"
  obtain k' c where k: "b # k = k' @ [c]" by (cases "b # k" rule: rev_cases) auto
  have "\<exists>a. rbh_root h = Some a \<and> a \<in> set (cl (b # k) @ cr (b # k))"
  proof (cases c)
    case (LH d a r)
    have "rtop (plug (b # k) t) = Some a" "a \<in> set (cl (k' @ [c]) @ cr (k' @ [c]))"
      using k LH by (auto simp: plug_append cl_append cr_append)
    with rep k show ?thesis by (auto simp: rrep_def)
  next
    case (RH d l a)
    have "rtop (plug (b # k) t) = Some a" "a \<in> set (cl (k' @ [c]) @ cr (k' @ [c]))"
      using k RH by (auto simp: plug_append cl_append cr_append)
    with rep k show ?thesis by (auto simp: rrep_def)
  qed
  then show ?thesis using rep top_in [of t] by (auto simp: rrep_plug)
qed

subsection \<open>The hole is a left child\<close>

lemma remove_left_red_sibling:
  assumes rep: "rrep h (plug k (Br c t p s))" and t: "col t = RB_BLACK"
    and s: "s = Br RB_RED near w far" and near: "near = Br RB_BLACK n1 v n2"
  shows "\<exists>h1. RB_REMOVE_COLOR_loop h (Some p) (rtop t) = RB_REMOVE_COLOR_loop h1 (Some p) (rtop t) \<and>
    rrep h1 (plug (LH RB_RED p near # LH RB_BLACK w far # k) t)"
proof -
  from SET_BLACKRED_spec [OF rep [unfolded s] disjI2 [OF conjI [OF refl refl]]] obtain h0 where
    h0: "RB_SET_BLACKRED h (Some w) (Some p) = Some h0" "rrep h0 (plug k (Br RB_RED t p (Br RB_BLACK near w far)))" by blast
  from RB_ROTATE_LEFT_spec [OF h0(2)] obtain h1 where
    h1: "RB_ROTATE_LEFT h0 (Some p) = Some h1" "rrep h1 (plug k (Br RB_BLACK (Br RB_RED t p near) w far))" by blast
  have rep0: "rrep h (plug (LH c p s # k) t)" and rep1: "rrep h1 (plug (LH RB_RED p near # LH RB_BLACK w far # k) t)"
    using rep h1(2) by simp_all
  have "RB_COLOR h (Some w) = Some RB_RED" "RB_COLOR h1 (Some v) = Some RB_BLACK"
    and ne: "rtop t \<noteq> Some w" "rtop t \<noteq> Some v" "Some w \<noteq> rtop t" "Some v \<noteq> rtop t"
    using rep h1(2) s near top_neq [of w t] top_neq [of v t] by (auto simp: rrep_plug RB_COLOR_def)
  moreover have "RB_LEFT h (Some p) = Some (rtop t)" "RB_RIGHT h (Some p) = Some (Some w)"
    "RB_LEFT h1 (Some p) = Some (rtop t)" "RB_RIGHT h1 (Some p) = Some (Some v)"
    using rb_access [OF rep] rb_access [of h1 "LH RB_BLACK w far # k" RB_RED t p near] h1(2) s near by simp_all
  moreover have "\<not> is_red h (rtop t)" "rtop t \<noteq> rbh_root h" "\<not> is_red h1 (rtop t)" "rtop t \<noteq> rbh_root h1"
    using is_red_top [OF rep0] is_red_top [OF rep1] hole_not_root [OF rep0] hole_not_root [OF rep1] t by auto
  ultimately have "RB_REMOVE_COLOR_loop h (Some p) (rtop t) = RB_REMOVE_COLOR_loop h1 (Some p) (rtop t)"
    using h0(1) h1(1) by (subst (1 2) RB_REMOVE_COLOR_loop.simps) simp
  with rep1 show ?thesis by blast
qed

lemma remove_left_black_nephews:
  assumes rep: "rrep h (plug k (Br c t p s))" and t: "col t = RB_BLACK"
    and s: "s = Br RB_BLACK sl w sr" and b: "col sl = RB_BLACK" "col sr = RB_BLACK"
  shows "\<exists>h1. RB_REMOVE_COLOR_loop h (Some p) (rtop t) = RB_REMOVE_COLOR_loop h1 (ctop k) (Some p) \<and>
    rrep h1 (plug k (Br c t p (Br RB_RED sl w sr)))"
proof -
  from set_color_spec [of h "RH c t p # k" RB_BLACK sl w sr RB_RED] rep s obtain h1 where
    h1: "set_color h (Some w) RB_RED = Some h1" "rrep h1 (plug k (Br c t p (Br RB_RED sl w sr)))" by auto
  have rep0: "rrep h (plug (LH c p s # k) t)" using rep by simp
  have "\<not> is_red h (rtop t)" "rtop t \<noteq> rbh_root h"
    using is_red_top [OF rep0] hole_not_root [OF rep0] t by auto
  moreover have "\<not> is_red h (rtop sl)" "\<not> is_red h (rtop sr)"
    using is_red_top [of h "LH RB_BLACK w sr # RH c t p # k" sl] is_red_top [of h "RH RB_BLACK sl w # RH c t p # k" sr]
      rep s b by auto
  moreover have "rtop t \<noteq> Some w" "Some w \<noteq> rtop t"
    using rep s top_neq [of w t] by (auto simp: rrep_plug)
  ultimately have "RB_REMOVE_COLOR_loop h (Some p) (rtop t) = RB_REMOVE_COLOR_loop h1 (ctop k) (Some p)"
    using rb_access [OF rep] rb_access [of h "RH c t p # k" RB_BLACK sl w sr] rep s h1(1) rb_access(3) [OF h1(2)]
    by (subst RB_REMOVE_COLOR_loop.simps) simp
  with h1(2) show ?thesis by blast
qed

lemma remove_left_final:
  assumes "rrep h (plug k (Br c t p (Br cw A v (Br cz B z D))))"
  shows "\<exists>h1 h2 h3 h4. set_color h (Some v) c = Some h1 \<and> set_color h1 (Some p) RB_BLACK = Some h2 \<and>
    RB_RIGHT h2 (Some v) = Some (Some z) \<and> set_color h2 (Some z) RB_BLACK = Some h3 \<and>
    RB_ROTATE_LEFT h3 (Some p) = Some h4 \<and> rrep h4 (plug k (Br c (Br RB_BLACK t p A) v (Br RB_BLACK B z D)))"
proof -
  from set_color_spec [of h "RH c t p # k" cw A v "Br cz B z D" c] assms obtain h1 where
    h1: "set_color h (Some v) c = Some h1" "rrep h1 (plug k (Br c t p (Br c A v (Br cz B z D))))" by auto
  from set_color_spec [OF h1(2), of RB_BLACK] obtain h2 where
    h2: "set_color h1 (Some p) RB_BLACK = Some h2" "rrep h2 (plug k (Br RB_BLACK t p (Br c A v (Br cz B z D))))" by blast
  from set_color_spec [of h2 "RH c A v # RH RB_BLACK t p # k" cz B z D RB_BLACK] h2(2) obtain h3 where
    h3: "set_color h2 (Some z) RB_BLACK = Some h3" "rrep h3 (plug k (Br RB_BLACK t p (Br c A v (Br RB_BLACK B z D))))" by auto
  from RB_ROTATE_LEFT_spec [OF h3(2)] h1 h2 h3 show ?thesis
    using rb_access [of h2 "RH RB_BLACK t p # k" c A v "Br cz B z D"] by auto
qed

lemma remove_left_far_nephew:
  assumes rep: "rrep h (plug k (Br c t p s))" and t: "col t = RB_BLACK"
    and s: "s = Br RB_BLACK A w (Br RB_RED B z D)"
  shows "\<exists>h1. RB_REMOVE_COLOR_loop h (Some p) (rtop t) = Some (h1, rbh_root h1) \<and>
    rrep h1 (plug k (Br c (Br RB_BLACK t p A) w (Br RB_BLACK B z D)))"
proof -
  from remove_left_final [OF rep [unfolded s]] obtain h1 h2 h3 h4 where
    h: "set_color h (Some w) c = Some h1" "set_color h1 (Some p) RB_BLACK = Some h2"
      "RB_RIGHT h2 (Some w) = Some (Some z)" "set_color h2 (Some z) RB_BLACK = Some h3"
      "RB_ROTATE_LEFT h3 (Some p) = Some h4" "rrep h4 (plug k (Br c (Br RB_BLACK t p A) w (Br RB_BLACK B z D)))" by blast
  have rep0: "rrep h (plug (LH c p s # k) t)" using rep by simp
  have "\<not> is_red h (rtop t)" "rtop t \<noteq> rbh_root h"
    using is_red_top [OF rep0] hole_not_root [OF rep0] t by auto
  moreover have "is_red h (Some z)"
    using is_red_top [of h "RH RB_BLACK A w # RH c t p # k" "Br RB_RED B z D"] rep s by simp
  moreover have "rtop t \<noteq> Some w" "Some w \<noteq> rtop t"
    using rep s top_neq [of w t] by (auto simp: rrep_plug)
  ultimately have "RB_REMOVE_COLOR_loop h (Some p) (rtop t) = Some (h4, rbh_root h4)"
    using rb_access [OF rep] rb_access [of h "RH c t p # k" RB_BLACK A w "Br RB_RED B z D"] rep s h(1-5)
    by (subst RB_REMOVE_COLOR_loop.simps) simp
  with h(6) show ?thesis by blast
qed

lemma remove_left_near_nephew:
  assumes rep: "rrep h (plug k (Br c t p s))" and t: "col t = RB_BLACK"
    and s: "s = Br RB_BLACK (Br RB_RED a v b) w far" and far: "col far = RB_BLACK"
  shows "\<exists>h1. RB_REMOVE_COLOR_loop h (Some p) (rtop t) = Some (h1, rbh_root h1) \<and>
    rrep h1 (plug k (Br c (Br RB_BLACK t p a) v (Br RB_BLACK b w far)))"
proof -
  from set_color_spec [of h "LH RB_BLACK w far # RH c t p # k" RB_RED a v b RB_BLACK] rep s obtain h1 where
    h1: "set_color h (Some v) RB_BLACK = Some h1" "rrep h1 (plug k (Br c t p (Br RB_BLACK (Br RB_BLACK a v b) w far)))" by auto
  from set_color_spec [of h1 "RH c t p # k" RB_BLACK "Br RB_BLACK a v b" w far RB_RED] h1(2) obtain h2 where
    h2: "set_color h1 (Some w) RB_RED = Some h2" "rrep h2 (plug (RH c t p # k) (Br RB_RED (Br RB_BLACK a v b) w far))" by auto
  from RB_ROTATE_RIGHT_spec [OF h2(2)] obtain h3 where
    h3: "RB_ROTATE_RIGHT h2 (Some w) = Some h3" "rrep h3 (plug k (Br c t p (Br RB_BLACK a v (Br RB_RED b w far))))" by auto
  from remove_left_final [OF h3(2)] obtain g1 g2 g3 g4 where
    g: "set_color h3 (Some v) c = Some g1" "set_color g1 (Some p) RB_BLACK = Some g2"
      "RB_RIGHT g2 (Some v) = Some (Some w)" "set_color g2 (Some w) RB_BLACK = Some g3"
      "RB_ROTATE_LEFT g3 (Some p) = Some g4" "rrep g4 (plug k (Br c (Br RB_BLACK t p a) v (Br RB_BLACK b w far)))" by blast
  have rep0: "rrep h (plug (LH c p s # k) t)" using rep by simp
  have "\<not> is_red h (rtop t)" "rtop t \<noteq> rbh_root h"
    using is_red_top [OF rep0] hole_not_root [OF rep0] t by auto
  moreover have "is_red h (Some v)" "\<not> is_red h (rtop far)"
    using is_red_top [of h "LH RB_BLACK w far # RH c t p # k" "Br RB_RED a v b"]
      is_red_top [of h "RH RB_BLACK (Br RB_RED a v b) w # RH c t p # k" far] rep s far by simp_all
  moreover have "rtop t \<noteq> Some w" "Some w \<noteq> rtop t"
    using rep s top_neq [of w t] by (auto simp: rrep_plug)
  ultimately have "RB_REMOVE_COLOR_loop h (Some p) (rtop t) = Some (g4, rbh_root g4)"
    using rb_access [OF rep] rb_access [of h "RH c t p # k" RB_BLACK "Br RB_RED a v b" w far] rep s h1(1) h2(1) h3(1)
      rb_access [OF h3(2)] g(1-5)
    by (subst RB_REMOVE_COLOR_loop.simps) simp
  with g(6) show ?thesis by blast
qed

subsection \<open>The hole is a right child\<close>

lemma remove_right_red_sibling:
  assumes rep: "rrep h (plug k (Br c s p t))" and t: "col t = RB_BLACK"
    and s: "s = Br RB_RED far w near" and near: "near = Br RB_BLACK n1 v n2"
  shows "\<exists>h1. RB_REMOVE_COLOR_loop h (Some p) (rtop t) = RB_REMOVE_COLOR_loop h1 (Some p) (rtop t) \<and>
    rrep h1 (plug (RH RB_RED near p # RH RB_BLACK far w # k) t)"
proof -
  from SET_BLACKRED_spec [OF rep [unfolded s] disjI1 [OF conjI [OF refl refl]]] obtain h0 where
    h0: "RB_SET_BLACKRED h (Some w) (Some p) = Some h0" "rrep h0 (plug k (Br RB_RED (Br RB_BLACK far w near) p t))" by blast
  from RB_ROTATE_RIGHT_spec [OF h0(2)] obtain h1 where
    h1: "RB_ROTATE_RIGHT h0 (Some p) = Some h1" "rrep h1 (plug k (Br RB_BLACK far w (Br RB_RED near p t)))" by blast
  have rep0: "rrep h (plug (RH c s p # k) t)" and rep1: "rrep h1 (plug (RH RB_RED near p # RH RB_BLACK far w # k) t)"
    using rep h1(2) by simp_all
  have "RB_COLOR h (Some w) = Some RB_RED" "RB_COLOR h1 (Some v) = Some RB_BLACK"
    and ne: "rtop t \<noteq> Some w" "rtop t \<noteq> Some v" "Some w \<noteq> rtop t" "Some v \<noteq> rtop t"
    using rep h1(2) s near top_neq [of w t] top_neq [of v t] by (auto simp: rrep_plug RB_COLOR_def)
  moreover have "RB_RIGHT h (Some p) = Some (rtop t)" "RB_LEFT h (Some p) = Some (Some w)"
    "RB_RIGHT h1 (Some p) = Some (rtop t)" "RB_LEFT h1 (Some p) = Some (Some v)"
    using rb_access [OF rep] rb_access [of h1 "RH RB_BLACK far w # k" RB_RED near p t] h1(2) s near by simp_all
  moreover have "\<not> is_red h (rtop t)" "rtop t \<noteq> rbh_root h" "\<not> is_red h1 (rtop t)" "rtop t \<noteq> rbh_root h1"
    using is_red_top [OF rep0] is_red_top [OF rep1] hole_not_root [OF rep0] hole_not_root [OF rep1] t by auto
  ultimately have "RB_REMOVE_COLOR_loop h (Some p) (rtop t) = RB_REMOVE_COLOR_loop h1 (Some p) (rtop t)"
    using h0(1) h1(1) by (subst (1 2) RB_REMOVE_COLOR_loop.simps) simp
  with rep1 show ?thesis by blast
qed

lemma remove_right_black_nephews:
  assumes rep: "rrep h (plug k (Br c s p t))" and t: "col t = RB_BLACK"
    and s: "s = Br RB_BLACK sl w sr" and b: "col sl = RB_BLACK" "col sr = RB_BLACK"
  shows "\<exists>h1. RB_REMOVE_COLOR_loop h (Some p) (rtop t) = RB_REMOVE_COLOR_loop h1 (ctop k) (Some p) \<and>
    rrep h1 (plug k (Br c (Br RB_RED sl w sr) p t))"
proof -
  from set_color_spec [of h "LH c p t # k" RB_BLACK sl w sr RB_RED] rep s obtain h1 where
    h1: "set_color h (Some w) RB_RED = Some h1" "rrep h1 (plug k (Br c (Br RB_RED sl w sr) p t))" by auto
  have rep0: "rrep h (plug (RH c s p # k) t)" using rep by simp
  have "\<not> is_red h (rtop t)" "rtop t \<noteq> rbh_root h"
    using is_red_top [OF rep0] hole_not_root [OF rep0] t by auto
  moreover have "\<not> is_red h (rtop sl)" "\<not> is_red h (rtop sr)"
    using is_red_top [of h "LH RB_BLACK w sr # LH c p t # k" sl] is_red_top [of h "RH RB_BLACK sl w # LH c p t # k" sr]
      rep s b by auto
  moreover have "rtop t \<noteq> Some w" "Some w \<noteq> rtop t"
    using rep s top_neq [of w t] by (auto simp: rrep_plug)
  ultimately have "RB_REMOVE_COLOR_loop h (Some p) (rtop t) = RB_REMOVE_COLOR_loop h1 (ctop k) (Some p)"
    using rb_access [OF rep] rb_access [of h "LH c p t # k" RB_BLACK sl w sr] rep s h1(1) rb_access(3) [OF h1(2)]
    by (subst RB_REMOVE_COLOR_loop.simps) simp
  with h1(2) show ?thesis by blast
qed

lemma remove_right_final:
  assumes "rrep h (plug k (Br c (Br cw (Br cz B z D) v A) p t))"
  shows "\<exists>h1 h2 h3 h4. set_color h (Some v) c = Some h1 \<and> set_color h1 (Some p) RB_BLACK = Some h2 \<and>
    RB_LEFT h2 (Some v) = Some (Some z) \<and> set_color h2 (Some z) RB_BLACK = Some h3 \<and>
    RB_ROTATE_RIGHT h3 (Some p) = Some h4 \<and> rrep h4 (plug k (Br c (Br RB_BLACK B z D) v (Br RB_BLACK A p t)))"
proof -
  from set_color_spec [of h "LH c p t # k" cw "Br cz B z D" v A c] assms obtain h1 where
    h1: "set_color h (Some v) c = Some h1" "rrep h1 (plug k (Br c (Br c (Br cz B z D) v A) p t))" by auto
  from set_color_spec [OF h1(2), of RB_BLACK] obtain h2 where
    h2: "set_color h1 (Some p) RB_BLACK = Some h2" "rrep h2 (plug k (Br RB_BLACK (Br c (Br cz B z D) v A) p t))" by blast
  from set_color_spec [of h2 "LH c v A # LH RB_BLACK p t # k" cz B z D RB_BLACK] h2(2) obtain h3 where
    h3: "set_color h2 (Some z) RB_BLACK = Some h3" "rrep h3 (plug k (Br RB_BLACK (Br c (Br RB_BLACK B z D) v A) p t))" by auto
  from RB_ROTATE_RIGHT_spec [OF h3(2)] h1 h2 h3 show ?thesis
    using rb_access [of h2 "LH RB_BLACK p t # k" c "Br cz B z D" v A] by auto
qed

lemma remove_right_far_nephew:
  assumes rep: "rrep h (plug k (Br c s p t))" and t: "col t = RB_BLACK"
    and s: "s = Br RB_BLACK (Br RB_RED B z D) w A"
  shows "\<exists>h1. RB_REMOVE_COLOR_loop h (Some p) (rtop t) = Some (h1, rbh_root h1) \<and>
    rrep h1 (plug k (Br c (Br RB_BLACK B z D) w (Br RB_BLACK A p t)))"
proof -
  from remove_right_final [OF rep [unfolded s]] obtain h1 h2 h3 h4 where
    h: "set_color h (Some w) c = Some h1" "set_color h1 (Some p) RB_BLACK = Some h2"
      "RB_LEFT h2 (Some w) = Some (Some z)" "set_color h2 (Some z) RB_BLACK = Some h3"
      "RB_ROTATE_RIGHT h3 (Some p) = Some h4" "rrep h4 (plug k (Br c (Br RB_BLACK B z D) w (Br RB_BLACK A p t)))" by blast
  have rep0: "rrep h (plug (RH c s p # k) t)" using rep by simp
  have "\<not> is_red h (rtop t)" "rtop t \<noteq> rbh_root h"
    using is_red_top [OF rep0] hole_not_root [OF rep0] t by auto
  moreover have "is_red h (Some z)"
    using is_red_top [of h "LH RB_BLACK w A # LH c p t # k" "Br RB_RED B z D"] rep s by simp
  moreover have "rtop t \<noteq> Some w" "Some w \<noteq> rtop t"
    using rep s top_neq [of w t] by (auto simp: rrep_plug)
  ultimately have "RB_REMOVE_COLOR_loop h (Some p) (rtop t) = Some (h4, rbh_root h4)"
    using rb_access [OF rep] rb_access [of h "LH c p t # k" RB_BLACK "Br RB_RED B z D" w A] rep s h(1-5)
    by (subst RB_REMOVE_COLOR_loop.simps) simp
  with h(6) show ?thesis by blast
qed

lemma remove_right_near_nephew:
  assumes rep: "rrep h (plug k (Br c s p t))" and t: "col t = RB_BLACK"
    and s: "s = Br RB_BLACK far w (Br RB_RED a v b)" and far: "col far = RB_BLACK"
  shows "\<exists>h1. RB_REMOVE_COLOR_loop h (Some p) (rtop t) = Some (h1, rbh_root h1) \<and>
    rrep h1 (plug k (Br c (Br RB_BLACK far w a) v (Br RB_BLACK b p t)))"
proof -
  from set_color_spec [of h "RH RB_BLACK far w # LH c p t # k" RB_RED a v b RB_BLACK] rep s obtain h1 where
    h1: "set_color h (Some v) RB_BLACK = Some h1" "rrep h1 (plug k (Br c (Br RB_BLACK far w (Br RB_BLACK a v b)) p t))" by auto
  from set_color_spec [of h1 "LH c p t # k" RB_BLACK far w "Br RB_BLACK a v b" RB_RED] h1(2) obtain h2 where
    h2: "set_color h1 (Some w) RB_RED = Some h2" "rrep h2 (plug (LH c p t # k) (Br RB_RED far w (Br RB_BLACK a v b)))" by auto
  from RB_ROTATE_LEFT_spec [OF h2(2)] obtain h3 where
    h3: "RB_ROTATE_LEFT h2 (Some w) = Some h3" "rrep h3 (plug k (Br c (Br RB_BLACK (Br RB_RED far w a) v b) p t))" by auto
  from remove_right_final [OF h3(2)] obtain g1 g2 g3 g4 where
    g: "set_color h3 (Some v) c = Some g1" "set_color g1 (Some p) RB_BLACK = Some g2"
      "RB_LEFT g2 (Some v) = Some (Some w)" "set_color g2 (Some w) RB_BLACK = Some g3"
      "RB_ROTATE_RIGHT g3 (Some p) = Some g4" "rrep g4 (plug k (Br c (Br RB_BLACK far w a) v (Br RB_BLACK b p t)))" by blast
  have rep0: "rrep h (plug (RH c s p # k) t)" using rep by simp
  have "\<not> is_red h (rtop t)" "rtop t \<noteq> rbh_root h"
    using is_red_top [OF rep0] hole_not_root [OF rep0] t by auto
  moreover have "is_red h (Some v)" "\<not> is_red h (rtop far)"
    using is_red_top [of h "RH RB_BLACK far w # LH c p t # k" "Br RB_RED a v b"]
      is_red_top [of h "LH RB_BLACK w (Br RB_RED a v b) # LH c p t # k" far] rep s far by simp_all
  moreover have "rtop t \<noteq> Some w" "Some w \<noteq> rtop t"
    using rep s top_neq [of w t] by (auto simp: rrep_plug)
  ultimately have "RB_REMOVE_COLOR_loop h (Some p) (rtop t) = Some (g4, rbh_root g4)"
    using rb_access [OF rep] rb_access [of h "LH c p t # k" RB_BLACK far w "Br RB_RED a v b"] rep s h1(1) h2(1) h3(1)
      rb_access [OF h3(2)] g(1-5)
    by (subst RB_REMOVE_COLOR_loop.simps) simp
  with g(6) show ?thesis by blast
qed

subsection \<open>Both sides together\<close>

lemma remove_left_black_sibling:
  assumes rep: "rrep h (plug (LH c p s # k) t)" and t: "col t = RB_BLACK" "rb_inv t"
    and kin: "kinv (LH c p s # k) (Suc (bh t))" and s: "col s = RB_BLACK"
    and IH: "\<And>h1 t1. rrep h1 (plug k t1) \<Longrightarrow> kinv k (Suc (bh t1)) \<Longrightarrow> rb_inv (paint RB_BLACK t1) \<Longrightarrow>
      col t1 = c \<Longrightarrow> remove_fixed h1 k t1"
  shows "remove_fixed h (LH c p s # k) t"
proof -
  have rep': "rrep h (plug k (Br c t p s))" using rep by simp
  from kin s obtain sl w sr where s: "s = Br RB_BLACK sl w sr" by (cases s) auto
  consider (both) "col sl = RB_BLACK" "col sr = RB_BLACK" | (far) "col sr = RB_RED"
    | (near) "col sl = RB_RED" "col sr = RB_BLACK"
    by (cases "col sl"; cases "col sr") auto
  then show ?thesis
  proof cases
    case both
    from remove_left_black_nephews [OF rep' t(1) s both] obtain h1 where
      h1: "RB_REMOVE_COLOR_loop h (Some p) (rtop t) = RB_REMOVE_COLOR_loop h1 (ctop k) (Some p)"
        "rrep h1 (plug k (Br c t p (Br RB_RED sl w sr)))" by blast
    have "remove_fixed h1 k (Br c t p (Br RB_RED sl w sr))"
      by (rule IH [OF h1(2)]) (use kin s t both in auto)
    then show ?thesis by (rule remove_fixed_step [rotated]) (use h1(1) s in auto)
  next
    case far
    then obtain B z D where f: "sr = Br RB_RED B z D" by (rule col_redE)
    from remove_left_far_nephew [OF rep' t(1)] s f obtain h1 where
      h1: "RB_REMOVE_COLOR_loop h (Some p) (rtop t) = Some (h1, rbh_root h1)"
        "rrep h1 (plug k (Br c (Br RB_BLACK t p sl) w (Br RB_BLACK B z D)))" by blast
    then show ?thesis
      by (intro remove_fixed_done [of _ _ _ h1 k "Br c (Br RB_BLACK t p sl) w (Br RB_BLACK B z D)"])
        (use kin s f t in \<open>auto simp: rb_ok_plug\<close>)
  next
    case near
    then obtain a v b where n: "sl = Br RB_RED a v b" by (elim col_redE)
    from remove_left_near_nephew [OF rep' t(1), of a v b w sr] s n near(2) obtain h1 where
      h1: "RB_REMOVE_COLOR_loop h (Some p) (rtop t) = Some (h1, rbh_root h1)"
        "rrep h1 (plug k (Br c (Br RB_BLACK t p a) v (Br RB_BLACK b w sr)))" by blast
    then show ?thesis
      by (intro remove_fixed_done [of _ _ _ h1 k "Br c (Br RB_BLACK t p a) v (Br RB_BLACK b w sr)"])
        (use kin s n near t in \<open>auto simp: rb_ok_plug\<close>)
  qed
qed

lemma remove_left_sibling:
  assumes rep: "rrep h (plug (LH c p s # k) t)" and t: "col t = RB_BLACK" "rb_inv t"
    and kin: "kinv (LH c p s # k) (Suc (bh t))"
    and IH: "\<And>h1 t1. rrep h1 (plug k t1) \<Longrightarrow> kinv k (Suc (bh t1)) \<Longrightarrow> rb_inv (paint RB_BLACK t1) \<Longrightarrow>
      remove_fixed h1 k t1"
  shows "remove_fixed h (LH c p s # k) t"
proof (cases "col s")
  case RB_BLACK
  then show ?thesis by (intro remove_left_black_sibling [OF rep t kin] IH)
next
  case RB_RED
  then obtain sl w sr where s: "s = Br RB_RED sl w sr" by (rule col_redE)
  with kin have c: "c = RB_BLACK" by (cases c) auto
  from kin s obtain n1 v n2 where near: "sl = Br RB_BLACK n1 v n2" by (cases sl) auto
  have "rrep h (plug k (Br RB_BLACK t p s))" using rep c by simp
  from remove_left_red_sibling [OF this t(1) s near] obtain h1 where
    h1: "RB_REMOVE_COLOR_loop h (Some p) (rtop t) = RB_REMOVE_COLOR_loop h1 (Some p) (rtop t)"
      "rrep h1 (plug (LH RB_RED p sl # LH RB_BLACK w sr # k) t)" by blast
  have "remove_fixed h1 (LH RB_RED p sl # LH RB_BLACK w sr # k) t"
    by (rule remove_left_black_sibling [OF h1(2) t])
      (use kin s c near in \<open>auto intro: remove_fixed_red\<close>)
  then show ?thesis by (rule remove_fixed_step [rotated]) (use h1(1) s c in auto)
qed

lemma remove_right_black_sibling:
  assumes rep: "rrep h (plug (RH c s p # k) t)" and t: "col t = RB_BLACK" "rb_inv t"
    and kin: "kinv (RH c s p # k) (Suc (bh t))" and s: "col s = RB_BLACK"
    and IH: "\<And>h1 t1. rrep h1 (plug k t1) \<Longrightarrow> kinv k (Suc (bh t1)) \<Longrightarrow> rb_inv (paint RB_BLACK t1) \<Longrightarrow>
      col t1 = c \<Longrightarrow> remove_fixed h1 k t1"
  shows "remove_fixed h (RH c s p # k) t"
proof -
  have rep': "rrep h (plug k (Br c s p t))" using rep by simp
  from kin s obtain sl w sr where s: "s = Br RB_BLACK sl w sr" by (cases s) auto
  consider (both) "col sl = RB_BLACK" "col sr = RB_BLACK" | (far) "col sl = RB_RED"
    | (near) "col sr = RB_RED" "col sl = RB_BLACK"
    by (cases "col sl"; cases "col sr") auto
  then show ?thesis
  proof cases
    case both
    from remove_right_black_nephews [OF rep' t(1) s both] obtain h1 where
      h1: "RB_REMOVE_COLOR_loop h (Some p) (rtop t) = RB_REMOVE_COLOR_loop h1 (ctop k) (Some p)"
        "rrep h1 (plug k (Br c (Br RB_RED sl w sr) p t))" by blast
    have "remove_fixed h1 k (Br c (Br RB_RED sl w sr) p t)"
      by (rule IH [OF h1(2)]) (use kin s t both in auto)
    then show ?thesis by (rule remove_fixed_step [rotated]) (use h1(1) s in auto)
  next
    case far
    then obtain B z D where f: "sl = Br RB_RED B z D" by (rule col_redE)
    from remove_right_far_nephew [OF rep' t(1)] s f obtain h1 where
      h1: "RB_REMOVE_COLOR_loop h (Some p) (rtop t) = Some (h1, rbh_root h1)"
        "rrep h1 (plug k (Br c (Br RB_BLACK B z D) w (Br RB_BLACK sr p t)))" by blast
    then show ?thesis
      by (intro remove_fixed_done [of _ _ _ h1 k "Br c (Br RB_BLACK B z D) w (Br RB_BLACK sr p t)"])
        (use kin s f t in \<open>auto simp: rb_ok_plug\<close>)
  next
    case near
    then obtain a v b where n: "sr = Br RB_RED a v b" by (elim col_redE)
    from remove_right_near_nephew [OF rep' t(1), of sl w a v b] s n near(2) obtain h1 where
      h1: "RB_REMOVE_COLOR_loop h (Some p) (rtop t) = Some (h1, rbh_root h1)"
        "rrep h1 (plug k (Br c (Br RB_BLACK sl w a) v (Br RB_BLACK b p t)))" by blast
    then show ?thesis
      by (intro remove_fixed_done [of _ _ _ h1 k "Br c (Br RB_BLACK sl w a) v (Br RB_BLACK b p t)"])
        (use kin s n near t in \<open>auto simp: rb_ok_plug\<close>)
  qed
qed

lemma remove_right_sibling:
  assumes rep: "rrep h (plug (RH c s p # k) t)" and t: "col t = RB_BLACK" "rb_inv t"
    and kin: "kinv (RH c s p # k) (Suc (bh t))"
    and IH: "\<And>h1 t1. rrep h1 (plug k t1) \<Longrightarrow> kinv k (Suc (bh t1)) \<Longrightarrow> rb_inv (paint RB_BLACK t1) \<Longrightarrow>
      remove_fixed h1 k t1"
  shows "remove_fixed h (RH c s p # k) t"
proof (cases "col s")
  case RB_BLACK
  then show ?thesis by (intro remove_right_black_sibling [OF rep t kin] IH)
next
  case RB_RED
  then obtain sl w sr where s: "s = Br RB_RED sl w sr" by (rule col_redE)
  with kin have c: "c = RB_BLACK" by (cases c) auto
  from kin s obtain n1 v n2 where near: "sr = Br RB_BLACK n1 v n2" by (cases sr) auto
  have "rrep h (plug k (Br RB_BLACK s p t))" using rep c by simp
  from remove_right_red_sibling [OF this t(1) s near] obtain h1 where
    h1: "RB_REMOVE_COLOR_loop h (Some p) (rtop t) = RB_REMOVE_COLOR_loop h1 (Some p) (rtop t)"
      "rrep h1 (plug (RH RB_RED sr p # RH RB_BLACK sl w # k) t)" by blast
  have "remove_fixed h1 (RH RB_RED sr p # RH RB_BLACK sl w # k) t"
    by (rule remove_right_black_sibling [OF h1(2) t])
      (use kin s c near in \<open>auto intro: remove_fixed_red\<close>)
  then show ?thesis by (rule remove_fixed_step [rotated]) (use h1(1) s c in auto)
qed

lemma REMOVE_COLOR_correct:
  assumes "rrep h (plug k t)" and "kinv k (Suc (bh t))" and "rb_inv (paint RB_BLACK t)"
  shows "remove_fixed h k t"
  using assms
proof (induction k arbitrary: h t)
  case Nil
  then show ?case by (intro remove_fixed_root) simp_all
next
  case (Cons b k)
  show ?case
  proof (cases "col t")
    case RB_RED
    with Cons.prems show ?thesis by (intro remove_fixed_red)
  next
    case RB_BLACK
    then have "rb_inv t" using Cons.prems(3) by (simp add: paint_col)
    with RB_BLACK Cons show ?thesis
      by (cases b) (auto intro: remove_left_sibling remove_right_sibling simp del: plug.simps kinv.simps)
  qed
qed

section \<open>Unlinking and moving the successor\<close>

lemma rb_unlink_spec:
  assumes rep: "rrep h (plug k (Br c l a r))" and t: "l = Tip \<and> t = r \<or> r = Tip \<and> t = l"
  shows "\<exists>h'. rb_unlink h (Some a) (rtop t) = Some (h', ctop k, c) \<and> rrep h' (plug k t) \<and> rbe h' a = rbe h a"
proof -
  define h1 where "h1 = reparent h t (ctop k)"
  define h2 where "h2 = set_hole h1 k (rtop t)"
  from rep t have d: "distinct (cl k @ addrs t @ cr k)" "a \<notin> set (cl k @ addrs t @ cr k)"
    and cx: "rctx h k (Some a)" and tr: "rtree h (Some a) t" by (auto simp: rrep_plug)
  have dj: "\<forall>b\<in>set (cl k) \<union> set (cr k). b \<notin> set (addrs t)" using d by auto
  then have c1: "rctx h1 k (Some a)"
    using cx rctx_cong [of k h1 h] by (simp add: h1_def rbe_reparent)
  then have "replace_child h1 (ctop k) (Some a) (rtop t) = Some h2" and c2: "rctx h2 k (rtop t)"
    unfolding h2_def using d by (auto intro!: replace_child_hole rctx_set_hole)
  then have "rb_unlink h (Some a) (rtop t) = Some (h2, ctop k, c)"
    using rb_access [OF rep] set_parent_top [of t h "ctop k", folded h1_def]
    by (simp only: rb_unlink_def Option.bind.simps)
  moreover have "rtree h1 (ctop k) t"
    unfolding h1_def using tr d by (intro rtree_reparent) auto
  then have "rtree h2 (ctop k) t"
    unfolding h2_def using d by (subst rtree_set_hole) auto
  moreover have "rbe h2 a = rbe h a"
    unfolding h2_def h1_def using d by (simp add: rbe_set_hole rbe_reparent)
  ultimately show ?thesis using c2 d by (auto simp: rrep_plug)
qed

lemma rb_leftmost_spec:
  assumes "rrep h (plug k t)" and "t \<noteq> Tip"
  shows "\<exists>kr c y r. t = plug kr (Br c Tip y r) \<and> cl kr = [] \<and> rb_leftmost h (rtop t) = Some (Some y)"
  using assms
proof (induction t arbitrary: k)
  case Tip
  then show ?case by simp
next
  case (Br c l a r)
  note acc = rb_access [OF Br.prems(1)]
  show ?case
  proof (cases "l = Tip")
    case True
    with acc show ?thesis
      by (subst rb_leftmost.simps) (auto intro!: exI [of _ "[]"])
  next
    case False
    with Br.IH(1) [of "LH c a r # k"] Br.prems obtain kr cy y ry where
      *: "l = plug kr (Br cy Tip y ry)" "cl kr = []" "rb_leftmost h (rtop l) = Some (Some y)" by auto
    then have "plug (kr @ [LH c a r]) (Br cy Tip y ry) = Br c l a r" "cl (kr @ [LH c a r]) = []"
      by (simp_all add: plug_append)
    moreover have "rb_leftmost h (Some a) = Some (Some y)"
      using acc False * by (subst rb_leftmost.simps) auto
    ultimately show ?thesis by (metis rtop.simps(2))
  qed
qed

text \<open>The node \<open>y\<close> takes over the entry and the neighbours of \<open>x\<close>.\<close>

lemma transplant_spec:
  assumes rep: "rrep h (plug k (Br c l x r))" and y: "y \<notin> set (cl k @ addrs l @ x # addrs r @ cr k)"
    and l: "l \<noteq> Tip"
  shows "\<exists>h1 h2 h3 h4. upd_entry (\<lambda>_. rbe h x) h (Some y) = Some h1 \<and>
    RB_PARENT h1 (Some x) = Some (ctop k) \<and> replace_child h1 (ctop k) (Some x) (Some y) = Some h2 \<and>
    RB_LEFT h2 (Some x) = Some (rtop l) \<and> set_parent h2 (rtop l) (Some y) = Some h3 \<and>
    RB_RIGHT h3 (Some x) = Some (rtop r) \<and>
    (if rtop r \<noteq> None then set_parent h3 (rtop r) (Some y) else Some h3) = Some h4 \<and>
    rrep h4 (plug k (Br c l y r))"
proof -
  define h1 where "h1 = h\<lparr>rbe := (rbe h)(y := rbe h x)\<rparr>"
  define h2 where "h2 = set_hole h1 k (Some y)"
  define h3 where "h3 = reparent h2 l (Some y)"
  define h4 where "h4 = reparent h3 r (Some y)"
  from rep have d: "distinct (cl k @ (addrs l @ x # addrs r) @ cr k)" and cx: "rctx h k (Some x)"
    and x: "rbe h x = \<lparr>rbe_left = rtop l, rbe_right = rtop r, rbe_parent = ctop k, rbe_color = c\<rparr>"
    and lr: "rtree h (Some x) l" "rtree h (Some x) r" by (auto simp: rrep_plug)
  have c1: "rctx h1 k (Some x)" using cx y by (simp add: h1_def)
  then have rc: "replace_child h1 (ctop k) (Some x) (Some y) = Some h2" and c2: "rctx h2 k (Some y)"
    unfolding h2_def using d by (auto intro!: replace_child_hole rctx_set_hole)
  have x2: "rbe h2 x = rbe h x" "rbe h2 y = rbe h x"
    unfolding h2_def using d y by (auto simp: rbe_set_hole h1_def)
  have x3: "rbe h3 x = rbe h x" "rbe h4 y = rbe h x"
    using x2 d y by (simp_all add: h3_def h4_def rbe_reparent)
  have "set (addrs l) \<inter> (set (cl k) \<union> set (cr k)) = {}" "set (addrs r) \<inter> (set (cl k) \<union> set (cr k)) = {}"
    "y \<notin> set (addrs l)" "y \<notin> set (addrs r)" using d y by auto
  then have t2: "rtree h2 (Some x) l" "rtree h2 (Some x) r"
    using lr by (simp_all add: h2_def rtree_set_hole h1_def)
  have "rtree h3 (Some y) l" unfolding h3_def using t2 d by (intro rtree_reparent) auto
  moreover have "\<forall>a\<in>set (addrs l). a \<notin> set (addrs r)" "\<forall>a\<in>set (addrs r). a \<notin> set (addrs l)"
    using d by auto
  ultimately have l4: "rtree h4 (Some y) l" and r3: "rtree h3 (Some x) r"
    using t2 rtree_cong [of l h4 h3] rtree_cong [of r h3 h2]
    by (simp_all add: h4_def h3_def rbe_reparent)
  have r4: "rtree h4 (Some y) r" unfolding h4_def using r3 d by (intro rtree_reparent) auto
  have "\<forall>a\<in>set (cl k) \<union> set (cr k). a \<notin> set (addrs l) \<and> a \<notin> set (addrs r)" using d by auto
  then have c4: "rctx h4 k (Some y)"
    using c2 rctx_cong [of k h4 h2] by (simp add: h4_def h3_def rbe_reparent)
  have "rrep h4 (plug k (Br c l y r))"
    using c4 l4 r4 x3 x d y by (auto simp: rrep_plug)
  moreover have "set_parent h2 (rtop l) (Some y) = Some h3"
    using set_parent_top [of l h2 "Some y"] l by (simp add: h3_def)
  moreover have "(if rtop r \<noteq> None then set_parent h3 (rtop r) (Some y) else Some h3) = Some h4"
    unfolding h4_def by (rule set_parent_top)
  moreover have "upd_entry (\<lambda>_. rbe h x) h (Some y) = Some h1" "RB_PARENT h1 (Some x) = Some (ctop k)"
    "RB_LEFT h2 (Some x) = Some (rtop l)" "RB_RIGHT h3 (Some x) = Some (rtop r)"
    using x x2 x3 y by (auto simp: upd_entry_def h1_def rb_access_defs)
  ultimately show ?thesis using rc by blast
qed

lemma kinv_rename:
  "kinv (kr @ RH c l x # k) n = kinv (kr @ RH c l y # k) n"
  "ccol (kr @ RH c l x # k) = ccol (kr @ RH c l y # k)"
proof -
  show c: "ccol (kr @ RH c l x # k) = ccol (kr @ RH c l y # k)"
    by (cases kr rule: ccol.cases) auto
  show "kinv (kr @ RH c l x # k) n = kinv (kr @ RH c l y # k) n"
  proof (induction kr arbitrary: n)
    case Nil
    then show ?case by simp
  next
    case (Cons b kr)
    have "ccol (kr @ RH c l x # k) = ccol (kr @ RH c l y # k)"
      by (cases kr rule: ccol.cases) auto
    with Cons show ?case by (cases b) auto
  qed
qed

section \<open>Removal\<close>

text \<open>After unlinking a node of colour \<open>c\<close>, the tree is rebalanced if \<open>c\<close> is black.\<close>

lemma finish_removal:
  assumes "rrep h (plug k t)" and "kinv k (bh t + bl c)" and "rb_inv t"
    and "c = RB_RED \<Longrightarrow> col t = RB_BLACK \<and> k \<noteq> []"
  shows "\<exists>h' T. (if c = RB_BLACK then RB_REMOVE_COLOR h (ctop k) (rtop t) else Some h) = Some h' \<and>
    rrep h' T \<and> rb_ok T \<and> addrs T = addrs (plug k t)"
proof (cases c)
  case RB_BLACK
  have "rb_inv (paint RB_BLACK t)" using assms(3) by (cases t) auto
  with RB_BLACK REMOVE_COLOR_correct [of h k t] assms show ?thesis by (auto simp: remove_fixed_def)
next
  case RB_RED
  with assms have "rb_ok (plug k t)" by (simp add: rb_ok_plug)
  with RB_RED assms(1) show ?thesis by auto
qed

lemma RB_REMOVE_one_child:
  assumes rep: "rrep h (plug k (Br c l a r))" and ok: "rb_ok (plug k (Br c l a r))"
    and one: "l = Tip \<or> r = Tip"
  shows "\<exists>h' T. RB_REMOVE h a = Some h' \<and> rrep h' T \<and> rb_ok T \<and> addrs T = cl k @ addrs l @ addrs r @ cr k"
proof -
  define t where "t = (if l = Tip then r else l)"
  have t: "l = Tip \<and> t = r \<or> r = Tip \<and> t = l" using one by (auto simp: t_def)
  from rb_unlink_spec [OF rep t] obtain h1 where
    h1: "rb_unlink h (Some a) (rtop t) = Some (h1, ctop k, c)" "rrep h1 (plug k t)" by blast
  have bal: "kinv k (bh t + bl c)" "rb_inv t" "c = RB_RED \<Longrightarrow> col t = RB_BLACK \<and> k \<noteq> []"
    using ok t unfolding rb_ok_plug by auto
  from finish_removal [OF h1(2) bal] obtain h' T where
    fin: "(if c = RB_BLACK then RB_REMOVE_COLOR h1 (ctop k) (rtop t) else Some h1) = Some h'"
      "rrep h' T" "rb_ok T" "addrs T = cl k @ addrs t @ cr k" by auto
  have "RB_REMOVE h a = Some h'"
    using rb_access [OF rep] h1(1) fin(1) t_def one unfolding RB_REMOVE_def Let_def
    by (cases "l = Tip") auto
  with fin t show ?thesis by auto
qed

lemma RB_REMOVE_two_children:
  assumes rep: "rrep h (plug k (Br c l a r))" and ok: "rb_ok (plug k (Br c l a r))"
    and two: "l \<noteq> Tip" "r \<noteq> Tip"
  shows "\<exists>h' T. RB_REMOVE h a = Some h' \<and> rrep h' T \<and> rb_ok T \<and> addrs T = cl k @ addrs l @ addrs r @ cr k"
proof -
  from rb_leftmost_spec [of h "RH c l a # k" r] rep two obtain kr cy y ry where
    r: "r = plug kr (Br cy Tip y ry)" "cl kr = []" and min: "rb_leftmost h (rtop r) = Some (Some y)" by auto
  let ?kk = "kr @ RH c l a # k" and ?kk' = "kr @ RH c l y # k"
  have repy: "rrep h (plug ?kk (Br cy Tip y ry))" using rep r by (simp add: plug_append)
  from rb_unlink_spec [OF repy disjI1 [OF conjI [OF refl refl]]] obtain h1 where
    h1: "rb_unlink h (Some y) (rtop ry) = Some (h1, ctop ?kk, cy)" "rrep h1 (plug ?kk ry)"
      "rbe h1 y = rbe h y" by blast
  have yn: "y \<notin> set (cl k @ addrs l @ a # addrs (plug kr ry) @ cr k)"
    using repy r(2) unfolding rrep_plug by auto
  have "rrep h1 (plug k (Br c l a (plug kr ry)))" using h1(2) by (simp add: plug_append)
  from transplant_spec [OF this yn two(1)] obtain h2 h3 h4 h5 where
    tp: "upd_entry (\<lambda>_. rbe h1 a) h1 (Some y) = Some h2" "RB_PARENT h2 (Some a) = Some (ctop k)"
      "replace_child h2 (ctop k) (Some a) (Some y) = Some h3" "RB_LEFT h3 (Some a) = Some (rtop l)"
      "set_parent h3 (rtop l) (Some y) = Some h4" "RB_RIGHT h4 (Some a) = Some (rtop (plug kr ry))"
      "(if rtop (plug kr ry) \<noteq> None then set_parent h4 (rtop (plug kr ry)) (Some y) else Some h4) = Some h5"
      "rrep h5 (plug k (Br c l y (plug kr ry)))" by blast
  have rep5: "rrep h5 (plug ?kk' ry)" using tp(8) by (simp add: plug_append)
  have ep: "RB_PARENT h1 (Some y) = Some (ctop ?kk)"
    using rb_access(3) [OF repy] h1(3) by (simp add: RB_PARENT_def)
  have par: "(if ctop ?kk = Some a then Some y else ctop ?kk) = ctop ?kk'"
  proof (cases kr rule: ctop.cases)
    case (2 c' b r' k')
    with repy have "b \<noteq> a" unfolding rrep_plug by auto
    with 2 show ?thesis by simp
  next
    case (3 c' l' b k')
    with r(2) show ?thesis by simp
  qed simp
  have "rb_ok (plug ?kk (Br cy Tip y ry))" using ok r by (simp add: plug_append)
  then have bal: "kinv ?kk' (bh ry + bl cy)" "rb_inv ry" "cy = RB_RED \<Longrightarrow> col ry = RB_BLACK \<and> ?kk' \<noteq> []"
    unfolding rb_ok_plug using kinv_rename(1) [of kr c l a k _ y] kinv_rename(2) [of kr c l a k y] by auto
  from finish_removal [OF rep5 bal] obtain h' T where
    fin: "(if cy = RB_BLACK then RB_REMOVE_COLOR h5 (ctop ?kk') (rtop ry) else Some h5) = Some h'"
      "rrep h' T" "rb_ok T" "addrs T = addrs (plug ?kk' ry)" by auto
  have "RB_RIGHT h (Some y) = Some (rtop ry)" using rb_access [OF repy] by simp
  then have "RB_REMOVE h a = Some h'"
    using rb_access [OF rep] two min h1(1) ep tp(1-7) fin(1) par unfolding RB_REMOVE_def Let_def
    by (simp only: Option.bind.simps prod.case top_eq_None if_False if_True simp_thms)
  with fin r show ?thesis by auto
qed

lemma plug_at: "a \<in> set (addrs t) \<Longrightarrow> \<exists>k c l r. t = plug k (Br c l a r)"
proof (induction t)
  case Tip
  then show ?case by simp
next
  case (Br c l b r)
  then consider "a = b" | "a \<in> set (addrs l)" | "a \<in> set (addrs r)" by auto
  then show ?case
  proof cases
    case 1
    then show ?thesis by (metis plug.simps(1))
  next
    case 2
    with Br.IH(1) obtain k c' l' r' where "l = plug k (Br c' l' a r')" by blast
    then have "Br c l b r = plug (k @ [LH c b r]) (Br c' l' a r')" by (simp add: plug_append)
    then show ?thesis by blast
  next
    case 3
    with Br.IH(2) obtain k c' l' r' where "r = plug k (Br c' l' a r')" by blast
    then have "Br c l b r = plug (k @ [RH c l b]) (Br c' l' a r')" by (simp add: plug_append)
    then show ?thesis by blast
  qed
qed

lemma rb_index_REMOVE:
  assumes "rb_index key h (us @ a # vs)"
  shows "\<exists>h'. RB_REMOVE h a = Some h' \<and> rb_index key h' (us @ vs)"
proof -
  from assms obtain t where t: "rrep h t" "rb_ok t" "addrs t = us @ a # vs"
    and sorted: "key_sorted key (us @ a # vs)" by (auto simp: rb_index_def)
  from plug_at [of a t] t(3) obtain k c l r where p: "t = plug k (Br c l a r)" by auto
  have "(cl k @ addrs l) @ a # addrs r @ cr k = us @ a # vs" using t(3) p by simp
  moreover have "a \<notin> set (cl k @ addrs l)" "a \<notin> set (addrs r @ cr k)"
    using t(1) p by (auto simp: rrep_def)
  ultimately have eq: "cl k @ addrs l = us" "addrs r @ cr k = vs"
    using append_Cons_eq_iff [of a "cl k @ addrs l" "addrs r @ cr k" us vs] by auto
  from RB_REMOVE_one_child [of h k c l a r] RB_REMOVE_two_children [of h k c l a r] t p
  obtain h' T where "RB_REMOVE h a = Some h'" "rrep h' T" "rb_ok T" "addrs T = us @ vs"
    using eq by (cases "l = Tip \<or> r = Tip") auto
  moreover have "key_sorted key (us @ vs)" using sorted by auto
  ultimately show ?thesis by (auto simp: rb_index_def)
qed

end
