(* ===== verification/RB_Map.thy ===== *)
theory RB_Map
  imports RB_Remove
begin

text \<open>
  The contract of a red-black tree seen from outside: a finite map from keys to nodes. The
  locale \<open>ordered_index\<close> states what \<^verbatim>\<open>RB_FIND\<close>, \<^verbatim>\<open>RB_INSERT\<close> and \<^verbatim>\<open>RB_REMOVE\<close>
  promise to a client; its interpretation \<open>rbm\<close> discharges the promises for the pointer-level
  code of \<^verbatim>\<open>tree.h\<close>. The stream table of a session relies on this contract only.
\<close>

section \<open>The interface\<close>

text \<open>
  \<open>rep key h m\<close>: the tree \<open>h\<close>, whose node \<open>a\<close> has the key \<open>key a\<close>, holds the map \<open>m\<close>.
  A comparison \<open>cmp\<close> is given the nodes one at a time and says on which side of the probe
  each of them lies; \<open>cmp_ok key x cmp A\<close> says that it compares with the key \<open>x\<close>.
\<close>

locale ordered_index =
  fixes rep :: "(addr \<Rightarrow> 'k :: linorder) \<Rightarrow> 'h \<Rightarrow> ('k \<rightharpoonup> addr) \<Rightarrow> bool"
    and find :: "(addr \<Rightarrow> int option) \<Rightarrow> 'h \<Rightarrow> ptr option"
    and insert :: "(addr \<Rightarrow> int option) \<Rightarrow> 'h \<Rightarrow> addr \<Rightarrow> (ptr \<times> 'h) option"
    and remove :: "'h \<Rightarrow> addr \<Rightarrow> 'h option"
  assumes find_law: "rep key h m \<Longrightarrow> cmp_for key x cmp (ran m) \<Longrightarrow> find cmp h = Some (m x)"
    and insert_law: "rep key h m \<Longrightarrow> cmp_for key (key e) cmp (ran m) \<Longrightarrow> e \<notin> ran m \<Longrightarrow>
      \<exists>h'. insert cmp h e = Some (m (key e), h') \<and>
        (if m (key e) = None then rep key h' (m(key e \<mapsto> e)) else h' = h)"
    and remove_law: "rep key h m \<Longrightarrow> m (key a) = Some a \<Longrightarrow>
      \<exists>h'. remove h a = Some h' \<and> rep key h' (m(key a := None))"
    and key_law: "rep key h m \<Longrightarrow> m x = Some a \<Longrightarrow> key a = x"
    and rep_cong: "rep key h m \<Longrightarrow> \<forall>a\<in>ran m. key' a = key a \<Longrightarrow> rep key' h m"
begin

lemma ran_fresh: "rep key h m \<Longrightarrow> m (key e) = None \<Longrightarrow> e \<notin> ran m"
  using key_law by (fastforce simp: ran_def)

text \<open>What a lookup returns after an insertion, and after a removal.\<close>

lemma insert_find:
  assumes "rep key h m" and "cmp_for key (key e) cmp (ran m)" and "m (key e) = None"
    and "cmp_for key x cmp' (Set.insert e (ran m))"
  shows "\<exists>h'. insert cmp h e = Some (None, h') \<and> find cmp' h' = Some (if x = key e then Some e else m x)"
proof -
  from insert_law [OF assms(1,2) ran_fresh [OF assms(1,3)]] assms(3) obtain h' where
    h': "insert cmp h e = Some (None, h')" "rep key h' (m(key e \<mapsto> e))" by auto
  moreover have "ran (m(key e \<mapsto> e)) \<subseteq> Set.insert e (ran m)" by (auto simp: ran_def)
  with assms(4) have "cmp_for key x cmp' (ran (m(key e \<mapsto> e)))" by (auto simp: cmp_for_def)
  ultimately have "find cmp' h' = Some ((m(key e \<mapsto> e)) x)" by (intro find_law)
  with h'(1) show ?thesis by (cases "x = key e") auto
qed

lemma remove_find:
  assumes "rep key h m" and "m (key a) = Some a" and "cmp_for key x cmp (ran m)"
  shows "\<exists>h'. remove h a = Some h' \<and> find cmp h' = Some (if x = key a then None else m x)"
proof -
  from remove_law [OF assms(1,2)] obtain h' where
    h': "remove h a = Some h'" "rep key h' (m(key a := None))" by blast
  moreover have "ran (m(key a := None)) \<subseteq> ran m" by (auto simp: ran_def)
  with assms(3) have "cmp_for key x cmp (ran (m(key a := None)))" by (auto simp: cmp_for_def)
  ultimately have "find cmp h' = Some ((m(key a := None)) x)" by (intro find_law)
  with h'(1) show ?thesis by (cases "x = key a") auto
qed

text \<open>Removing a node just inserted gives the map back.\<close>

lemma insert_remove:
  assumes "rep key h m" and "cmp_for key (key e) cmp (ran m)" and "m (key e) = None"
  shows "\<exists>h' h''. insert cmp h e = Some (None, h') \<and> remove h' e = Some h'' \<and> rep key h'' m"
proof -
  from insert_law [OF assms(1,2) ran_fresh [OF assms(1,3)]] assms(3) obtain h' where
    h': "insert cmp h e = Some (None, h')" "rep key h' (m(key e \<mapsto> e))" by auto
  from remove_law [OF h'(2), of e] obtain h'' where
    "remove h' e = Some h''" "rep key h'' ((m(key e \<mapsto> e))(key e := None))" by auto
  moreover have "(m(key e \<mapsto> e))(key e := None) = m" using assms(3) by auto
  ultimately show ?thesis using h'(1) by auto
qed

end

section \<open>The macros of tree.h provide it\<close>

definition rb_map :: "(addr \<Rightarrow> 'k :: linorder) \<Rightarrow> rb_head \<Rightarrow> ('k \<rightharpoonup> addr) \<Rightarrow> bool" where
  "rb_map key h m \<longleftrightarrow> (\<exists>xs. rb_index key h xs \<and> m = lookup key xs)"

lemma ran_lookup: "key_sorted key xs \<Longrightarrow> ran (lookup key xs) = set xs"
proof (induction xs)
  case Nil
  then show ?case by (simp add: lookup_def ran_def)
next
  case (Cons a xs)
  have "lookup key xs (key a) = None" using Cons.prems by (auto simp: lookup_None_iff)
  moreover have "lookup key (a # xs) = (lookup key xs)(key a \<mapsto> a)" by (auto simp: lookup_Cons)
  ultimately have "ran (lookup key (a # xs)) = insert a (ran (lookup key xs))" by (metis ran_map_upd)
  with Cons show ?case by simp
qed

lemma lookup_insert:
  assumes "key_sorted key (us @ e # vs)"
  shows "lookup key (us @ e # vs) = (lookup key (us @ vs))(key e \<mapsto> e)"
proof
  fix x
  have "x = key e \<Longrightarrow> lookup key us x = None" using assms by (auto simp: lookup_None_iff)
  then show "lookup key (us @ e # vs) x = ((lookup key (us @ vs))(key e \<mapsto> e)) x"
    by (auto simp: lookup_append lookup_Cons split: option.splits)
qed

lemma lookup_remove:
  assumes "key_sorted key (us @ a # vs)"
  shows "lookup key (us @ vs) = (lookup key (us @ a # vs))(key a := None)"
proof -
  have "lookup key (us @ vs) (key a) = None" using assms by (auto simp: lookup_None_iff)
  then show ?thesis unfolding lookup_insert [OF assms] by auto
qed

lemma rb_index_sorted: "rb_index key h xs \<Longrightarrow> key_sorted key xs"
  by (auto simp: rb_index_def)

lemma rb_map_INIT: "rb_map key (RB_INIT h) Map.empty"
proof -
  have "rb_index key (RB_INIT h) []"
    unfolding rb_index_def by (rule exI [of _ Tip]) (simp add: RB_INIT_def rrep_def rb_ok_def)
  moreover have "lookup key [] = Map.empty" by (simp add: lookup_def fun_eq_iff)
  ultimately show ?thesis unfolding rb_map_def by metis
qed

lemma rb_map_INSERT:
  assumes "rb_map key h m" and "cmp_for key (key e) cmp (ran m)" and "e \<notin> ran m"
  shows "\<exists>h'. RB_INSERT cmp h e = Some (m (key e), h') \<and>
    (if m (key e) = None then rb_map key h' (m(key e \<mapsto> e)) else h' = h)"
proof -
  from assms(1) obtain xs where xs: "rb_index key h xs" "m = lookup key xs" by (auto simp: rb_map_def)
  then have "ran m = set xs" by (simp add: ran_lookup rb_index_sorted)
  with rb_index_INSERT [OF xs(1), of e cmp] assms(2,3) xs(2) obtain h' where
    h': "RB_INSERT cmp h e = Some (m (key e), h')"
    "case m (key e) of Some a \<Rightarrow> h' = h
      | None \<Rightarrow> \<exists>us vs. xs = us @ vs \<and> rb_index key h' (us @ e # vs)" by auto
  show ?thesis
  proof (cases "m (key e)")
    case None
    with h'(2) obtain us vs where u: "xs = us @ vs" "rb_index key h' (us @ e # vs)" by auto
    then have "lookup key (us @ e # vs) = m(key e \<mapsto> e)"
      using lookup_insert [OF rb_index_sorted] xs(2) by metis
    with None h'(1) u(2) show ?thesis unfolding rb_map_def by force
  next
    case (Some a)
    with h' show ?thesis by simp
  qed
qed

lemma rb_map_REMOVE:
  assumes "rb_map key h m" and "m (key a) = Some a"
  shows "\<exists>h'. RB_REMOVE h a = Some h' \<and> rb_map key h' (m(key a := None))"
proof -
  from assms(1) obtain xs where xs: "rb_index key h xs" "m = lookup key xs" by (auto simp: rb_map_def)
  with assms(2) lookup_SomeD [of key xs "key a" a] obtain us vs where u: "xs = us @ a # vs"
    by (metis split_list)
  with rb_index_REMOVE [of key h us a vs] xs(1) obtain h' where
    h': "RB_REMOVE h a = Some h'" "rb_index key h' (us @ vs)" by auto
  moreover have "lookup key (us @ vs) = m(key a := None)"
    using lookup_remove [of key us a vs] rb_index_sorted [OF xs(1)] u xs(2) by simp
  ultimately show ?thesis unfolding rb_map_def by metis
qed

interpretation rbm: ordered_index rb_map RB_FIND RB_INSERT RB_REMOVE
proof unfold_locales
  fix key :: "addr \<Rightarrow> 'k :: linorder" and h m x and cmp :: "addr \<Rightarrow> int option"
  assume "rb_map key h m" "cmp_for key x cmp (ran m)"
  then show "RB_FIND cmp h = Some (m x)"
    by (auto simp: rb_map_def ran_lookup rb_index_sorted intro: rb_index_FIND)
next
  fix key :: "addr \<Rightarrow> 'k :: linorder" and h m a x
  assume "rb_map key h m" "m x = Some a"
  then show "key a = x" by (auto simp: rb_map_def dest: lookup_SomeD)
next
  fix key key' :: "addr \<Rightarrow> 'k :: linorder" and h m
  assume "rb_map key h m" and eq: "\<forall>a\<in>ran m. key' a = key a"
  then obtain xs where xs: "rb_index key h xs" "m = lookup key xs" by (auto simp: rb_map_def)
  then have "\<forall>a\<in>set xs. key' a = key a" using eq by (simp add: ran_lookup rb_index_sorted)
  then have "key_sorted key' xs = key_sorted key xs" "lookup key' xs = lookup key xs"
    by (induction xs) (auto simp: lookup_Cons fun_eq_iff, auto simp: lookup_def)
  then have "rb_index key' h xs" "m = lookup key' xs" using xs by (auto simp: rb_index_def)
  then show "rb_map key' h m" by (auto simp: rb_map_def)
qed (fact rb_map_INSERT rb_map_REMOVE)+

end
