(* ===== verification/RB_Walk.thy ===== *)
theory RB_Walk
  imports RB_Map
begin

text \<open>
  The rest of the \<^verbatim>\<open>RB_\<close> interface of \<^verbatim>\<open>tree.h\<close>: the nearest match, the smallest and the
  largest node, the neighbours of a node and the iterations; and how far down a search can go
  in a balanced tree. The iterations are related to the in-order sequence of the tree, which
  for a search tree is the sequence of its nodes by increasing key.
\<close>

section \<open>The iterations\<close>

partial_function (option) rb_foreach_back :: "rb_head \<Rightarrow> ptr \<Rightarrow> addr list option" where
  "rb_foreach_back h x =
     (case x of
        None \<Rightarrow> Some []
      | Some a \<Rightarrow> do { y \<leftarrow> RB_PREV h x; r \<leftarrow> rb_foreach_back h y; Some (a # r) })"

definition RB_FOREACH_REVERSE :: "rb_head \<Rightarrow> addr list option" where
  "RB_FOREACH_REVERSE h = do { x \<leftarrow> RB_MINMAX h 1; rb_foreach_back h x }"

text \<open>
  \<^verbatim>\<open>RB_NEXT\<close> on a tree some of whose nodes have been freed: \<open>live\<close> tells the others, and
  reading a field of a freed node is undefined.
\<close>

definition live_left :: "(addr \<Rightarrow> bool) \<Rightarrow> rb_head \<Rightarrow> ptr \<Rightarrow> ptr option" where
  "live_left live h p = do { a \<leftarrow> p; _ \<leftarrow> c_assert (live a); RB_LEFT h p }"

definition live_right :: "(addr \<Rightarrow> bool) \<Rightarrow> rb_head \<Rightarrow> ptr \<Rightarrow> ptr option" where
  "live_right live h p = do { a \<leftarrow> p; _ \<leftarrow> c_assert (live a); RB_RIGHT h p }"

definition live_parent :: "(addr \<Rightarrow> bool) \<Rightarrow> rb_head \<Rightarrow> ptr \<Rightarrow> ptr option" where
  "live_parent live h p = do { a \<leftarrow> p; _ \<leftarrow> c_assert (live a); RB_PARENT h p }"

partial_function (option) live_leftmost :: "(addr \<Rightarrow> bool) \<Rightarrow> rb_head \<Rightarrow> ptr \<Rightarrow> ptr option" where
  "live_leftmost live h elm = do {
     l \<leftarrow> live_left live h elm;
     if l \<noteq> None then live_leftmost live h l else Some elm
   }"

partial_function (option) live_climb :: "(addr \<Rightarrow> bool) \<Rightarrow> rb_head \<Rightarrow> ptr \<Rightarrow> ptr option" where
  "live_climb live h elm = do {
     p \<leftarrow> live_parent live h elm;
     if p = None then Some None
     else do {
       r \<leftarrow> live_right live h p;
       if elm = r then live_climb live h p else Some p
     }
   }"

definition live_next :: "(addr \<Rightarrow> bool) \<Rightarrow> rb_head \<Rightarrow> ptr \<Rightarrow> ptr option" where
  "live_next live h elm = do {
     r \<leftarrow> live_right live h elm;
     if r \<noteq> None then live_leftmost live h r
     else do {
       p \<leftarrow> live_parent live h elm;
       pl \<leftarrow> (if p \<noteq> None then live_left live h p else Some None);
       if p \<noteq> None \<and> elm = pl then Some p else live_climb live h elm
     }
   }"

text \<open>\<^verbatim>\<open>RB_FIND\<close> when at most \<open>n\<close> nodes may be compared: \<open>None\<close> if that is not enough.\<close>

primrec find_within :: "nat \<Rightarrow> (addr \<Rightarrow> int option) \<Rightarrow> rb_head \<Rightarrow> ptr \<Rightarrow> ptr option" where
  "find_within 0 cmp h tmp = (if tmp = None then Some None else None)"
| "find_within (Suc n) cmp h tmp =
     (case tmp of
        None \<Rightarrow> Some None
      | Some a \<Rightarrow> do {
          cp \<leftarrow> cmp a;
          if cp < 0 then do { l \<leftarrow> RB_LEFT h tmp; find_within n cmp h l }
          else if cp > 0 then do { r \<leftarrow> RB_RIGHT h tmp; find_within n cmp h r }
          else Some tmp
        })"

section \<open>Neighbours\<close>

definition first :: "'a list \<Rightarrow> 'a option" where
  "first xs = (case xs of [] \<Rightarrow> None | x # _ \<Rightarrow> Some x)"

lemma first_simps [simp]: "first [] = None" "first (x # xs) = Some x"
  by (simp_all add: first_def)

lemma first_append: "first (xs @ ys) = (if xs = [] then first ys else first xs)"
  by (cases xs) simp_all

lemma leftmost_first:
  assumes "rrep h (plug k t)" and "t \<noteq> Tip"
  shows "rb_leftmost h (rtop t) = Some (first (addrs t))"
proof -
  from rb_leftmost_spec [OF assms] obtain kr c y r where
    "t = plug kr (Br c Tip y r)" "cl kr = []" "rb_leftmost h (rtop t) = Some (Some y)" by blast
  then show ?thesis by simp
qed

lemma rightmost_last:
  assumes "rrep h (plug k t)" and "t \<noteq> Tip"
  shows "rb_rightmost h (rtop t) = Some (first (rev (addrs t)))"
  using assms
proof (induction t arbitrary: k)
  case (Br c l a r)
  note acc = rb_access [OF Br.prems(1)]
  show ?case
  proof (cases "r = Tip")
    case True
    with acc show ?thesis by (subst rb_rightmost.simps) simp
  next
    case False
    then have "addrs r \<noteq> []" by (cases r) auto
    with Br.IH(2) [of "RH c l a # k"] Br.prems(1) False acc show ?thesis
      by (subst rb_rightmost.simps) (simp add: first_append)
  qed
qed simp

lemma climb_right_first:
  assumes "rrep h (plug k t)" and "rtop t = Some a"
  shows "rb_climb_right h (Some a) = Some (first (cr k))"
  using assms
proof (induction k arbitrary: t a)
  case Nil
  then show ?case using Nil by (cases t) (auto simp: rb_climb_right.simps RB_PARENT_def rrep_def)
next
  case (Cons x k)
  from Cons.prems obtain c l r where t: "t = Br c l a r" by (cases t) auto
  note acc = rb_access [OF Cons.prems(1) [unfolded t]]
  show ?case
  proof (cases x)
    case (LH d b s)
    have "rrep h (plug k (Br d t b s))" using Cons.prems(1) LH by simp
    moreover from this have "rtop s \<noteq> Some a" unfolding t by (auto simp: rrep_plug dest: top_in)
    ultimately show ?thesis using acc rb_access [of h k d t b s] LH by (subst rb_climb_right.simps) auto
  next
    case (RH d s b)
    have r: "rrep h (plug k (Br d s b t))" using Cons.prems(1) RH by simp
    from Cons.IH [OF this] show ?thesis using acc rb_access [OF r] RH Cons.prems(2)
      by (subst rb_climb_right.simps) auto
  qed
qed

lemma climb_left_last:
  assumes "rrep h (plug k t)" and "rtop t = Some a"
  shows "rb_climb_left h (Some a) = Some (first (rev (cl k)))"
  using assms
proof (induction k arbitrary: t a)
  case Nil
  then show ?case using Nil by (cases t) (auto simp: rb_climb_left.simps RB_PARENT_def rrep_def)
next
  case (Cons x k)
  from Cons.prems obtain c l r where t: "t = Br c l a r" by (cases t) auto
  note acc = rb_access [OF Cons.prems(1) [unfolded t]]
  show ?case
  proof (cases x)
    case (RH d s b)
    have "rrep h (plug k (Br d s b t))" using Cons.prems(1) RH by simp
    moreover from this have "rtop s \<noteq> Some a" unfolding t by (auto simp: rrep_plug dest: top_in)
    ultimately show ?thesis using acc rb_access [of h k d s b t] RH by (subst rb_climb_left.simps) auto
  next
    case (LH d b s)
    have r: "rrep h (plug k (Br d t b s))" using Cons.prems(1) LH by simp
    from Cons.IH [OF this] show ?thesis using acc rb_access [OF r] LH Cons.prems(2)
      by (subst rb_climb_left.simps) auto
  qed
qed

lemma parent_links:
  assumes "rrep h (plug k (Br c l a r))" and "ctop k = Some b"
  shows "RB_LEFT h (Some b) = Some (Some a) \<and> cr k \<noteq> [] \<and> first (cr k) = Some b \<and> RB_RIGHT h (Some b) \<noteq> Some (Some a) \<or>
    RB_RIGHT h (Some b) = Some (Some a) \<and> cl k \<noteq> [] \<and> first (rev (cl k)) = Some b \<and> RB_LEFT h (Some b) \<noteq> Some (Some a)"
proof (cases k rule: ctop.cases)
  case (2 d y s k')
  with assms have "rrep h (plug k' (Br d (Br c l a r) b s))" by simp
  moreover from this have "rtop s \<noteq> Some a" by (auto simp: rrep_plug dest: top_in)
  ultimately show ?thesis using rb_access [of h k' d "Br c l a r" b s] 2 assms(2) by auto
next
  case (3 d s y k')
  with assms have "rrep h (plug k' (Br d s b (Br c l a r)))" by simp
  moreover from this have "rtop s \<noteq> Some a" by (auto simp: rrep_plug dest: top_in)
  ultimately show ?thesis using rb_access [of h k' d s b "Br c l a r"] 3 assms(2) by auto
qed (use assms in simp)

lemma RB_NEXT_plug:
  assumes "rrep h (plug k (Br c l a r))"
  shows "RB_NEXT h (Some a) = Some (first (addrs r @ cr k))"
proof (cases "r = Tip")
  case False
  then have "addrs r \<noteq> []" by (cases r) auto
  with leftmost_first [of h "RH c l a # k" r] False rb_access [OF assms] assms show ?thesis
    by (simp add: RB_NEXT_def first_append)
next
  case True
  note c = climb_right_first [OF assms rtop.simps(2)] and acc = rb_access [OF assms]
  show ?thesis
  proof (cases "ctop k")
    case None
    with True acc c show ?thesis by (simp add: RB_NEXT_def)
  next
    case (Some b)
    obtain pl where "RB_LEFT h (Some b) = Some pl" by (simp add: RB_LEFT_def)
    with parent_links [OF assms Some] True acc c Some show ?thesis by (elim disjE) (auto simp: RB_NEXT_def)
  qed
qed

lemma RB_PREV_plug:
  assumes "rrep h (plug k (Br c l a r))"
  shows "RB_PREV h (Some a) = Some (first (rev (cl k @ addrs l)))"
proof (cases "l = Tip")
  case False
  then have "addrs l \<noteq> []" by (cases l) auto
  with rightmost_last [of h "LH c a r # k" l] False rb_access [OF assms] assms show ?thesis
    by (simp add: RB_PREV_def first_append)
next
  case True
  note c = climb_left_last [OF assms rtop.simps(2)] and acc = rb_access [OF assms]
  show ?thesis
  proof (cases "ctop k")
    case None
    with True acc c show ?thesis by (simp add: RB_PREV_def)
  next
    case (Some b)
    obtain pr where "RB_RIGHT h (Some b) = Some pr" by (simp add: RB_RIGHT_def)
    with parent_links [OF assms Some] True acc c Some show ?thesis by (elim disjE) (auto simp: RB_PREV_def)
  qed
qed

text \<open>The place of a node in the sequence is its place in the tree.\<close>

lemma at_place:
  assumes "rrep h t" and "addrs t = us @ a # vs"
  obtains k c l r where "t = plug k (Br c l a r)" "us = cl k @ addrs l" "vs = addrs r @ cr k"
proof -
  from plug_at [of a t] assms(2) obtain k c l r where p: "t = plug k (Br c l a r)" by auto
  have "(cl k @ addrs l) @ a # addrs r @ cr k = us @ a # vs" using assms(2) p by simp
  moreover have "a \<notin> set (cl k @ addrs l)" "a \<notin> set (addrs r @ cr k)" using assms(1) p by (auto simp: rrep_def)
  ultimately have "us = cl k @ addrs l" "vs = addrs r @ cr k"
    using append_Cons_eq_iff [of a "cl k @ addrs l" "addrs r @ cr k" us vs] by auto
  with p that show thesis by blast
qed

lemma RB_NEXT_spec:
  assumes "rrep h t" and "addrs t = us @ a # vs"
  shows "RB_NEXT h (Some a) = Some (first vs)"
  using RB_NEXT_plug at_place [OF assms] assms(1) by metis

lemma RB_PREV_spec:
  assumes "rrep h t" and "addrs t = us @ a # vs"
  shows "RB_PREV h (Some a) = Some (first (rev us))"
  using RB_PREV_plug at_place [OF assms] assms(1) by metis

section \<open>Iterations visit the nodes in order\<close>

lemma MIN_loop:
  assumes "rrep h (plug k t)"
  shows "RB_MINMAX_loop h (- 1) (rtop t) p = Some (if t = Tip then p else first (addrs t))"
  using assms
proof (induction t arbitrary: k p)
  case (Br c l a r)
  from Br.IH(1) [of "LH c a r # k"] Br.prems have
    "RB_MINMAX_loop h (- 1) (rtop l) (Some a) = Some (if l = Tip then Some a else first (addrs l))" by simp
  moreover have "l \<noteq> Tip \<Longrightarrow> addrs l \<noteq> []" by (cases l) auto
  ultimately show ?case using rb_access [OF Br.prems]
    by (subst RB_MINMAX_loop.simps) (auto simp: first_append)
qed (simp add: RB_MINMAX_loop.simps)

lemma MAX_loop:
  assumes "rrep h (plug k t)"
  shows "RB_MINMAX_loop h 1 (rtop t) p = Some (if t = Tip then p else first (rev (addrs t)))"
  using assms
proof (induction t arbitrary: k p)
  case (Br c l a r)
  from Br.IH(2) [of "RH c l a # k"] Br.prems have
    "RB_MINMAX_loop h 1 (rtop r) (Some a) = Some (if r = Tip then Some a else first (rev (addrs r)))" by simp
  moreover have "r \<noteq> Tip \<Longrightarrow> addrs r \<noteq> []" by (cases r) auto
  ultimately show ?case using rb_access [OF Br.prems]
    by (subst RB_MINMAX_loop.simps) (auto simp: first_append)
qed (simp add: RB_MINMAX_loop.simps)

lemma RB_MINMAX_spec:
  assumes "rrep h t"
  shows "RB_MINMAX h (- 1) = Some (first (addrs t))" "RB_MINMAX h 1 = Some (first (rev (addrs t)))"
  using MIN_loop [of h "[]" t None] MAX_loop [of h "[]" t None] assms
  by (auto simp: RB_MINMAX_def rrep_def)

lemma foreach_suffix:
  assumes "rrep h t" and "addrs t = us @ vs"
  shows "rb_foreach_from h (first vs) = Some vs"
  using assms(2)
proof (induction vs arbitrary: us)
  case (Cons a vs)
  from Cons.IH [of "us @ [a]"] Cons.prems RB_NEXT_spec [OF assms(1) Cons.prems] show ?case
    by (subst rb_foreach_from.simps) simp
qed (simp add: rb_foreach_from.simps)

lemma foreach_prefix:
  assumes "rrep h t" and "addrs t = rev us @ vs"
  shows "rb_foreach_back h (first us) = Some us"
  using assms(2)
proof (induction us arbitrary: vs)
  case (Cons a us)
  then have p: "addrs t = rev us @ a # vs" by simp
  from Cons.IH [OF p] RB_PREV_spec [OF assms(1) p] show ?case
    by (subst rb_foreach_back.simps) simp
qed (simp add: rb_foreach_back.simps)

lemma RB_FOREACH_spec:
  assumes "rrep h t"
  shows "RB_FOREACH h = Some (addrs t)" "RB_FOREACH_REVERSE h = Some (rev (addrs t))"
  using foreach_suffix [OF assms, of "[]" "addrs t"] foreach_prefix [OF assms, of "rev (addrs t)" "[]"]
  by (simp_all add: RB_FOREACH_def RB_FOREACH_REVERSE_def RB_MINMAX_spec [OF assms])

lemma rb_index_FOREACH:
  "rb_index key h xs \<Longrightarrow> RB_FOREACH h = Some xs \<and> RB_FOREACH_REVERSE h = Some (rev xs)"
  by (auto simp: rb_index_def RB_FOREACH_spec)

section \<open>The nearest match\<close>

text \<open>\<^verbatim>\<open>RB_NFIND\<close>: the node with the key, or else with the next larger one.\<close>

lemma NFIND_loop_correct:
  assumes "rrep h (plug k t)" and "cmp_for key x cmp (set (addrs t))" and "key_sorted key (addrs t)"
  shows "RB_NFIND_loop cmp h (rtop t) res =
    Some (case find (\<lambda>a. x \<le> key a) (addrs t) of None \<Rightarrow> res | Some a \<Rightarrow> Some a)"
  using assms
proof (induction t arbitrary: k res)
  case (Br c l a r)
  from Br.prems(2) obtain v where v: "cmp a = Some v" "v < 0 \<longleftrightarrow> x < key a" "v > 0 \<longleftrightarrow> key a < x"
    by (auto simp: cmp_for_def)
  have l: "RB_NFIND_loop cmp h (rtop l) (Some a) =
      Some (case find (\<lambda>a. x \<le> key a) (addrs l) of None \<Rightarrow> Some a | Some b \<Rightarrow> Some b)"
    using Br.IH(1) [of "LH c a r # k"] Br.prems by (simp add: cmp_for_def key_sorted_def sorted_wrt_append)
  have r: "RB_NFIND_loop cmp h (rtop r) res =
      Some (case find (\<lambda>a. x \<le> key a) (addrs r) of None \<Rightarrow> res | Some b \<Rightarrow> Some b)"
    using Br.IH(2) [of "RH c l a # k"] Br.prems by (simp add: cmp_for_def key_sorted_def sorted_wrt_append)
  have less: "\<forall>b\<in>set (addrs l). key b < key a" using Br.prems(3) by (auto simp: key_sorted_def sorted_wrt_append)
  have "find (\<lambda>a. x \<le> key a) (addrs l) = None" if "key a \<le> x"
    using less that by (auto simp: find_None_iff)
  moreover have find_app: "find P (xs @ y # ys) =
      (case find P xs of None \<Rightarrow> if P y then Some y else find P ys | Some b \<Rightarrow> Some b)" for P :: "addr \<Rightarrow> bool" and xs y ys
    by (induction xs) auto
  ultimately show ?case using v l r rb_access [OF Br.prems(1)]
    by (subst RB_NFIND_loop.simps) (cases "key a" x rule: linorder_cases; auto split: option.splits)
qed (simp add: RB_NFIND_loop.simps)

lemma rb_index_NFIND:
  assumes "rb_index key h xs" and "cmp_for key x cmp (set xs)"
  shows "RB_NFIND cmp h = Some (find (\<lambda>a. x \<le> key a) xs)"
proof -
  from assms(1) obtain t where t: "rrep h t" "addrs t = xs" "key_sorted key xs" by (auto simp: rb_index_def)
  with NFIND_loop_correct [of h "[]" t key x cmp None] assms(2) show ?thesis
    by (simp add: RB_NFIND_def rrep_def option.case_eq_if)
qed

section \<open>Depth\<close>

fun depth :: "rbtree \<Rightarrow> nat" where
  "depth Tip = 0"
| "depth (Br c l a r) = Suc (max (depth l) (depth r))"

lemma depth_le: "rb_inv t \<Longrightarrow> depth t \<le> 2 * bh t + (if col t = RB_RED then 1 else 0)"
proof (induction t)
  case (Br c l a r)
  then show ?case by (cases c) (auto split: if_splits)
qed simp

lemma size_ge: "rb_inv t \<Longrightarrow> 2 ^ bh t \<le> Suc (length (addrs t))"
proof (induction t)
  case (Br c l a r)
  then show ?case by (cases c) auto
qed simp

lemma find_within_depth:
  assumes "rrep h (plug k t)" and "depth t \<le> n" and "RB_FIND_loop cmp h (rtop t) = Some p"
  shows "find_within n cmp h (rtop t) = Some p"
  using assms
proof (induction t arbitrary: k n)
  case Tip
  then show ?case by (cases n) (simp_all add: RB_FIND_loop.simps)
next
  case (Br c l a r)
  from Br.prems(2) obtain m where m: "n = Suc m" "depth l \<le> m" "depth r \<le> m" by (cases n) auto
  note acc = rb_access [OF Br.prems(1)]
  have "RB_FIND_loop cmp h (Some a) = Some p" using Br.prems(3) by simp
  then obtain cp where cp: "cmp a = Some cp"
    "cp < 0 \<Longrightarrow> RB_FIND_loop cmp h (rtop l) = Some p" "cp > 0 \<Longrightarrow> RB_FIND_loop cmp h (rtop r) = Some p"
    "cp = 0 \<Longrightarrow> p = Some a"
    using acc by (subst (asm) RB_FIND_loop.simps) (auto simp: bind_eq_Some_iff split: if_splits)
  have "cp < 0 \<Longrightarrow> find_within m cmp h (rtop l) = Some p"
    using Br.IH(1) [of "LH c a r # k"] Br.prems(1) m(2) cp(2) by simp
  moreover have "cp > 0 \<Longrightarrow> find_within m cmp h (rtop r) = Some p"
    using Br.IH(2) [of "RH c l a # k"] Br.prems(1) m(3) cp(3) by simp
  ultimately show ?case using m(1) cp(1,4) acc by auto
qed

lemma find_within_log:
  assumes "rb_index key h xs" and "cmp_for key x cmp (set xs)" and "Suc (length xs) < 2 ^ Suc k"
  shows "find_within (2 * k) cmp h (rbh_root h) = Some (lookup key xs x)"
proof -
  from assms(1) obtain t where t: "rrep h t" "rb_ok t" "addrs t = xs" by (auto simp: rb_index_def)
  then have i: "rb_inv t" "col t = RB_BLACK" by (auto simp: rb_ok_def)
  have "(2::nat) ^ bh t < 2 ^ Suc k" using size_ge [OF i(1)] assms(3) t(3) by simp
  then have "bh t \<le> k" by (simp only: power_strict_increasing_iff one_less_numeral_iff semiring_norm)
  then have "depth t \<le> 2 * k" using depth_le [OF i(1)] i(2) by simp
  moreover have "RB_FIND_loop cmp h (rtop t) = Some (lookup key xs x)"
    using rb_index_FIND [OF assms(1,2)] t(1) by (simp add: RB_FIND_def rrep_def)
  ultimately show ?thesis using find_within_depth [of h "[]" t "2 * k"] t(1) by (simp add: rrep_def)
qed

section \<open>Walking over freed nodes\<close>

lemma live_access:
  "live_left live h p = Some q \<longleftrightarrow> (\<exists>a. p = Some a \<and> live a \<and> RB_LEFT h p = Some q)"
  "live_right live h p = Some q \<longleftrightarrow> (\<exists>a. p = Some a \<and> live a \<and> RB_RIGHT h p = Some q)"
  "live_parent live h p = Some q \<longleftrightarrow> (\<exists>a. p = Some a \<and> live a \<and> RB_PARENT h p = Some q)"
  by (auto simp: live_left_def live_right_def live_parent_def bind_eq_Some_iff)

lemma live_leftmost_sound:
  assumes "live_leftmost live h e = Some q"
  shows "rb_leftmost h e = Some q"
proof (rule live_leftmost.raw_induct [where P = "\<lambda>_ h e q. rb_leftmost h e = Some q", OF _ assms])
  fix f live h e q
  assume IH: "\<And>live h e q. f live h e = Some q \<Longrightarrow> rb_leftmost h e = Some q"
    and "live_left live h e \<bind> (\<lambda>l. if l \<noteq> None then f live h l else Some e) = Some q"
  then obtain l where l: "RB_LEFT h e = Some l" "(if l \<noteq> None then f live h l else Some e) = Some q"
    by (auto simp: bind_eq_Some_iff live_access)
  then show "rb_leftmost h e = Some q" using IH [of live h l q]
    by (subst rb_leftmost.simps) (cases "l = None"; simp)
qed

lemma live_climb_sound:
  assumes "live_climb live h e = Some q"
  shows "rb_climb_right h e = Some q"
proof (rule live_climb.raw_induct [where P = "\<lambda>_ h e q. rb_climb_right h e = Some q", OF _ assms])
  fix f live h e q
  assume IH: "\<And>live h e q. f live h e = Some q \<Longrightarrow> rb_climb_right h e = Some q"
    and "live_parent live h e \<bind> (\<lambda>p. if p = None then Some None
        else live_right live h p \<bind> (\<lambda>r. if e = r then f live h p else Some p)) = Some q"
  then obtain p where p: "RB_PARENT h e = Some p" "if p = None then q = None
      else \<exists>r. RB_RIGHT h p = Some r \<and> (if e = r then f live h p else Some p) = Some q"
    by (auto simp: bind_eq_Some_iff live_access split: if_splits)
  then show "rb_climb_right h e = Some q" using IH [of live h p q]
    by (subst rb_climb_right.simps) (cases "p = None"; force split: if_splits)
qed

text \<open>A walk that touches no freed node is the ordinary one.\<close>

lemma live_next_sound:
  assumes "live_next live h e = Some q"
  shows "RB_NEXT h e = Some q"
proof -
  from assms obtain r where r: "RB_RIGHT h e = Some r" "if r \<noteq> None then live_leftmost live h r = Some q
      else \<exists>p. RB_PARENT h e = Some p \<and> (if p = None then live_climb live h e = Some q
        else \<exists>pl. RB_LEFT h p = Some pl \<and> (if e = pl then q = p else live_climb live h e = Some q))"
    by (auto simp: live_next_def bind_eq_Some_iff live_access split: if_splits)
  show ?thesis
  proof (cases "r = None")
    case False
    with r show ?thesis by (simp add: RB_NEXT_def live_leftmost_sound)
  next
    case True
    with r(2) obtain p where "RB_PARENT h e = Some p" "if p = None then live_climb live h e = Some q
        else \<exists>pl. RB_LEFT h p = Some pl \<and> (if e = pl then q = p else live_climb live h e = Some q)" by auto
    with r(1) True live_climb_sound [of live h e q] show ?thesis
      by (cases "p = None") (auto simp: RB_NEXT_def split: if_splits)
  qed
qed

text \<open>The step from a node without right child reads the parent, if there is one.\<close>

lemma live_next_parent:
  assumes "live_next live h (Some a) = Some q" and "RB_RIGHT h (Some a) = Some None"
    and "RB_PARENT h (Some a) = Some (Some b)"
  shows "live b"
  using assms by (auto simp: live_next_def bind_eq_Some_iff live_access)

text \<open>In a tree of three nodes or more the last node in order is not the root: it has a parent.\<close>

lemma bh_0: "rb_inv t \<Longrightarrow> bh t = 0 \<Longrightarrow> col t = RB_BLACK \<Longrightarrow> t = Tip"
  by (cases t) auto

lemma last_not_root:
  assumes "rb_ok t" and "3 \<le> length (addrs t)"
  shows "\<exists>c l a r. t = Br c l a r \<and> r \<noteq> Tip"
proof (cases t)
  case (Br c l a r)
  have "length (addrs l) \<le> 1" if "r = Tip"
  proof (cases l)
    case (Br d u b v)
    with \<open>t = Br c l a r\<close> that assms(1) have i: "rb_inv u" "rb_inv v" "bh u = bh v" "bh u + bl d = 0"
      "d = RB_RED \<longrightarrow> col u = RB_BLACK \<and> col v = RB_BLACK" by (auto simp: rb_ok_def)
    then have "u = Tip" "v = Tip" using bh_0 [of u] bh_0 [of v] by (cases d; simp)+
    with Br show ?thesis by simp
  qed simp
  with Br assms(2) show ?thesis by (cases "r = Tip") auto
qed (use assms in simp)

lemma last_has_parent:
  assumes "rrep h t" and "rb_ok t" and "addrs t = us @ [a]" and "2 \<le> length us"
  shows "RB_RIGHT h (Some a) = Some None \<and> (\<exists>b\<in>set us. RB_PARENT h (Some a) = Some (Some b))"
proof -
  from at_place [OF assms(1), of us a "[]"] assms(3) obtain k c l r where
    p: "t = plug k (Br c l a r)" "addrs r @ cr k = []" "us = cl k @ addrs l" by metis
  then have r: "r = Tip" by (cases r) auto
  note acc = rb_access [OF assms(1) [unfolded p(1)]]
  have "ctop k \<noteq> None"
  proof
    assume "ctop k = None"
    then have "t = Br c l a Tip" using p r by (cases k rule: ctop.cases) auto
    with last_not_root [OF assms(2)] assms(3,4) show False by simp
  qed
  then obtain b where b: "ctop k = Some b" by auto
  moreover have "b \<in> set (cl k) \<union> set (cr k)" using b by (cases k rule: ctop.cases) auto
  then have "b \<in> set us" using p(2,3) by auto
  ultimately show ?thesis using acc r by auto
qed

section \<open>Seen through the map\<close>

lemma rb_mapE:
  assumes "rb_map key h m"
  obtains xs where "rb_index key h xs" "m = lookup key xs" "ran m = set xs" "card (ran m) = length xs"
proof -
  from assms obtain xs where xs: "rb_index key h xs" "m = lookup key xs" by (auto simp: rb_map_def)
  have r: "ran m = set xs" using xs by (simp add: ran_lookup rb_index_sorted)
  have "distinct xs" using xs(1) by (auto simp: rb_index_def rrep_def)
  then have "card (ran m) = length xs" unfolding r by (rule distinct_card)
  with xs r that show thesis by blast
qed

end
