(* ===== verification/RB_Safe.thy ===== *)
theory RB_Safe
  imports RB_Walk
begin

text \<open>
  The rest of the \<^verbatim>\<open>RB_\<close> macros of \<^verbatim>\<open>tree.h\<close>: the root, the test for emptiness, the minimum and the maximum, and the two loops that
  fetch the next element before the statement runs, so that the statement may remove the current one.
\<close>

section \<open>The macros\<close>

definition RB_INITIALIZER :: ptr where
  "RB_INITIALIZER = None"

definition RB_ROOT :: "rb_head \<Rightarrow> ptr" where
  "RB_ROOT h = rbh_root h"

definition RB_EMPTY :: "rb_head \<Rightarrow> bool" where
  "RB_EMPTY h \<longleftrightarrow> RB_ROOT h = None"

definition RB_NEGINF :: int where
  "RB_NEGINF = - 1"

definition RB_INF :: int where
  "RB_INF = 1"

definition RB_MIN :: "rb_head \<Rightarrow> ptr option" where
  "RB_MIN h = RB_MINMAX h RB_NEGINF"

definition RB_MAX :: "rb_head \<Rightarrow> ptr option" where
  "RB_MAX h = RB_MINMAX h RB_INF"

text \<open>The statement of a loop changes the tree and a state \<open>'s\<close> of its own.\<close>

type_synonym 's rb_stmt = "addr \<Rightarrow> 's \<times> rb_head \<Rightarrow> ('s \<times> rb_head) option"

partial_function (option) rb_loop_safe ::
  "(rb_head \<Rightarrow> ptr \<Rightarrow> ptr option) \<Rightarrow> 's rb_stmt \<Rightarrow> ptr \<Rightarrow> 's \<times> rb_head \<Rightarrow> ('s \<times> rb_head) option" where
  "rb_loop_safe step stmt x st =
     (case x of
        None \<Rightarrow> Some st
      | Some a \<Rightarrow> do { y \<leftarrow> step (snd st) x; st \<leftarrow> stmt a st; rb_loop_safe step stmt y st })"

definition RB_FOREACH_SAFE :: "'s rb_stmt \<Rightarrow> 's \<times> rb_head \<Rightarrow> ('s \<times> rb_head) option" where
  "RB_FOREACH_SAFE stmt st = do { x \<leftarrow> RB_MIN (snd st); rb_loop_safe RB_NEXT stmt x st }"

definition RB_FOREACH_REVERSE_SAFE :: "'s rb_stmt \<Rightarrow> 's \<times> rb_head \<Rightarrow> ('s \<times> rb_head) option" where
  "RB_FOREACH_REVERSE_SAFE stmt st = do { x \<leftarrow> RB_MAX (snd st); rb_loop_safe RB_PREV stmt x st }"

section \<open>Removing every element\<close>

text \<open>A statement that notes the element and takes it out of the tree, and a sequence of insertions.\<close>

definition rb_discard :: "addr list rb_stmt" where
  "rb_discard a = (\<lambda>(seen, h). do { h \<leftarrow> RB_REMOVE h a; Some (seen @ [a], h) })"

primrec rb_insert_all :: "(addr \<Rightarrow> addr \<Rightarrow> int option) \<Rightarrow> addr list \<Rightarrow> rb_head \<Rightarrow> rb_head option" where
  "rb_insert_all cmp [] h = Some h"
| "rb_insert_all cmp (a # as) h = do { (_, h) \<leftarrow> RB_INSERT (cmp a) h a; rb_insert_all cmp as h }"

lemma rb_index_discard:
  assumes "rb_index key h (us @ a # vs)"
  shows "\<exists>h'. rb_discard a (seen, h) = Some (seen @ [a], h') \<and> rb_index key h' (us @ vs)"
  using rb_index_REMOVE [OF assms] by (auto simp: rb_discard_def)

lemma rb_index_steps:
  assumes "rb_index key h (us @ a # vs)"
  shows "RB_NEXT h (Some a) = Some (first vs)" "RB_PREV h (Some a) = Some (first (rev us))"
  using assms RB_NEXT_spec RB_PREV_spec by (auto simp: rb_index_def)

lemma rb_index_ends:
  assumes "rb_index key h xs"
  shows "RB_MIN h = Some (first xs)" "RB_MAX h = Some (first (rev xs))" "RB_EMPTY h \<longleftrightarrow> xs = []"
proof -
  from assms obtain t where t: "rrep h t" "addrs t = xs" by (auto simp: rb_index_def)
  show "RB_MIN h = Some (first xs)" "RB_MAX h = Some (first (rev xs))"
    using RB_MINMAX_spec [OF t(1)] t(2) by (simp_all add: RB_MIN_def RB_MAX_def RB_NEGINF_def RB_INF_def)
  show "RB_EMPTY h \<longleftrightarrow> xs = []" using t by (cases t) (auto simp: RB_EMPTY_def RB_ROOT_def rrep_def)
qed

lemma safe_loop_next:
  "rb_index key h vs \<Longrightarrow> \<exists>h'. rb_loop_safe RB_NEXT rb_discard (first vs) (seen, h) = Some (seen @ vs, h') \<and> rb_index key h' []"
proof (induction vs arbitrary: h seen)
  case Nil
  then show ?case by (simp add: rb_loop_safe.simps)
next
  case (Cons a vs)
  from rb_index_discard [of key h "[]" a vs seen] Cons.prems obtain h1 where
    r: "rb_discard a (seen, h) = Some (seen @ [a], h1)" "rb_index key h1 vs" by auto
  from Cons.IH [OF r(2), of "seen @ [a]"] r(1) rb_index_steps(1) [of key h "[]" a vs] Cons.prems show ?case
    by (subst rb_loop_safe.simps) simp
qed

lemma safe_loop_prev:
  "rb_index key h (rev us) \<Longrightarrow> \<exists>h'. rb_loop_safe RB_PREV rb_discard (first us) (seen, h) = Some (seen @ us, h') \<and> rb_index key h' []"
proof (induction us arbitrary: h seen)
  case Nil
  then show ?case by (simp add: rb_loop_safe.simps)
next
  case (Cons a us)
  from rb_index_discard [of key h "rev us" a "[]" seen] Cons.prems obtain h1 where
    r: "rb_discard a (seen, h) = Some (seen @ [a], h1)" "rb_index key h1 (rev us)" by auto
  from Cons.IH [OF r(2), of "seen @ [a]"] r(1) rb_index_steps(2) [of key h "rev us" a "[]"] Cons.prems show ?case
    by (subst rb_loop_safe.simps) simp
qed

lemma rb_index_insert_all:
  assumes "rb_index key h xs" and "\<And>x. cmp_for key (key x) (cmp x) UNIV" and "distinct (map key (xs @ as))"
  shows "\<exists>h' ys. rb_insert_all cmp as h = Some h' \<and> rb_index key h' ys \<and> set ys = set xs \<union> set as"
  using assms(1,3)
proof (induction as arbitrary: h xs)
  case Nil
  then show ?case by auto
next
  case (Cons a as)
  have n: "lookup key xs (key a) = None" "a \<notin> set xs" using Cons.prems(2) by (auto simp: lookup_def find_None_iff image_iff)
  have "cmp_for key (key a) (cmp a) (set xs)" using assms(2) [of a] by (simp add: cmp_for_def)
  from rb_index_INSERT [OF Cons.prems(1) this n(2)] n(1) obtain us vs h1 where
    i: "RB_INSERT (cmp a) h a = Some (None, h1)" "xs = us @ vs" "rb_index key h1 (us @ a # vs)" by auto
  have "distinct (map key ((us @ a # vs) @ as))" using Cons.prems(2) i(2) by auto
  from Cons.IH [OF i(3) this] obtain h' ys where "rb_insert_all cmp as h1 = Some h'" "rb_index key h' ys" "set ys = set (us @ a # vs) \<union> set as" by blast
  with i show ?case by auto
qed

lemma rb_index_init: "rb_index key (RB_INIT h) []"
  unfolding rb_index_def by (rule exI [of _ Tip]) (simp add: RB_INIT_def rrep_def rb_ok_def)

text \<open>A red-black tree that is initialised, filled with elements of different keys, and emptied by a loop that removes the current element.
  \<^verbatim>\<open>RB_FOREACH_SAFE\<close> visits and removes every element once in ascending order of the keys, \<^verbatim>\<open>RB_FOREACH_REVERSE_SAFE\<close> in descending order; both end,
  and \<^verbatim>\<open>RB_EMPTY\<close> holds afterwards.\<close>

theorem rb_foreach_safe_empties:
  assumes "\<And>x. cmp_for key (key x) (cmp x) UNIV" and "distinct (map key as)"
  shows "\<exists>h' xs h1 h2. rb_insert_all cmp as (RB_INIT h) = Some h' \<and> set xs = set as \<and> key_sorted key xs \<and>
    RB_FOREACH_SAFE rb_discard ([], h') = Some (xs, h1) \<and> RB_EMPTY h1 \<and>
    RB_FOREACH_REVERSE_SAFE rb_discard ([], h') = Some (rev xs, h2) \<and> RB_EMPTY h2"
proof -
  from rb_index_insert_all [OF rb_index_init assms(1), of as h] assms(2) obtain h' xs where
    b: "rb_insert_all cmp as (RB_INIT h) = Some h'" "rb_index key h' xs" "set xs = set as" by auto
  have "rb_index key h' (rev (rev xs))" using b(2) by simp
  from safe_loop_next [OF b(2), of "[]"] safe_loop_prev [OF this, of "[]"] obtain h1 h2 where
    l: "rb_loop_safe RB_NEXT rb_discard (first xs) ([], h') = Some (xs, h1)" "rb_index key h1 []"
      "rb_loop_safe RB_PREV rb_discard (first (rev xs)) ([], h') = Some (rev xs, h2)" "rb_index key h2 []" by auto
  have "RB_FOREACH_SAFE rb_discard ([], h') = Some (xs, h1)" "RB_FOREACH_REVERSE_SAFE rb_discard ([], h') = Some (rev xs, h2)"
    using l(1,3) rb_index_ends(1,2) [OF b(2)] by (simp_all add: RB_FOREACH_SAFE_def RB_FOREACH_REVERSE_SAFE_def)
  moreover have "RB_EMPTY h1" "RB_EMPTY h2" using rb_index_ends(3) [OF l(2)] rb_index_ends(3) [OF l(4)] by simp_all
  ultimately show ?thesis using b rb_index_sorted [OF b(2)] by blast
qed

lemma cmp_for_addrs: "cmp_for (\<lambda>a. a) x (\<lambda>b. Some (int x - int b)) UNIV"
  by (auto simp: cmp_for_def)

lemma sorted_three: "key_sorted (\<lambda>a. a) xs \<Longrightarrow> set xs = set [5, 2, 9 :: addr] \<Longrightarrow> xs = [2, 5, 9]"
  by (rule strict_sorted_equal) (auto simp: key_sorted_def)

theorem rb_foreach_safe_empties_witness:
  "\<exists>h' h1. rb_insert_all (\<lambda>a b. Some (int a - int b)) [5, 2, 9]
      (RB_INIT \<lparr>rbh_root = None, rbe = \<lambda>_. \<lparr>rbe_left = None, rbe_right = None, rbe_parent = None, rbe_color = RB_BLACK\<rparr>\<rparr>) = Some h' \<and>
    RB_FOREACH_SAFE rb_discard ([], h') = Some ([2, 5, 9], h1) \<and> RB_EMPTY h1"
proof -
  have "distinct (map (\<lambda>a. a) [5, 2, 9 :: addr])" by simp
  from rb_foreach_safe_empties [of "\<lambda>a. a", OF cmp_for_addrs this] obtain h' xs h1 where
    r: "rb_insert_all (\<lambda>a b. Some (int a - int b)) [5, 2, 9]
        (RB_INIT \<lparr>rbh_root = None, rbe = \<lambda>_. \<lparr>rbe_left = None, rbe_right = None, rbe_parent = None, rbe_color = RB_BLACK\<rparr>\<rparr>) = Some h'"
      "set xs = set [5, 2, 9]" "key_sorted (\<lambda>a. a) xs" "RB_FOREACH_SAFE rb_discard ([], h') = Some (xs, h1)" "RB_EMPTY h1" by blast
  from r(3,2) have "xs = [2, 5, 9]" by (rule sorted_three)
  with r(1,4,5) show ?thesis by blast
qed

end
