(* ===== verification/Rank_Trees.thy ===== *)
theory Rank_Trees
  imports RB_Safe
begin

text \<open>
  The third family of trees in \<^verbatim>\<open>tree.h\<close> (the \<^verbatim>\<open>RBT_\<close> macros). The header declares the functions \<^verbatim>\<open>_rb_insert\<close> to
  \<^verbatim>\<open>_rb_check\<close> and the repository does not define them: they are the fields of \<open>rbt_lib\<close>, an argument of everything that
  calls them. The header's own code is modelled: the structures, the type descriptor that \<^verbatim>\<open>RBT_GENERATE\<close> makes, initialisation and the test for emptiness, the
  generated functions and the four loops. The locale \<open>rank_tree\<close> is what the manual page of the macros promises of the functions.
\<close>

section \<open>Structures\<close>

record rbt_entry =
  rbt_parent :: ptr
  rbt_left :: ptr
  rbt_right :: ptr
  rbt_color :: uint32

record rb_tree =
  rbt_root :: ptr

text \<open>Memory: the trees by their address, and the entry of every element.\<close>

record rbt_mem =
  rbt_trees :: "addr \<Rightarrow> rb_tree"
  rbt_entries :: "addr \<Rightarrow> rbt_entry"

record rb_type =
  t_compare :: "addr \<Rightarrow> addr \<Rightarrow> int option"
  t_augment :: "(addr \<Rightarrow> rbt_mem \<Rightarrow> rbt_mem option) option"
  t_offset :: uint32

text \<open>The functions that are declared only. Each may change the memory and may not return.\<close>

record rbt_lib =
  lib_insert :: "rb_type \<Rightarrow> addr \<Rightarrow> addr \<Rightarrow> rbt_mem \<Rightarrow> (ptr \<times> rbt_mem) option"
  lib_remove :: "rb_type \<Rightarrow> addr \<Rightarrow> addr \<Rightarrow> rbt_mem \<Rightarrow> (ptr \<times> rbt_mem) option"
  lib_find :: "rb_type \<Rightarrow> addr \<Rightarrow> addr \<Rightarrow> rbt_mem \<Rightarrow> (ptr \<times> rbt_mem) option"
  lib_nfind :: "rb_type \<Rightarrow> addr \<Rightarrow> addr \<Rightarrow> rbt_mem \<Rightarrow> (ptr \<times> rbt_mem) option"
  lib_root :: "rb_type \<Rightarrow> addr \<Rightarrow> rbt_mem \<Rightarrow> (ptr \<times> rbt_mem) option"
  lib_min :: "rb_type \<Rightarrow> addr \<Rightarrow> rbt_mem \<Rightarrow> (ptr \<times> rbt_mem) option"
  lib_max :: "rb_type \<Rightarrow> addr \<Rightarrow> rbt_mem \<Rightarrow> (ptr \<times> rbt_mem) option"
  lib_next :: "rb_type \<Rightarrow> addr \<Rightarrow> rbt_mem \<Rightarrow> (ptr \<times> rbt_mem) option"
  lib_prev :: "rb_type \<Rightarrow> addr \<Rightarrow> rbt_mem \<Rightarrow> (ptr \<times> rbt_mem) option"
  lib_left :: "rb_type \<Rightarrow> addr \<Rightarrow> rbt_mem \<Rightarrow> (ptr \<times> rbt_mem) option"
  lib_right :: "rb_type \<Rightarrow> addr \<Rightarrow> rbt_mem \<Rightarrow> (ptr \<times> rbt_mem) option"
  lib_parent :: "rb_type \<Rightarrow> addr \<Rightarrow> rbt_mem \<Rightarrow> (ptr \<times> rbt_mem) option"
  lib_set_left :: "rb_type \<Rightarrow> addr \<Rightarrow> ptr \<Rightarrow> rbt_mem \<Rightarrow> rbt_mem option"
  lib_set_right :: "rb_type \<Rightarrow> addr \<Rightarrow> ptr \<Rightarrow> rbt_mem \<Rightarrow> rbt_mem option"
  lib_set_parent :: "rb_type \<Rightarrow> addr \<Rightarrow> ptr \<Rightarrow> rbt_mem \<Rightarrow> rbt_mem option"
  lib_poison :: "rb_type \<Rightarrow> addr \<Rightarrow> 64 word \<Rightarrow> rbt_mem \<Rightarrow> rbt_mem option"
  lib_check :: "rb_type \<Rightarrow> addr \<Rightarrow> 64 word \<Rightarrow> rbt_mem \<Rightarrow> (int \<times> rbt_mem) option"

section \<open>The code of the header\<close>

definition rb_init :: "addr \<Rightarrow> rbt_mem \<Rightarrow> rbt_mem" where
  "rb_init rbt m = m\<lparr>rbt_trees := (rbt_trees m)(rbt := \<lparr>rbt_root = None\<rparr>)\<rparr>"

definition rb_empty :: "addr \<Rightarrow> rbt_mem \<Rightarrow> bool" where
  "rb_empty rbt m \<longleftrightarrow> rbt_root (rbt_trees m rbt) = None"

text \<open>\<^verbatim>\<open>RBT_INITIALIZER\<close>, and the type descriptors of \<^verbatim>\<open>RBT_GENERATE_INTERNAL\<close>, \<^verbatim>\<open>RBT_GENERATE_AUGMENT\<close> and \<^verbatim>\<open>RBT_GENERATE\<close>. The
  generated comparison and the generated augmentation only convert the types of their arguments.\<close>

definition RBT_INITIALIZER :: rb_tree where
  "RBT_INITIALIZER = \<lparr>rbt_root = None\<rparr>"

definition RBT_GENERATE_INTERNAL ::
  "(addr \<Rightarrow> addr \<Rightarrow> int option) \<Rightarrow> (addr \<Rightarrow> rbt_mem \<Rightarrow> rbt_mem option) option \<Rightarrow> uint32 \<Rightarrow> rb_type" where
  "RBT_GENERATE_INTERNAL cmp aug offset = \<lparr>t_compare = (\<lambda>l r. cmp l r), t_augment = aug, t_offset = offset\<rparr>"

definition RBT_GENERATE_AUGMENT ::
  "(addr \<Rightarrow> addr \<Rightarrow> int option) \<Rightarrow> (addr \<Rightarrow> rbt_mem \<Rightarrow> rbt_mem option) \<Rightarrow> uint32 \<Rightarrow> rb_type" where
  "RBT_GENERATE_AUGMENT cmp aug offset = RBT_GENERATE_INTERNAL cmp (Some (\<lambda>p. aug p)) offset"

definition RBT_GENERATE :: "(addr \<Rightarrow> addr \<Rightarrow> int option) \<Rightarrow> uint32 \<Rightarrow> rb_type" where
  "RBT_GENERATE cmp offset = RBT_GENERATE_INTERNAL cmp None offset"

text \<open>The functions of \<^verbatim>\<open>RBT_PROTOTYPE\<close>. The head of a tree is a structure with the tree as its only field, so it has the same address.\<close>

definition RBT_INIT :: "addr \<Rightarrow> rbt_mem \<Rightarrow> rbt_mem" where
  "RBT_INIT head m = rb_init head m"

definition RBT_INSERT :: "rbt_lib \<Rightarrow> rb_type \<Rightarrow> addr \<Rightarrow> addr \<Rightarrow> rbt_mem \<Rightarrow> (ptr \<times> rbt_mem) option" where
  "RBT_INSERT lib ty head elm m = lib_insert lib ty head elm m"

definition RBT_REMOVE :: "rbt_lib \<Rightarrow> rb_type \<Rightarrow> addr \<Rightarrow> addr \<Rightarrow> rbt_mem \<Rightarrow> (ptr \<times> rbt_mem) option" where
  "RBT_REMOVE lib ty head elm m = lib_remove lib ty head elm m"

definition RBT_FIND :: "rbt_lib \<Rightarrow> rb_type \<Rightarrow> addr \<Rightarrow> addr \<Rightarrow> rbt_mem \<Rightarrow> (ptr \<times> rbt_mem) option" where
  "RBT_FIND lib ty head k m = lib_find lib ty head k m"

definition RBT_NFIND :: "rbt_lib \<Rightarrow> rb_type \<Rightarrow> addr \<Rightarrow> addr \<Rightarrow> rbt_mem \<Rightarrow> (ptr \<times> rbt_mem) option" where
  "RBT_NFIND lib ty head k m = lib_nfind lib ty head k m"

definition RBT_ROOT :: "rbt_lib \<Rightarrow> rb_type \<Rightarrow> addr \<Rightarrow> rbt_mem \<Rightarrow> (ptr \<times> rbt_mem) option" where
  "RBT_ROOT lib ty head m = lib_root lib ty head m"

definition RBT_EMPTY :: "addr \<Rightarrow> rbt_mem \<Rightarrow> bool" where
  "RBT_EMPTY head m = rb_empty head m"

definition RBT_MIN :: "rbt_lib \<Rightarrow> rb_type \<Rightarrow> addr \<Rightarrow> rbt_mem \<Rightarrow> (ptr \<times> rbt_mem) option" where
  "RBT_MIN lib ty head m = lib_min lib ty head m"

definition RBT_MAX :: "rbt_lib \<Rightarrow> rb_type \<Rightarrow> addr \<Rightarrow> rbt_mem \<Rightarrow> (ptr \<times> rbt_mem) option" where
  "RBT_MAX lib ty head m = lib_max lib ty head m"

definition RBT_NEXT :: "rbt_lib \<Rightarrow> rb_type \<Rightarrow> addr \<Rightarrow> rbt_mem \<Rightarrow> (ptr \<times> rbt_mem) option" where
  "RBT_NEXT lib ty elm m = lib_next lib ty elm m"

definition RBT_PREV :: "rbt_lib \<Rightarrow> rb_type \<Rightarrow> addr \<Rightarrow> rbt_mem \<Rightarrow> (ptr \<times> rbt_mem) option" where
  "RBT_PREV lib ty elm m = lib_prev lib ty elm m"

definition RBT_LEFT :: "rbt_lib \<Rightarrow> rb_type \<Rightarrow> addr \<Rightarrow> rbt_mem \<Rightarrow> (ptr \<times> rbt_mem) option" where
  "RBT_LEFT lib ty elm m = lib_left lib ty elm m"

definition RBT_RIGHT :: "rbt_lib \<Rightarrow> rb_type \<Rightarrow> addr \<Rightarrow> rbt_mem \<Rightarrow> (ptr \<times> rbt_mem) option" where
  "RBT_RIGHT lib ty elm m = lib_right lib ty elm m"

definition RBT_PARENT :: "rbt_lib \<Rightarrow> rb_type \<Rightarrow> addr \<Rightarrow> rbt_mem \<Rightarrow> (ptr \<times> rbt_mem) option" where
  "RBT_PARENT lib ty elm m = lib_parent lib ty elm m"

definition RBT_SET_LEFT :: "rbt_lib \<Rightarrow> rb_type \<Rightarrow> addr \<Rightarrow> ptr \<Rightarrow> rbt_mem \<Rightarrow> rbt_mem option" where
  "RBT_SET_LEFT lib ty elm l m = lib_set_left lib ty elm l m"

definition RBT_SET_RIGHT :: "rbt_lib \<Rightarrow> rb_type \<Rightarrow> addr \<Rightarrow> ptr \<Rightarrow> rbt_mem \<Rightarrow> rbt_mem option" where
  "RBT_SET_RIGHT lib ty elm r m = lib_set_right lib ty elm r m"

definition RBT_SET_PARENT :: "rbt_lib \<Rightarrow> rb_type \<Rightarrow> addr \<Rightarrow> ptr \<Rightarrow> rbt_mem \<Rightarrow> rbt_mem option" where
  "RBT_SET_PARENT lib ty elm p m = lib_set_parent lib ty elm p m"

definition RBT_POISON :: "rbt_lib \<Rightarrow> rb_type \<Rightarrow> addr \<Rightarrow> 64 word \<Rightarrow> rbt_mem \<Rightarrow> rbt_mem option" where
  "RBT_POISON lib ty elm poison m = lib_poison lib ty elm poison m"

definition RBT_CHECK :: "rbt_lib \<Rightarrow> rb_type \<Rightarrow> addr \<Rightarrow> 64 word \<Rightarrow> rbt_mem \<Rightarrow> (int \<times> rbt_mem) option" where
  "RBT_CHECK lib ty elm poison m = lib_check lib ty elm poison m"

text \<open>The loops, with the statement of the loop as an argument: it changes the memory and a state \<open>'s\<close> of its own.\<close>

type_synonym 's rbt_stmt = "addr \<Rightarrow> 's \<times> rbt_mem \<Rightarrow> ('s \<times> rbt_mem) option"

partial_function (option) rbt_loop ::
  "(addr \<Rightarrow> rbt_mem \<Rightarrow> (ptr \<times> rbt_mem) option) \<Rightarrow> 's rbt_stmt \<Rightarrow> ptr \<Rightarrow> 's \<times> rbt_mem \<Rightarrow> ('s \<times> rbt_mem) option" where
  "rbt_loop step stmt e st =
     (case e of
        None \<Rightarrow> Some st
      | Some a \<Rightarrow> do { (x, m) \<leftarrow> stmt a st; (e, m) \<leftarrow> step a m; rbt_loop step stmt e (x, m) })"

partial_function (option) rbt_loop_safe ::
  "(addr \<Rightarrow> rbt_mem \<Rightarrow> (ptr \<times> rbt_mem) option) \<Rightarrow> 's rbt_stmt \<Rightarrow> ptr \<Rightarrow> 's \<times> rbt_mem \<Rightarrow> ('s \<times> rbt_mem) option" where
  "rbt_loop_safe step stmt e st =
     (case e of
        None \<Rightarrow> Some st
      | Some a \<Rightarrow> do { (n, m) \<leftarrow> step a (snd st); st \<leftarrow> stmt a (fst st, m); rbt_loop_safe step stmt n st })"

definition RBT_FOREACH :: "rbt_lib \<Rightarrow> rb_type \<Rightarrow> addr \<Rightarrow> 's rbt_stmt \<Rightarrow> 's \<times> rbt_mem \<Rightarrow> ('s \<times> rbt_mem) option" where
  "RBT_FOREACH lib ty head stmt st = do { (e, m) \<leftarrow> RBT_MIN lib ty head (snd st); rbt_loop (RBT_NEXT lib ty) stmt e (fst st, m) }"

definition RBT_FOREACH_SAFE :: "rbt_lib \<Rightarrow> rb_type \<Rightarrow> addr \<Rightarrow> 's rbt_stmt \<Rightarrow> 's \<times> rbt_mem \<Rightarrow> ('s \<times> rbt_mem) option" where
  "RBT_FOREACH_SAFE lib ty head stmt st = do { (e, m) \<leftarrow> RBT_MIN lib ty head (snd st); rbt_loop_safe (RBT_NEXT lib ty) stmt e (fst st, m) }"

definition RBT_FOREACH_REVERSE :: "rbt_lib \<Rightarrow> rb_type \<Rightarrow> addr \<Rightarrow> 's rbt_stmt \<Rightarrow> 's \<times> rbt_mem \<Rightarrow> ('s \<times> rbt_mem) option" where
  "RBT_FOREACH_REVERSE lib ty head stmt st = do { (e, m) \<leftarrow> RBT_MAX lib ty head (snd st); rbt_loop (RBT_PREV lib ty) stmt e (fst st, m) }"

definition RBT_FOREACH_REVERSE_SAFE :: "rbt_lib \<Rightarrow> rb_type \<Rightarrow> addr \<Rightarrow> 's rbt_stmt \<Rightarrow> 's \<times> rbt_mem \<Rightarrow> ('s \<times> rbt_mem) option" where
  "RBT_FOREACH_REVERSE_SAFE lib ty head stmt st = do { (e, m) \<leftarrow> RBT_MAX lib ty head (snd st); rbt_loop_safe (RBT_PREV lib ty) stmt e (fst st, m) }"

section \<open>What the functions promise\<close>

text \<open>Statements for the loops: note the element, and remove it as well. A sequence of insertions.\<close>

definition rbt_note :: "addr list rbt_stmt" where
  "rbt_note a = (\<lambda>(seen, m). Some (seen @ [a], m))"

definition rbt_discard :: "rbt_lib \<Rightarrow> rb_type \<Rightarrow> addr \<Rightarrow> addr list rbt_stmt" where
  "rbt_discard lib ty head a = (\<lambda>(seen, m). do { (_, m) \<leftarrow> RBT_REMOVE lib ty head a m; Some (seen @ [a], m) })"

primrec rbt_insert_all :: "rbt_lib \<Rightarrow> rb_type \<Rightarrow> addr \<Rightarrow> addr list \<Rightarrow> rbt_mem \<Rightarrow> rbt_mem option" where
  "rbt_insert_all lib ty head [] m = Some m"
| "rbt_insert_all lib ty head (a # as) m = do { (_, m) \<leftarrow> RBT_INSERT lib ty head a m; rbt_insert_all lib ty head as m }"

lemma rbt_note_apply [simp]: "rbt_note a (seen, m) = Some (seen @ [a], m)"
  by (simp add: rbt_note_def)

text \<open>\<open>rep m t xs\<close>: the tree at \<open>t\<close> holds the elements \<open>xs\<close>, in the order of their keys. Searching and stepping do not write.\<close>

locale rank_tree =
  fixes lib :: rbt_lib and ty :: rb_type and key :: "addr \<Rightarrow> 'k :: linorder"
    and rep :: "rbt_mem \<Rightarrow> addr \<Rightarrow> addr list \<Rightarrow> bool"
  assumes init_law: "rep (rb_init t m) t []"
    and empty_law: "rep m t xs \<Longrightarrow> rb_empty t m \<longleftrightarrow> xs = []"
    and sorted_law: "rep m t xs \<Longrightarrow> key_sorted key xs"
    and insert_law: "rep m t xs \<Longrightarrow> a \<notin> set xs \<Longrightarrow> lookup key xs (key a) = None \<Longrightarrow>
      \<exists>us vs m'. lib_insert lib ty t a m = Some (None, m') \<and> xs = us @ vs \<and> rep m' t (us @ a # vs)"
    and refuse_law: "rep m t xs \<Longrightarrow> a \<notin> set xs \<Longrightarrow> lookup key xs (key a) = Some b \<Longrightarrow>
      \<exists>m'. lib_insert lib ty t a m = Some (Some b, m') \<and> rep m' t xs"
    and remove_law: "rep m t (us @ a # vs) \<Longrightarrow> \<exists>m'. lib_remove lib ty t a m = Some (Some a, m') \<and> rep m' t (us @ vs)"
    and find_law: "rep m t xs \<Longrightarrow> lib_find lib ty t k m = Some (lookup key xs (key k), m)"
    and nfind_law: "rep m t xs \<Longrightarrow> lib_nfind lib ty t k m = Some (find (\<lambda>a. key k \<le> key a) xs, m)"
    and min_law: "rep m t xs \<Longrightarrow> lib_min lib ty t m = Some (first xs, m)"
    and max_law: "rep m t xs \<Longrightarrow> lib_max lib ty t m = Some (first (rev xs), m)"
    and next_law: "rep m t (us @ a # vs) \<Longrightarrow> lib_next lib ty a m = Some (first vs, m)"
    and prev_law: "rep m t (us @ a # vs) \<Longrightarrow> lib_prev lib ty a m = Some (first (rev us), m)"
begin

lemma inserts_all:
  assumes "rep m t xs" and "distinct (map key (xs @ as))"
  shows "\<exists>m' ys. rbt_insert_all lib ty t as m = Some m' \<and> rep m' t ys \<and> set ys = set xs \<union> set as"
  using assms
proof (induction as arbitrary: m xs)
  case Nil
  then show ?case by auto
next
  case (Cons a as)
  have "lookup key xs (key a) = None" "a \<notin> set xs" using Cons.prems(2) by (auto simp: lookup_def find_None_iff image_iff)
  with insert_law [OF Cons.prems(1), of a] obtain us vs m1 where
    i: "lib_insert lib ty t a m = Some (None, m1)" "xs = us @ vs" "rep m1 t (us @ a # vs)" by blast
  have "distinct (map key ((us @ a # vs) @ as))" using Cons.prems(2) i(2) by auto
  from Cons.IH [OF i(3) this] obtain m' ys where "rbt_insert_all lib ty t as m1 = Some m'" "rep m' t ys" "set ys = set (us @ a # vs) \<union> set as" by blast
  with i show ?case by (auto simp: RBT_INSERT_def)
qed

lemma steps:
  assumes "rep m t (us @ a # vs)"
  shows "RBT_NEXT lib ty a m = Some (first vs, m)" "RBT_PREV lib ty a m = Some (first (rev us), m)"
  using next_law [OF assms] prev_law [OF assms] by (simp_all add: RBT_NEXT_def RBT_PREV_def)

lemma discards:
  assumes "rep m t (us @ a # vs)"
  shows "\<exists>m'. rbt_discard lib ty t a (seen, m) = Some (seen @ [a], m') \<and> rep m' t (us @ vs)"
  using remove_law [OF assms] by (auto simp: rbt_discard_def RBT_REMOVE_def)

lemma loop_next:
  "rep m t (us @ vs) \<Longrightarrow> rbt_loop (RBT_NEXT lib ty) rbt_note (first vs) (seen, m) = Some (seen @ vs, m)"
proof (induction vs arbitrary: us seen)
  case Nil
  show ?case by (simp add: rbt_loop.simps)
next
  case (Cons a vs)
  from Cons.IH [of "us @ [a]" "seen @ [a]"] Cons.prems steps(1) [of m t us a vs] show ?case
    by (subst rbt_loop.simps) simp
qed

lemma loop_prev:
  "rep m t (rev us @ vs) \<Longrightarrow> rbt_loop (RBT_PREV lib ty) rbt_note (first us) (seen, m) = Some (seen @ us, m)"
proof (induction us arbitrary: vs seen)
  case Nil
  show ?case by (simp add: rbt_loop.simps)
next
  case (Cons a us)
  from Cons.IH [of "a # vs" "seen @ [a]"] Cons.prems steps(2) [of m t "rev us" a vs] show ?case
    by (subst rbt_loop.simps) simp
qed

lemma safe_next:
  "rep m t vs \<Longrightarrow> \<exists>m'. rbt_loop_safe (RBT_NEXT lib ty) (rbt_discard lib ty t) (first vs) (seen, m) = Some (seen @ vs, m') \<and> rep m' t []"
proof (induction vs arbitrary: m seen)
  case Nil
  then show ?case by (simp add: rbt_loop_safe.simps)
next
  case (Cons a vs)
  from discards [of m t "[]" a vs seen] Cons.prems obtain m1 where
    r: "rbt_discard lib ty t a (seen, m) = Some (seen @ [a], m1)" "rep m1 t vs" by auto
  from Cons.IH [OF r(2), of "seen @ [a]"] r(1) steps(1) [of m t "[]" a vs] Cons.prems show ?case
    by (subst rbt_loop_safe.simps) simp
qed

lemma safe_prev:
  "rep m t (rev us) \<Longrightarrow> \<exists>m'. rbt_loop_safe (RBT_PREV lib ty) (rbt_discard lib ty t) (first us) (seen, m) = Some (seen @ us, m') \<and> rep m' t []"
proof (induction us arbitrary: m seen)
  case Nil
  then show ?case by (simp add: rbt_loop_safe.simps)
next
  case (Cons a us)
  from discards [of m t "rev us" a "[]" seen] Cons.prems obtain m1 where
    r: "rbt_discard lib ty t a (seen, m) = Some (seen @ [a], m1)" "rep m1 t (rev us)" by auto
  from Cons.IH [OF r(2), of "seen @ [a]"] r(1) steps(2) [of m t "rev us" a "[]"] Cons.prems show ?case
    by (subst rbt_loop_safe.simps) simp
qed

lemma foreach:
  assumes "rep m t xs"
  shows "RBT_FOREACH lib ty t rbt_note ([], m) = Some (xs, m)" "RBT_FOREACH_REVERSE lib ty t rbt_note ([], m) = Some (rev xs, m)"
  using loop_next [of m t "[]" xs "[]"] loop_prev [of m t "rev xs" "[]" "[]"] assms min_law [OF assms] max_law [OF assms]
  by (simp_all add: RBT_FOREACH_def RBT_FOREACH_REVERSE_def RBT_MIN_def RBT_MAX_def)

lemma foreach_safe:
  assumes "rep m t xs"
  shows "\<exists>m'. RBT_FOREACH_SAFE lib ty t (rbt_discard lib ty t) ([], m) = Some (xs, m') \<and> RBT_EMPTY t m'"
    "\<exists>m'. RBT_FOREACH_REVERSE_SAFE lib ty t (rbt_discard lib ty t) ([], m) = Some (rev xs, m') \<and> RBT_EMPTY t m'"
  using safe_next [OF assms, of "[]"] safe_prev [of m t "rev xs" "[]"] assms min_law [OF assms] max_law [OF assms]
  by (auto simp: RBT_FOREACH_SAFE_def RBT_FOREACH_REVERSE_SAFE_def RBT_MIN_def RBT_MAX_def RBT_EMPTY_def empty_law)

lemma built:
  assumes "distinct (map key as)"
  obtains m' xs where "rbt_insert_all lib ty t as (RBT_INIT t m) = Some m'" "rep m' t xs" "set xs = set as" "key_sorted key xs"
  using inserts_all [OF init_law, of as t m] assms sorted_law that by (auto simp: RBT_INIT_def)

lemma finds:
  assumes "rep m t xs" and "a \<in> set xs" and "key k = key a"
  shows "RBT_FIND lib ty t k m = Some (Some a, m)"
proof -
  from split_list [OF assms(2)] obtain us vs where xs: "xs = us @ a # vs" by blast
  with sorted_law [OF assms(1)] have "lookup key us (key a) = None" by (auto simp: lookup_def find_None_iff)
  moreover have "lookup key (a # vs) (key a) = Some a" by (simp add: lookup_def)
  ultimately have "lookup key xs (key a) = Some a" by (simp add: xs lookup_append)
  then show ?thesis using find_law [OF assms(1), of k] assms(3) by (simp add: RBT_FIND_def)
qed

end

section \<open>Red-black trees keep the promise\<close>

text \<open>The functions on the trees of the \<^verbatim>\<open>RB_\<close> macros: the entries have the same fields. \<open>head_of\<close> reads the memory as such a tree and
  \<open>put_head\<close> writes it back.\<close>

definition head_of :: "addr \<Rightarrow> rbt_mem \<Rightarrow> rb_head" where
  "head_of t m = \<lparr>rbh_root = rbt_root (rbt_trees m t), rbe = (\<lambda>a. let e = rbt_entries m a in
     \<lparr>rbe_left = rbt_left e, rbe_right = rbt_right e, rbe_parent = rbt_parent e,
      rbe_color = (if rbt_color e = 0 then RB_BLACK else RB_RED)\<rparr>)\<rparr>"

definition put_head :: "addr \<Rightarrow> rb_head \<Rightarrow> rbt_mem \<Rightarrow> rbt_mem" where
  "put_head t h m = m\<lparr>rbt_trees := (rbt_trees m)(t := \<lparr>rbt_root = rbh_root h\<rparr>), rbt_entries := (\<lambda>a. let e = rbe h a in
     \<lparr>rbt_parent = rbe_parent e, rbt_left = rbe_left e, rbt_right = rbe_right e,
      rbt_color = (if rbe_color e = RB_BLACK then 0 else 1)\<rparr>)\<rparr>"

lemma head_of_put [simp]: "head_of t (put_head t h m) = h"
proof -
  have c: "(if (if x = RB_BLACK then 0 else 1 :: uint32) = 0 then RB_BLACK else RB_RED) = x" for x by (cases x) auto
  have "rbe (head_of t (put_head t h m)) a = rbe h a" for a by (simp add: head_of_def put_head_def Let_def c)
  then have "rbe (head_of t (put_head t h m)) = rbe h" by (rule ext)
  moreover have "rbh_root (head_of t (put_head t h m)) = rbh_root h" by (simp add: head_of_def put_head_def)
  ultimately show ?thesis by (intro rb_head.equality) simp_all
qed

definition query :: "ptr option \<Rightarrow> rbt_mem \<Rightarrow> (ptr \<times> rbt_mem) option" where
  "query r m = map_option (\<lambda>p. (p, m)) r"

lemma query_simps [simp]: "query (Some p) m = Some (p, m)"
  by (simp add: query_def)

definition rb_lib :: rbt_lib where
  "rb_lib = \<lparr>
     lib_insert = (\<lambda>ty t a m. map_option (\<lambda>(p, h). (p, put_head t h m)) (RB_INSERT (t_compare ty a) (head_of t m) a)),
     lib_remove = (\<lambda>ty t a m. map_option (\<lambda>h. (Some a, put_head t h m)) (RB_REMOVE (head_of t m) a)),
     lib_find = (\<lambda>ty t k m. query (RB_FIND (t_compare ty k) (head_of t m)) m),
     lib_nfind = (\<lambda>ty t k m. query (RB_NFIND (t_compare ty k) (head_of t m)) m),
     lib_root = (\<lambda>ty t m. Some (rbt_root (rbt_trees m t), m)),
     lib_min = (\<lambda>ty t m. query (RB_MINMAX (head_of t m) (- 1)) m), lib_max = (\<lambda>ty t m. query (RB_MINMAX (head_of t m) 1) m),
     lib_next = (\<lambda>ty a m. query (RB_NEXT (head_of 0 m) (Some a)) m), lib_prev = (\<lambda>ty a m. query (RB_PREV (head_of 0 m) (Some a)) m),
     lib_left = (\<lambda>ty a m. Some (rbt_left (rbt_entries m a), m)), lib_right = (\<lambda>ty a m. Some (rbt_right (rbt_entries m a), m)),
     lib_parent = (\<lambda>ty a m. Some (rbt_parent (rbt_entries m a), m)),
     lib_set_left = (\<lambda>ty a p m. Some (m\<lparr>rbt_entries := (rbt_entries m)(a := (rbt_entries m a)\<lparr>rbt_left := p\<rparr>)\<rparr>)),
     lib_set_right = (\<lambda>ty a p m. Some (m\<lparr>rbt_entries := (rbt_entries m)(a := (rbt_entries m a)\<lparr>rbt_right := p\<rparr>)\<rparr>)),
     lib_set_parent = (\<lambda>ty a p m. Some (m\<lparr>rbt_entries := (rbt_entries m)(a := (rbt_entries m a)\<lparr>rbt_parent := p\<rparr>)\<rparr>)),
     lib_poison = (\<lambda>ty a x m. Some m), lib_check = (\<lambda>ty a x m. Some (1, m))\<rparr>"

text \<open>Stepping reads the entries only: which tree it is asked about does not matter.\<close>

lemma rb_access_cong:
  assumes "rbe h' = rbe h"
  shows "RB_LEFT h' = RB_LEFT h" "RB_RIGHT h' = RB_RIGHT h" "RB_PARENT h' = RB_PARENT h"
  using assms by (simp_all add: fun_eq_iff RB_LEFT_def RB_RIGHT_def RB_PARENT_def)

lemma rb_loops_cong:
  assumes "rbe h' = rbe h"
  shows "rb_leftmost h e = Some p \<Longrightarrow> rb_leftmost h' e = Some p" "rb_rightmost h e = Some p \<Longrightarrow> rb_rightmost h' e = Some p"
    "rb_climb_right h e = Some p \<Longrightarrow> rb_climb_right h' e = Some p" "rb_climb_left h e = Some p \<Longrightarrow> rb_climb_left h' e = Some p"
proof -
  note c = rb_access_cong [OF assms]
  show "rb_leftmost h' e = Some p" if "rb_leftmost h e = Some p"
  proof (rule rb_leftmost.raw_induct [where P = "\<lambda>g e p. g = h \<longrightarrow> rb_leftmost h' e = Some p", OF _ that, THEN mp, OF _ refl], rule impI, goal_cases)
    case (1 f g e p)
    then show ?case by (subst rb_leftmost.simps) (auto simp: c bind_eq_Some_iff split: if_splits)
  qed
  show "rb_rightmost h' e = Some p" if "rb_rightmost h e = Some p"
  proof (rule rb_rightmost.raw_induct [where P = "\<lambda>g e p. g = h \<longrightarrow> rb_rightmost h' e = Some p", OF _ that, THEN mp, OF _ refl], rule impI, goal_cases)
    case (1 f g e p)
    then show ?case by (subst rb_rightmost.simps) (auto simp: c bind_eq_Some_iff split: if_splits)
  qed
  show "rb_climb_right h' e = Some p" if "rb_climb_right h e = Some p"
  proof (rule rb_climb_right.raw_induct [where P = "\<lambda>g e p. g = h \<longrightarrow> rb_climb_right h' e = Some p", OF _ that, THEN mp, OF _ refl], rule impI, goal_cases)
    case (1 f g e p)
    then show ?case by (subst rb_climb_right.simps) (auto simp: c bind_eq_Some_iff split: if_splits)
  qed
  show "rb_climb_left h' e = Some p" if "rb_climb_left h e = Some p"
  proof (rule rb_climb_left.raw_induct [where P = "\<lambda>g e p. g = h \<longrightarrow> rb_climb_left h' e = Some p", OF _ that, THEN mp, OF _ refl], rule impI, goal_cases)
    case (1 f g e p)
    then show ?case by (subst rb_climb_left.simps) (auto simp: c bind_eq_Some_iff split: if_splits)
  qed
qed

lemma rb_steps_cong:
  assumes "rbe h' = rbe h"
  shows "RB_NEXT h e = Some p \<Longrightarrow> RB_NEXT h' e = Some p" "RB_PREV h e = Some p \<Longrightarrow> RB_PREV h' e = Some p"
proof -
  note c = rb_access_cong [OF assms] and l = rb_loops_cong [OF assms]
  show "RB_NEXT h' e = Some p" if n: "RB_NEXT h e = Some p"
  proof -
    from n obtain r where r: "RB_RIGHT h e = Some r" by (auto simp: RB_NEXT_def bind_eq_Some_iff)
    from n r obtain q where q: "RB_PARENT h e = Some q" by (cases e) (auto simp: RB_PARENT_def RB_RIGHT_def)
    show ?thesis
      using n l(1) [of r p] l(3) [of e p] unfolding RB_NEXT_def c r q Option.bind.bind_lunit by (cases "r = None"; cases "q = None") (auto simp: bind_eq_Some_iff split: if_splits)
  qed
  show "RB_PREV h' e = Some p" if n: "RB_PREV h e = Some p"
  proof -
    from n obtain r where r: "RB_LEFT h e = Some r" by (auto simp: RB_PREV_def bind_eq_Some_iff)
    from n r obtain q where q: "RB_PARENT h e = Some q" by (cases e) (auto simp: RB_PARENT_def RB_LEFT_def)
    show ?thesis
      using n l(2) [of r p] l(4) [of e p] unfolding RB_PREV_def c r q Option.bind.bind_lunit by (cases "r = None"; cases "q = None") (auto simp: bind_eq_Some_iff split: if_splits)
  qed
qed

lemma head_of_steps:
  assumes "rb_index key (head_of t m) (us @ a # vs)"
  shows "RB_NEXT (head_of 0 m) (Some a) = Some (first vs)" "RB_PREV (head_of 0 m) (Some a) = Some (first (rev us))"
proof -
  have e: "rbe (head_of 0 m) = rbe (head_of t m)" by (simp add: head_of_def)
  from assms obtain r where r: "rrep (head_of t m) r" "addrs r = us @ a # vs" by (auto simp: rb_index_def)
  show "RB_NEXT (head_of 0 m) (Some a) = Some (first vs)" "RB_PREV (head_of 0 m) (Some a) = Some (first (rev us))"
    using rb_steps_cong [OF e] RB_NEXT_spec [OF r] RB_PREV_spec [OF r] by blast+
qed

lemma rb_lib_promise:
  assumes "\<And>x. cmp_for key (key x) (t_compare ty x) UNIV"
  shows "rank_tree rb_lib ty key (\<lambda>m t. rb_index key (head_of t m))"
proof
  fix m t xs a b k us vs
  have cmp: "cmp_for key (key x) (t_compare ty x) A" for x A using assms [of x] by (simp add: cmp_for_def)
  have "head_of t (rb_init t m) = RB_INIT (head_of t m)" by (simp add: head_of_def rb_init_def RB_INIT_def)
  then show "rb_index key (head_of t (rb_init t m)) []" by (simp add: rb_index_init)
  show "rb_empty t m \<longleftrightarrow> xs = []" if "rb_index key (head_of t m) xs"
    using rb_index_ends(3) [OF that] by (simp add: rb_empty_def RB_EMPTY_def RB_ROOT_def head_of_def)
  show "key_sorted key xs" if "rb_index key (head_of t m) xs" using that by (rule rb_index_sorted)
  show "\<exists>us vs m'. lib_insert rb_lib ty t a m = Some (None, m') \<and> xs = us @ vs \<and> rb_index key (head_of t m') (us @ a # vs)"
    if "rb_index key (head_of t m) xs" "a \<notin> set xs" "lookup key xs (key a) = None"
    using rb_index_INSERT [OF that(1) cmp that(2)] that(3) by (auto simp: rb_lib_def) (metis head_of_put)
  show "\<exists>m'. lib_insert rb_lib ty t a m = Some (Some b, m') \<and> rb_index key (head_of t m') xs"
    if "rb_index key (head_of t m) xs" "a \<notin> set xs" "lookup key xs (key a) = Some b"
    using rb_index_INSERT [OF that(1) cmp that(2)] that(1,3) by (auto simp: rb_lib_def)
  show "\<exists>m'. lib_remove rb_lib ty t a m = Some (Some a, m') \<and> rb_index key (head_of t m') (us @ vs)"
    if "rb_index key (head_of t m) (us @ a # vs)" using rb_index_REMOVE [OF that] by (auto simp: rb_lib_def)
  show "lib_find rb_lib ty t k m = Some (lookup key xs (key k), m)" "lib_nfind rb_lib ty t k m = Some (find (\<lambda>a. key k \<le> key a) xs, m)"
    if "rb_index key (head_of t m) xs" using rb_index_FIND [OF that cmp] rb_index_NFIND [OF that cmp] by (simp_all add: rb_lib_def)
  show "lib_min rb_lib ty t m = Some (first xs, m)" "lib_max rb_lib ty t m = Some (first (rev xs), m)"
    if "rb_index key (head_of t m) xs" using that by (auto simp: rb_lib_def rb_index_def RB_MINMAX_spec)
  show "lib_next rb_lib ty a m = Some (first vs, m)" "lib_prev rb_lib ty a m = Some (first (rev us), m)"
    if "rb_index key (head_of t m) (us @ a # vs)" using head_of_steps [OF that] by (simp_all add: rb_lib_def)
qed

text \<open>Elements compared by their addresses.\<close>

definition addr_type :: rb_type where
  "addr_type = RBT_GENERATE (\<lambda>a b. Some (int a - int b)) 0"

lemma addr_type_compares: "cmp_for (\<lambda>a. a) x (t_compare addr_type x) UNIV"
  using cmp_for_addrs [of x] by (simp add: addr_type_def RBT_GENERATE_def RBT_GENERATE_INTERNAL_def)

interpretation art: rank_tree rb_lib addr_type "\<lambda>a. a" "\<lambda>m t. rb_index (\<lambda>a. a) (head_of t m)"
  by (rule rb_lib_promise) (rule addr_type_compares)

section \<open>Properties\<close>

text \<open>A tree that is initialised and filled with elements of different keys. \<^verbatim>\<open>RBT_FOREACH\<close> and \<^verbatim>\<open>RBT_FOREACH_REVERSE\<close> end, visit every element once, in
  ascending and descending order of the keys, and leave the memory as it is; \<^verbatim>\<open>RBT_FIND\<close> gives the element that has the key. The functions the repository only declares
  are assumed to do what their manual page says.\<close>

theorem rbt_index_in_order:
  assumes "rank_tree lib ty key rep" and "distinct (map key as)"
  shows "\<exists>m' xs. rbt_insert_all lib ty t as (RBT_INIT t m) = Some m' \<and> set xs = set as \<and> key_sorted key xs \<and>
    RBT_FOREACH lib ty t rbt_note ([], m') = Some (xs, m') \<and> RBT_FOREACH_REVERSE lib ty t rbt_note ([], m') = Some (rev xs, m') \<and>
    (\<forall>a\<in>set as. \<forall>k. key k = key a \<longrightarrow> RBT_FIND lib ty t k m' = Some (Some a, m'))"
proof -
  from rank_tree.built [OF assms] obtain m' xs where
    b: "rbt_insert_all lib ty t as (RBT_INIT t m) = Some m'" "rep m' t xs" "set xs = set as" "key_sorted key xs" by blast
  show ?thesis using b rank_tree.foreach [OF assms(1) b(2)] rank_tree.finds [OF assms(1) b(2)] by auto
qed

definition rbt_blank :: rbt_mem where
  "rbt_blank = \<lparr>rbt_trees = \<lambda>_. RBT_INITIALIZER,
     rbt_entries = \<lambda>_. \<lparr>rbt_parent = None, rbt_left = None, rbt_right = None, rbt_color = 0\<rparr>\<rparr>"

theorem rbt_index_in_order_witness:
  "\<exists>m'. rbt_insert_all rb_lib addr_type 0 [5, 2, 9] (RBT_INIT 0 rbt_blank) = Some m' \<and>
    RBT_FOREACH rb_lib addr_type 0 rbt_note ([], m') = Some ([2, 5, 9], m') \<and> RBT_FIND rb_lib addr_type 0 9 m' = Some (Some 9, m')"
proof -
  have "distinct (map (\<lambda>a. a) [5, 2, 9 :: addr])" by simp
  from rbt_index_in_order [OF art.rank_tree_axioms this, of 0 rbt_blank] obtain m' xs where
    r: "rbt_insert_all rb_lib addr_type 0 [5, 2, 9] (RBT_INIT 0 rbt_blank) = Some m'" "set xs = set [5, 2, 9]" "key_sorted (\<lambda>a. a) xs"
      "RBT_FOREACH rb_lib addr_type 0 rbt_note ([], m') = Some (xs, m')"
      "\<forall>a\<in>set [5, 2, 9]. \<forall>k. k = a \<longrightarrow> RBT_FIND rb_lib addr_type 0 k m' = Some (Some a, m')" by blast
  from r(2,3) have "xs = [2, 5, 9]" by (rule sorted_three [rotated])
  with r(1,4,5) show ?thesis by simp
qed

text \<open>The loops that allow the element to be removed. \<^verbatim>\<open>RBT_FOREACH_SAFE\<close> and \<^verbatim>\<open>RBT_FOREACH_REVERSE_SAFE\<close> with a statement that removes the current element
  end, visit and remove every element once, in ascending and descending order, and leave a tree that \<^verbatim>\<open>RBT_EMPTY\<close> reports as empty.\<close>

theorem rbt_foreach_safe_empties:
  assumes "rank_tree lib ty key rep" and "distinct (map key as)"
  shows "\<exists>m' xs m1 m2. rbt_insert_all lib ty t as (RBT_INIT t m) = Some m' \<and> set xs = set as \<and> key_sorted key xs \<and>
    RBT_FOREACH_SAFE lib ty t (rbt_discard lib ty t) ([], m') = Some (xs, m1) \<and> RBT_EMPTY t m1 \<and>
    RBT_FOREACH_REVERSE_SAFE lib ty t (rbt_discard lib ty t) ([], m') = Some (rev xs, m2) \<and> RBT_EMPTY t m2"
proof -
  from rank_tree.built [OF assms] obtain m' xs where
    b: "rbt_insert_all lib ty t as (RBT_INIT t m) = Some m'" "rep m' t xs" "set xs = set as" "key_sorted key xs" by blast
  show ?thesis using b rank_tree.foreach_safe [OF assms(1) b(2)] by blast
qed

theorem rbt_foreach_safe_empties_witness:
  "\<exists>m' m1. rbt_insert_all rb_lib addr_type 0 [5, 2, 9] (RBT_INIT 0 rbt_blank) = Some m' \<and>
    RBT_FOREACH_SAFE rb_lib addr_type 0 (rbt_discard rb_lib addr_type 0) ([], m') = Some ([2, 5, 9], m1) \<and> RBT_EMPTY 0 m1"
proof -
  have "distinct (map (\<lambda>a. a) [5, 2, 9 :: addr])" by simp
  from rbt_foreach_safe_empties [OF art.rank_tree_axioms this, of 0 rbt_blank] obtain m' xs m1 where
    r: "rbt_insert_all rb_lib addr_type 0 [5, 2, 9] (RBT_INIT 0 rbt_blank) = Some m'" "set xs = set [5, 2, 9]" "key_sorted (\<lambda>a. a) xs"
      "RBT_FOREACH_SAFE rb_lib addr_type 0 (rbt_discard rb_lib addr_type 0) ([], m') = Some (xs, m1)" "RBT_EMPTY 0 m1" by blast
  from r(2,3) have "xs = [2, 5, 9]" by (rule sorted_three [rotated])
  with r(1,4,5) show ?thesis by blast
qed

end
