(* ===== verification/Link_Memory.thy ===== *)
theory Link_Memory
  imports Yamux_Prelude
begin

text \<open>
  The memory the list macros of \<^verbatim>\<open>queue.h\<close> work on. An element is an address; its entry holds a
  pointer to the next element and, in the doubly-linked kinds, the address of the link that points at
  it. A head holds the pointer to the first element and, in the kinds with a tail, the address of the last
  link. So a link is the first word of a head or of an entry, and the second word behind it is again
  the address of a link. Heads are numbered, and several may share the memory.
\<close>

section \<open>Links\<close>

datatype link = Head nat | Next addr

record links =
  lk_mem :: "addr set"
  lk_link :: "link \<Rightarrow> addr option"
  lk_back :: "link \<Rightarrow> link"

text \<open>Reading and writing the two words; a word of an element that is not allocated has no value.\<close>

fun lk_ok :: "links \<Rightarrow> link \<Rightarrow> bool" where
  "lk_ok m (Head h) = True"
| "lk_ok m (Next a) = (a \<in> lk_mem m)"

definition fetch :: "links \<Rightarrow> link \<Rightarrow> addr option option" where
  "fetch m l = (if lk_ok m l then Some (lk_link m l) else None)"

definition store :: "links \<Rightarrow> link \<Rightarrow> addr option \<Rightarrow> links option" where
  "store m l p = (if lk_ok m l then Some (m\<lparr>lk_link := (lk_link m)(l := p)\<rparr>) else None)"

definition fetch_back :: "links \<Rightarrow> link \<Rightarrow> link option" where
  "fetch_back m l = (if lk_ok m l then Some (lk_back m l) else None)"

definition store_back :: "links \<Rightarrow> link \<Rightarrow> link \<Rightarrow> links option" where
  "store_back m l k = (if lk_ok m l then Some (m\<lparr>lk_back := (lk_back m)(l := k)\<rparr>) else None)"

definition lk_free :: "addr \<Rightarrow> links \<Rightarrow> links option" where
  "lk_free a m = (if a \<in> lk_mem m then Some (m\<lparr>lk_mem := lk_mem m - {a}\<rparr>) else None)"

text \<open>
  The iteration macros. The statement they are put in front of is a function of the element, the memory and the
  other variables of the program. The safe variants read the next element before the statement runs,
  the others after it.
\<close>

type_synonym 's stmt = "addr \<Rightarrow> links \<times> 's \<Rightarrow> (links \<times> 's) option"

partial_function (option) lk_foreach :: "'s stmt \<Rightarrow> addr option \<Rightarrow> links \<times> 's \<Rightarrow> (links \<times> 's) option" where
  "lk_foreach body var st =
     (case var of None \<Rightarrow> Some st
      | Some a \<Rightarrow> do { st \<leftarrow> body a st; n \<leftarrow> fetch (fst st) (Next a); lk_foreach body n st })"

partial_function (option) lk_foreach_safe :: "'s stmt \<Rightarrow> addr option \<Rightarrow> links \<times> 's \<Rightarrow> (links \<times> 's) option" where
  "lk_foreach_safe body var st =
     (case var of None \<Rightarrow> Some st
      | Some a \<Rightarrow> do { tvar \<leftarrow> fetch (fst st) (Next a); st \<leftarrow> body a st; lk_foreach_safe body tvar st })"

definition hd_ptr :: "addr list \<Rightarrow> addr option" where
  "hd_ptr xs = (case xs of [] \<Rightarrow> None | a # _ \<Rightarrow> Some a)"

lemma hd_ptr_simps [simp]: "hd_ptr [] = None" "hd_ptr (a # xs) = Some a" "hd_ptr xs = None \<longleftrightarrow> xs = []"
  by (simp_all add: hd_ptr_def split: list.split)

text \<open>Both loops end when an invariant gives the next element, after the statement or before it.\<close>

lemma lk_foreach_inv:
  assumes "I xs st"
    and "\<And>a ys st. I (a # ys) st \<Longrightarrow> \<exists>st'. body a st = Some st' \<and> fetch (fst st') (Next a) = Some (hd_ptr ys) \<and> I ys st'"
  shows "\<exists>st'. lk_foreach body (hd_ptr xs) st = Some st' \<and> I [] st'"
  using assms(1)
proof (induction xs arbitrary: st)
  case Nil
  then show ?case by (simp add: lk_foreach.simps)
next
  case (Cons a xs)
  from assms(2) [OF Cons.prems] Cons.IH show ?case by (subst lk_foreach.simps) fastforce
qed

lemma lk_foreach_safe_inv:
  assumes "I xs st"
    and "\<And>a ys st. I (a # ys) st \<Longrightarrow> fetch (fst st) (Next a) = Some (hd_ptr ys) \<and> (\<exists>st'. body a st = Some st' \<and> I ys st')"
  shows "\<exists>st'. lk_foreach_safe body (hd_ptr xs) st = Some st' \<and> I [] st'"
  using assms(1)
proof (induction xs arbitrary: st)
  case Nil
  then show ?case by (simp add: lk_foreach_safe.simps)
next
  case (Cons a xs)
  from assms(2) [OF Cons.prems] Cons.IH show ?case by (subst lk_foreach_safe.simps) fastforce
qed

section \<open>Chains\<close>

text \<open>From the link \<open>l\<close> the first words spell \<open>xs\<close>; the second words of \<open>xs\<close> point back.\<close>

primrec chain :: "(link \<Rightarrow> addr option) \<Rightarrow> link \<Rightarrow> addr list \<Rightarrow> bool" where
  "chain f l [] \<longleftrightarrow> f l = None"
| "chain f l (a # xs) \<longleftrightarrow> f l = Some a \<and> chain f (Next a) xs"

primrec backs :: "(link \<Rightarrow> link) \<Rightarrow> link \<Rightarrow> addr list \<Rightarrow> bool" where
  "backs g l [] \<longleftrightarrow> True"
| "backs g l (a # xs) \<longleftrightarrow> g (Next a) = l \<and> backs g (Next a) xs"

lemma Next_image [simp]: "Next a \<in> Next ` S \<longleftrightarrow> a \<in> S" "Head h \<notin> Next ` S"
  by auto

definition end_of :: "link \<Rightarrow> addr list \<Rightarrow> link" where
  "end_of l xs = (if xs = [] then l else Next (last xs))"

lemma end_of_simps [simp]:
  "end_of l [] = l" "end_of l (a # xs) = end_of (Next a) xs" "end_of l (xs @ [a]) = Next a"
  by (simp_all add: end_of_def)

lemma end_of_append: "end_of l (xs @ ys) = end_of (end_of l xs) ys"
  by (simp add: end_of_def)

lemma end_of_in: "end_of l xs \<in> insert l (Next ` set xs)"
  by (simp add: end_of_def)

lemma end_of_neq: "l \<noteq> Next a \<Longrightarrow> a \<notin> set xs \<Longrightarrow> end_of l xs \<noteq> Next a"
  using end_of_in [of l xs] by auto

lemma chain_cong: "(\<And>k. k \<in> insert l (Next ` set xs) \<Longrightarrow> f k = g k) \<Longrightarrow> chain f l xs = chain g l xs"
  by (induction xs arbitrary: l) auto

lemma backs_cong: "(\<And>a. a \<in> set xs \<Longrightarrow> f (Next a) = g (Next a)) \<Longrightarrow> backs f l xs = backs g l xs"
  by (induction xs arbitrary: l) auto

lemma chain_upd [simp]: "k \<noteq> l \<Longrightarrow> k \<notin> Next ` set xs \<Longrightarrow> chain (f(k := v)) l xs = chain f l xs"
  by (rule chain_cong) auto

lemma backs_upd [simp]: "k \<notin> Next ` set xs \<Longrightarrow> backs (g(k := v)) l xs = backs g l xs"
  by (rule backs_cong) auto

text \<open>A chain may be entered through another link with the same contents.\<close>

lemma chain_enter: "chain f l xs \<Longrightarrow> l \<notin> Next ` set xs \<Longrightarrow> k \<notin> Next ` set xs \<Longrightarrow> chain (f(k := f l)) k xs"
  by (cases xs) auto

lemma chain_append: "chain f l (us @ vs) \<Longrightarrow> chain f (end_of l us) vs"
  by (induction us arbitrary: l) auto

lemma backs_append: "backs g l (us @ vs) \<longleftrightarrow> backs g l us \<and> backs g (end_of l us) vs"
  by (induction us arbitrary: l) auto

lemma chain_at:
  assumes "chain f l (us @ a # vs)"
  shows "f (end_of l us) = Some a" "f (Next a) = hd_ptr vs"
  using chain_append [OF assms] by (cases vs; auto)+

lemma chain_end: "chain f l xs \<Longrightarrow> f (end_of l xs) = None"
  using chain_append [of f l xs "[]"] by simp

lemma chain_first: "chain f l xs \<Longrightarrow> f l = hd_ptr xs"
  by (cases xs) auto

lemma backs_at: "backs g l (us @ a # vs) \<Longrightarrow> g (Next a) = end_of l us"
  by (simp add: backs_append)

section \<open>Splicing\<close>

text \<open>Every operation of the macros that changes a list is one of these changes of the first words.\<close>

lemma chain_insert:
  assumes "chain f l (us @ vs)" and "distinct (us @ vs)" and "a \<notin> set (us @ vs)" and "l \<notin> Next ` set (a # us @ vs)"
  shows "chain (f(Next a := f (end_of l us), end_of l us := Some a)) l (us @ a # vs)"
  using assms
proof (induction us arbitrary: l)
  case Nil
  then have "chain (f(Next a := f l)) (Next a) vs" by (intro chain_enter) auto
  with Nil show ?case by (simp del: fun_upd_apply add: fun_upd_same)
next
  case (Cons c us)
  moreover have "end_of (Next c) us \<noteq> l" using Cons.prems(4) end_of_in [of "Next c" us] by auto
  ultimately show ?case by auto
qed

lemma chain_remove:
  assumes "chain f l (us @ a # vs)" and "distinct (us @ a # vs)" and "l \<notin> Next ` set (us @ a # vs)"
  shows "chain (f(end_of l us := f (Next a))) l (us @ vs)"
  using assms
proof (induction us arbitrary: l)
  case Nil
  then show ?case using chain_enter [of f "Next a" vs l] by (simp del: fun_upd_apply)
next
  case (Cons c us)
  moreover have "end_of (Next c) us \<noteq> l" using Cons.prems(3) end_of_in [of "Next c" us] by auto
  ultimately show ?case by auto
qed

lemma chain_replace:
  assumes "chain f l (us @ a # vs)" and "distinct (us @ a # vs)" and "l \<notin> Next ` set (b # us @ a # vs)" and "b \<notin> set (us @ a # vs)"
  shows "chain (f(Next b := f (Next a), end_of l us := Some b)) l (us @ b # vs)"
proof -
  let ?g = "f(end_of l us := f (Next a))"
  have "chain ?g l (us @ vs)" using assms by (intro chain_remove) auto
  from chain_insert [OF this, of b] assms
  have "chain (?g(Next b := ?g (end_of l us), end_of l us := Some b)) l (us @ b # vs)" by auto
  moreover have "end_of l us \<noteq> Next b" using assms(3,4) by (intro end_of_neq) auto
  ultimately show ?thesis by (simp add: fun_upd_twist)
qed

lemma chain_concat:
  assumes "chain f l xs" and "chain f k ys" and "ys \<noteq> []" and "distinct (xs @ ys)"
    and "l \<notin> Next ` set (xs @ ys)" and "k \<notin> Next ` set (xs @ ys)"
  shows "chain (f(end_of l xs := f k)) l (xs @ ys)"
  using assms
proof (induction xs arbitrary: l)
  case Nil
  then show ?case using chain_enter [of f k ys l] by (simp del: fun_upd_apply)
next
  case (Cons c xs)
  moreover have "end_of (Next c) xs \<noteq> l" using Cons.prems(5) end_of_in [of "Next c" xs] by auto
  ultimately show ?case by auto
qed

text \<open>The same for the second words. \<open>set_hd\<close> changes the one behind the first element of a list, if there is one.\<close>

definition set_hd :: "addr list \<Rightarrow> link \<Rightarrow> (link \<Rightarrow> link) \<Rightarrow> link \<Rightarrow> link" where
  "set_hd vs k g = (if vs = [] then g else g(Next (hd vs) := k))"

lemma set_hd_simps [simp]: "set_hd [] k g = g" "set_hd (b # vs) k g = g(Next b := k)"
  by (simp_all add: set_hd_def)

lemma backs_set_hd: "backs g l vs \<Longrightarrow> distinct vs \<Longrightarrow> backs (set_hd vs k g) k vs"
  by (cases vs) (auto intro: backs_upd [THEN iffD2])

lemma backs_insert:
  assumes "backs g l (us @ vs)" and "distinct (us @ vs)" and "a \<notin> set (us @ vs)"
  shows "backs ((set_hd vs (Next a) g)(Next a := end_of l us)) l (us @ a # vs)"
proof -
  from assms have "backs (set_hd vs (Next a) g) (Next a) vs" by (auto simp: backs_append intro: backs_set_hd)
  moreover have "backs (set_hd vs (Next a) g) l us" using assms by (cases vs) (auto simp: backs_append)
  ultimately show ?thesis using assms(3) by (auto simp: backs_append)
qed

lemma backs_remove:
  assumes "backs g l (us @ a # vs)" and "distinct (us @ a # vs)"
  shows "backs (set_hd vs (end_of l us) g) l (us @ vs)"
proof -
  from assms have "backs (set_hd vs (end_of l us) g) (end_of l us) vs" by (auto simp: backs_append intro: backs_set_hd)
  moreover have "backs (set_hd vs (end_of l us) g) l us" using assms by (cases vs) (auto simp: backs_append)
  ultimately show ?thesis by (simp add: backs_append)
qed

lemma backs_replace:
  assumes "backs g l (us @ a # vs)" and "distinct (us @ a # vs)" and "b \<notin> set (us @ a # vs)"
  shows "backs ((set_hd vs (Next b) g)(Next b := end_of l us)) l (us @ b # vs)"
proof -
  from assms have "backs (set_hd vs (Next b) g) (Next b) vs" by (auto simp: backs_append intro: backs_set_hd)
  moreover have "backs (set_hd vs (Next b) g) l us" using assms by (cases vs) (auto simp: backs_append)
  ultimately show ?thesis using assms(3) by (auto simp: backs_append)
qed

lemma backs_concat:
  assumes "backs g l xs" and "backs g k ys" and "distinct (xs @ ys)"
  shows "backs (set_hd ys (end_of l xs) g) l (xs @ ys)"
proof -
  from assms have "backs (set_hd ys (end_of l xs) g) (end_of l xs) ys" by (auto intro: backs_set_hd)
  moreover have "backs (set_hd ys (end_of l xs) g) l xs" using assms by (cases ys) auto
  ultimately show ?thesis by (simp add: backs_append)
qed

end
