(* ===== verification/Queue_Lists.thy ===== *)
theory Queue_Lists
  imports Link_Memory
begin

text \<open>
  The list macros of \<^verbatim>\<open>queue.h\<close> without a tail pointer: \<^verbatim>\<open>SLIST\<close> (singly linked) and \<^verbatim>\<open>LIST\<close> (doubly
  linked). Every macro is shown to do to the links what its name says of the list of elements, to
  follow no null pointer on the way, and to write nothing outside that list. \<^verbatim>\<open>_Q_INVALIDATE\<close> is
  empty unless \<^verbatim>\<open>QUEUE_MACRO_DEBUG\<close> is defined, and is left out.
\<close>

section \<open>Shared parts\<close>

text \<open>The next element of the one a pointer points at.\<close>

definition lk_next :: "addr option \<Rightarrow> links \<Rightarrow> addr option option" where
  "lk_next p m = do { a \<leftarrow> p; fetch m (Next a) }"

text \<open>Outside the head \<open>h\<close> and the elements \<open>S\<close> nothing is different.\<close>

definition changes :: "links \<Rightarrow> links \<Rightarrow> nat \<Rightarrow> addr set \<Rightarrow> bool" where
  "changes m m' h S \<longleftrightarrow> lk_mem m' = lk_mem m \<and>
     (\<forall>l. l \<notin> insert (Head h) (Next ` S) \<longrightarrow> lk_link m' l = lk_link m l \<and> lk_back m' l = lk_back m l)"

definition gives :: "(links \<Rightarrow> nat \<Rightarrow> addr list \<Rightarrow> bool) \<Rightarrow> links option \<Rightarrow> links \<Rightarrow> nat \<Rightarrow> addr set \<Rightarrow> addr list \<Rightarrow> bool" where
  "gives rep r m h S xs \<longleftrightarrow> (\<exists>m'. r = Some m' \<and> rep m' h xs \<and> changes m m' h S)"

lemma lk_ok_end: "set us \<subseteq> lk_mem m \<Longrightarrow> lk_ok m (end_of (Head h) us)"
  by (cases us rule: rev_cases) auto

section \<open>Singly-linked lists\<close>

definition SLIST_FIRST :: "nat \<Rightarrow> links \<Rightarrow> addr option" where
  "SLIST_FIRST h m = lk_link m (Head h)"

definition SLIST_EMPTY :: "nat \<Rightarrow> links \<Rightarrow> bool" where
  "SLIST_EMPTY h m \<longleftrightarrow> SLIST_FIRST h m = None"

definition SLIST_FOREACH :: "'s stmt \<Rightarrow> nat \<Rightarrow> links \<times> 's \<Rightarrow> (links \<times> 's) option" where
  "SLIST_FOREACH body h st = lk_foreach body (SLIST_FIRST h (fst st)) st"

definition SLIST_FOREACH_SAFE :: "'s stmt \<Rightarrow> nat \<Rightarrow> links \<times> 's \<Rightarrow> (links \<times> 's) option" where
  "SLIST_FOREACH_SAFE body h st = lk_foreach_safe body (SLIST_FIRST h (fst st)) st"

definition SLIST_INIT :: "nat \<Rightarrow> links \<Rightarrow> links option" where
  "SLIST_INIT h m = store m (Head h) None"

definition SLIST_INSERT_AFTER :: "addr \<Rightarrow> addr \<Rightarrow> links \<Rightarrow> links option" where
  "SLIST_INSERT_AFTER slistelm elm m = do {
     n \<leftarrow> fetch m (Next slistelm);
     m \<leftarrow> store m (Next elm) n;
     store m (Next slistelm) (Some elm)
   }"

definition SLIST_INSERT_HEAD :: "nat \<Rightarrow> addr \<Rightarrow> links \<Rightarrow> links option" where
  "SLIST_INSERT_HEAD h elm m = do {
     m \<leftarrow> store m (Next elm) (lk_link m (Head h));
     store m (Head h) (Some elm)
   }"

definition SLIST_REMOVE_AFTER :: "addr \<Rightarrow> links \<Rightarrow> links option" where
  "SLIST_REMOVE_AFTER elm m = do {
     n \<leftarrow> fetch m (Next elm);
     n \<leftarrow> lk_next n m;
     store m (Next elm) n
   }"

definition SLIST_REMOVE_HEAD :: "nat \<Rightarrow> links \<Rightarrow> links option" where
  "SLIST_REMOVE_HEAD h m = do {
     n \<leftarrow> lk_next (lk_link m (Head h)) m;
     store m (Head h) n
   }"

text \<open>The loop of \<^verbatim>\<open>SLIST_REMOVE\<close> that looks for the element before \<open>elm\<close>.\<close>

partial_function (option) slist_before :: "addr \<Rightarrow> addr option \<Rightarrow> links \<Rightarrow> addr option" where
  "slist_before elm curelm m = do {
     c \<leftarrow> curelm;
     n \<leftarrow> fetch m (Next c);
     if n \<noteq> Some elm then slist_before elm n m else Some c
   }"

definition SLIST_REMOVE :: "nat \<Rightarrow> addr \<Rightarrow> links \<Rightarrow> links option" where
  "SLIST_REMOVE h elm m =
     (if lk_link m (Head h) = Some elm then SLIST_REMOVE_HEAD h m
      else do {
        curelm \<leftarrow> slist_before elm (lk_link m (Head h)) m;
        n \<leftarrow> fetch m (Next curelm);
        n \<leftarrow> lk_next n m;
        store m (Next curelm) n
      })"

section \<open>Doubly-linked lists\<close>

definition LIST_FIRST :: "nat \<Rightarrow> links \<Rightarrow> addr option" where
  "LIST_FIRST h m = lk_link m (Head h)"

definition LIST_EMPTY :: "nat \<Rightarrow> links \<Rightarrow> bool" where
  "LIST_EMPTY h m \<longleftrightarrow> LIST_FIRST h m = None"

definition LIST_FOREACH :: "'s stmt \<Rightarrow> nat \<Rightarrow> links \<times> 's \<Rightarrow> (links \<times> 's) option" where
  "LIST_FOREACH body h st = lk_foreach body (LIST_FIRST h (fst st)) st"

definition LIST_FOREACH_SAFE :: "'s stmt \<Rightarrow> nat \<Rightarrow> links \<times> 's \<Rightarrow> (links \<times> 's) option" where
  "LIST_FOREACH_SAFE body h st = lk_foreach_safe body (LIST_FIRST h (fst st)) st"

definition LIST_INIT :: "nat \<Rightarrow> links \<Rightarrow> links option" where
  "LIST_INIT h m = store m (Head h) None"

definition LIST_INSERT_AFTER :: "addr \<Rightarrow> addr \<Rightarrow> links \<Rightarrow> links option" where
  "LIST_INSERT_AFTER listelm elm m = do {
     n \<leftarrow> fetch m (Next listelm);
     m \<leftarrow> store m (Next elm) n;
     m \<leftarrow> (if n \<noteq> None then do {
             n \<leftarrow> fetch m (Next listelm);
             b \<leftarrow> n;
             store_back m (Next b) (Next elm)
           } else Some m);
     m \<leftarrow> store m (Next listelm) (Some elm);
     store_back m (Next elm) (Next listelm)
   }"

definition LIST_INSERT_BEFORE :: "addr \<Rightarrow> addr \<Rightarrow> links \<Rightarrow> links option" where
  "LIST_INSERT_BEFORE listelm elm m = do {
     p \<leftarrow> fetch_back m (Next listelm);
     m \<leftarrow> store_back m (Next elm) p;
     m \<leftarrow> store m (Next elm) (Some listelm);
     p \<leftarrow> fetch_back m (Next listelm);
     m \<leftarrow> store m p (Some elm);
     store_back m (Next listelm) (Next elm)
   }"

definition LIST_INSERT_HEAD :: "nat \<Rightarrow> addr \<Rightarrow> links \<Rightarrow> links option" where
  "LIST_INSERT_HEAD h elm m = do {
     let n = lk_link m (Head h);
     m \<leftarrow> store m (Next elm) n;
     m \<leftarrow> (if n \<noteq> None then do {
             b \<leftarrow> lk_link m (Head h);
             store_back m (Next b) (Next elm)
           } else Some m);
     m \<leftarrow> store m (Head h) (Some elm);
     store_back m (Next elm) (Head h)
   }"

definition LIST_REMOVE :: "addr \<Rightarrow> links \<Rightarrow> links option" where
  "LIST_REMOVE elm m = do {
     n \<leftarrow> fetch m (Next elm);
     m \<leftarrow> (case n of
             Some b \<Rightarrow> do { p \<leftarrow> fetch_back m (Next elm); store_back m (Next b) p }
           | None \<Rightarrow> Some m);
     p \<leftarrow> fetch_back m (Next elm);
     n \<leftarrow> fetch m (Next elm);
     store m p n
   }"

definition LIST_REPLACE :: "addr \<Rightarrow> addr \<Rightarrow> links \<Rightarrow> links option" where
  "LIST_REPLACE elm elm2 m = do {
     n \<leftarrow> fetch m (Next elm);
     m \<leftarrow> store m (Next elm2) n;
     m \<leftarrow> (if n \<noteq> None then do {
             n \<leftarrow> fetch m (Next elm2);
             b \<leftarrow> n;
             store_back m (Next b) (Next elm2)
           } else Some m);
     p \<leftarrow> fetch_back m (Next elm);
     m \<leftarrow> store_back m (Next elm2) p;
     p \<leftarrow> fetch_back m (Next elm2);
     store m p (Some elm2)
   }"

section \<open>The list that the links represent\<close>

definition slist_rep :: "links \<Rightarrow> nat \<Rightarrow> addr list \<Rightarrow> bool" where
  "slist_rep m h xs \<longleftrightarrow> chain (lk_link m) (Head h) xs \<and> distinct xs \<and> set xs \<subseteq> lk_mem m"

definition list_rep :: "links \<Rightarrow> nat \<Rightarrow> addr list \<Rightarrow> bool" where
  "list_rep m h xs \<longleftrightarrow> slist_rep m h xs \<and> backs (lk_back m) (Head h) xs"

text \<open>\<open>runs r m f g\<close>: the operation ends, and \<open>f\<close> and \<open>g\<close> are the first and second words it leaves.\<close>

definition runs :: "links option \<Rightarrow> links \<Rightarrow> (link \<Rightarrow> addr option) \<Rightarrow> (link \<Rightarrow> link) \<Rightarrow> bool" where
  "runs r m f g \<longleftrightarrow> (\<exists>m'. r = Some m' \<and> lk_mem m' = lk_mem m \<and> lk_link m' = f \<and> lk_back m' = g)"

named_theorems lk_defs
lemmas [lk_defs] = runs_def fetch_def store_def fetch_back_def store_back_def lk_next_def

lemma slist_repD:
  assumes "slist_rep m h (us @ b # vs)"
  shows "lk_link m (end_of (Head h) us) = Some b" "lk_link m (Next b) = hd_ptr vs"
    "b \<in> lk_mem m" "lk_ok m (end_of (Head h) us)" "vs \<noteq> [] \<Longrightarrow> hd vs \<in> lk_mem m" "end_of (Head h) us \<noteq> Next b"
    "b \<notin> set us" "b \<notin> set vs"
  using assms chain_at [of "lk_link m" "Head h" us b vs] lk_ok_end [of us m h] hd_in_set [of vs] end_of_neq [of "Head h" b us]
  by (auto simp: slist_rep_def)

lemma list_repD: "list_rep m h (us @ b # vs) \<Longrightarrow> lk_back m (Next b) = end_of (Head h) us" "list_rep m h xs \<Longrightarrow> slist_rep m h xs"
  by (auto simp: list_rep_def backs_at)

lemma slist_first: "slist_rep m h xs \<Longrightarrow> lk_link m (Head h) = hd_ptr xs"
  by (auto simp: slist_rep_def chain_first)

subsection \<open>Splicing\<close>

definition put_in :: "link \<Rightarrow> addr \<Rightarrow> (link \<Rightarrow> addr option) \<Rightarrow> link \<Rightarrow> addr option" where
  "put_in l a f = f(Next a := f l, l := Some a)"

lemma gives_insert:
  assumes "slist_rep m h (us @ vs)" and "a \<in> lk_mem m" and "a \<notin> set (us @ vs)"
    and "runs r m (put_in (end_of (Head h) us) a (lk_link m)) g"
    and "\<And>l. l \<notin> insert (Head h) (Next ` set (a # us @ vs)) \<Longrightarrow> g l = lk_back m l"
    and "\<And>m'. slist_rep m' h (us @ a # vs) \<Longrightarrow> lk_back m' = g \<Longrightarrow> rep m' h (us @ a # vs)"
  shows "gives rep r m h (set (a # us @ vs)) (us @ a # vs)"
proof -
  from assms(4) obtain m' where m': "r = Some m'" "lk_mem m' = lk_mem m"
    "lk_link m' = (lk_link m)(Next a := lk_link m (end_of (Head h) us), end_of (Head h) us := Some a)" "lk_back m' = g"
    by (auto simp: runs_def put_in_def)
  have "chain (lk_link m') (Head h) (us @ a # vs)" unfolding m'(3)
    using assms(1,3) by (intro chain_insert) (auto simp: slist_rep_def)
  then have "slist_rep m' h (us @ a # vs)" using assms(1-3) m'(2) by (auto simp: slist_rep_def)
  moreover have "changes m m' h (set (a # us @ vs))"
    using m' assms(5) end_of_in [of "Head h" us] by (auto simp: changes_def)
  ultimately show ?thesis using m'(1,4) assms(6) by (auto simp: gives_def)
qed

lemma gives_remove:
  assumes "slist_rep m h (us @ a # vs)" and "runs r m ((lk_link m)(end_of (Head h) us := lk_link m (Next a))) g"
    and "\<And>l. l \<notin> insert (Head h) (Next ` set (us @ a # vs)) \<Longrightarrow> g l = lk_back m l"
    and "\<And>m'. slist_rep m' h (us @ vs) \<Longrightarrow> lk_back m' = g \<Longrightarrow> rep m' h (us @ vs)"
  shows "gives rep r m h (set (us @ a # vs)) (us @ vs)"
proof -
  from assms(2) obtain m' where m': "r = Some m'" "lk_mem m' = lk_mem m"
    "lk_link m' = (lk_link m)(end_of (Head h) us := lk_link m (Next a))" "lk_back m' = g" by (auto simp: runs_def)
  have "chain (lk_link m') (Head h) (us @ vs)" unfolding m'(3)
    using assms(1) by (intro chain_remove) (auto simp: slist_rep_def)
  then have "slist_rep m' h (us @ vs)" using assms(1) m'(2) by (auto simp: slist_rep_def)
  moreover have "changes m m' h (set (us @ a # vs))"
    using m' assms(3) end_of_in [of "Head h" us] by (auto simp: changes_def)
  ultimately show ?thesis using m'(1,4) assms(4) by (auto simp: gives_def)
qed

lemma gives_replace:
  assumes "slist_rep m h (us @ a # vs)" and "b \<in> lk_mem m" and "b \<notin> set (us @ a # vs)"
    and "runs r m ((lk_link m)(Next b := lk_link m (Next a), end_of (Head h) us := Some b)) g"
    and "\<And>l. l \<notin> insert (Head h) (Next ` set (b # us @ a # vs)) \<Longrightarrow> g l = lk_back m l"
    and "\<And>m'. slist_rep m' h (us @ b # vs) \<Longrightarrow> lk_back m' = g \<Longrightarrow> rep m' h (us @ b # vs)"
  shows "gives rep r m h (set (b # us @ a # vs)) (us @ b # vs)"
proof -
  from assms(4) obtain m' where m': "r = Some m'" "lk_mem m' = lk_mem m"
    "lk_link m' = (lk_link m)(Next b := lk_link m (Next a), end_of (Head h) us := Some b)" "lk_back m' = g" by (auto simp: runs_def)
  have "chain (lk_link m') (Head h) (us @ b # vs)" unfolding m'(3)
    using assms(1,3) by (intro chain_replace) (auto simp: slist_rep_def)
  then have "slist_rep m' h (us @ b # vs)" using assms(1-3) m'(2) by (auto simp: slist_rep_def)
  moreover have "changes m m' h (set (b # us @ a # vs))"
    using m' assms(5) end_of_in [of "Head h" us] by (auto simp: changes_def)
  ultimately show ?thesis using m'(1,4) assms(6) by (auto simp: gives_def)
qed

lemma set_hd_other: "l \<notin> Next ` set vs \<Longrightarrow> set_hd vs k g l = g l"
  by (cases vs) auto

lemma list_insert:
  assumes "list_rep m h (us @ vs)" and "a \<in> lk_mem m" and "a \<notin> set (us @ vs)"
    and "runs r m (put_in (end_of (Head h) us) a (lk_link m)) ((set_hd vs (Next a) (lk_back m))(Next a := end_of (Head h) us))"
  shows "gives list_rep r m h (set (a # us @ vs)) (us @ a # vs)"
  using assms backs_insert [of "lk_back m" "Head h" us vs a]
  by (intro gives_insert [OF _ assms(2,3,4)]) (auto simp: list_rep_def slist_rep_def set_hd_other image_Un)

lemma list_remove:
  assumes "list_rep m h (us @ a # vs)"
    and "runs r m ((lk_link m)(end_of (Head h) us := lk_link m (Next a))) (set_hd vs (end_of (Head h) us) (lk_back m))"
  shows "gives list_rep r m h (set (us @ a # vs)) (us @ vs)"
  using assms backs_remove [of "lk_back m" "Head h" us a vs]
  by (intro gives_remove [OF _ assms(2)]) (auto simp: list_rep_def slist_rep_def set_hd_other image_Un)

lemma list_replace:
  assumes "list_rep m h (us @ a # vs)" and "b \<in> lk_mem m" and "b \<notin> set (us @ a # vs)"
    and "runs r m ((lk_link m)(Next b := lk_link m (Next a), end_of (Head h) us := Some b))
      ((set_hd vs (Next b) (lk_back m))(Next b := end_of (Head h) us))"
  shows "gives list_rep r m h (set (b # us @ a # vs)) (us @ b # vs)"
  using assms backs_replace [of "lk_back m" "Head h" us a vs b]
  by (intro gives_replace [OF _ assms(2,3,4)]) (auto simp: list_rep_def slist_rep_def set_hd_other image_Un)

section \<open>Every macro implements its list operation\<close>

subsection \<open>Singly-linked\<close>

lemma SLIST_INIT_rep: "gives slist_rep (SLIST_INIT h m) m h {} []"
  by (simp add: gives_def SLIST_INIT_def store_def slist_rep_def changes_def)

lemma SLIST_EMPTY_rep: "slist_rep m h xs \<Longrightarrow> SLIST_EMPTY h m \<longleftrightarrow> xs = []"
  by (cases xs) (simp_all add: SLIST_EMPTY_def SLIST_FIRST_def slist_first)

lemma SLIST_INSERT_HEAD_rep:
  assumes "slist_rep m h xs" and "a \<in> lk_mem m" and "a \<notin> set xs"
  shows "gives slist_rep (SLIST_INSERT_HEAD h a m) m h (set (a # xs)) (a # xs)"
  using assms gives_insert [of m h "[]" xs a "SLIST_INSERT_HEAD h a m" "lk_back m" slist_rep]
  by (simp add: SLIST_INSERT_HEAD_def put_in_def lk_defs)

lemma SLIST_INSERT_AFTER_rep:
  assumes "slist_rep m h (us @ b # vs)" and "a \<in> lk_mem m" and "a \<notin> set (us @ b # vs)"
  shows "gives slist_rep (SLIST_INSERT_AFTER b a m) m h (set (a # us @ b # vs)) (us @ b # a # vs)"
  using assms slist_repD [OF assms(1)] gives_insert [of m h "us @ [b]" vs a "SLIST_INSERT_AFTER b a m" "lk_back m" slist_rep]
  by (simp add: SLIST_INSERT_AFTER_def put_in_def lk_defs)

lemma SLIST_REMOVE_HEAD_rep:
  assumes "slist_rep m h (a # xs)"
  shows "gives slist_rep (SLIST_REMOVE_HEAD h m) m h (set (a # xs)) xs"
  using assms slist_repD [of m h "[]" a xs] gives_remove [of m h "[]" a xs "SLIST_REMOVE_HEAD h m" "lk_back m" slist_rep]
  by (simp add: SLIST_REMOVE_HEAD_def lk_defs)

lemma SLIST_REMOVE_AFTER_rep:
  assumes "slist_rep m h (us @ b # a # vs)"
  shows "gives slist_rep (SLIST_REMOVE_AFTER b m) m h (set (us @ b # a # vs)) (us @ b # vs)"
  using assms slist_repD [of m h us b "a # vs"] slist_repD [of m h "us @ [b]" a vs]
    gives_remove [of m h "us @ [b]" a vs "SLIST_REMOVE_AFTER b m" "lk_back m" slist_rep]
  by (simp add: SLIST_REMOVE_AFTER_def lk_defs)

lemma slist_before_chain:
  assumes "chain (lk_link m) l (us @ b # a # vs)" and "set (us @ [b]) \<subseteq> lk_mem m" and "a \<notin> set us" "b \<noteq> a"
  shows "slist_before a (lk_link m l) m = Some b"
  using assms
proof (induction us arbitrary: l)
  case Nil
  then show ?case by (subst slist_before.simps) (simp add: fetch_def)
next
  case (Cons c us)
  then have "lk_link m (Next c) \<noteq> Some a" by (cases us) auto
  with Cons show ?case by (subst slist_before.simps) (simp add: fetch_def)
qed

lemma SLIST_REMOVE_rep:
  assumes "slist_rep m h (us @ a # vs)"
  shows "gives slist_rep (SLIST_REMOVE h a m) m h (set (us @ a # vs)) (us @ vs)"
proof (cases us rule: rev_cases)
  case Nil
  then show ?thesis using assms SLIST_REMOVE_HEAD_rep [of m h a vs] slist_first [OF assms] by (simp add: SLIST_REMOVE_def)
next
  case (snoc ts b)
  have "slist_before a (lk_link m (Head h)) m = Some b"
    using assms snoc by (intro slist_before_chain [of _ _ ts _ _ vs]) (auto simp: slist_rep_def)
  moreover have "lk_link m (Head h) \<noteq> Some a" using assms snoc slist_first [OF assms] by (cases ts) (auto simp: slist_rep_def)
  ultimately have "SLIST_REMOVE h a m = SLIST_REMOVE_AFTER b m" by (simp add: SLIST_REMOVE_def SLIST_REMOVE_AFTER_def)
  with SLIST_REMOVE_AFTER_rep [of m h ts b a vs] assms snoc show ?thesis by simp
qed

subsection \<open>Doubly-linked\<close>

lemma LIST_INIT_rep: "gives list_rep (LIST_INIT h m) m h {} []"
  by (simp add: gives_def LIST_INIT_def store_def list_rep_def slist_rep_def changes_def)

lemma LIST_EMPTY_rep: "list_rep m h xs \<Longrightarrow> LIST_EMPTY h m \<longleftrightarrow> xs = []"
  using slist_first [of m h xs] by (cases xs) (simp_all add: LIST_EMPTY_def LIST_FIRST_def list_rep_def)

lemma LIST_INSERT_HEAD_rep:
  assumes "list_rep m h xs" and "a \<in> lk_mem m" and "a \<notin> set xs"
  shows "gives list_rep (LIST_INSERT_HEAD h a m) m h (set (a # xs)) (a # xs)"
  using list_insert [of m h "[]" xs a "LIST_INSERT_HEAD h a m"] assms slist_first [OF list_repD(2) [OF assms(1)]]
  by (cases xs) (auto simp: LIST_INSERT_HEAD_def put_in_def lk_defs list_rep_def slist_rep_def)

lemma LIST_INSERT_AFTER_rep:
  assumes "list_rep m h (us @ b # vs)" and "a \<in> lk_mem m" and "a \<notin> set (us @ b # vs)"
  shows "gives list_rep (LIST_INSERT_AFTER b a m) m h (set (a # us @ b # vs)) (us @ b # a # vs)"
  using list_insert [of m h "us @ [b]" vs a "LIST_INSERT_AFTER b a m"] assms slist_repD [OF list_repD(2) [OF assms(1)]]
  by (cases vs) (auto simp: LIST_INSERT_AFTER_def put_in_def lk_defs)

lemma LIST_INSERT_BEFORE_rep:
  assumes "list_rep m h (us @ b # vs)" and "a \<in> lk_mem m" and "a \<notin> set (us @ b # vs)"
  shows "gives list_rep (LIST_INSERT_BEFORE b a m) m h (set (a # us @ b # vs)) (us @ a # b # vs)"
proof -
  note d = slist_repD [OF list_repD(2) [OF assms(1)]] and p = list_repD(1) [OF assms(1)]
  have "end_of (Head h) us \<noteq> Next a" using assms(3) by (intro end_of_neq) auto
  then have "runs (LIST_INSERT_BEFORE b a m) m (put_in (end_of (Head h) us) a (lk_link m))
      ((set_hd (b # vs) (Next a) (lk_back m))(Next a := end_of (Head h) us))"
    using d p assms(2,3) by (cases "end_of (Head h) us") (auto simp: LIST_INSERT_BEFORE_def put_in_def lk_defs fun_upd_twist)
  with list_insert [of m h us "b # vs" a "LIST_INSERT_BEFORE b a m"] assms show ?thesis by simp
qed

lemma LIST_REMOVE_rep:
  assumes "list_rep m h (us @ a # vs)"
  shows "gives list_rep (LIST_REMOVE a m) m h (set (us @ a # vs)) (us @ vs)"
proof -
  note d = slist_repD [OF list_repD(2) [OF assms]] and p = list_repD(1) [OF assms]
  have "runs (LIST_REMOVE a m) m ((lk_link m)(end_of (Head h) us := lk_link m (Next a))) (set_hd vs (end_of (Head h) us) (lk_back m))"
    using d p by (cases vs; cases "end_of (Head h) us") (auto simp: LIST_REMOVE_def lk_defs)
  with list_remove [OF assms] show ?thesis by simp
qed

lemma LIST_REPLACE_rep:
  assumes "list_rep m h (us @ a # vs)" and "b \<in> lk_mem m" and "b \<notin> set (us @ a # vs)"
  shows "gives list_rep (LIST_REPLACE a b m) m h (set (b # us @ a # vs)) (us @ b # vs)"
proof -
  note d = slist_repD [OF list_repD(2) [OF assms(1)]] and p = list_repD(1) [OF assms(1)]
  have "end_of (Head h) us \<noteq> Next b" using assms(3) by (intro end_of_neq) auto
  then have "runs (LIST_REPLACE a b m) m ((lk_link m)(Next b := lk_link m (Next a), end_of (Head h) us := Some b))
      ((set_hd vs (Next b) (lk_back m))(Next b := end_of (Head h) us))"
    using d p assms(2,3) by (cases vs; cases "end_of (Head h) us") (auto simp: LIST_REPLACE_def lk_defs)
  with list_replace [OF assms] show ?thesis by simp
qed

end
