(* ===== verification/Queue_Tails.thy ===== *)
theory Queue_Tails
  imports Queue_Lists
begin

text \<open>
  The list macros of \<^verbatim>\<open>queue.h\<close> with a tail pointer: \<^verbatim>\<open>SIMPLEQ\<close> (singly linked) and \<^verbatim>\<open>TAILQ\<close> (doubly linked),
  and the macros of \<^verbatim>\<open>STAILQ\<close> that need two queues in one memory or the address of the last
  link. The tail pointer of a head is the second word behind its first link. \<^verbatim>\<open>TAILQ_LAST\<close> and \<^verbatim>\<open>TAILQ_PREV\<close> cast
  the address of a link to a head and read that word: it is the tail pointer when the link is in a
  head and the back pointer when it is in an entry, since both structures have the same layout.
\<close>

section \<open>Simple queues\<close>

definition SIMPLEQ_FIRST :: "nat \<Rightarrow> links \<Rightarrow> addr option" where
  "SIMPLEQ_FIRST h m = lk_link m (Head h)"

definition SIMPLEQ_EMPTY :: "nat \<Rightarrow> links \<Rightarrow> bool" where
  "SIMPLEQ_EMPTY h m \<longleftrightarrow> SIMPLEQ_FIRST h m = None"

definition SIMPLEQ_FOREACH :: "'s stmt \<Rightarrow> nat \<Rightarrow> links \<times> 's \<Rightarrow> (links \<times> 's) option" where
  "SIMPLEQ_FOREACH body h st = lk_foreach body (SIMPLEQ_FIRST h (fst st)) st"

definition SIMPLEQ_FOREACH_SAFE :: "'s stmt \<Rightarrow> nat \<Rightarrow> links \<times> 's \<Rightarrow> (links \<times> 's) option" where
  "SIMPLEQ_FOREACH_SAFE body h st = lk_foreach_safe body (SIMPLEQ_FIRST h (fst st)) st"

definition SIMPLEQ_INIT :: "nat \<Rightarrow> links \<Rightarrow> links option" where
  "SIMPLEQ_INIT h m = do { m \<leftarrow> store m (Head h) None; store_back m (Head h) (Head h) }"

definition SIMPLEQ_INSERT_HEAD :: "nat \<Rightarrow> addr \<Rightarrow> links \<Rightarrow> links option" where
  "SIMPLEQ_INSERT_HEAD h elm m = do {
     let n = lk_link m (Head h);
     m \<leftarrow> store m (Next elm) n;
     m \<leftarrow> (if n = None then store_back m (Head h) (Next elm) else Some m);
     store m (Head h) (Some elm)
   }"

definition SIMPLEQ_INSERT_TAIL :: "nat \<Rightarrow> addr \<Rightarrow> links \<Rightarrow> links option" where
  "SIMPLEQ_INSERT_TAIL h elm m = do {
     m \<leftarrow> store m (Next elm) None;
     m \<leftarrow> store m (lk_back m (Head h)) (Some elm);
     store_back m (Head h) (Next elm)
   }"

definition SIMPLEQ_INSERT_AFTER :: "nat \<Rightarrow> addr \<Rightarrow> addr \<Rightarrow> links \<Rightarrow> links option" where
  "SIMPLEQ_INSERT_AFTER h listelm elm m = do {
     n \<leftarrow> fetch m (Next listelm);
     m \<leftarrow> store m (Next elm) n;
     m \<leftarrow> (if n = None then store_back m (Head h) (Next elm) else Some m);
     store m (Next listelm) (Some elm)
   }"

definition SIMPLEQ_REMOVE_HEAD :: "nat \<Rightarrow> links \<Rightarrow> links option" where
  "SIMPLEQ_REMOVE_HEAD h m = do {
     n \<leftarrow> lk_next (lk_link m (Head h)) m;
     m \<leftarrow> store m (Head h) n;
     if n = None then store_back m (Head h) (Head h) else Some m
   }"

definition SIMPLEQ_REMOVE_AFTER :: "nat \<Rightarrow> addr \<Rightarrow> links \<Rightarrow> links option" where
  "SIMPLEQ_REMOVE_AFTER h elm m = do {
     n \<leftarrow> fetch m (Next elm);
     n \<leftarrow> lk_next n m;
     m \<leftarrow> store m (Next elm) n;
     if n = None then store_back m (Head h) (Next elm) else Some m
   }"

definition SIMPLEQ_CONCAT :: "nat \<Rightarrow> nat \<Rightarrow> links \<Rightarrow> links option" where
  "SIMPLEQ_CONCAT h1 h2 m =
     (if \<not> SIMPLEQ_EMPTY h2 m then do {
        m \<leftarrow> store m (lk_back m (Head h1)) (lk_link m (Head h2));
        m \<leftarrow> store_back m (Head h1) (lk_back m (Head h2));
        SIMPLEQ_INIT h2 m
      } else Some m)"

section \<open>Tail queues\<close>

definition TAILQ_FIRST :: "nat \<Rightarrow> links \<Rightarrow> addr option" where
  "TAILQ_FIRST h m = lk_link m (Head h)"

definition TAILQ_EMPTY :: "nat \<Rightarrow> links \<Rightarrow> bool" where
  "TAILQ_EMPTY h m \<longleftrightarrow> TAILQ_FIRST h m = None"

definition TAILQ_LAST :: "nat \<Rightarrow> links \<Rightarrow> addr option option" where
  "TAILQ_LAST h m = do { l \<leftarrow> fetch_back m (lk_back m (Head h)); fetch m l }"

definition TAILQ_PREV :: "addr \<Rightarrow> links \<Rightarrow> addr option option" where
  "TAILQ_PREV elm m = do { p \<leftarrow> fetch_back m (Next elm); l \<leftarrow> fetch_back m p; fetch m l }"

definition TAILQ_FOREACH :: "'s stmt \<Rightarrow> nat \<Rightarrow> links \<times> 's \<Rightarrow> (links \<times> 's) option" where
  "TAILQ_FOREACH body h st = lk_foreach body (TAILQ_FIRST h (fst st)) st"

definition TAILQ_FOREACH_SAFE :: "'s stmt \<Rightarrow> nat \<Rightarrow> links \<times> 's \<Rightarrow> (links \<times> 's) option" where
  "TAILQ_FOREACH_SAFE body h st = lk_foreach_safe body (TAILQ_FIRST h (fst st)) st"

partial_function (option) tailq_back :: "'s stmt \<Rightarrow> addr option \<Rightarrow> links \<times> 's \<Rightarrow> (links \<times> 's) option" where
  "tailq_back body var st =
     (case var of None \<Rightarrow> Some st
      | Some a \<Rightarrow> do { st \<leftarrow> body a st; n \<leftarrow> TAILQ_PREV a (fst st); tailq_back body n st })"

definition TAILQ_FOREACH_REVERSE :: "'s stmt \<Rightarrow> nat \<Rightarrow> links \<times> 's \<Rightarrow> (links \<times> 's) option" where
  "TAILQ_FOREACH_REVERSE body h st = do { var \<leftarrow> TAILQ_LAST h (fst st); tailq_back body var st }"

partial_function (option) tailq_back_safe :: "'s stmt \<Rightarrow> addr option \<Rightarrow> links \<times> 's \<Rightarrow> (links \<times> 's) option" where
  "tailq_back_safe body var st =
     (case var of None \<Rightarrow> Some st
      | Some a \<Rightarrow> do { tvar \<leftarrow> TAILQ_PREV a (fst st); st \<leftarrow> body a st; tailq_back_safe body tvar st })"

definition TAILQ_FOREACH_REVERSE_SAFE :: "'s stmt \<Rightarrow> nat \<Rightarrow> links \<times> 's \<Rightarrow> (links \<times> 's) option" where
  "TAILQ_FOREACH_REVERSE_SAFE body h st = do { var \<leftarrow> TAILQ_LAST h (fst st); tailq_back_safe body var st }"

definition TAILQ_INIT :: "nat \<Rightarrow> links \<Rightarrow> links option" where
  "TAILQ_INIT h m = do { m \<leftarrow> store m (Head h) None; store_back m (Head h) (Head h) }"

definition TAILQ_INSERT_HEAD :: "nat \<Rightarrow> addr \<Rightarrow> links \<Rightarrow> links option" where
  "TAILQ_INSERT_HEAD h elm m = do {
     let n = lk_link m (Head h);
     m \<leftarrow> store m (Next elm) n;
     m \<leftarrow> (if n \<noteq> None then do { b \<leftarrow> lk_link m (Head h); store_back m (Next b) (Next elm) }
           else store_back m (Head h) (Next elm));
     m \<leftarrow> store m (Head h) (Some elm);
     store_back m (Next elm) (Head h)
   }"

definition TAILQ_INSERT_TAIL :: "nat \<Rightarrow> addr \<Rightarrow> links \<Rightarrow> links option" where
  "TAILQ_INSERT_TAIL h elm m = do {
     m \<leftarrow> store m (Next elm) None;
     m \<leftarrow> store_back m (Next elm) (lk_back m (Head h));
     m \<leftarrow> store m (lk_back m (Head h)) (Some elm);
     store_back m (Head h) (Next elm)
   }"

definition TAILQ_INSERT_AFTER :: "nat \<Rightarrow> addr \<Rightarrow> addr \<Rightarrow> links \<Rightarrow> links option" where
  "TAILQ_INSERT_AFTER h listelm elm m = do {
     n \<leftarrow> fetch m (Next listelm);
     m \<leftarrow> store m (Next elm) n;
     m \<leftarrow> (if n \<noteq> None then do { n \<leftarrow> fetch m (Next elm); b \<leftarrow> n; store_back m (Next b) (Next elm) }
           else store_back m (Head h) (Next elm));
     m \<leftarrow> store m (Next listelm) (Some elm);
     store_back m (Next elm) (Next listelm)
   }"

definition TAILQ_INSERT_BEFORE :: "addr \<Rightarrow> addr \<Rightarrow> links \<Rightarrow> links option" where
  "TAILQ_INSERT_BEFORE listelm elm m = do {
     p \<leftarrow> fetch_back m (Next listelm);
     m \<leftarrow> store_back m (Next elm) p;
     m \<leftarrow> store m (Next elm) (Some listelm);
     p \<leftarrow> fetch_back m (Next listelm);
     m \<leftarrow> store m p (Some elm);
     store_back m (Next listelm) (Next elm)
   }"

definition TAILQ_REMOVE :: "nat \<Rightarrow> addr \<Rightarrow> links \<Rightarrow> links option" where
  "TAILQ_REMOVE h elm m = do {
     n \<leftarrow> fetch m (Next elm);
     p \<leftarrow> fetch_back m (Next elm);
     m \<leftarrow> (case n of Some b \<Rightarrow> store_back m (Next b) p | None \<Rightarrow> store_back m (Head h) p);
     p \<leftarrow> fetch_back m (Next elm);
     n \<leftarrow> fetch m (Next elm);
     store m p n
   }"

definition TAILQ_REPLACE :: "nat \<Rightarrow> addr \<Rightarrow> addr \<Rightarrow> links \<Rightarrow> links option" where
  "TAILQ_REPLACE h elm elm2 m = do {
     n \<leftarrow> fetch m (Next elm);
     m \<leftarrow> store m (Next elm2) n;
     m \<leftarrow> (if n \<noteq> None then do { n \<leftarrow> fetch m (Next elm2); b \<leftarrow> n; store_back m (Next b) (Next elm2) }
           else store_back m (Head h) (Next elm2));
     p \<leftarrow> fetch_back m (Next elm);
     m \<leftarrow> store_back m (Next elm2) p;
     p \<leftarrow> fetch_back m (Next elm2);
     store m p (Some elm2)
   }"

definition TAILQ_CONCAT :: "nat \<Rightarrow> nat \<Rightarrow> links \<Rightarrow> links option" where
  "TAILQ_CONCAT h1 h2 m =
     (if \<not> TAILQ_EMPTY h2 m then do {
        m \<leftarrow> store m (lk_back m (Head h1)) (lk_link m (Head h2));
        b \<leftarrow> lk_link m (Head h2);
        m \<leftarrow> store_back m (Next b) (lk_back m (Head h1));
        m \<leftarrow> store_back m (Head h1) (lk_back m (Head h2));
        TAILQ_INIT h2 m
      } else Some m)"

section \<open>Singly-linked tail queues\<close>

definition STAILQ_CONCAT :: "nat \<Rightarrow> nat \<Rightarrow> links \<Rightarrow> links option" where
  "STAILQ_CONCAT h1 h2 m =
     (if lk_link m (Head h2) \<noteq> None then do {
        m \<leftarrow> store m (lk_back m (Head h1)) (lk_link m (Head h2));
        m \<leftarrow> store_back m (Head h1) (lk_back m (Head h2));
        m \<leftarrow> store m (Head h2) None;
        store_back m (Head h2) (Head h2)
      } else Some m)"

text \<open>\<^verbatim>\<open>STAILQ_LAST\<close> computes the element around the last link from the address of the link; there is
  none around the link of a head.\<close>

definition STAILQ_LAST :: "nat \<Rightarrow> links \<Rightarrow> addr option option" where
  "STAILQ_LAST h m =
     (if lk_link m (Head h) = None then Some None
      else case lk_back m (Head h) of Next a \<Rightarrow> Some (Some a) | Head _ \<Rightarrow> None)"

definition STAILQ_FOREACH_SAFE :: "'s stmt \<Rightarrow> nat \<Rightarrow> links \<times> 's \<Rightarrow> (links \<times> 's) option" where
  "STAILQ_FOREACH_SAFE body h st = lk_foreach_safe body (lk_link (fst st) (Head h)) st"

section \<open>The lists that the links represent\<close>

definition simpleq_rep :: "links \<Rightarrow> nat \<Rightarrow> addr list \<Rightarrow> bool" where
  "simpleq_rep m h xs \<longleftrightarrow> slist_rep m h xs \<and> lk_back m (Head h) = end_of (Head h) xs"

definition tailq_rep :: "links \<Rightarrow> nat \<Rightarrow> addr list \<Rightarrow> bool" where
  "tailq_rep m h xs \<longleftrightarrow> list_rep m h xs \<and> lk_back m (Head h) = end_of (Head h) xs"

text \<open>The new tail pointer, when \<open>l\<close> is the new link before \<open>vs\<close>.\<close>

definition set_tail :: "nat \<Rightarrow> addr list \<Rightarrow> link \<Rightarrow> (link \<Rightarrow> link) \<Rightarrow> link \<Rightarrow> link" where
  "set_tail h vs l g = (if vs = [] then g(Head h := l) else g)"

lemma set_tail_simps [simp]:
  "set_tail h [] l g = g(Head h := l)" "set_tail h (b # vs) l g = g" "k \<noteq> Head h \<Longrightarrow> set_tail h vs l g k = g k"
  by (simp_all add: set_tail_def)

lemma set_tail_end:
  "g (Head h) = end_of (Head h) (us @ vs) \<Longrightarrow> set_tail h vs (Next a) g (Head h) = end_of (Head h) (us @ a # vs)"
  "g (Head h) = end_of (Head h) (us @ a # vs) \<Longrightarrow> set_tail h vs (end_of (Head h) us) g (Head h) = end_of (Head h) (us @ vs)"
  "g (Head h) = end_of (Head h) (us @ a # vs) \<Longrightarrow> set_tail h vs (Next b) g (Head h) = end_of (Head h) (us @ b # vs)"
  by (cases vs; simp add: end_of_append)+

lemma backs_set_tail [simp]: "backs (set_tail h vs l g) k xs = backs g k xs"
  by (simp add: set_tail_def)

lemma simpleq_insert:
  assumes "simpleq_rep m h (us @ vs)" and "a \<in> lk_mem m" and "a \<notin> set (us @ vs)"
    and "runs r m (put_in (end_of (Head h) us) a (lk_link m)) (set_tail h vs (Next a) (lk_back m))"
  shows "gives simpleq_rep r m h (set (a # us @ vs)) (us @ a # vs)"
  using assms set_tail_end(1) [of "lk_back m" h us vs a]
  by (intro gives_insert [OF _ assms(2,3,4)]) (auto simp: simpleq_rep_def)

lemma simpleq_remove:
  assumes "simpleq_rep m h (us @ a # vs)"
    and "runs r m ((lk_link m)(end_of (Head h) us := lk_link m (Next a))) (set_tail h vs (end_of (Head h) us) (lk_back m))"
  shows "gives simpleq_rep r m h (set (us @ a # vs)) (us @ vs)"
  using assms set_tail_end(2) [of "lk_back m" h us a vs]
  by (intro gives_remove [OF _ assms(2)]) (auto simp: simpleq_rep_def)

lemma tailq_insert:
  assumes "tailq_rep m h (us @ vs)" and "a \<in> lk_mem m" and "a \<notin> set (us @ vs)"
    and "runs r m (put_in (end_of (Head h) us) a (lk_link m))
      (set_tail h vs (Next a) ((set_hd vs (Next a) (lk_back m))(Next a := end_of (Head h) us)))"
  shows "gives tailq_rep r m h (set (a # us @ vs)) (us @ a # vs)"
proof -
  let ?g = "(set_hd vs (Next a) (lk_back m))(Next a := end_of (Head h) us)"
  have "?g (Head h) = end_of (Head h) (us @ vs)" using assms(1) by (simp add: tailq_rep_def set_hd_other)
  from set_tail_end(1) [of ?g h us vs a, OF this] assms(1) backs_insert [of "lk_back m" "Head h" us vs a] assms(3) show ?thesis
    by (intro gives_insert [OF _ assms(2,3,4)]) (auto simp: tailq_rep_def list_rep_def slist_rep_def set_hd_other image_Un fun_upd_other simp del: fun_upd_apply)
qed

lemma tailq_remove:
  assumes "tailq_rep m h (us @ a # vs)"
    and "runs r m ((lk_link m)(end_of (Head h) us := lk_link m (Next a)))
      (set_tail h vs (end_of (Head h) us) (set_hd vs (end_of (Head h) us) (lk_back m)))"
  shows "gives tailq_rep r m h (set (us @ a # vs)) (us @ vs)"
proof -
  let ?g = "set_hd vs (end_of (Head h) us) (lk_back m)"
  have "?g (Head h) = end_of (Head h) (us @ a # vs)" using assms(1) by (simp add: tailq_rep_def set_hd_other)
  from set_tail_end(2) [of ?g h us a vs, OF this] assms(1) backs_remove [of "lk_back m" "Head h" us a vs] show ?thesis
    by (intro gives_remove [OF _ assms(2)]) (auto simp: tailq_rep_def list_rep_def slist_rep_def set_hd_other image_Un)
qed

lemma tailq_replace:
  assumes "tailq_rep m h (us @ a # vs)" and "b \<in> lk_mem m" and "b \<notin> set (us @ a # vs)"
    and "runs r m ((lk_link m)(Next b := lk_link m (Next a), end_of (Head h) us := Some b))
      (set_tail h vs (Next b) ((set_hd vs (Next b) (lk_back m))(Next b := end_of (Head h) us)))"
  shows "gives tailq_rep r m h (set (b # us @ a # vs)) (us @ b # vs)"
proof -
  let ?g = "(set_hd vs (Next b) (lk_back m))(Next b := end_of (Head h) us)"
  have "?g (Head h) = end_of (Head h) (us @ a # vs)" using assms(1) by (simp add: tailq_rep_def set_hd_other)
  from set_tail_end(3) [of ?g h us a vs b, OF this] assms(1) backs_replace [of "lk_back m" "Head h" us a vs b] assms(3) show ?thesis
    by (intro gives_replace [OF _ assms(2,3,4)]) (auto simp: tailq_rep_def list_rep_def slist_rep_def set_hd_other image_Un fun_upd_other simp del: fun_upd_apply)
qed

section \<open>Every macro implements its list operation\<close>

lemma simpleq_repD: "simpleq_rep m h xs \<Longrightarrow> slist_rep m h xs" "simpleq_rep m h xs \<Longrightarrow> lk_back m (Head h) = end_of (Head h) xs"
  by (simp_all add: simpleq_rep_def)

lemma tailq_repD:
  "tailq_rep m h xs \<Longrightarrow> slist_rep m h xs" "tailq_rep m h xs \<Longrightarrow> lk_back m (Head h) = end_of (Head h) xs"
  "tailq_rep m h (us @ b # vs) \<Longrightarrow> lk_back m (Next b) = end_of (Head h) us"
  by (auto simp: tailq_rep_def list_repD)

lemma slist_end:
  assumes "slist_rep m h xs"
  shows "lk_link m (end_of (Head h) xs) = None" "lk_ok m (end_of (Head h) xs)" "a \<notin> set xs \<Longrightarrow> end_of (Head h) xs \<noteq> Next a"
  using assms chain_end [of "lk_link m" "Head h" xs] lk_ok_end [of xs m h] end_of_neq [of "Head h" a xs]
  by (auto simp: slist_rep_def)

subsection \<open>Simple queues\<close>

lemma SIMPLEQ_INIT_rep: "gives simpleq_rep (SIMPLEQ_INIT h m) m h {} []"
  by (simp add: gives_def SIMPLEQ_INIT_def store_def store_back_def simpleq_rep_def slist_rep_def changes_def)

lemma SIMPLEQ_EMPTY_rep: "simpleq_rep m h xs \<Longrightarrow> SIMPLEQ_EMPTY h m \<longleftrightarrow> xs = []"
  using slist_first [of m h xs] by (cases xs) (simp_all add: SIMPLEQ_EMPTY_def SIMPLEQ_FIRST_def simpleq_rep_def)

lemma SIMPLEQ_INSERT_HEAD_rep:
  assumes "simpleq_rep m h xs" and "a \<in> lk_mem m" and "a \<notin> set xs"
  shows "gives simpleq_rep (SIMPLEQ_INSERT_HEAD h a m) m h (set (a # xs)) (a # xs)"
  using simpleq_insert [of m h "[]" xs a "SIMPLEQ_INSERT_HEAD h a m"] assms slist_first [OF simpleq_repD(1) [OF assms(1)]]
  by (cases xs) (auto simp: SIMPLEQ_INSERT_HEAD_def put_in_def lk_defs)

lemma SIMPLEQ_INSERT_TAIL_rep:
  assumes "simpleq_rep m h xs" and "a \<in> lk_mem m" and "a \<notin> set xs"
  shows "gives simpleq_rep (SIMPLEQ_INSERT_TAIL h a m) m h (set (a # xs)) (xs @ [a])"
  using simpleq_insert [of m h xs "[]" a "SIMPLEQ_INSERT_TAIL h a m"] assms slist_end [OF simpleq_repD(1) [OF assms(1)]]
    simpleq_repD(2) [OF assms(1)]
  by (cases "end_of (Head h) xs") (auto simp: SIMPLEQ_INSERT_TAIL_def put_in_def lk_defs)

lemma SIMPLEQ_INSERT_AFTER_rep:
  assumes "simpleq_rep m h (us @ b # vs)" and "a \<in> lk_mem m" and "a \<notin> set (us @ b # vs)"
  shows "gives simpleq_rep (SIMPLEQ_INSERT_AFTER h b a m) m h (set (a # us @ b # vs)) (us @ b # a # vs)"
  using simpleq_insert [of m h "us @ [b]" vs a "SIMPLEQ_INSERT_AFTER h b a m"] assms slist_repD [OF simpleq_repD(1) [OF assms(1)]]
  by (cases vs) (auto simp: SIMPLEQ_INSERT_AFTER_def put_in_def lk_defs)

lemma SIMPLEQ_REMOVE_HEAD_rep:
  assumes "simpleq_rep m h (a # xs)"
  shows "gives simpleq_rep (SIMPLEQ_REMOVE_HEAD h m) m h (set (a # xs)) xs"
  using simpleq_remove [of m h "[]" a xs "SIMPLEQ_REMOVE_HEAD h m"] assms slist_repD [of m h "[]" a xs] simpleq_repD(1) [OF assms]
  by (cases xs) (auto simp: SIMPLEQ_REMOVE_HEAD_def lk_defs)

lemma SIMPLEQ_REMOVE_AFTER_rep:
  assumes "simpleq_rep m h (us @ b # a # vs)"
  shows "gives simpleq_rep (SIMPLEQ_REMOVE_AFTER h b m) m h (set (us @ b # a # vs)) (us @ b # vs)"
  using simpleq_remove [of m h "us @ [b]" a vs "SIMPLEQ_REMOVE_AFTER h b m"] assms
    slist_repD [of m h us b "a # vs"] slist_repD [of m h "us @ [b]" a vs] simpleq_repD(1) [OF assms]
  by (cases vs) (auto simp: SIMPLEQ_REMOVE_AFTER_def lk_defs)

subsection \<open>Tail queues\<close>

lemma TAILQ_INIT_rep: "gives tailq_rep (TAILQ_INIT h m) m h {} []"
  by (simp add: gives_def TAILQ_INIT_def store_def store_back_def tailq_rep_def list_rep_def slist_rep_def changes_def)

lemma TAILQ_EMPTY_rep: "tailq_rep m h xs \<Longrightarrow> TAILQ_EMPTY h m \<longleftrightarrow> xs = []"
  using slist_first [of m h xs] by (cases xs) (simp_all add: TAILQ_EMPTY_def TAILQ_FIRST_def tailq_repD)

lemma TAILQ_INSERT_HEAD_rep:
  assumes "tailq_rep m h xs" and "a \<in> lk_mem m" and "a \<notin> set xs"
  shows "gives tailq_rep (TAILQ_INSERT_HEAD h a m) m h (set (a # xs)) (a # xs)"
  using tailq_insert [of m h "[]" xs a "TAILQ_INSERT_HEAD h a m"] assms slist_first [OF tailq_repD(1) [OF assms(1)]]
    tailq_repD(1) [OF assms(1)]
  by (cases xs) (auto simp: TAILQ_INSERT_HEAD_def put_in_def lk_defs slist_rep_def fun_upd_twist)

lemma TAILQ_INSERT_TAIL_rep:
  assumes "tailq_rep m h xs" and "a \<in> lk_mem m" and "a \<notin> set xs"
  shows "gives tailq_rep (TAILQ_INSERT_TAIL h a m) m h (set (a # xs)) (xs @ [a])"
  using tailq_insert [of m h xs "[]" a "TAILQ_INSERT_TAIL h a m"] assms slist_end [OF tailq_repD(1) [OF assms(1)]]
    tailq_repD(2) [OF assms(1)]
  by (cases "end_of (Head h) xs") (auto simp: TAILQ_INSERT_TAIL_def put_in_def lk_defs)

lemma TAILQ_INSERT_AFTER_rep:
  assumes "tailq_rep m h (us @ b # vs)" and "a \<in> lk_mem m" and "a \<notin> set (us @ b # vs)"
  shows "gives tailq_rep (TAILQ_INSERT_AFTER h b a m) m h (set (a # us @ b # vs)) (us @ b # a # vs)"
  using tailq_insert [of m h "us @ [b]" vs a "TAILQ_INSERT_AFTER h b a m"] assms slist_repD [OF tailq_repD(1) [OF assms(1)]]
  by (cases vs) (auto simp: TAILQ_INSERT_AFTER_def put_in_def lk_defs fun_upd_twist)

lemma TAILQ_INSERT_BEFORE_rep:
  assumes "tailq_rep m h (us @ b # vs)" and "a \<in> lk_mem m" and "a \<notin> set (us @ b # vs)"
  shows "gives tailq_rep (TAILQ_INSERT_BEFORE b a m) m h (set (a # us @ b # vs)) (us @ a # b # vs)"
proof -
  note d = slist_repD [OF tailq_repD(1) [OF assms(1)]] and p = tailq_repD(3) [OF assms(1)]
  have "end_of (Head h) us \<noteq> Next a" using assms(3) by (intro end_of_neq) auto
  then have "runs (TAILQ_INSERT_BEFORE b a m) m (put_in (end_of (Head h) us) a (lk_link m))
      (set_tail h (b # vs) (Next a) ((set_hd (b # vs) (Next a) (lk_back m))(Next a := end_of (Head h) us)))"
    using d p assms(2,3) by (cases "end_of (Head h) us") (auto simp: TAILQ_INSERT_BEFORE_def put_in_def lk_defs fun_upd_twist)
  with tailq_insert [of m h us "b # vs" a "TAILQ_INSERT_BEFORE b a m"] assms show ?thesis by simp
qed

lemma TAILQ_REMOVE_rep:
  assumes "tailq_rep m h (us @ a # vs)"
  shows "gives tailq_rep (TAILQ_REMOVE h a m) m h (set (us @ a # vs)) (us @ vs)"
proof -
  note d = slist_repD [OF tailq_repD(1) [OF assms]] and p = tailq_repD(3) [OF assms]
  have "runs (TAILQ_REMOVE h a m) m ((lk_link m)(end_of (Head h) us := lk_link m (Next a)))
      (set_tail h vs (end_of (Head h) us) (set_hd vs (end_of (Head h) us) (lk_back m)))"
    using d p by (cases vs; cases "end_of (Head h) us") (auto simp: TAILQ_REMOVE_def lk_defs)
  with tailq_remove [OF assms] show ?thesis by simp
qed

lemma TAILQ_REPLACE_rep:
  assumes "tailq_rep m h (us @ a # vs)" and "b \<in> lk_mem m" and "b \<notin> set (us @ a # vs)"
  shows "gives tailq_rep (TAILQ_REPLACE h a b m) m h (set (b # us @ a # vs)) (us @ b # vs)"
proof -
  note d = slist_repD [OF tailq_repD(1) [OF assms(1)]] and p = tailq_repD(3) [OF assms(1)]
  have "end_of (Head h) us \<noteq> Next b" using assms(3) by (intro end_of_neq) auto
  then have "runs (TAILQ_REPLACE h a b m) m ((lk_link m)(Next b := lk_link m (Next a), end_of (Head h) us := Some b))
      (set_tail h vs (Next b) ((set_hd vs (Next b) (lk_back m))(Next b := end_of (Head h) us)))"
    using d p assms(2,3) by (cases vs; cases "end_of (Head h) us") (auto simp: TAILQ_REPLACE_def lk_defs fun_upd_twist)
  with tailq_replace [OF assms] show ?thesis by simp
qed

lemma TAILQ_LAST_rep: "tailq_rep m h xs \<Longrightarrow> TAILQ_LAST h m = Some (hd_ptr (rev xs))"
proof (cases xs rule: rev_cases)
  case Nil
  then show "tailq_rep m h xs \<Longrightarrow> ?thesis" using slist_first [of m h xs]
    by (simp add: TAILQ_LAST_def fetch_def fetch_back_def tailq_repD)
next
  case (snoc ys a)
  assume r: "tailq_rep m h xs"
  with snoc show ?thesis using slist_repD [of m h ys a "[]"] tailq_repD(2) [OF r] tailq_repD(3) [of m h ys a "[]"]
    by (simp add: TAILQ_LAST_def fetch_def fetch_back_def tailq_repD)
qed

lemma TAILQ_PREV_rep:
  assumes "tailq_rep m h (us @ a # vs)"
  shows "TAILQ_PREV a m = Some (hd_ptr (rev us))"
proof (cases us rule: rev_cases)
  case Nil
  then show ?thesis using slist_repD [OF tailq_repD(1) [OF assms]] tailq_repD(2,3) [OF assms] slist_end [OF tailq_repD(1) [OF assms]]
    by (simp add: TAILQ_PREV_def fetch_def fetch_back_def)
next
  case (snoc ts b)
  with assms have r: "tailq_rep m h (ts @ b # a # vs)" by simp
  from slist_repD [OF tailq_repD(1) [OF assms]] tailq_repD(3) [OF assms] slist_repD [OF tailq_repD(1) [OF r]] tailq_repD(3) [OF r] snoc
  show ?thesis by (simp add: TAILQ_PREV_def fetch_def fetch_back_def)
qed

end
