(* ===== verification/Queue_Laws.thy ===== *)
theory Queue_Laws
  imports Queue_Tails
begin

text \<open>
  What the list kinds of \<^verbatim>\<open>queue.h\<close> have in common, as interfaces: a list to which elements are added at
  the front or after another one, a list from which any element can be removed, and a queue with
  an end. The laws are proved for each kind in \<open>Queue_Lists\<close> and \<open>Queue_Tails\<close>; what follows from them,
  iteration above all, is proved here once. Then the macros on two queues.
\<close>

section \<open>Several lists in one memory\<close>

lemma slist_frame:
  assumes "slist_rep m k ys" and "changes m m' h S" and "h \<noteq> k" and "S \<inter> set ys = {}"
  shows "slist_rep m' k ys"
proof -
  have "chain (lk_link m') (Head k) ys = chain (lk_link m) (Head k) ys"
    using assms(2-4) by (intro chain_cong) (auto simp: changes_def)
  then show ?thesis using assms(1,2) by (simp add: slist_rep_def changes_def)
qed

lemma changes_backs:
  assumes "changes m m' h S" and "h \<noteq> k" and "S \<inter> set ys = {}"
  shows "backs (lk_back m') (Head k) ys = backs (lk_back m) (Head k) ys" "lk_back m' (Head k) = lk_back m (Head k)"
  using assms by (auto simp: changes_def intro!: backs_cong)

lemma list_frame:
  "list_rep m k ys \<Longrightarrow> changes m m' h S \<Longrightarrow> h \<noteq> k \<Longrightarrow> S \<inter> set ys = {} \<Longrightarrow> list_rep m' k ys"
  using slist_frame [of m k ys m' h S] changes_backs [of m m' h S k ys] by (simp add: list_rep_def)

lemma simpleq_frame:
  "simpleq_rep m k ys \<Longrightarrow> changes m m' h S \<Longrightarrow> h \<noteq> k \<Longrightarrow> S \<inter> set ys = {} \<Longrightarrow> simpleq_rep m' k ys"
  using slist_frame [of m k ys m' h S] changes_backs [of m m' h S k ys] by (simp add: simpleq_rep_def)

lemma tailq_frame:
  "tailq_rep m k ys \<Longrightarrow> changes m m' h S \<Longrightarrow> h \<noteq> k \<Longrightarrow> S \<inter> set ys = {} \<Longrightarrow> tailq_rep m' k ys"
  using list_frame [of m k ys m' h S] changes_backs [of m m' h S k ys] by (simp add: tailq_rep_def)

text \<open>Releasing an element that is in no list.\<close>

lemma slist_free:
  assumes "slist_rep m h xs" and "a \<in> lk_mem m" and "a \<notin> set xs"
  shows "\<exists>m'. lk_free a m = Some m' \<and> lk_mem m' = lk_mem m - {a} \<and> slist_rep m' h xs"
  using assms by (auto simp: lk_free_def slist_rep_def)

lemma list_free:
  assumes "list_rep m h xs" and "a \<in> lk_mem m" and "a \<notin> set xs"
  shows "\<exists>m'. lk_free a m = Some m' \<and> lk_mem m' = lk_mem m - {a} \<and> list_rep m' h xs"
  using assms by (auto simp: lk_free_def slist_rep_def list_rep_def)

lemma tailq_free:
  assumes "tailq_rep m h xs" and "a \<in> lk_mem m" and "a \<notin> set xs"
  shows "\<exists>m'. lk_free a m = Some m' \<and> lk_mem m' = lk_mem m - {a} \<and> tailq_rep m' h xs"
  using assms by (auto simp: lk_free_def slist_rep_def list_rep_def tailq_rep_def)

section \<open>The interfaces\<close>

text \<open>One operation for every element of a list, in order.\<close>

primrec each :: "(addr \<Rightarrow> links \<Rightarrow> links option) \<Rightarrow> addr list \<Rightarrow> links \<Rightarrow> links option" where
  "each oper [] m = Some m"
| "each oper (a # as) m = do { m \<leftarrow> oper a m; each oper as m }"

text \<open>A statement that notes the element, and one that unlinks and releases it as well.\<close>

definition visit :: "addr list stmt" where
  "visit a = (\<lambda>(m, seen). Some (m, seen @ [a]))"

lemma visit_at [simp]: "visit a (m, seen) = Some (m, seen @ [a])"
  by (simp add: visit_def)

definition dispose :: "(addr \<Rightarrow> links \<Rightarrow> links option) \<Rightarrow> addr list stmt" where
  "dispose remove a = (\<lambda>(m, seen). do { m \<leftarrow> remove a m; m \<leftarrow> lk_free a m; Some (m, seen @ [a]) })"

lemma changes_mono: "changes m m1 h S \<Longrightarrow> S \<subseteq> T \<Longrightarrow> changes m m1 h T"
  unfolding changes_def using image_mono [of S T Next] by blast

lemma changes_trans:
  assumes "changes m m1 h S" and "changes m1 m2 h T" and "S \<subseteq> T"
  shows "changes m m2 h T"
  using changes_mono [OF assms(1,3)] assms(2) by (simp add: changes_def)

locale linked_list =
  fixes rep :: "links \<Rightarrow> nat \<Rightarrow> addr list \<Rightarrow> bool"
    and insert_head :: "nat \<Rightarrow> addr \<Rightarrow> links \<Rightarrow> links option"
    and insert_after :: "nat \<Rightarrow> addr \<Rightarrow> addr \<Rightarrow> links \<Rightarrow> links option"
  assumes spells: "rep m h xs \<Longrightarrow> slist_rep m h xs"
    and frame: "rep m k ys \<Longrightarrow> changes m m' h S \<Longrightarrow> h \<noteq> k \<Longrightarrow> S \<inter> set ys = {} \<Longrightarrow> rep m' k ys"
    and head_law: "rep m h xs \<Longrightarrow> a \<in> lk_mem m \<Longrightarrow> a \<notin> set xs \<Longrightarrow> gives rep (insert_head h a m) m h (set (a # xs)) (a # xs)"
    and after_law: "rep m h (us @ b # vs) \<Longrightarrow> a \<in> lk_mem m \<Longrightarrow> a \<notin> set (us @ b # vs) \<Longrightarrow>
      gives rep (insert_after h b a m) m h (set (a # us @ b # vs)) (us @ b # a # vs)"
begin

lemma at:
  assumes "rep m h (us @ a # vs)"
  shows "fetch m (Next a) = Some (hd_ptr vs)"
  using slist_repD(2,3) [OF spells [OF assms]] by (simp add: fetch_def)

lemma first: "rep m h xs \<Longrightarrow> lk_link m (Head h) = hd_ptr xs"
  by (rule slist_first [OF spells])

lemma pushes:
  assumes "rep m h xs" and "distinct (as @ xs)" and "set as \<subseteq> lk_mem m"
  shows "\<exists>m'. each (insert_head h) as m = Some m' \<and> rep m' h (rev as @ xs) \<and> changes m m' h (set (as @ xs))"
  using assms
proof (induction as arbitrary: m xs)
  case Nil
  then show ?case by (simp add: changes_def)
next
  case (Cons a as)
  from head_law [OF Cons.prems(1), of a] Cons.prems(2,3) obtain m1 where
    m1: "insert_head h a m = Some m1" "rep m1 h (a # xs)" "changes m m1 h (set (a # xs))" by (auto simp: gives_def)
  then have "lk_mem m1 = lk_mem m" by (simp add: changes_def)
  with Cons.IH [OF m1(2)] Cons.prems(2,3) obtain m' where
    m': "each (insert_head h) as m1 = Some m'" "rep m' h (rev as @ a # xs)" "changes m1 m' h (set (as @ a # xs))" by auto
  have "changes m m' h (set (as @ a # xs))" by (rule changes_trans [OF m1(3) m'(3)]) auto
  then have "changes m m' h (set ((a # as) @ xs))" by (rule changes_mono) auto
  with m1(1) m'(1,2) show ?case by simp
qed

lemma visits:
  assumes "rep m h xs"
  shows "lk_foreach visit (lk_link m (Head h)) (m, []) = Some (m, xs)"
    "lk_foreach_safe visit (lk_link m (Head h)) (m, []) = Some (m, xs)"
proof -
  let ?I = "\<lambda>ys st. fst st = m \<and> xs = snd st @ ys"
  have at: "fetch m (Next a) = Some (hd_ptr ys)" if "xs = us @ a # ys" for us a ys using at assms that by blast
  show "lk_foreach visit (lk_link m (Head h)) (m, []) = Some (m, xs)" unfolding first [OF assms]
    using lk_foreach_inv [where I = ?I and body = visit and xs = xs and st = "(m, [])"] at by (fastforce simp: visit_def)
  show "lk_foreach_safe visit (lk_link m (Head h)) (m, []) = Some (m, xs)" unfolding first [OF assms]
    using lk_foreach_safe_inv [where I = ?I and body = visit and xs = xs and st = "(m, [])"] at by (fastforce simp: visit_def)
qed

end

locale removable_list = linked_list +
  fixes remove :: "nat \<Rightarrow> addr \<Rightarrow> links \<Rightarrow> links option"
  assumes remove_law: "rep m h (us @ a # vs) \<Longrightarrow> gives rep (remove h a m) m h (set (us @ a # vs)) (us @ vs)"
    and free_law: "rep m h xs \<Longrightarrow> a \<in> lk_mem m \<Longrightarrow> a \<notin> set xs \<Longrightarrow> \<exists>m'. lk_free a m = Some m' \<and> lk_mem m' = lk_mem m - {a} \<and> rep m' h xs"
begin

lemma disposes:
  assumes "rep m h (a # xs)"
  shows "\<exists>m'. dispose (remove h) a (m, seen) = Some (m', seen @ [a]) \<and> rep m' h xs \<and> lk_mem m' = lk_mem m - {a}"
proof -
  from remove_law [of m h "[]" a xs] assms obtain m1 where
    m1: "remove h a m = Some m1" "rep m1 h xs" "lk_mem m1 = lk_mem m" by (auto simp: gives_def changes_def)
  have "a \<in> lk_mem m" "a \<notin> set xs" using spells [OF assms] by (auto simp: slist_rep_def)
  with free_law [OF m1(2), of a] m1 show ?thesis by (auto simp: dispose_def)
qed

lemma drains:
  assumes "rep m h xs"
  shows "\<exists>m'. lk_foreach_safe (dispose (remove h)) (lk_link m (Head h)) (m, []) = Some (m', xs) \<and> rep m' h [] \<and>
    lk_mem m' = lk_mem m - set xs"
proof -
  let ?I = "\<lambda>ys st. rep (fst st) h ys \<and> xs = snd st @ ys \<and> lk_mem (fst st) = lk_mem m - set (snd st)"
  have "\<exists>st'. lk_foreach_safe (dispose (remove h)) (hd_ptr xs) (m, []) = Some st' \<and> ?I [] st'"
  proof (rule lk_foreach_safe_inv)
    fix a ys and st :: "links \<times> addr list"
    assume "?I (a # ys) st"
    then show "fetch (fst st) (Next a) = Some (hd_ptr ys) \<and> (\<exists>st'. dispose (remove h) a st = Some st' \<and> ?I ys st')"
      using disposes [of "fst st" h a ys "snd st"] at [of "fst st" h "[]" a ys] by auto
  qed (use assms in simp)
  then show ?thesis unfolding first [OF assms] by auto
qed

lemma unsafe:
  assumes "rep m h (a # xs)"
  shows "lk_foreach (dispose (remove h)) (lk_link m (Head h)) (m, []) = None"
proof -
  from disposes [OF assms, of "[]"] obtain m' where m': "dispose (remove h) a (m, []) = Some (m', [a])" "a \<notin> lk_mem m'" by auto
  show ?thesis unfolding first [OF assms] by (subst lk_foreach.simps) (simp add: m' fetch_def)
qed

end

locale tail_list = linked_list +
  fixes insert_tail :: "nat \<Rightarrow> addr \<Rightarrow> links \<Rightarrow> links option"
  assumes tail_law: "rep m h xs \<Longrightarrow> a \<in> lk_mem m \<Longrightarrow> a \<notin> set xs \<Longrightarrow> gives rep (insert_tail h a m) m h (set (a # xs)) (xs @ [a])"
begin

lemma enqueues:
  assumes "rep m h xs" and "distinct (xs @ as)" and "set as \<subseteq> lk_mem m"
  shows "\<exists>m'. each (insert_tail h) as m = Some m' \<and> rep m' h (xs @ as) \<and> changes m m' h (set (xs @ as))"
  using assms
proof (induction as arbitrary: m xs)
  case Nil
  then show ?case by (simp add: changes_def)
next
  case (Cons a as)
  from tail_law [OF Cons.prems(1), of a] Cons.prems(2,3) obtain m1 where
    m1: "insert_tail h a m = Some m1" "rep m1 h (xs @ [a])" "changes m m1 h (set (a # xs))" by (auto simp: gives_def)
  then have "lk_mem m1 = lk_mem m" by (simp add: changes_def)
  with Cons.IH [OF m1(2)] Cons.prems(2,3) obtain m' where
    m': "each (insert_tail h) as m1 = Some m'" "rep m' h (xs @ a # as)" "changes m1 m' h (set (xs @ a # as))" by auto
  have "changes m m' h (set (xs @ a # as))" by (rule changes_trans [OF m1(3) m'(3)]) auto
  with m1(1) m'(1,2) show ?case by simp
qed

end

interpretation sl: removable_list slist_rep SLIST_INSERT_HEAD "\<lambda>_. SLIST_INSERT_AFTER" SLIST_REMOVE
  by unfold_locales ((rule slist_frame slist_free SLIST_INSERT_HEAD_rep SLIST_INSERT_AFTER_rep SLIST_REMOVE_rep; assumption) | assumption)+

interpretation li: removable_list list_rep LIST_INSERT_HEAD "\<lambda>_. LIST_INSERT_AFTER" "\<lambda>_. LIST_REMOVE"
  by unfold_locales ((rule list_frame list_repD list_free LIST_INSERT_HEAD_rep LIST_INSERT_AFTER_rep LIST_REMOVE_rep; assumption))+

interpretation sq: tail_list simpleq_rep SIMPLEQ_INSERT_HEAD SIMPLEQ_INSERT_AFTER SIMPLEQ_INSERT_TAIL
  by unfold_locales ((rule simpleq_frame simpleq_repD SIMPLEQ_INSERT_HEAD_rep SIMPLEQ_INSERT_AFTER_rep SIMPLEQ_INSERT_TAIL_rep; assumption))+

interpretation tq: removable_list tailq_rep TAILQ_INSERT_HEAD TAILQ_INSERT_AFTER TAILQ_REMOVE
  by unfold_locales ((rule tailq_frame tailq_repD tailq_free TAILQ_INSERT_HEAD_rep TAILQ_INSERT_AFTER_rep TAILQ_REMOVE_rep; assumption))+

interpretation tq: tail_list tailq_rep TAILQ_INSERT_HEAD TAILQ_INSERT_AFTER TAILQ_INSERT_TAIL
  by unfold_locales (rule TAILQ_INSERT_TAIL_rep)

section \<open>Two queues\<close>

definition joins :: "(links \<Rightarrow> nat \<Rightarrow> addr list \<Rightarrow> bool) \<Rightarrow> links option \<Rightarrow> nat \<Rightarrow> nat \<Rightarrow> addr list \<Rightarrow> bool" where
  "joins rep r h1 h2 zs \<longleftrightarrow> (\<exists>m'. r = Some m' \<and> rep m' h1 zs \<and> rep m' h2 [])"

lemma SIMPLEQ_CONCAT_rep:
  assumes "simpleq_rep m h1 xs" and "simpleq_rep m h2 ys" and "h1 \<noteq> h2" and "set xs \<inter> set ys = {}"
  shows "joins simpleq_rep (SIMPLEQ_CONCAT h1 h2 m) h1 h2 (xs @ ys)"
proof (cases ys)
  case Nil
  with assms show ?thesis by (simp add: SIMPLEQ_CONCAT_def SIMPLEQ_EMPTY_rep joins_def)
next
  case (Cons b vs)
  let ?f = "(lk_link m)(end_of (Head h1) xs := lk_link m (Head h2))"
  let ?m = "m\<lparr>lk_link := ?f(Head h2 := None), lk_back := (lk_back m)(Head h1 := lk_back m (Head h2), Head h2 := Head h2)\<rparr>"
  have "\<not> SIMPLEQ_EMPTY h2 m" using assms(2) Cons by (simp add: SIMPLEQ_EMPTY_rep)
  then have "SIMPLEQ_CONCAT h1 h2 m = Some ?m"
    using simpleq_repD(2) [OF assms(1)] slist_end(2) [OF simpleq_repD(1) [OF assms(1)]] assms(3)
    by (simp add: SIMPLEQ_CONCAT_def SIMPLEQ_INIT_def store_def store_back_def)
  moreover have "chain (?f(Head h2 := None)) (Head h1) (xs @ ys)"
    using chain_concat [of "lk_link m" "Head h1" xs "Head h2" ys] assms Cons
    by (subst chain_upd) (auto simp: simpleq_rep_def slist_rep_def simp del: fun_upd_apply)
  then have "simpleq_rep ?m h1 (xs @ ys)"
    using assms Cons by (auto simp: simpleq_rep_def slist_rep_def end_of_append)
  moreover have "simpleq_rep ?m h2 []" by (simp add: simpleq_rep_def slist_rep_def)
  ultimately show ?thesis by (auto simp: joins_def)
qed

lemma STAILQ_CONCAT_eq: "STAILQ_CONCAT = SIMPLEQ_CONCAT"
  by (intro ext) (simp add: STAILQ_CONCAT_def SIMPLEQ_CONCAT_def SIMPLEQ_INIT_def SIMPLEQ_EMPTY_def SIMPLEQ_FIRST_def)

lemma STAILQ_LAST_rep: "simpleq_rep m h xs \<Longrightarrow> STAILQ_LAST h m = Some (hd_ptr (rev xs))"
  using slist_first [of m h xs] by (cases xs rule: rev_cases) (auto simp: STAILQ_LAST_def simpleq_rep_def)

lemma TAILQ_CONCAT_rep:
  assumes "tailq_rep m h1 xs" and "tailq_rep m h2 ys" and "h1 \<noteq> h2" and "set xs \<inter> set ys = {}"
  shows "joins tailq_rep (TAILQ_CONCAT h1 h2 m) h1 h2 (xs @ ys)"
proof (cases ys)
  case Nil
  with assms show ?thesis by (simp add: TAILQ_CONCAT_def TAILQ_EMPTY_rep joins_def)
next
  case (Cons b vs)
  let ?f = "(lk_link m)(end_of (Head h1) xs := lk_link m (Head h2))" and ?g = "(lk_back m)(Next b := end_of (Head h1) xs)"
  let ?m = "m\<lparr>lk_link := ?f(Head h2 := None), lk_back := ?g(Head h1 := lk_back m (Head h2), Head h2 := Head h2)\<rparr>"
  have b: "\<not> TAILQ_EMPTY h2 m" "lk_link m (Head h2) = Some b" "b \<in> lk_mem m"
    using assms(2) Cons slist_first [OF tailq_repD(1) [OF assms(2)]] tailq_repD(1) [OF assms(2)]
    by (auto simp: TAILQ_EMPTY_rep slist_rep_def)
  have e: "end_of (Head h1) xs \<noteq> Head h2" using assms(3) end_of_in [of "Head h1" xs] by auto
  from b e have "TAILQ_CONCAT h1 h2 m = Some ?m"
    using tailq_repD(2) [OF assms(1)] slist_end(2) [OF tailq_repD(1) [OF assms(1)]] assms(3)
    by (simp add: TAILQ_CONCAT_def TAILQ_INIT_def store_def store_back_def)
  moreover have "chain (?f(Head h2 := None)) (Head h1) (xs @ ys)"
    using chain_concat [of "lk_link m" "Head h1" xs "Head h2" ys] assms Cons
    by (subst chain_upd) (auto simp: tailq_rep_def list_rep_def slist_rep_def simp del: fun_upd_apply)
  moreover have "backs (?g(Head h1 := lk_back m (Head h2), Head h2 := Head h2)) (Head h1) (xs @ ys)"
    using backs_concat [of "lk_back m" "Head h1" xs "Head h2" ys] assms Cons
    by (simp add: tailq_rep_def list_rep_def slist_rep_def del: fun_upd_apply)
  ultimately have "tailq_rep ?m h1 (xs @ ys)"
    using assms Cons by (auto simp: tailq_rep_def list_rep_def slist_rep_def end_of_append)
  moreover have "tailq_rep ?m h2 []" by (simp add: tailq_rep_def list_rep_def slist_rep_def)
  ultimately show ?thesis using \<open>TAILQ_CONCAT h1 h2 m = Some ?m\<close> by (auto simp: joins_def)
qed

section \<open>Backwards\<close>

lemma tailq_back_visits:
  assumes "tailq_rep m h (us @ vs)"
  shows "tailq_back visit (hd_ptr (rev us)) (m, seen) = Some (m, seen @ rev us)"
    "tailq_back_safe visit (hd_ptr (rev us)) (m, seen) = Some (m, seen @ rev us)"
  using assms
proof (induction us arbitrary: vs seen rule: rev_induct)
  case Nil
  { case 1 show ?case by (simp add: tailq_back.simps) next case 2 show ?case by (simp add: tailq_back_safe.simps) }
next
  case (snoc a us)
  { case 1
    then have "TAILQ_PREV a m = Some (hd_ptr (rev us))" by (intro TAILQ_PREV_rep) simp
    with snoc.IH(1) [of "a # vs" "seen @ [a]"] 1 show ?case by (subst tailq_back.simps) simp
  next
    case 2
    then have "TAILQ_PREV a m = Some (hd_ptr (rev us))" by (intro TAILQ_PREV_rep) simp
    with snoc.IH(2) [of "a # vs" "seen @ [a]"] 2 show ?case by (subst tailq_back_safe.simps) simp
  }
qed

section \<open>Properties\<close>

text \<open>Two queues in one memory, the elements 1, 2, 3 and the elements 5, 6, and two elements in no queue.\<close>

definition two_queues :: links where
  "two_queues = \<lparr>lk_mem = {1, 2, 3, 4, 5, 6, 7},
     lk_link = (\<lambda>_. None)(Head 0 := Some 1, Next 1 := Some 2, Next 2 := Some 3, Head 1 := Some 5, Next 5 := Some 6),
     lk_back = (\<lambda>l. l)(Head 0 := Next 3, Next 1 := Head 0, Next 2 := Next 1, Next 3 := Next 2,
       Head 1 := Next 6, Next 5 := Head 1, Next 6 := Next 5)\<rparr>"

lemma two_queues_rep:
  "tailq_rep two_queues 0 [1, 2, 3]" "tailq_rep two_queues 1 [5, 6]" "4 \<in> lk_mem two_queues" "7 \<in> lk_mem two_queues"
  by (simp_all add: tailq_rep_def list_rep_def slist_rep_def two_queues_def)



text \<open>The \<^verbatim>\<open>LIST\<close> and \<^verbatim>\<open>SLIST\<close> macros that insert, remove or replace: each ends, turns the list into the one its name says, and writes
  to no other list. \<^verbatim>\<open>LIST_REMOVE\<close> needs no head.\<close>

theorem list_macros_refine:
  assumes "list_rep m h (us @ b # vs)" and "a \<in> lk_mem m" and "a \<notin> set (us @ b # vs)"
  shows "gives list_rep (LIST_INSERT_HEAD h a m) m h (set (a # us @ b # vs)) (a # us @ b # vs) \<and>
    gives list_rep (LIST_INSERT_AFTER b a m) m h (set (a # us @ b # vs)) (us @ b # a # vs) \<and>
    gives list_rep (LIST_INSERT_BEFORE b a m) m h (set (a # us @ b # vs)) (us @ a # b # vs) \<and>
    gives list_rep (LIST_REMOVE b m) m h (set (us @ b # vs)) (us @ vs) \<and>
    gives list_rep (LIST_REPLACE b a m) m h (set (a # us @ b # vs)) (us @ a # vs) \<and>
    gives slist_rep (SLIST_INSERT_HEAD h a m) m h (set (a # us @ b # vs)) (a # us @ b # vs) \<and>
    gives slist_rep (SLIST_INSERT_AFTER b a m) m h (set (a # us @ b # vs)) (us @ b # a # vs) \<and>
    gives slist_rep (SLIST_REMOVE h b m) m h (set (us @ b # vs)) (us @ vs)"
proof -
  note s = list_repD(2) [OF assms(1)]
  show ?thesis
    using LIST_INSERT_HEAD_rep [OF assms] LIST_INSERT_AFTER_rep [OF assms] LIST_INSERT_BEFORE_rep [OF assms] LIST_REMOVE_rep [OF assms(1)]
      LIST_REPLACE_rep [OF assms] SLIST_INSERT_HEAD_rep [OF s assms(2,3)] SLIST_INSERT_AFTER_rep [OF s assms(2,3)] SLIST_REMOVE_rep [OF s]
    by simp
qed

theorem list_macros_refine_witness:
  "gives list_rep (LIST_REPLACE 2 4 two_queues) two_queues 0 {4, 1, 2, 3} [1, 4, 3] \<and>
    gives slist_rep (SLIST_REMOVE 0 2 two_queues) two_queues 0 {1, 2, 3} [1, 3]"
  using list_macros_refine [of two_queues 0 "[1]" 2 "[3]" 4] two_queues_rep by (simp add: tailq_rep_def)

text \<open>Appending and joining queues keeps the order. Elements appended one by one to a \<^verbatim>\<open>TAILQ\<close> or a \<^verbatim>\<open>SIMPLEQ\<close> come after
  the old ones in their order; \<^verbatim>\<open>TAILQ_CONCAT\<close>, \<^verbatim>\<open>SIMPLEQ_CONCAT\<close> and \<^verbatim>\<open>STAILQ_CONCAT\<close> put the second queue behind the first and
  leave the second one empty.\<close>

theorem tail_queues_append:
  assumes "tailq_rep m h1 xs" and "tailq_rep m h2 ys" and "h1 \<noteq> h2" and "set xs \<inter> set ys = {}"
    and "distinct (xs @ as)" and "set as \<subseteq> lk_mem m"
  shows "(\<exists>m'. each (TAILQ_INSERT_TAIL h1) as m = Some m' \<and> tailq_rep m' h1 (xs @ as)) \<and>
    (\<exists>m'. each (SIMPLEQ_INSERT_TAIL h1) as m = Some m' \<and> simpleq_rep m' h1 (xs @ as)) \<and>
    joins tailq_rep (TAILQ_CONCAT h1 h2 m) h1 h2 (xs @ ys) \<and>
    joins simpleq_rep (SIMPLEQ_CONCAT h1 h2 m) h1 h2 (xs @ ys) \<and> joins simpleq_rep (STAILQ_CONCAT h1 h2 m) h1 h2 (xs @ ys)"
proof -
  have s: "simpleq_rep m h1 xs" "simpleq_rep m h2 ys" using assms(1,2) by (auto simp: simpleq_rep_def tailq_repD)
  show ?thesis
    using tq.enqueues [OF assms(1,5,6)] sq.enqueues [OF s(1) assms(5,6)] TAILQ_CONCAT_rep [OF assms(1-4)] SIMPLEQ_CONCAT_rep [OF s assms(3,4)]
    by (auto simp: STAILQ_CONCAT_eq)
qed

theorem tail_queues_append_witness:
  "joins tailq_rep (TAILQ_CONCAT 0 1 two_queues) 0 1 [1, 2, 3, 5, 6] \<and>
    (\<exists>m'. each (SIMPLEQ_INSERT_TAIL 0) [7, 4] two_queues = Some m' \<and> simpleq_rep m' 0 [1, 2, 3, 7, 4])"
proof -
  have "set [1, 2, 3] \<inter> set [5, 6 :: nat] = {}" "distinct ([1, 2, 3] @ [7, 4 :: nat])" "set [7, 4] \<subseteq> lk_mem two_queues"
    using two_queues_rep by simp_all
  from tail_queues_append [OF two_queues_rep(1,2) _ this] show ?thesis by simp
qed

text \<open>Iteration. Forwards every element is visited once, in order; \<^verbatim>\<open>TAILQ_FOREACH_REVERSE\<close>, which finds the last element and the one before
  another through the cast of \<^verbatim>\<open>TAILQ_LAST\<close> and \<^verbatim>\<open>TAILQ_PREV\<close>, visits them in the opposite order.\<close>

theorem tailq_iterates:
  assumes "tailq_rep m h xs"
  shows "TAILQ_FOREACH visit h (m, []) = Some (m, xs) \<and> TAILQ_FOREACH_SAFE visit h (m, []) = Some (m, xs) \<and>
    TAILQ_FOREACH_REVERSE visit h (m, []) = Some (m, rev xs) \<and> TAILQ_FOREACH_REVERSE_SAFE visit h (m, []) = Some (m, rev xs)"
  using tq.visits [OF assms] TAILQ_LAST_rep [OF assms] tailq_back_visits [of m h xs "[]" "[]"] assms
  by (simp add: TAILQ_FOREACH_def TAILQ_FOREACH_SAFE_def TAILQ_FOREACH_REVERSE_def TAILQ_FOREACH_REVERSE_SAFE_def TAILQ_FIRST_def)

theorem tailq_iterates_witness:
  "TAILQ_FOREACH visit 0 (two_queues, []) = Some (two_queues, [1, 2, 3]) \<and>
    TAILQ_FOREACH_REVERSE visit 0 (two_queues, []) = Some (two_queues, [3, 2, 1])"
  using tailq_iterates [OF two_queues_rep(1)] by simp

text \<open>A loop that unlinks and frees every element has to use the safe form. With \<^verbatim>\<open>TAILQ_FOREACH_SAFE\<close> or \<^verbatim>\<open>LIST_FOREACH_SAFE\<close> it ends with an empty
  list and exactly the elements of the list released; with \<^verbatim>\<open>TAILQ_FOREACH\<close> or \<^verbatim>\<open>LIST_FOREACH\<close> it reads an element it has freed.\<close>

theorem foreach_safe_is_needed:
  assumes "tailq_rep m h xs" and "xs \<noteq> []"
  shows "(\<exists>m'. TAILQ_FOREACH_SAFE (dispose (TAILQ_REMOVE h)) h (m, []) = Some (m', xs) \<and> tailq_rep m' h [] \<and> lk_mem m' = lk_mem m - set xs) \<and>
    TAILQ_FOREACH (dispose (TAILQ_REMOVE h)) h (m, []) = None \<and>
    (\<exists>m'. LIST_FOREACH_SAFE (dispose LIST_REMOVE) h (m, []) = Some (m', xs) \<and> list_rep m' h [] \<and> lk_mem m' = lk_mem m - set xs) \<and>
    LIST_FOREACH (dispose LIST_REMOVE) h (m, []) = None"
proof -
  from assms(2) obtain a ys where xs: "xs = a # ys" by (cases xs) auto
  have l: "list_rep m h xs" using assms(1) by (simp add: tailq_rep_def)
  show ?thesis using tq.drains [OF assms(1)] tq.unsafe [of m h a ys] li.drains [OF l] li.unsafe [of m h a ys] assms(1) l
    by (simp add: xs TAILQ_FOREACH_SAFE_def TAILQ_FOREACH_def TAILQ_FIRST_def LIST_FOREACH_SAFE_def LIST_FOREACH_def LIST_FIRST_def)
qed

theorem foreach_safe_is_needed_witness:
  "TAILQ_FOREACH (dispose (TAILQ_REMOVE 0)) 0 (two_queues, []) = None \<and>
    (\<exists>m'. TAILQ_FOREACH_SAFE (dispose (TAILQ_REMOVE 0)) 0 (two_queues, []) = Some (m', [1, 2, 3]) \<and> tailq_rep m' 0 [] \<and>
      lk_mem m' = lk_mem two_queues - set [1, 2, 3])"
  using foreach_safe_is_needed [OF two_queues_rep(1)] by simp

end
