(* ===== verification/Queue_Xor.thy ===== *)
theory Queue_Xor
  imports Queue_Laws "HOL-Library.Word"
begin

unbundle bit_operations_syntax

text \<open>
  The XOR simple queues of \<^verbatim>\<open>queue.h\<close> (the \<^verbatim>\<open>XSIMPLEQ\<close> macros): the same queue as \<^verbatim>\<open>SIMPLEQ\<close>, with every pointer stored combined with a random
  cookie of the head. Pointers are machine words here. How elements and links are placed in memory is a
  parameter, \<open>layout\<close>: two directions of an address map, of which \<open>layout_ok\<close> says that they fit on a head and the allocated elements, and
  that none of these elements is at the null address. The cookie, from \<^verbatim>\<open>arc4random_buf\<close>, is an argument of \<open>XSIMPLEQ_INIT\<close>.
\<close>

section \<open>Memory with masked pointers\<close>

type_synonym word_ptr = "64 word"

record layout =
  ptr_of :: "addr \<Rightarrow> word_ptr"
  elem_at :: "word_ptr \<Rightarrow> addr option"
  addr_of :: "link \<Rightarrow> word_ptr"
  link_at :: "word_ptr \<Rightarrow> link option"

definition layout_ok :: "layout \<Rightarrow> nat \<Rightarrow> addr set \<Rightarrow> bool" where
  "layout_ok L h M \<longleftrightarrow> (\<forall>a\<in>M. elem_at L (ptr_of L a) = Some a \<and> ptr_of L a \<noteq> 0) \<and>
     (\<forall>l\<in>insert (Head h) (Next ` M). link_at L (addr_of L l) = Some l)"

record xlinks =
  xl_mem :: "addr set"
  xl_link :: "link \<Rightarrow> word_ptr"
  xl_last :: "nat \<Rightarrow> word_ptr"
  xl_cookie :: "nat \<Rightarrow> word_ptr"

fun xl_ok :: "xlinks \<Rightarrow> link \<Rightarrow> bool" where
  "xl_ok x (Head h) = True"
| "xl_ok x (Next a) = (a \<in> xl_mem x)"

definition x_fetch :: "xlinks \<Rightarrow> link \<Rightarrow> word_ptr option" where
  "x_fetch x l = (if xl_ok x l then Some (xl_link x l) else None)"

definition x_store :: "xlinks \<Rightarrow> link \<Rightarrow> word_ptr \<Rightarrow> xlinks option" where
  "x_store x l p = (if xl_ok x l then Some (x\<lparr>xl_link := (xl_link x)(l := p)\<rparr>) else None)"

definition x_set_last :: "nat \<Rightarrow> word_ptr \<Rightarrow> xlinks \<Rightarrow> xlinks" where
  "x_set_last h p x = x\<lparr>xl_last := (xl_last x)(h := p)\<rparr>"

section \<open>The macros\<close>

definition XSIMPLEQ_XOR :: "nat \<Rightarrow> word_ptr \<Rightarrow> xlinks \<Rightarrow> word_ptr" where
  "XSIMPLEQ_XOR h p x = xl_cookie x h XOR p"

definition XSIMPLEQ_FIRST :: "nat \<Rightarrow> xlinks \<Rightarrow> word_ptr" where
  "XSIMPLEQ_FIRST h x = XSIMPLEQ_XOR h (xl_link x (Head h)) x"

definition XSIMPLEQ_EMPTY :: "nat \<Rightarrow> xlinks \<Rightarrow> bool" where
  "XSIMPLEQ_EMPTY h x \<longleftrightarrow> XSIMPLEQ_FIRST h x = 0"

definition XSIMPLEQ_NEXT :: "nat \<Rightarrow> addr \<Rightarrow> xlinks \<Rightarrow> word_ptr option" where
  "XSIMPLEQ_NEXT h elm x = do { n \<leftarrow> x_fetch x (Next elm); Some (XSIMPLEQ_XOR h n x) }"

text \<open>The elements that \<^verbatim>\<open>XSIMPLEQ_FOREACH\<close> visits.\<close>

partial_function (option) xsimpleq_walk :: "layout \<Rightarrow> nat \<Rightarrow> word_ptr \<Rightarrow> xlinks \<Rightarrow> addr list option" where
  "xsimpleq_walk L h var x =
     (if var = 0 then Some []
      else do {
        a \<leftarrow> elem_at L var;
        n \<leftarrow> XSIMPLEQ_NEXT h a x;
        xs \<leftarrow> xsimpleq_walk L h n x;
        Some (a # xs)
      })"

definition XSIMPLEQ_FOREACH :: "layout \<Rightarrow> nat \<Rightarrow> xlinks \<Rightarrow> addr list option" where
  "XSIMPLEQ_FOREACH L h x = xsimpleq_walk L h (XSIMPLEQ_FIRST h x) x"

text \<open>\<^verbatim>\<open>XSIMPLEQ_FOREACH_SAFE\<close> reads the next element before its statement, a function of the element and the memory, runs.\<close>

partial_function (option) xsimpleq_walk_safe ::
  "layout \<Rightarrow> (addr \<Rightarrow> xlinks \<Rightarrow> xlinks option) \<Rightarrow> nat \<Rightarrow> word_ptr \<Rightarrow> xlinks \<Rightarrow> xlinks option" where
  "xsimpleq_walk_safe L body h var x =
     (if var = 0 then Some x
      else do {
        a \<leftarrow> elem_at L var;
        tvar \<leftarrow> XSIMPLEQ_NEXT h a x;
        x \<leftarrow> body a x;
        xsimpleq_walk_safe L body h tvar x
      })"

definition XSIMPLEQ_FOREACH_SAFE :: "layout \<Rightarrow> (addr \<Rightarrow> xlinks \<Rightarrow> xlinks option) \<Rightarrow> nat \<Rightarrow> xlinks \<Rightarrow> xlinks option" where
  "XSIMPLEQ_FOREACH_SAFE L body h x = xsimpleq_walk_safe L body h (XSIMPLEQ_FIRST h x) x"

definition XSIMPLEQ_INIT :: "layout \<Rightarrow> word_ptr \<Rightarrow> nat \<Rightarrow> xlinks \<Rightarrow> xlinks option" where
  "XSIMPLEQ_INIT L random h x = do {
     let x = x\<lparr>xl_cookie := (xl_cookie x)(h := random)\<rparr>;
     x \<leftarrow> x_store x (Head h) (XSIMPLEQ_XOR h 0 x);
     Some (x_set_last h (XSIMPLEQ_XOR h (addr_of L (Head h)) x) x)
   }"

definition XSIMPLEQ_INSERT_HEAD :: "layout \<Rightarrow> nat \<Rightarrow> addr \<Rightarrow> xlinks \<Rightarrow> xlinks option" where
  "XSIMPLEQ_INSERT_HEAD L h elm x = do {
     let n = xl_link x (Head h);
     x \<leftarrow> x_store x (Next elm) n;
     let x = (if n = XSIMPLEQ_XOR h 0 x then x_set_last h (XSIMPLEQ_XOR h (addr_of L (Next elm)) x) x else x);
     x_store x (Head h) (XSIMPLEQ_XOR h (ptr_of L elm) x)
   }"

definition XSIMPLEQ_INSERT_TAIL :: "layout \<Rightarrow> nat \<Rightarrow> addr \<Rightarrow> xlinks \<Rightarrow> xlinks option" where
  "XSIMPLEQ_INSERT_TAIL L h elm x = do {
     x \<leftarrow> x_store x (Next elm) (XSIMPLEQ_XOR h 0 x);
     l \<leftarrow> link_at L (XSIMPLEQ_XOR h (xl_last x h) x);
     x \<leftarrow> x_store x l (XSIMPLEQ_XOR h (ptr_of L elm) x);
     Some (x_set_last h (XSIMPLEQ_XOR h (addr_of L (Next elm)) x) x)
   }"

definition XSIMPLEQ_INSERT_AFTER :: "layout \<Rightarrow> nat \<Rightarrow> addr \<Rightarrow> addr \<Rightarrow> xlinks \<Rightarrow> xlinks option" where
  "XSIMPLEQ_INSERT_AFTER L h listelm elm x = do {
     n \<leftarrow> x_fetch x (Next listelm);
     x \<leftarrow> x_store x (Next elm) n;
     let x = (if n = XSIMPLEQ_XOR h 0 x then x_set_last h (XSIMPLEQ_XOR h (addr_of L (Next elm)) x) x else x);
     x_store x (Next listelm) (XSIMPLEQ_XOR h (ptr_of L elm) x)
   }"

definition XSIMPLEQ_REMOVE_HEAD :: "layout \<Rightarrow> nat \<Rightarrow> xlinks \<Rightarrow> xlinks option" where
  "XSIMPLEQ_REMOVE_HEAD L h x = do {
     a \<leftarrow> elem_at L (XSIMPLEQ_XOR h (xl_link x (Head h)) x);
     n \<leftarrow> x_fetch x (Next a);
     x \<leftarrow> x_store x (Head h) n;
     Some (if n = XSIMPLEQ_XOR h 0 x then x_set_last h (XSIMPLEQ_XOR h (addr_of L (Head h)) x) x else x)
   }"

definition XSIMPLEQ_REMOVE_AFTER :: "layout \<Rightarrow> nat \<Rightarrow> addr \<Rightarrow> xlinks \<Rightarrow> xlinks option" where
  "XSIMPLEQ_REMOVE_AFTER L h elm x = do {
     n \<leftarrow> x_fetch x (Next elm);
     a \<leftarrow> elem_at L (XSIMPLEQ_XOR h n x);
     n \<leftarrow> x_fetch x (Next a);
     x \<leftarrow> x_store x (Next elm) n;
     Some (if n = XSIMPLEQ_XOR h 0 x then x_set_last h (XSIMPLEQ_XOR h (addr_of L (Next elm)) x) x else x)
   }"

section \<open>Simulation by the plain queue\<close>

fun enc :: "layout \<Rightarrow> addr option \<Rightarrow> word_ptr" where
  "enc L None = 0"
| "enc L (Some a) = ptr_of L a"

text \<open>\<open>masks L h S x m\<close>: on the head \<open>h\<close> and the elements \<open>S\<close>, \<open>x\<close> holds the pointers of \<open>m\<close> combined with the cookie.\<close>

definition masks :: "layout \<Rightarrow> nat \<Rightarrow> addr set \<Rightarrow> xlinks \<Rightarrow> links \<Rightarrow> bool" where
  "masks L h S x m \<longleftrightarrow> xl_mem x = lk_mem m \<and>
     (\<forall>l\<in>insert (Head h) (Next ` S). xl_link x l = xl_cookie x h XOR enc L (lk_link m l)) \<and>
     xl_last x h = xl_cookie x h XOR addr_of L (lk_back m (Head h))"

definition xsimpleq_rep :: "layout \<Rightarrow> xlinks \<Rightarrow> nat \<Rightarrow> addr list \<Rightarrow> bool" where
  "xsimpleq_rep L x h xs \<longleftrightarrow> (\<exists>m. masks L h (set xs) x m \<and> simpleq_rep m h xs)"

lemma xor_cancel [simp]: "c XOR (c XOR p) = (p :: word_ptr)"
  by (simp flip: xor.assoc)

lemma xor_same [simp]: "c XOR p = c \<longleftrightarrow> p = (0 :: word_ptr)"
  by (metis xor_cancel xor_self_eq xor.right_neutral)

lemma enc_eq_0: "layout_ok L h M \<Longrightarrow> (\<And>a. p = Some a \<Longrightarrow> a \<in> M) \<Longrightarrow> enc L p = 0 \<longleftrightarrow> p = None"
  by (cases p) (auto simp: layout_ok_def)

lemma xl_ok_eq: "masks L h S x m \<Longrightarrow> xl_ok x l = lk_ok m l"
  by (cases l) (auto simp: masks_def)

definition rsim :: "layout \<Rightarrow> nat \<Rightarrow> addr set \<Rightarrow> xlinks option \<Rightarrow> links option \<Rightarrow> bool" where
  "rsim L h S r q \<longleftrightarrow> (\<exists>x' m'. r = Some x' \<and> q = Some m' \<and> masks L h S x' m')"

lemma rsim_gives: "rsim L h (set xs) r q \<Longrightarrow> gives simpleq_rep q m h S xs \<Longrightarrow> \<exists>x'. r = Some x' \<and> xsimpleq_rep L x' h xs"
  by (auto simp: rsim_def gives_def xsimpleq_rep_def)

text \<open>The primitives: the masked memory follows the plain one.\<close>

lemma sim_fetch:
  assumes "masks L h S x m" and "l = Head h \<or> l \<in> Next ` S"
  shows "x_fetch x l = map_option (\<lambda>p. xl_cookie x h XOR enc L p) (fetch m l)"
  using assms xl_ok_eq [OF assms(1), of l] by (auto simp: x_fetch_def fetch_def masks_def)

lemma sim_store:
  assumes "masks L h S x m" and "lk_ok m (Next a)" and "p = xl_cookie x h XOR enc L q"
  shows "masks L h (insert a S) (x\<lparr>xl_link := (xl_link x)(Next a := p)\<rparr>) (m\<lparr>lk_link := (lk_link m)(Next a := q)\<rparr>)"
  using assms by (auto simp: masks_def)

lemma sim_store_head:
  assumes "masks L h S x m" and "p = xl_cookie x h XOR enc L q"
  shows "masks L h S (x\<lparr>xl_link := (xl_link x)(Head h := p)\<rparr>) (m\<lparr>lk_link := (lk_link m)(Head h := q)\<rparr>)"
  using assms by (auto simp: masks_def)

lemma sim_last:
  assumes "masks L h S x m"
  shows "masks L h S (x_set_last h (XSIMPLEQ_XOR h (addr_of L k) x) x) (m\<lparr>lk_back := (lk_back m)(Head h := k)\<rparr>)"
  using assms by (auto simp: masks_def x_set_last_def XSIMPLEQ_XOR_def)

lemma x_store_eq: "masks L h S x m \<Longrightarrow> lk_ok m l \<Longrightarrow> x_store x l p = Some (x\<lparr>xl_link := (xl_link x)(l := p)\<rparr>)"
  using xl_ok_eq [of L h S x m l] by (simp add: x_store_def)

lemma masks_head: "masks L h S x m \<Longrightarrow> xl_link x (Head h) = xl_cookie x h XOR enc L (lk_link m (Head h))"
  by (simp add: masks_def)

lemma masks_mono: "masks L h S x m \<Longrightarrow> T \<subseteq> S \<Longrightarrow> masks L h T x m"
  by (auto simp: masks_def)

text \<open>The two endings of the macros that may move the tail pointer.\<close>

lemma sim_tail:
  assumes "masks L h S x m" and "layout_ok L h M" and "\<And>c. q = Some c \<Longrightarrow> c \<in> M"
  shows "masks L h S (if xl_cookie x h XOR enc L q = XSIMPLEQ_XOR h 0 x then x_set_last h (XSIMPLEQ_XOR h (addr_of L k) x) x else x)
    (if q = None then m\<lparr>lk_back := (lk_back m)(Head h := k)\<rparr> else m)"
  using assms(1) sim_last [OF assms(1), of k] enc_eq_0 [OF assms(2,3)] by (auto simp: XSIMPLEQ_XOR_def)

lemma INSERT_HEAD_sim:
  assumes "masks L h S x m" and "layout_ok L h (lk_mem m)" and "a \<in> lk_mem m" and "\<And>c. lk_link m (Head h) = Some c \<Longrightarrow> c \<in> lk_mem m"
  shows "rsim L h (insert a S) (XSIMPLEQ_INSERT_HEAD L h a x) (SIMPLEQ_INSERT_HEAD h a m)"
proof -
  let ?q = "lk_link m (Head h)" let ?p = "xl_cookie x h XOR enc L ?q"
  let ?x1 = "x\<lparr>xl_link := (xl_link x)(Next a := ?p)\<rparr>" and ?m1 = "m\<lparr>lk_link := (lk_link m)(Next a := ?q)\<rparr>"
  have 1: "masks L h (insert a S) ?x1 ?m1" using assms by (intro sim_store) simp_all
  let ?x2 = "if ?p = XSIMPLEQ_XOR h 0 ?x1 then x_set_last h (XSIMPLEQ_XOR h (addr_of L (Next a)) ?x1) ?x1 else ?x1"
  let ?m2 = "if ?q = None then ?m1\<lparr>lk_back := (lk_back ?m1)(Head h := Next a)\<rparr> else ?m1"
  have 2: "masks L h (insert a S) ?x2 ?m2" using sim_tail [where q = ?q and k = "Next a", OF 1 assms(2,4)] by simp
  have "XSIMPLEQ_INSERT_HEAD L h a x = Some (?x2\<lparr>xl_link := (xl_link ?x2)(Head h := XSIMPLEQ_XOR h (ptr_of L a) ?x2)\<rparr>)"
    using x_store_eq [OF assms(1), of "Next a"] x_store_eq [OF 2, of "Head h"] assms(3)
    by (simp add: XSIMPLEQ_INSERT_HEAD_def masks_head [OF assms(1)] Let_def)
  moreover have "SIMPLEQ_INSERT_HEAD h a m = Some (?m2\<lparr>lk_link := (lk_link ?m2)(Head h := Some a)\<rparr>)"
    using assms(3) by (auto simp: SIMPLEQ_INSERT_HEAD_def store_def store_back_def Let_def)
  moreover have "masks L h (insert a S) (?x2\<lparr>xl_link := (xl_link ?x2)(Head h := XSIMPLEQ_XOR h (ptr_of L a) ?x2)\<rparr>)
      (?m2\<lparr>lk_link := (lk_link ?m2)(Head h := Some a)\<rparr>)" by (rule sim_store_head [OF 2]) (simp add: XSIMPLEQ_XOR_def)
  ultimately show ?thesis unfolding rsim_def by blast
qed

lemma INSERT_AFTER_sim:
  assumes "masks L h S x m" and "layout_ok L h (lk_mem m)" and "a \<in> lk_mem m" and "b \<in> S" and "b \<in> lk_mem m"
    and "\<And>c. lk_link m (Next b) = Some c \<Longrightarrow> c \<in> lk_mem m"
  shows "rsim L h (insert a S) (XSIMPLEQ_INSERT_AFTER L h b a x) (SIMPLEQ_INSERT_AFTER h b a m)"
proof -
  let ?q = "lk_link m (Next b)" let ?p = "xl_cookie x h XOR enc L ?q"
  let ?x1 = "x\<lparr>xl_link := (xl_link x)(Next a := ?p)\<rparr>" and ?m1 = "m\<lparr>lk_link := (lk_link m)(Next a := ?q)\<rparr>"
  have 1: "masks L h (insert a S) ?x1 ?m1" using assms by (intro sim_store) simp_all
  let ?x2 = "if ?p = XSIMPLEQ_XOR h 0 ?x1 then x_set_last h (XSIMPLEQ_XOR h (addr_of L (Next a)) ?x1) ?x1 else ?x1"
  let ?m2 = "if ?q = None then ?m1\<lparr>lk_back := (lk_back ?m1)(Head h := Next a)\<rparr> else ?m1"
  have 2: "masks L h (insert a S) ?x2 ?m2" using sim_tail [where q = ?q and k = "Next a", OF 1 assms(2,6)] by simp
  have ok: "lk_ok ?m2 (Next b)" using assms(5) by simp
  have "XSIMPLEQ_INSERT_AFTER L h b a x = Some (?x2\<lparr>xl_link := (xl_link ?x2)(Next b := XSIMPLEQ_XOR h (ptr_of L a) ?x2)\<rparr>)"
    using x_store_eq [OF assms(1), of "Next a"] x_store_eq [OF 2 ok] assms(3-5) sim_fetch [OF assms(1), of "Next b"]
    by (simp add: XSIMPLEQ_INSERT_AFTER_def fetch_def Let_def)
  moreover have "SIMPLEQ_INSERT_AFTER h b a m = Some (?m2\<lparr>lk_link := (lk_link ?m2)(Next b := Some a)\<rparr>)"
    using assms(3,5) by (simp add: SIMPLEQ_INSERT_AFTER_def fetch_def store_def store_back_def)
  moreover have "masks L h (insert b (insert a S)) (?x2\<lparr>xl_link := (xl_link ?x2)(Next b := XSIMPLEQ_XOR h (ptr_of L a) ?x2)\<rparr>)
      (?m2\<lparr>lk_link := (lk_link ?m2)(Next b := Some a)\<rparr>)" by (rule sim_store [OF 2 ok]) (simp add: XSIMPLEQ_XOR_def)
  moreover have "insert b (insert a S) = insert a S" using assms(4) by auto
  ultimately show ?thesis unfolding rsim_def by auto
qed

lemma INSERT_TAIL_sim:
  assumes "masks L h (set xs) x m" and "layout_ok L h (lk_mem m)" and "a \<in> lk_mem m" and "simpleq_rep m h xs" and "a \<notin> set xs"
  shows "rsim L h (insert a (set xs)) (XSIMPLEQ_INSERT_TAIL L h a x) (SIMPLEQ_INSERT_TAIL h a m)"
proof -
  let ?e = "end_of (Head h) xs"
  let ?x1 = "x\<lparr>xl_link := (xl_link x)(Next a := xl_cookie x h XOR enc L None)\<rparr>" and ?m1 = "m\<lparr>lk_link := (lk_link m)(Next a := None)\<rparr>"
  have 1: "masks L h (insert a (set xs)) ?x1 ?m1" using assms by (intro sim_store) simp_all
  have e: "lk_back m (Head h) = ?e" "lk_ok ?m1 ?e" "?e = Head h \<or> ?e \<in> Next ` set xs"
    using simpleq_repD(2) [OF assms(4)] slist_end(2) [OF simpleq_repD(1) [OF assms(4)]] end_of_in [of "Head h" xs]
    by (cases ?e; auto)+
  let ?x2 = "?x1\<lparr>xl_link := (xl_link ?x1)(?e := XSIMPLEQ_XOR h (ptr_of L a) ?x1)\<rparr>" and ?m2 = "?m1\<lparr>lk_link := (lk_link ?m1)(?e := Some a)\<rparr>"
  have 2: "masks L h (insert a (set xs)) ?x2 ?m2"
  proof (cases ?e)
    case (Head k)
    then show ?thesis using sim_store_head [OF 1, of _ "Some a"] e(3) by (auto simp: XSIMPLEQ_XOR_def)
  next
    case (Next b)
    then have "b \<in> set xs" "lk_ok ?m1 (Next b)" using e(2,3) by auto
    with sim_store [OF 1 this(2), of _ "Some a"] Next show ?thesis by (auto simp: XSIMPLEQ_XOR_def insert_absorb)
  qed
  have "link_at L (XSIMPLEQ_XOR h (xl_last ?x1 h) ?x1) = Some ?e"
    using assms(1,2) e by (cases ?e) (auto simp: masks_def XSIMPLEQ_XOR_def layout_ok_def)
  then have "XSIMPLEQ_INSERT_TAIL L h a x = Some (x_set_last h (XSIMPLEQ_XOR h (addr_of L (Next a)) ?x2) ?x2)"
    using x_store_eq [OF assms(1), of "Next a"] x_store_eq [OF 1 e(2)] assms(3)
    by (simp add: XSIMPLEQ_INSERT_TAIL_def) (simp add: XSIMPLEQ_XOR_def)
  moreover have "SIMPLEQ_INSERT_TAIL h a m = Some (?m2\<lparr>lk_back := (lk_back ?m2)(Head h := Next a)\<rparr>)"
    using assms(3) e by (simp add: SIMPLEQ_INSERT_TAIL_def store_def store_back_def)
  ultimately show ?thesis using sim_last [OF 2, of "Next a"] unfolding rsim_def by blast
qed

lemma REMOVE_AFTER_sim:
  assumes "masks L h S x m" and "layout_ok L h (lk_mem m)" and "a \<in> lk_mem m" "a \<in> S" and "b \<in> lk_mem m" "b \<in> S" and "lk_link m (Next b) = Some a"
    and "\<And>c. lk_link m (Next a) = Some c \<Longrightarrow> c \<in> lk_mem m"
  shows "rsim L h S (XSIMPLEQ_REMOVE_AFTER L h b x) (SIMPLEQ_REMOVE_AFTER h b m)"
proof -
  let ?q = "lk_link m (Next a)" let ?p = "xl_cookie x h XOR enc L ?q"
  let ?x1 = "x\<lparr>xl_link := (xl_link x)(Next b := ?p)\<rparr>" and ?m1 = "m\<lparr>lk_link := (lk_link m)(Next b := ?q)\<rparr>"
  have 1: "masks L h S ?x1 ?m1" using sim_store [OF assms(1), of b ?p ?q] assms(5,6) by (simp add: insert_absorb)
  let ?x2 = "if ?p = XSIMPLEQ_XOR h 0 ?x1 then x_set_last h (XSIMPLEQ_XOR h (addr_of L (Next b)) ?x1) ?x1 else ?x1"
  have "masks L h S ?x2 (if ?q = None then ?m1\<lparr>lk_back := (lk_back ?m1)(Head h := Next b)\<rparr> else ?m1)"
    using sim_tail [where q = ?q and k = "Next b", OF 1 assms(2,8)] by simp
  moreover have "elem_at L (XSIMPLEQ_XOR h (xl_cookie x h XOR ptr_of L a) x) = Some a"
    using assms(2,3) by (simp add: XSIMPLEQ_XOR_def layout_ok_def)
  then have "XSIMPLEQ_REMOVE_AFTER L h b x = Some ?x2"
    using sim_fetch [OF assms(1), of "Next b"] sim_fetch [OF assms(1), of "Next a"] x_store_eq [OF assms(1), of "Next b"] assms(3-7)
    by (simp add: XSIMPLEQ_REMOVE_AFTER_def fetch_def)
  moreover have "SIMPLEQ_REMOVE_AFTER h b m = Some (if ?q = None then ?m1\<lparr>lk_back := (lk_back ?m1)(Head h := Next b)\<rparr> else ?m1)"
    using assms(3,5,7) by (auto simp: SIMPLEQ_REMOVE_AFTER_def lk_next_def fetch_def store_def store_back_def)
  ultimately show ?thesis unfolding rsim_def by blast
qed

lemma REMOVE_HEAD_sim:
  assumes "masks L h S x m" and "layout_ok L h (lk_mem m)" and "a \<in> lk_mem m" "a \<in> S" and "lk_link m (Head h) = Some a"
    and "\<And>c. lk_link m (Next a) = Some c \<Longrightarrow> c \<in> lk_mem m"
  shows "rsim L h S (XSIMPLEQ_REMOVE_HEAD L h x) (SIMPLEQ_REMOVE_HEAD h m)"
proof -
  let ?q = "lk_link m (Next a)" let ?p = "xl_cookie x h XOR enc L ?q"
  let ?x1 = "x\<lparr>xl_link := (xl_link x)(Head h := ?p)\<rparr>" and ?m1 = "m\<lparr>lk_link := (lk_link m)(Head h := ?q)\<rparr>"
  have 1: "masks L h S ?x1 ?m1" using sim_store_head [OF assms(1), of ?p ?q] by simp
  let ?x2 = "if ?p = XSIMPLEQ_XOR h 0 ?x1 then x_set_last h (XSIMPLEQ_XOR h (addr_of L (Head h)) ?x1) ?x1 else ?x1"
  have "masks L h S ?x2 (if ?q = None then ?m1\<lparr>lk_back := (lk_back ?m1)(Head h := Head h)\<rparr> else ?m1)"
    using sim_tail [where q = ?q and k = "Head h", OF 1 assms(2,6)] by simp
  moreover have "elem_at L (XSIMPLEQ_XOR h (xl_link x (Head h)) x) = Some a"
    using assms(2,3,5) masks_head [OF assms(1)] by (simp add: XSIMPLEQ_XOR_def layout_ok_def)
  then have "XSIMPLEQ_REMOVE_HEAD L h x = Some ?x2"
    using sim_fetch [OF assms(1), of "Next a"] x_store_eq [OF assms(1), of "Head h"] assms(3-5)
    by (simp add: XSIMPLEQ_REMOVE_HEAD_def fetch_def)
  moreover have "SIMPLEQ_REMOVE_HEAD h m = Some (if ?q = None then ?m1\<lparr>lk_back := (lk_back ?m1)(Head h := Head h)\<rparr> else ?m1)"
    using assms(3,5) by (auto simp: SIMPLEQ_REMOVE_HEAD_def lk_next_def fetch_def store_def store_back_def)
  ultimately show ?thesis unfolding rsim_def by blast
qed

lemma rsim_mono: "rsim L h S r q \<Longrightarrow> T \<subseteq> S \<Longrightarrow> rsim L h T r q"
  by (auto simp: rsim_def intro: masks_mono)

text \<open>One turn of an iteration: the pointer to an element of the queue leads to it, and from there to the next.\<close>

lemma xsimpleq_at:
  assumes "masks L h (set xs) x m" and "simpleq_rep m h xs" and "layout_ok L h (xl_mem x)" and "xs = us @ a # vs"
  shows "elem_at L (ptr_of L a) = Some a" and "ptr_of L a \<noteq> 0" and "XSIMPLEQ_NEXT h a x = Some (enc L (hd_ptr vs))"
proof -
  have sl: "slist_rep m h (us @ a # vs)" using assms(2,4) by (simp add: simpleq_rep_def)
  note a = slist_repD(2,3) [OF sl]
  show "elem_at L (ptr_of L a) = Some a" "ptr_of L a \<noteq> 0" using assms(1,3) a(2) by (auto simp: layout_ok_def masks_def)
  show "XSIMPLEQ_NEXT h a x = Some (enc L (hd_ptr vs))"
    using sim_fetch [OF assms(1), of "Next a"] a assms(4) by (simp add: XSIMPLEQ_NEXT_def fetch_def XSIMPLEQ_XOR_def)
qed

lemma xsimpleq_first:
  assumes "masks L h (set xs) x m" and "simpleq_rep m h xs"
  shows "XSIMPLEQ_FIRST h x = enc L (hd_ptr xs)"
  using masks_head [OF assms(1)] slist_first [OF simpleq_repD(1) [OF assms(2)]] by (simp add: XSIMPLEQ_FIRST_def XSIMPLEQ_XOR_def)

lemma xsimpleq_foreach:
  assumes "xsimpleq_rep L x h xs" and "layout_ok L h (xl_mem x)"
  shows "XSIMPLEQ_FOREACH L h x = Some xs"
proof -
  from assms(1) obtain m where m: "masks L h (set xs) x m" "simpleq_rep m h xs" by (auto simp: xsimpleq_rep_def)
  have "xsimpleq_walk L h (enc L (hd_ptr vs)) x = Some vs" if "xs = us @ vs" for us vs
    using that
  proof (induction vs arbitrary: us)
    case Nil
    then show ?case by (simp add: xsimpleq_walk.simps)
  next
    case (Cons a vs)
    have "xsimpleq_walk L h (enc L (hd_ptr vs)) x = Some vs" using Cons.IH [of "us @ [a]"] Cons.prems by simp
    with xsimpleq_at [OF m assms(2) Cons.prems] show ?case by (subst xsimpleq_walk.simps) simp
  qed
  then show ?thesis using xsimpleq_first [OF m] by (simp add: XSIMPLEQ_FOREACH_def)
qed

section \<open>Properties\<close>

definition xgives :: "layout \<Rightarrow> xlinks option \<Rightarrow> nat \<Rightarrow> addr list \<Rightarrow> bool" where
  "xgives L r h xs \<longleftrightarrow> (\<exists>x'. r = Some x' \<and> xsimpleq_rep L x' h xs)"

lemma XSIMPLEQ_INIT_rep: "xgives L (XSIMPLEQ_INIT L c h x) h []"
proof -
  let ?m = "\<lparr>lk_mem = xl_mem x, lk_link = (\<lambda>_. None), lk_back = (\<lambda>l. l)\<rparr>"
  have "simpleq_rep ?m h []" by (simp add: simpleq_rep_def slist_rep_def)
  moreover have "masks L h (set []) (x\<lparr>xl_cookie := (xl_cookie x)(h := c), xl_link := (xl_link x)(Head h := c),
      xl_last := (xl_last x)(h := c XOR addr_of L (Head h))\<rparr>) ?m" by (simp add: masks_def)
  ultimately show ?thesis
    by (auto simp: xgives_def XSIMPLEQ_INIT_def x_store_def x_set_last_def XSIMPLEQ_XOR_def xsimpleq_rep_def)
qed

lemma xsimpleq_repD:
  assumes "xsimpleq_rep L x h xs" and "layout_ok L h (xl_mem x)"
  shows "\<exists>m. masks L h (set xs) x m \<and> simpleq_rep m h xs \<and> slist_rep m h xs \<and> lk_mem m = xl_mem x \<and> layout_ok L h (lk_mem m)"
  using assms by (auto simp: xsimpleq_rep_def masks_def simpleq_rep_def)

lemma slist_live: "slist_rep m h xs \<Longrightarrow> hd_ptr ws = Some c \<Longrightarrow> set ws \<subseteq> set xs \<Longrightarrow> c \<in> lk_mem m"
  by (cases ws) (auto simp: slist_rep_def)

lemma XSIMPLEQ_INSERT_HEAD_rep:
  assumes "layout_ok L h (xl_mem x)" and "xsimpleq_rep L x h xs" and "a \<in> xl_mem x" and "a \<notin> set xs"
  shows "xgives L (XSIMPLEQ_INSERT_HEAD L h a x) h (a # xs)"
proof -
  from xsimpleq_repD [OF assms(2,1)] obtain m where m: "masks L h (set xs) x m" "simpleq_rep m h xs" "slist_rep m h xs"
    "lk_mem m = xl_mem x" "layout_ok L h (lk_mem m)" by blast
  note a = assms(3) [folded m(4)]
  have "rsim L h (insert a (set xs)) (XSIMPLEQ_INSERT_HEAD L h a x) (SIMPLEQ_INSERT_HEAD h a m)"
    by (rule INSERT_HEAD_sim [OF m(1,5) a]) (use slist_live [OF m(3), of xs] slist_first [OF m(3)] in auto)
  then show ?thesis using rsim_gives [OF _ SIMPLEQ_INSERT_HEAD_rep [OF m(2) a assms(4)]] by (simp add: xgives_def)
qed

lemma XSIMPLEQ_INSERT_TAIL_rep:
  assumes "layout_ok L h (xl_mem x)" and "xsimpleq_rep L x h xs" and "a \<in> xl_mem x" and "a \<notin> set xs"
  shows "xgives L (XSIMPLEQ_INSERT_TAIL L h a x) h (xs @ [a])"
proof -
  from xsimpleq_repD [OF assms(2,1)] obtain m where m: "masks L h (set xs) x m" "simpleq_rep m h xs" "slist_rep m h xs"
    "lk_mem m = xl_mem x" "layout_ok L h (lk_mem m)" by blast
  note a = assms(3) [folded m(4)]
  show ?thesis
    using rsim_gives [OF rsim_mono [OF INSERT_TAIL_sim [OF m(1,5) a m(2) assms(4)]] SIMPLEQ_INSERT_TAIL_rep [OF m(2) a assms(4)]]
    by (auto simp: xgives_def)
qed

lemma XSIMPLEQ_INSERT_AFTER_rep:
  assumes "layout_ok L h (xl_mem x)" and "xsimpleq_rep L x h (us @ b # vs)" and "a \<in> xl_mem x" and "a \<notin> set (us @ b # vs)"
  shows "xgives L (XSIMPLEQ_INSERT_AFTER L h b a x) h (us @ b # a # vs)"
proof -
  let ?xs = "us @ b # vs"
  from xsimpleq_repD [OF assms(2,1)] obtain m where m: "masks L h (set ?xs) x m" "simpleq_rep m h ?xs" "slist_rep m h ?xs"
    "lk_mem m = xl_mem x" "layout_ok L h (lk_mem m)" by blast
  note a = assms(3) [folded m(4)]
  have "rsim L h (insert a (set ?xs)) (XSIMPLEQ_INSERT_AFTER L h b a x) (SIMPLEQ_INSERT_AFTER h b a m)"
    by (rule INSERT_AFTER_sim [OF m(1,5) a]) (use slist_live [OF m(3), of vs] slist_repD(2,3) [OF m(3)] in auto)
  from rsim_gives [OF rsim_mono [OF this] SIMPLEQ_INSERT_AFTER_rep [OF m(2) a assms(4)]] show ?thesis by (auto simp: xgives_def)
qed

lemma XSIMPLEQ_REMOVE_HEAD_rep:
  assumes "layout_ok L h (xl_mem x)" and "xsimpleq_rep L x h (d # ws)"
  shows "xgives L (XSIMPLEQ_REMOVE_HEAD L h x) h ws"
proof -
  from xsimpleq_repD [OF assms(2,1)] obtain m where m: "masks L h (set (d # ws)) x m" "simpleq_rep m h (d # ws)" "slist_rep m h (d # ws)"
    "lk_mem m = xl_mem x" "layout_ok L h (lk_mem m)" by blast
  note ds = slist_repD(2,3) [of m h "[]" d ws, simplified, OF m(3)]
  have "rsim L h (set (d # ws)) (XSIMPLEQ_REMOVE_HEAD L h x) (SIMPLEQ_REMOVE_HEAD h m)"
    by (rule REMOVE_HEAD_sim [OF m(1,5) ds(2)]) (use slist_live [OF m(3), of ws] slist_first [OF m(3)] ds(1) in auto)
  then have "rsim L h (set ws) (XSIMPLEQ_REMOVE_HEAD L h x) (SIMPLEQ_REMOVE_HEAD h m)" by (rule rsim_mono) auto
  from rsim_gives [OF this SIMPLEQ_REMOVE_HEAD_rep [OF m(2)]] show ?thesis by (simp add: xgives_def)
qed

lemma XSIMPLEQ_REMOVE_AFTER_rep:
  assumes "layout_ok L h (xl_mem x)" and "xsimpleq_rep L x h (us @ b # e # ws)"
  shows "xgives L (XSIMPLEQ_REMOVE_AFTER L h b x) h (us @ b # ws)"
proof -
  let ?xs = "us @ b # e # ws"
  from xsimpleq_repD [OF assms(2,1)] obtain m where m: "masks L h (set ?xs) x m" "simpleq_rep m h ?xs" "slist_rep m h ?xs"
    "lk_mem m = xl_mem x" "layout_ok L h (lk_mem m)" by blast
  note b = slist_repD(2,3) [OF m(3)]
  have "slist_rep m h ((us @ [b]) @ e # ws)" using m(3) by simp
  note es = slist_repD(2,3) [OF this]
  have "rsim L h (set ?xs) (XSIMPLEQ_REMOVE_AFTER L h b x) (SIMPLEQ_REMOVE_AFTER h b m)"
    by (rule REMOVE_AFTER_sim [OF m(1,5) es(2) _ b(2)]) (use slist_live [OF m(3), of ws] b(1) es(1) in auto)
  then have "rsim L h (set (us @ b # ws)) (XSIMPLEQ_REMOVE_AFTER L h b x) (SIMPLEQ_REMOVE_AFTER h b m)" by (rule rsim_mono) auto
  from rsim_gives [OF this SIMPLEQ_REMOVE_AFTER_rep [OF m(2)]] show ?thesis by (simp add: xgives_def)
qed

text \<open>A statement that unlinks and frees the element it is given, under \<^verbatim>\<open>XSIMPLEQ_FOREACH_SAFE\<close>.\<close>

definition x_free :: "addr \<Rightarrow> xlinks \<Rightarrow> xlinks option" where
  "x_free a x = (if a \<in> xl_mem x then Some (x\<lparr>xl_mem := xl_mem x - {a}\<rparr>) else None)"

definition x_dispose :: "layout \<Rightarrow> nat \<Rightarrow> addr \<Rightarrow> xlinks \<Rightarrow> xlinks option" where
  "x_dispose L h a x = do { x \<leftarrow> XSIMPLEQ_REMOVE_HEAD L h x; x_free a x }"

lemma REMOVE_HEAD_mem: "XSIMPLEQ_REMOVE_HEAD L h x = Some x' \<Longrightarrow> xl_mem x' = xl_mem x"
  by (auto simp: XSIMPLEQ_REMOVE_HEAD_def x_store_def x_set_last_def Let_def split: bind_splits if_splits)

lemma x_free_rep:
  assumes "xsimpleq_rep L x h xs" and "d \<in> xl_mem x" and "d \<notin> set xs"
  shows "\<exists>x'. x_free d x = Some x' \<and> xsimpleq_rep L x' h xs \<and> xl_mem x' = xl_mem x - {d}"
proof -
  from assms(1) obtain m where m: "masks L h (set xs) x m" "simpleq_rep m h xs" by (auto simp: xsimpleq_rep_def)
  have "masks L h (set xs) (x\<lparr>xl_mem := xl_mem x - {d}\<rparr>) (m\<lparr>lk_mem := lk_mem m - {d}\<rparr>)"
    using m(1) by (simp add: masks_def)
  moreover have "simpleq_rep (m\<lparr>lk_mem := lk_mem m - {d}\<rparr>) h xs"
    using m(2) assms(3) by (auto simp: simpleq_rep_def slist_rep_def)
  ultimately show ?thesis using assms(2) by (auto simp: x_free_def xsimpleq_rep_def)
qed

lemma xsimpleq_drains:
  assumes "xsimpleq_rep L x h xs" and "layout_ok L h (xl_mem x)"
  shows "\<exists>x'. XSIMPLEQ_FOREACH_SAFE L (x_dispose L h) h x = Some x' \<and> xsimpleq_rep L x' h [] \<and> xl_mem x' = xl_mem x - set xs"
proof -
  have "\<exists>x'. xsimpleq_walk_safe L (x_dispose L h) h (enc L (hd_ptr xs)) x = Some x' \<and> xsimpleq_rep L x' h [] \<and> xl_mem x' = xl_mem x - set xs"
    using assms
  proof (induction xs arbitrary: x)
    case Nil
    then show ?case by (simp add: xsimpleq_walk_safe.simps)
  next
    case (Cons d ws)
    from xsimpleq_repD [OF Cons.prems] obtain m where m: "masks L h (set (d # ws)) x m" "simpleq_rep m h (d # ws)" "slist_rep m h (d # ws)"
      "lk_mem m = xl_mem x" by blast
    have d: "d \<in> xl_mem x" "d \<notin> set ws" using m(3,4) by (auto simp: slist_rep_def)
    from XSIMPLEQ_REMOVE_HEAD_rep [OF Cons.prems(2,1)] obtain x1 where
      x1: "XSIMPLEQ_REMOVE_HEAD L h x = Some x1" "xsimpleq_rep L x1 h ws" by (auto simp: xgives_def)
    note mem = REMOVE_HEAD_mem [OF x1(1)]
    from x_free_rep [OF x1(2), of d] d mem obtain x2 where
      x2: "x_free d x1 = Some x2" "xsimpleq_rep L x2 h ws" "xl_mem x2 = xl_mem x - {d}" by auto
    have "layout_ok L h (xl_mem x2)" using Cons.prems(2) x2(3) by (auto simp: layout_ok_def)
    from Cons.IH [OF x2(2) this] obtain x' where
      x': "xsimpleq_walk_safe L (x_dispose L h) h (enc L (hd_ptr ws)) x2 = Some x'" "xsimpleq_rep L x' h []" "xl_mem x' = xl_mem x2 - set ws" by blast
    have "xsimpleq_walk_safe L (x_dispose L h) h (enc L (hd_ptr (d # ws))) x = Some x'"
      using xsimpleq_at [OF m(1,2) Cons.prems(2), of "[]" d ws] x1(1) x2(1) x'(1)
      by (subst xsimpleq_walk_safe.simps) (simp add: x_dispose_def)
    with x'(2,3) x2(3) show ?case by auto
  qed
  moreover from assms(1) have "XSIMPLEQ_FIRST h x = enc L (hd_ptr xs)" by (auto simp: xsimpleq_rep_def intro: xsimpleq_first)
  ultimately show ?thesis by (simp add: XSIMPLEQ_FOREACH_SAFE_def)
qed

text \<open>Whatever the cookie, an XOR queue is a queue: the macros that insert and remove do to the sequence of elements what their names say, an iteration
  sees that sequence, and an iteration of the safe form can unlink and free every element. Each macro is simulated by the macro of \<^verbatim>\<open>SIMPLEQ\<close> of the same name.\<close>

theorem xsimpleq_macros_refine:
  assumes "layout_ok L h (xl_mem x)" and "xsimpleq_rep L x h (us @ b # vs)" and "a \<in> xl_mem x" and "a \<notin> set (us @ b # vs)"
  shows "xgives L (XSIMPLEQ_INIT L c h x) h [] \<and>
    xgives L (XSIMPLEQ_INSERT_HEAD L h a x) h (a # us @ b # vs) \<and>
    xgives L (XSIMPLEQ_INSERT_TAIL L h a x) h ((us @ b # vs) @ [a]) \<and>
    xgives L (XSIMPLEQ_INSERT_AFTER L h b a x) h (us @ b # a # vs) \<and>
    xgives L (XSIMPLEQ_REMOVE_HEAD L h x) h (tl (us @ b # vs)) \<and>
    (vs \<noteq> [] \<longrightarrow> xgives L (XSIMPLEQ_REMOVE_AFTER L h b x) h (us @ b # tl vs)) \<and>
    XSIMPLEQ_FOREACH L h x = Some (us @ b # vs) \<and>
    (\<exists>x'. XSIMPLEQ_FOREACH_SAFE L (x_dispose L h) h x = Some x' \<and> xsimpleq_rep L x' h [] \<and> xl_mem x' = xl_mem x - set (us @ b # vs))"
proof (intro conjI impI)
  show "xgives L (XSIMPLEQ_REMOVE_HEAD L h x) h (tl (us @ b # vs))"
    using XSIMPLEQ_REMOVE_HEAD_rep [OF assms(1), of "hd (us @ b # vs)" "tl (us @ b # vs)"] assms(2) by simp
  show "xgives L (XSIMPLEQ_REMOVE_AFTER L h b x) h (us @ b # tl vs)" if "vs \<noteq> []"
    using XSIMPLEQ_REMOVE_AFTER_rep [OF assms(1), of us b "hd vs" "tl vs"] assms(2) that by simp
qed (rule XSIMPLEQ_INIT_rep XSIMPLEQ_INSERT_HEAD_rep [OF assms] XSIMPLEQ_INSERT_TAIL_rep [OF assms] XSIMPLEQ_INSERT_AFTER_rep [OF assms]
    xsimpleq_foreach [OF assms(2,1)] xsimpleq_drains [OF assms(2,1)])+

text \<open>A queue of the elements 1 and 2 at \<open>0x100\<close> and \<open>0x200\<close>, and the element 3 in no queue.\<close>

definition layout3 :: layout where
  "layout3 = \<lparr>ptr_of = (\<lambda>_. 0)(1 := 0x100, 2 := 0x200, 3 := 0x300),
     elem_at = (\<lambda>_. None)(0x100 := Some 1, 0x200 := Some 2, 0x300 := Some 3),
     addr_of = (\<lambda>_. 0)(Head 0 := 0x10, Next 1 := 0x100, Next 2 := 0x200, Next 3 := 0x300),
     link_at = (\<lambda>_. None)(0x10 := Some (Head 0), 0x100 := Some (Next 1), 0x200 := Some (Next 2), 0x300 := Some (Next 3))\<rparr>"

definition xqueue2 :: xlinks where
  "xqueue2 = (let c = 0x5DEECE66D in \<lparr>xl_mem = {1, 2, 3}, xl_link = (\<lambda>_. 0)(Head 0 := c XOR 0x100, Next 1 := c XOR 0x200, Next 2 := c),
     xl_last = (\<lambda>_. 0)(0 := c XOR 0x200), xl_cookie = (\<lambda>_. 0)(0 := c)\<rparr>)"

lemma xqueue2_rep: "layout_ok layout3 0 (xl_mem xqueue2)" "xsimpleq_rep layout3 xqueue2 0 [1, 2]"
proof -
  show "layout_ok layout3 0 (xl_mem xqueue2)" by (simp add: layout_ok_def layout3_def xqueue2_def)
  let ?m = "\<lparr>lk_mem = {1, 2, 3}, lk_link = (\<lambda>_. None)(Head 0 := Some 1, Next 1 := Some 2), lk_back = (\<lambda>l. l)(Head 0 := Next 2)\<rparr>"
  have "masks layout3 0 (set [1, 2]) xqueue2 ?m" by (simp add: masks_def layout3_def xqueue2_def Let_def)
  moreover have "simpleq_rep ?m 0 [1, 2]" by (simp add: simpleq_rep_def slist_rep_def)
  ultimately show "xsimpleq_rep layout3 xqueue2 0 [1, 2]" unfolding xsimpleq_rep_def by blast
qed

theorem xsimpleq_macros_refine_witness:
  "xgives layout3 (XSIMPLEQ_INSERT_TAIL layout3 0 3 xqueue2) 0 [1, 2, 3] \<and> xgives layout3 (XSIMPLEQ_REMOVE_HEAD layout3 0 xqueue2) 0 [2] \<and>
    XSIMPLEQ_FOREACH layout3 0 xqueue2 = Some [1, 2]"
proof -
  have "xsimpleq_rep layout3 xqueue2 0 ([] @ 1 # [2])" "3 \<in> xl_mem xqueue2" using xqueue2_rep(2) by (simp_all add: xqueue2_def)
  from xsimpleq_macros_refine [OF xqueue2_rep(1) this, of 0] show ?thesis by simp
qed

end
