(* ===== verification/Queue_Model.thy ===== *)
theory Queue_Model
  imports Yamux_Prelude
begin

text \<open>
  The singly-linked tail queue of \<^verbatim>\<open>queue.h\<close> (the \<^verbatim>\<open>STAILQ\<close> macros) at pointer
  level. A queue is the head structure (\<^verbatim>\<open>stqh_first\<close> and the pointer-to-pointer
  \<^verbatim>\<open>stqh_last\<close>) together with the cells it owns, each with its \<^verbatim>\<open>stqe_next\<close> link.
  The refinement relation \<open>stailq_rep\<close> says which list of elements the links spell, and
  every macro is proved to implement the list operation it is named after.
\<close>

section \<open>The structures and the macros\<close>

text \<open>Where \<^verbatim>\<open>stqh_last\<close> points: at the head's own first pointer, or at an element's link.\<close>

datatype loc = Head_First | Next_Of addr

record 'a cell =
  stqe_next :: ptr
  elem :: 'a

record 'a stailq =
  stqh_first :: ptr
  stqh_last :: loc
  cells :: "addr \<rightharpoonup> 'a cell"
  fresh :: addr

definition STAILQ_NEXT :: "'a stailq \<Rightarrow> ptr \<Rightarrow> ptr option" where
  "STAILQ_NEXT q p = do { a \<leftarrow> p; c \<leftarrow> cells q a; Some (stqe_next c) }"

definition set_next :: "'a stailq \<Rightarrow> ptr \<Rightarrow> ptr \<Rightarrow> 'a stailq option" where
  "set_next q p v = do {
     a \<leftarrow> p;
     c \<leftarrow> cells q a;
     Some (q\<lparr>cells := (cells q)(a \<mapsto> c\<lparr>stqe_next := v\<rparr>)\<rparr>)
   }"

text \<open>The assignment \<^verbatim>\<open>*stqh_last = v\<close>.\<close>

definition set_last_target :: "'a stailq \<Rightarrow> ptr \<Rightarrow> 'a stailq option" where
  "set_last_target q v =
     (case stqh_last q of
        Head_First \<Rightarrow> Some (q\<lparr>stqh_first := v\<rparr>)
      | Next_Of a \<Rightarrow> set_next q (Some a) v)"

definition STAILQ_EMPTY :: "'a stailq \<Rightarrow> bool" where
  "STAILQ_EMPTY q \<longleftrightarrow> stqh_first q = None"

definition STAILQ_INIT :: "'a stailq \<Rightarrow> 'a stailq" where
  "STAILQ_INIT q = q\<lparr>stqh_first := None, stqh_last := Head_First\<rparr>"

definition STAILQ_INSERT_HEAD :: "'a stailq \<Rightarrow> addr \<Rightarrow> 'a stailq option" where
  "STAILQ_INSERT_HEAD q elm = do {
     q \<leftarrow> set_next q (Some elm) (stqh_first q);
     let q = (if stqh_first q = None then q\<lparr>stqh_last := Next_Of elm\<rparr> else q);
     Some (q\<lparr>stqh_first := Some elm\<rparr>)
   }"

definition STAILQ_INSERT_TAIL :: "'a stailq \<Rightarrow> addr \<Rightarrow> 'a stailq option" where
  "STAILQ_INSERT_TAIL q elm = do {
     q \<leftarrow> set_next q (Some elm) None;
     q \<leftarrow> set_last_target q (Some elm);
     Some (q\<lparr>stqh_last := Next_Of elm\<rparr>)
   }"

text \<open>As the macro is written: \<open>listelm\<close> is never mentioned.\<close>

definition STAILQ_INSERT_AFTER :: "'a stailq \<Rightarrow> addr \<Rightarrow> addr \<Rightarrow> 'a stailq option" where
  "STAILQ_INSERT_AFTER q listelm elm = do {
     n \<leftarrow> STAILQ_NEXT q (Some elm);
     q \<leftarrow> set_next q (Some elm) n;
     let q = (if n = None then q\<lparr>stqh_last := Next_Of elm\<rparr> else q);
     set_next q (Some elm) (Some elm)
   }"

definition STAILQ_REMOVE_HEAD :: "'a stailq \<Rightarrow> 'a stailq option" where
  "STAILQ_REMOVE_HEAD q = do {
     n \<leftarrow> STAILQ_NEXT q (stqh_first q);
     let q = q\<lparr>stqh_first := n\<rparr>;
     Some (if n = None then q\<lparr>stqh_last := Head_First\<rparr> else q)
   }"

definition STAILQ_REMOVE_AFTER :: "'a stailq \<Rightarrow> addr \<Rightarrow> 'a stailq option" where
  "STAILQ_REMOVE_AFTER q elm = do {
     n \<leftarrow> STAILQ_NEXT q (Some elm);
     nn \<leftarrow> STAILQ_NEXT q n;
     q \<leftarrow> set_next q (Some elm) nn;
     Some (if nn = None then q\<lparr>stqh_last := Next_Of elm\<rparr> else q)
   }"

text \<open>The search loop of \<^verbatim>\<open>STAILQ_REMOVE\<close>: the element before \<open>elm\<close>.\<close>

partial_function (option) stailq_before :: "'a stailq \<Rightarrow> addr \<Rightarrow> ptr \<Rightarrow> addr option" where
  "stailq_before q elm curelm = do {
     n \<leftarrow> STAILQ_NEXT q curelm;
     if n = Some elm then curelm else stailq_before q elm n
   }"

definition STAILQ_REMOVE :: "'a stailq \<Rightarrow> addr \<Rightarrow> 'a stailq option" where
  "STAILQ_REMOVE q elm =
     (if stqh_first q = Some elm then STAILQ_REMOVE_HEAD q
      else do {
        curelm \<leftarrow> stailq_before q elm (stqh_first q);
        STAILQ_REMOVE_AFTER q curelm
      })"

text \<open>\<^verbatim>\<open>STAILQ_FOREACH\<close> from a pointer: the elements visited, in order.\<close>

partial_function (option) stailq_walk ::
  "(addr \<rightharpoonup> 'a cell) \<Rightarrow> ptr \<Rightarrow> (addr \<times> 'a) list option" where
  "stailq_walk h p =
     (case p of
        None \<Rightarrow> Some []
      | Some a \<Rightarrow> do {
          c \<leftarrow> h a;
          r \<leftarrow> stailq_walk h (stqe_next c);
          Some ((a, elem c) # r)
        })"

definition STAILQ_FOREACH :: "'a stailq \<Rightarrow> (addr \<times> 'a) list option" where
  "STAILQ_FOREACH q = stailq_walk (cells q) (stqh_first q)"

text \<open>Taking a fresh cell for a new element, and giving one back.\<close>

definition cell_new :: "'a stailq \<Rightarrow> 'a \<Rightarrow> addr \<times> 'a stailq" where
  "cell_new q x =
     (fresh q, q\<lparr>cells := (cells q)(fresh q \<mapsto> \<lparr>stqe_next = None, elem = x\<rparr>),
                fresh := Suc (fresh q)\<rparr>)"

definition cell_free :: "'a stailq \<Rightarrow> addr \<Rightarrow> 'a stailq option" where
  "cell_free q a =
     (if cells q a = None then None else Some (q\<lparr>cells := (cells q)(a := None)\<rparr>))"

definition stailq_new :: "'a stailq" where
  "stailq_new = STAILQ_INIT \<lparr>stqh_first = None, stqh_last = Head_First, cells = Map.empty, fresh = 0\<rparr>"

section \<open>The list a queue represents\<close>

primrec stailq_path :: "(addr \<rightharpoonup> 'a cell) \<Rightarrow> ptr \<Rightarrow> (addr \<times> 'a) list \<Rightarrow> bool" where
  "stailq_path h p [] \<longleftrightarrow> p = None"
| "stailq_path h p (ax # r) \<longleftrightarrow>
     (\<exists>n. p = Some (fst ax) \<and> h (fst ax) = Some \<lparr>stqe_next = n, elem = snd ax\<rparr> \<and> stailq_path h n r)"

text \<open>
  \<open>stailq_rep q xs D\<close>: the links of \<open>q\<close> spell the elements \<open>xs\<close>, \<open>stqh_last\<close> points at the
  last link, and the cells of \<open>q\<close> are those of \<open>xs\<close> and the detached ones in \<open>D\<close>
  (allocated and not yet inserted, or removed and not yet freed), all below \<open>fresh\<close>.
\<close>

definition last_loc :: "(addr \<times> 'a) list \<Rightarrow> loc" where
  "last_loc xs = (if xs = [] then Head_First else Next_Of (fst (last xs)))"

definition stailq_rep :: "'a stailq \<Rightarrow> (addr \<times> 'a) list \<Rightarrow> (addr \<rightharpoonup> 'a) \<Rightarrow> bool" where
  "stailq_rep q xs D \<longleftrightarrow>
     stailq_path (cells q) (stqh_first q) xs \<and> distinct (map fst xs) \<and>
     stqh_last q = last_loc xs \<and>
     (\<forall>a x. D a = Some x \<longrightarrow> a \<notin> fst ` set xs \<and> map_option elem (cells q a) = Some x) \<and>
     (\<forall>a. cells q a = None \<longleftrightarrow> a \<notin> fst ` set xs \<and> D a = None) \<and>
     (\<forall>a. fresh q \<le> a \<longrightarrow> cells q a = None)"

lemma last_loc_simps [simp]:
  "last_loc [] = Head_First" "last_loc [ax] = Next_Of (fst ax)" "last_loc (xs @ [ax]) = Next_Of (fst ax)"
  "xs \<noteq> [] \<Longrightarrow> last_loc (ax # xs) = last_loc xs"
  by (simp_all add: last_loc_def)

lemma stailq_path_upd [simp]:
  "a \<notin> fst ` set xs \<Longrightarrow> stailq_path (h(a := v)) p xs = stailq_path h p xs"
  by (induction xs arbitrary: p) auto

lemma stailq_path_None [simp]: "stailq_path h None xs \<longleftrightarrow> xs = []"
  by (cases xs) auto

lemma stailq_path_cell:
  "stailq_path h p xs \<Longrightarrow> (a, x) \<in> set xs \<Longrightarrow> map_option elem (h a) = Some x"
  by (induction xs arbitrary: p) auto

lemma cell_of_elem:
  "map_option elem m = Some x \<Longrightarrow> \<exists>n. m = Some \<lparr>stqe_next = n, elem = x\<rparr>"
  by (cases m; cases "the m") auto

lemma stailq_path_snoc:
  assumes "stailq_path h p (xs @ [(b, y)])" and "a \<notin> fst ` set (xs @ [(b, y)])"
    and "b \<notin> fst ` set xs" and "h a = Some \<lparr>stqe_next = None, elem = x\<rparr>"
  shows "stailq_path (h(b \<mapsto> \<lparr>stqe_next = Some a, elem = y\<rparr>)) p (xs @ [(b, y), (a, x)])"
  using assms by (induction xs arbitrary: p) fastforce+

lemma stailq_walk_path: "stailq_path h p xs \<Longrightarrow> stailq_walk h p = Some xs"
proof (induction xs arbitrary: p)
  case Nil
  then show ?case by (simp add: stailq_walk.simps)
next
  case (Cons ax xs)
  then obtain n where "p = Some (fst ax)" "h (fst ax) = Some \<lparr>stqe_next = n, elem = snd ax\<rparr>"
    and "stailq_path h n xs" by auto
  with Cons.IH [of n] show ?case by (subst stailq_walk.simps) simp
qed

section \<open>Every macro implements its list operation\<close>

lemma stailq_new_rep: "stailq_rep stailq_new [] Map.empty"
  by (simp add: stailq_rep_def stailq_new_def STAILQ_INIT_def)

lemma STAILQ_EMPTY_rep: "stailq_rep q xs D \<Longrightarrow> STAILQ_EMPTY q \<longleftrightarrow> xs = []"
  by (cases xs) (auto simp: stailq_rep_def STAILQ_EMPTY_def)

lemma STAILQ_FIRST_rep:
  "stailq_rep q (ax # xs) D \<Longrightarrow>
     stqh_first q = Some (fst ax) \<and> map_option elem (cells q (fst ax)) = Some (snd ax)"
  by (auto simp: stailq_rep_def)

lemma STAILQ_FOREACH_rep: "stailq_rep q xs D \<Longrightarrow> STAILQ_FOREACH q = Some xs"
  by (simp add: STAILQ_FOREACH_def stailq_walk_path stailq_rep_def)

lemma cell_new_rep:
  assumes "stailq_rep q xs D" and "cell_new q x = (a, q')"
  shows "stailq_rep q' xs (D(a \<mapsto> x)) \<and> D a = None"
proof -
  from assms(2) have a: "a = fresh q" by (simp add: cell_new_def)
  with assms(1) have "cells q a = None" by (simp add: stailq_rep_def)
  with assms(1) have na: "a \<notin> fst ` set xs" "D a = None"
    unfolding stailq_rep_def by blast+
  with assms a show ?thesis
    by (auto simp: stailq_rep_def cell_new_def)
qed

lemma cell_free_rep:
  assumes "stailq_rep q xs D" and "D a = Some x"
  shows "\<exists>q'. cell_free q a = Some q' \<and> stailq_rep q' xs (D(a := None))"
proof -
  from assms have "cells q a \<noteq> None" and na: "a \<notin> fst ` set xs"
    by (auto simp: stailq_rep_def)
  then have "cell_free q a = Some (q\<lparr>cells := (cells q)(a := None)\<rparr>)"
    by (auto simp: cell_free_def)
  moreover have "stailq_rep (q\<lparr>cells := (cells q)(a := None)\<rparr>) xs (D(a := None))"
    using assms(1) na by (auto simp: stailq_rep_def)
  ultimately show ?thesis by blast
qed

lemma STAILQ_REMOVE_HEAD_rep:
  assumes "stailq_rep q ((a, x) # xs) D"
  shows "\<exists>q'. STAILQ_REMOVE_HEAD q = Some q' \<and> stailq_rep q' xs (D(a \<mapsto> x))"
proof -
  from assms obtain n where n: "stqh_first q = Some a"
    "cells q a = Some \<lparr>stqe_next = n, elem = x\<rparr>" "stailq_path (cells q) n xs"
    by (auto simp: stailq_rep_def)
  have "n = None \<longleftrightarrow> xs = []"
    using n(3) by (cases xs) auto
  with assms n show ?thesis
    by (auto simp: stailq_rep_def STAILQ_REMOVE_HEAD_def STAILQ_NEXT_def split: if_splits)
qed

lemma STAILQ_INSERT_TAIL_rep:
  assumes "stailq_rep q xs D" and "D a = Some x"
  shows "\<exists>q'. STAILQ_INSERT_TAIL q a = Some q' \<and> stailq_rep q' (xs @ [(a, x)]) (D(a := None))"
proof -
  from assms obtain n where n: "cells q a = Some \<lparr>stqe_next = n, elem = x\<rparr>"
    using cell_of_elem [of "cells q a" x] by (auto simp: stailq_rep_def)
  from assms have na: "a \<notin> fst ` set xs" by (auto simp: stailq_rep_def)
  show ?thesis
  proof (cases xs rule: rev_cases)
    case Nil
    with assms n show ?thesis
      by (auto simp: stailq_rep_def STAILQ_INSERT_TAIL_def set_next_def set_last_target_def)
  next
    case (snoc ys bc)
    obtain b y where bc: "bc = (b, y)" by (cases bc)
    let ?h = "(cells q)(a \<mapsto> \<lparr>stqe_next = None, elem = x\<rparr>)"
    from assms snoc bc na have p: "stailq_path ?h (stqh_first q) (ys @ [(b, y)])"
      and b: "b \<notin> fst ` set ys" "b \<noteq> a"
      by (auto simp: stailq_rep_def simp del: stailq_path.simps)
    from p have cb: "map_option elem (?h b) = Some y"
      by (rule stailq_path_cell) simp
    then obtain m where m: "cells q b = Some \<lparr>stqe_next = m, elem = y\<rparr>"
      using b(2) cell_of_elem [of "?h b" y] by auto
    have "stailq_path (?h(b \<mapsto> \<lparr>stqe_next = Some a, elem = y\<rparr>)) (stqh_first q) (ys @ [(b, y), (a, x)])"
      using stailq_path_snoc [OF p, of a x] na snoc bc b by auto
    with assms n m b snoc bc na show ?thesis
      by (auto simp: stailq_rep_def STAILQ_INSERT_TAIL_def set_next_def set_last_target_def last_loc_def)
  qed
qed

lemma STAILQ_INSERT_HEAD_rep:
  assumes "stailq_rep q xs D" and "D a = Some x"
  shows "\<exists>q'. STAILQ_INSERT_HEAD q a = Some q' \<and> stailq_rep q' ((a, x) # xs) (D(a := None))"
proof -
  from assms obtain n where n: "cells q a = Some \<lparr>stqe_next = n, elem = x\<rparr>"
    using cell_of_elem [of "cells q a" x] by (auto simp: stailq_rep_def)
  from assms have na: "a \<notin> fst ` set xs" by (auto simp: stailq_rep_def)
  from assms(1) have "stqh_first q = None \<longleftrightarrow> xs = []"
    by (cases xs) (auto simp: stailq_rep_def)
  with assms n na show ?thesis
    by (auto simp: stailq_rep_def STAILQ_INSERT_HEAD_def set_next_def)
qed

lemma stailq_path_at:
  "stailq_path h p (us @ (a, x) # vs) \<Longrightarrow>
     \<exists>n. h a = Some \<lparr>stqe_next = n, elem = x\<rparr> \<and> stailq_path h n vs"
  by (induction us arbitrary: p) auto

lemma stailq_path_skip:
  assumes "stailq_path h p (us @ (b, y) # (a, x) # vs)" and "h a = Some \<lparr>stqe_next = n, elem = x\<rparr>"
    and "b \<notin> fst ` set us" "b \<noteq> a" "b \<notin> fst ` set vs"
  shows "stailq_path (h(b \<mapsto> \<lparr>stqe_next = n, elem = y\<rparr>)) p (us @ (b, y) # vs)"
  using assms by (induction us arbitrary: p) fastforce+

lemma stailq_before_path:
  assumes "stailq_path (cells q) p (us @ (b, y) # (a, x) # vs)" and "a \<notin> fst ` set us" "b \<noteq> a"
  shows "stailq_before q a p = Some b"
  using assms
proof (induction us arbitrary: p)
  case Nil
  then show ?case by (subst stailq_before.simps) (auto simp: STAILQ_NEXT_def)
next
  case (Cons c us)
  then obtain n where n: "p = Some (fst c)"
    "cells q (fst c) = Some \<lparr>stqe_next = n, elem = snd c\<rparr>"
    "stailq_path (cells q) n (us @ (b, y) # (a, x) # vs)" by auto
  from n(3) Cons.prems(2,3) have "n \<noteq> Some a" by (cases us) auto
  moreover from n(3) Cons have "stailq_before q a n = Some b" by auto
  ultimately show ?case using n by (subst stailq_before.simps) (simp add: STAILQ_NEXT_def)
qed

lemma STAILQ_REMOVE_AFTER_rep:
  assumes "stailq_rep q (us @ (b, y) # (a, x) # vs) D"
  shows "\<exists>q'. STAILQ_REMOVE_AFTER q b = Some q' \<and> stailq_rep q' (us @ (b, y) # vs) (D(a \<mapsto> x))"
proof -
  from assms have p: "stailq_path (cells q) (stqh_first q) (us @ (b, y) # (a, x) # vs)"
    and d: "b \<notin> fst ` set us" "b \<noteq> a" "b \<notin> fst ` set vs" "a \<notin> fst ` set us" "a \<notin> fst ` set vs"
    by (auto simp: stailq_rep_def)
  from stailq_path_at [OF p] obtain m where
    b: "cells q b = Some \<lparr>stqe_next = m, elem = y\<rparr>" and "stailq_path (cells q) m ((a, x) # vs)"
    by auto
  then obtain n where m: "m = Some a" and a: "cells q a = Some \<lparr>stqe_next = n, elem = x\<rparr>"
    and n: "stailq_path (cells q) n vs" by auto
  let ?q = "q\<lparr>cells := (cells q)(b \<mapsto> \<lparr>stqe_next = n, elem = y\<rparr>),
              stqh_last := last_loc (us @ (b, y) # vs)\<rparr>"
  have vs: "n = None \<longleftrightarrow> vs = []" using n by (cases vs) auto
  have "vs \<noteq> [] \<Longrightarrow> last_loc (us @ (b, y) # vs) = stqh_last q"
    using assms by (simp add: last_loc_def stailq_rep_def)
  with b m a vs have "STAILQ_REMOVE_AFTER q b = Some ?q"
    by (auto simp: STAILQ_REMOVE_AFTER_def STAILQ_NEXT_def set_next_def)
  moreover have "stailq_rep ?q (us @ (b, y) # vs) (D(a \<mapsto> x))"
    using assms stailq_path_skip [OF p a d(1-3)] d b a unfolding stailq_rep_def
    by (intro conjI) (auto simp del: stailq_path.simps)
  ultimately show ?thesis by blast
qed

lemma STAILQ_REMOVE_rep:
  assumes "stailq_rep q (us @ (a, x) # vs) D"
  shows "\<exists>q'. STAILQ_REMOVE q a = Some q' \<and> stailq_rep q' (us @ vs) (D(a \<mapsto> x))"
proof (cases us rule: rev_cases)
  case Nil
  with assms show ?thesis
    using STAILQ_REMOVE_HEAD_rep [of q a x vs D] STAILQ_FIRST_rep [of q "(a, x)" vs D]
    by (simp add: STAILQ_REMOVE_def)
next
  case (snoc ts bc)
  obtain b y where bc: "bc = (b, y)" by (cases bc)
  with snoc assms have r: "stailq_rep q (ts @ (b, y) # (a, x) # vs) D" by simp
  then have p: "stailq_path (cells q) (stqh_first q) (ts @ (b, y) # (a, x) # vs)"
    and d: "a \<notin> fst ` set ts" "b \<noteq> a" by (auto simp: stailq_rep_def)
  have "stqh_first q \<noteq> Some a" using p d by (cases ts) auto
  with stailq_before_path [OF p d] STAILQ_REMOVE_AFTER_rep [OF r] snoc bc
  show ?thesis by (simp add: STAILQ_REMOVE_def)
qed

lemma STAILQ_INSERT_AFTER_detached:
  assumes "stailq_rep q xs D" and "D a = Some x"
  shows "\<exists>q'. STAILQ_INSERT_AFTER q l a = Some q' \<and> STAILQ_FOREACH q' = Some xs
    \<and> STAILQ_NEXT q' (Some a) = Some (Some a)"
proof -
  from assms obtain n where n: "cells q a = Some \<lparr>stqe_next = n, elem = x\<rparr>"
    using cell_of_elem [of "cells q a" x] by (auto simp: stailq_rep_def)
  from assms have "a \<notin> fst ` set xs" "stailq_path (cells q) (stqh_first q) xs"
    by (auto simp: stailq_rep_def)
  with n show ?thesis
    by (auto simp: STAILQ_INSERT_AFTER_def STAILQ_NEXT_def set_next_def STAILQ_FOREACH_def Let_def
        intro!: stailq_walk_path)
qed

section \<open>The interface a client of the queue relies on\<close>

text \<open>
  The contract of the tail queue with the ownership of its cells: \<open>repr q xs D\<close> reads
  ``\<open>q\<close> holds \<open>xs\<close> and the cells in \<open>D\<close> are allocated but not in the queue''.
  \<^verbatim>\<open>bio.c\<close> uses the queue through this contract only.
\<close>

locale tail_queue =
  fixes repr :: "'q \<Rightarrow> (addr \<times> 'a) list \<Rightarrow> (addr \<rightharpoonup> 'a) \<Rightarrow> bool"
    and new_cell :: "'q \<Rightarrow> 'a \<Rightarrow> addr \<times> 'q"
    and free_cell :: "'q \<Rightarrow> addr \<Rightarrow> 'q option"
    and insert_tail :: "'q \<Rightarrow> addr \<Rightarrow> 'q option"
    and remove_head :: "'q \<Rightarrow> 'q option"
    and foreach :: "'q \<Rightarrow> (addr \<times> 'a) list option"
  assumes new_law: "repr q xs D \<Longrightarrow> new_cell q x = (a, q') \<Longrightarrow> repr q' xs (D(a \<mapsto> x)) \<and> D a = None"
    and free_law: "repr q xs D \<Longrightarrow> D a = Some x \<Longrightarrow>
      \<exists>q'. free_cell q a = Some q' \<and> repr q' xs (D(a := None))"
    and insert_law: "repr q xs D \<Longrightarrow> D a = Some x \<Longrightarrow>
      \<exists>q'. insert_tail q a = Some q' \<and> repr q' (xs @ [(a, x)]) (D(a := None))"
    and remove_law: "repr q ((a, x) # xs) D \<Longrightarrow>
      \<exists>q'. remove_head q = Some q' \<and> repr q' xs (D(a \<mapsto> x))"
    and foreach_law: "repr q xs D \<Longrightarrow> foreach q = Some xs"
begin

lemma enqueue:
  assumes "repr q xs Map.empty" and "new_cell q x = (a, q1)"
  shows "\<exists>q2. insert_tail q1 a = Some q2 \<and> repr q2 (xs @ [(a, x)]) Map.empty"
proof -
  from new_law [OF assms] have "repr q1 xs (Map.empty(a \<mapsto> x))" by simp
  from insert_law [OF this, of a x] show ?thesis by simp
qed

lemma dequeue:
  assumes "repr q ((a, x) # xs) Map.empty"
  shows "\<exists>q1 q2. remove_head q = Some q1 \<and> free_cell q1 a = Some q2 \<and> repr q2 xs Map.empty"
proof -
  from remove_law [OF assms] obtain q1 where q1: "remove_head q = Some q1"
    and r1: "repr q1 xs (Map.empty(a \<mapsto> x))" by blast
  from free_law [OF r1, of a x] obtain q2 where "free_cell q1 a = Some q2"
    and "repr q2 xs Map.empty" by auto
  with q1 show ?thesis by blast
qed

lemma abort_insert:
  assumes "repr q xs Map.empty" and "new_cell q x = (a, q1)"
  shows "\<exists>q2. free_cell q1 a = Some q2 \<and> repr q2 xs Map.empty"
proof -
  from new_law [OF assms] have "repr q1 xs (Map.empty(a \<mapsto> x))" by simp
  from free_law [OF this, of a x] show ?thesis by simp
qed

lemma repr_unique: "repr q xs D \<Longrightarrow> repr q ys E \<Longrightarrow> xs = ys"
  by (metis foreach_law option.inject)

end

interpretation stq: tail_queue stailq_rep cell_new cell_free STAILQ_INSERT_TAIL
  STAILQ_REMOVE_HEAD STAILQ_FOREACH
  by (unfold_locales; (rule cell_new_rep cell_free_rep STAILQ_INSERT_TAIL_rep
      STAILQ_REMOVE_HEAD_rep STAILQ_FOREACH_rep; assumption))

end
