(* ===== verification/Bio.thy ===== *)
theory Bio
  imports Queue_Model
begin

text \<open>
  The byte queue of \<^verbatim>\<open>bio.c\<close>: a tail queue of buffers of at most 4096 bytes, an offset
  into the first of them and a byte count. The abstraction \<open>bio_bytes\<close> is the sequence of
  unread bytes; every operation is proved against it, with its return value, on the paths
  where \<^verbatim>\<open>malloc\<close> fails too.
\<close>

section \<open>The structures and operations of bio.c\<close>

record buffer =
  buf_len :: nat
  buf_data :: "byte list"

record bio =
  bio_buffers :: "buffer stailq"
  bio_offset :: nat
  bio_len :: nat

text \<open>
  \<^verbatim>\<open>memcpy(dst, src + off, size)\<close> reads \<open>sz\<close> bytes of an object; past its end it is
  undefined.
\<close>

definition memcpy :: "byte list \<Rightarrow> nat \<Rightarrow> nat \<Rightarrow> byte list option" where
  "memcpy src off sz = (if off + sz \<le> length src then Some (take sz (drop off src)) else None)"

definition buffer_new ::
  "buffer stailq \<Rightarrow> byte list \<Rightarrow> nat \<Rightarrow> nat \<Rightarrow> alloc \<Rightarrow> (ptr \<times> buffer stailq \<times> alloc) option" where
  "buffer_new q src pos len al =
     (let (ok, al) = malloc al in
      if \<not> ok then Some (None, q, al)
      else
        let (ok, al) = malloc al in
        if \<not> ok then do {
          let (a, q) = cell_new q \<lparr>buf_len = 0, buf_data = []\<rparr>;
          q \<leftarrow> cell_free q a;
          Some (None, q, al)
        }
        else do {
          data \<leftarrow> memcpy src pos len;
          let (a, q) = cell_new q \<lparr>buf_len = len, buf_data = data\<rparr>;
          Some (Some a, q, al)
        })"

definition buffer_free :: "buffer stailq \<Rightarrow> addr \<Rightarrow> buffer stailq option" where
  "buffer_free q a = cell_free q a"

definition bio_new :: "alloc \<Rightarrow> bio option \<times> alloc" where
  "bio_new al =
     (let (ok, al) = malloc al in
      if \<not> ok then (None, al)
      else (Some \<lparr>bio_buffers = stailq_new, bio_offset = 0, bio_len = 0\<rparr>, al))"

partial_function (option) bio_reset_loop :: "buffer stailq \<Rightarrow> buffer stailq option" where
  "bio_reset_loop q =
     (if STAILQ_EMPTY q then Some q
      else do {
        a \<leftarrow> stqh_first q;
        q \<leftarrow> STAILQ_REMOVE_HEAD q;
        q \<leftarrow> buffer_free q a;
        bio_reset_loop q
      })"

definition bio_reset :: "bio \<Rightarrow> bio option" where
  "bio_reset b = do {
     q \<leftarrow> bio_reset_loop (bio_buffers b);
     Some (b\<lparr>bio_buffers := q, bio_offset := 0, bio_len := 0\<rparr>)
   }"

text \<open>\<^verbatim>\<open>bio_free\<close> releases every buffer and then the object; the result is what was reset.\<close>

definition bio_free :: "bio \<Rightarrow> bio option" where
  "bio_free b = bio_reset b"

function bio_write_loop ::
  "bio \<Rightarrow> byte list \<Rightarrow> nat \<Rightarrow> nat \<Rightarrow> alloc \<Rightarrow> (int \<times> bio \<times> alloc) option" where
  "bio_write_loop b buf n pos al =
     (if pos < n then
        let sz = min 4096 (size_sub n pos) in do {
          (buffer, q, al) \<leftarrow> buffer_new (bio_buffers b) buf pos sz al;
          case buffer of
            None \<Rightarrow> Some (- 1, b\<lparr>bio_buffers := q\<rparr>, al)
          | Some a \<Rightarrow> do {
              q \<leftarrow> STAILQ_INSERT_TAIL q a;
              bio_write_loop (b\<lparr>bio_buffers := q, bio_len := bio_len b + sz\<rparr>) buf n (pos + sz) al
            }
        }
      else Some (to_int n, b, al))"
  by pat_completeness auto
termination
  by (relation "measure (\<lambda>(b, buf, n, pos, al). n - pos)") (auto simp: size_sub_def min_def)

definition bio_write :: "bio \<Rightarrow> byte list \<Rightarrow> nat \<Rightarrow> alloc \<Rightarrow> (int \<times> bio \<times> alloc) option" where
  "bio_write b buf n al = bio_write_loop b buf n 0 al"

definition bio_pending :: "bio \<Rightarrow> int" where
  "bio_pending b = to_int (bio_len b)"

text \<open>
  The loop of \<^verbatim>\<open>bio_read\<close>. \<open>copy\<close> says whether \<^verbatim>\<open>buf\<close> is not \<^verbatim>\<open>NULL\<close>; \<open>out\<close> is what
  has been copied to it so far.
\<close>

partial_function (option) bio_read_loop ::
  "bool \<Rightarrow> nat \<Rightarrow> bio \<Rightarrow> nat \<Rightarrow> byte list \<Rightarrow> (nat \<times> byte list \<times> bio) option" where
  "bio_read_loop copy n b nread out =
     (if STAILQ_EMPTY (bio_buffers b) \<or> \<not> nread < n then Some (nread, out, b)
      else do {
        a \<leftarrow> stqh_first (bio_buffers b);
        c \<leftarrow> cells (bio_buffers b) a;
        let avail = size_sub (buf_len (elem c)) (bio_offset b);
        let sz = (if avail < size_sub n nread then avail else size_sub n nread);
        data \<leftarrow> (if copy then memcpy (buf_data (elem c)) (bio_offset b) sz else Some []);
        let off = bio_offset b + sz;
        b \<leftarrow> (if off = buf_len (elem c) then do {
                q \<leftarrow> STAILQ_REMOVE_HEAD (bio_buffers b);
                q \<leftarrow> buffer_free q a;
                Some (b\<lparr>bio_buffers := q, bio_offset := 0\<rparr>)
              } else Some (b\<lparr>bio_offset := off\<rparr>));
        bio_read_loop copy n b (nread + sz) (out @ data)
      })"

definition bio_read_gen :: "bool \<Rightarrow> bio \<Rightarrow> nat \<Rightarrow> (int \<times> byte list \<times> bio) option" where
  "bio_read_gen copy b n = do {
     (nread, out, b) \<leftarrow> bio_read_loop copy n b 0 [];
     Some (to_int nread, out, b\<lparr>bio_len := size_sub (bio_len b) nread\<rparr>)
   }"

definition bio_read :: "bio \<Rightarrow> nat \<Rightarrow> (int \<times> byte list \<times> bio) option" where
  "bio_read b n = bio_read_gen True b n"

definition bio_consume :: "bio \<Rightarrow> nat \<Rightarrow> (int \<times> bio) option" where
  "bio_consume b n = do { (r, _, b) \<leftarrow> bio_read_gen False b n; Some (r, b) }"

fun bio_peek_loop ::
  "nat \<Rightarrow> (addr \<times> buffer) list \<Rightarrow> nat \<Rightarrow> nat \<Rightarrow> byte list \<Rightarrow> (nat \<times> byte list) option" where
  "bio_peek_loop n [] offset nread out = Some (nread, out)"
| "bio_peek_loop n ((_, buffer) # r) offset nread out =
     (let avail = size_sub (buf_len buffer) offset;
          sz = (if avail < size_sub n nread then avail else size_sub n nread)
      in do {
        data \<leftarrow> memcpy (buf_data buffer) offset sz;
        bio_peek_loop n r (if offset \<noteq> 0 then 0 else offset) (nread + sz) (out @ data)
      })"

definition bio_peek :: "bio \<Rightarrow> nat \<Rightarrow> (int \<times> byte list) option" where
  "bio_peek b n = do {
     xs \<leftarrow> STAILQ_FOREACH (bio_buffers b);
     (nread, out) \<leftarrow> bio_peek_loop n xs (bio_offset b) 0 [];
     Some (to_int nread, out)
   }"

section \<open>The bytes a queue holds\<close>

definition buffers_data :: "(addr \<times> buffer) list \<Rightarrow> byte list" where
  "buffers_data xs = concat (map (\<lambda>ab. buf_data (snd ab)) xs)"

definition buffer_ok :: "addr \<times> buffer \<Rightarrow> bool" where
  "buffer_ok ab \<longleftrightarrow> buf_len (snd ab) = length (buf_data (snd ab)) \<and> 0 < buf_len (snd ab)
     \<and> buf_len (snd ab) \<le> 4096"

definition offset_ok :: "nat \<Rightarrow> (addr \<times> buffer) list \<Rightarrow> bool" where
  "offset_ok off xs = (case xs of [] \<Rightarrow> off = 0 | ab # _ \<Rightarrow> off < buf_len (snd ab))"

definition bio_bytes :: "bio \<Rightarrow> byte list" where
  "bio_bytes b = drop (bio_offset b) (buffers_data (the (STAILQ_FOREACH (bio_buffers b))))"

text \<open>\<open>bio_rep b xs\<close>: every cell of \<open>b\<close> is in its queue (nothing leaks), no buffer is empty or
  larger than 4096 bytes, the offset lies in the first buffer and the count is exact.\<close>

definition bio_rep :: "bio \<Rightarrow> (addr \<times> buffer) list \<Rightarrow> bool" where
  "bio_rep b xs \<longleftrightarrow> stailq_rep (bio_buffers b) xs Map.empty \<and> list_all buffer_ok xs \<and>
     offset_ok (bio_offset b) xs \<and> bio_len b = length (buffers_data xs) - bio_offset b"

definition bio_ok :: "bio \<Rightarrow> bool" where
  "bio_ok b \<longleftrightarrow> (\<exists>xs. bio_rep b xs)"

section \<open>The operations against the bytes\<close>

definition bio_mid :: "bio \<Rightarrow> (addr \<times> buffer) list \<Rightarrow> bool" where
  "bio_mid b xs \<longleftrightarrow> stailq_rep (bio_buffers b) xs Map.empty \<and> list_all buffer_ok xs \<and>
     offset_ok (bio_offset b) xs"

definition rest_bytes :: "bio \<Rightarrow> (addr \<times> buffer) list \<Rightarrow> byte list" where
  "rest_bytes b xs = drop (bio_offset b) (buffers_data xs)"

lemma bio_rep_mid:
  "bio_rep b xs \<longleftrightarrow> bio_mid b xs \<and> bio_len b = length (rest_bytes b xs)"
  by (auto simp: bio_rep_def bio_mid_def rest_bytes_def)

lemma buffers_data_simps [simp]:
  "buffers_data [] = []" "buffers_data (ab # xs) = buf_data (snd ab) @ buffers_data xs"
  "buffers_data (xs @ ys) = buffers_data xs @ buffers_data ys"
  by (simp_all add: buffers_data_def)

lemma offset_ok_simps [simp]:
  "offset_ok off [] \<longleftrightarrow> off = 0" "offset_ok off (ab # xs) \<longleftrightarrow> off < buf_len (snd ab)"
  by (simp_all add: offset_ok_def)

lemma offset_ok_0: "list_all buffer_ok xs \<Longrightarrow> offset_ok 0 xs"
  by (cases xs) (auto simp: buffer_ok_def)

lemma offset_ok_le:
  "offset_ok off xs \<Longrightarrow> list_all buffer_ok xs \<Longrightarrow> off \<le> length (buffers_data xs)"
  by (cases xs) (auto simp: buffer_ok_def)

lemma bio_bytes_rep: "bio_rep b xs \<Longrightarrow> bio_bytes b = rest_bytes b xs"
  by (auto simp: bio_bytes_def bio_rep_def rest_bytes_def dest: STAILQ_FOREACH_rep)

lemma bio_ok_len: "bio_ok b \<Longrightarrow> bio_len b = length (bio_bytes b)"
  by (auto simp: bio_ok_def bio_bytes_rep bio_rep_mid)

lemma bio_okI: "bio_mid b xs \<Longrightarrow> bio_len b = length (rest_bytes b xs) \<Longrightarrow>
    bio_ok b \<and> bio_bytes b = rest_bytes b xs"
  by (auto simp: bio_ok_def bio_rep_mid bio_bytes_rep)

lemma memcpy_ok: "off + k \<le> length src \<Longrightarrow> memcpy src off k = Some (take k (drop off src))"
  by (simp add: memcpy_def)

lemma bio_new_ok:
  "bio_new al = (Some b, al') \<Longrightarrow> bio_ok b \<and> bio_bytes b = []"
proof -
  assume "bio_new al = (Some b, al')"
  then have b: "b = \<lparr>bio_buffers = stailq_new, bio_offset = 0, bio_len = 0\<rparr>"
    by (auto simp: bio_new_def split: prod.splits if_splits)
  have "bio_rep b []" by (simp add: b bio_rep_def stailq_new_rep)
  then show ?thesis by (auto simp: bio_ok_def bio_bytes_rep rest_bytes_def)
qed

subsection \<open>Writing\<close>

lemma buffer_new_cases:
  assumes "stailq_rep q xs Map.empty" and "pos + k \<le> length src"
  obtains (failed) q' al' where "buffer_new q src pos k al = Some (None, q', al')"
      "stailq_rep q' xs Map.empty" "succeeds al' = succeeds al" "\<not> never_fails al"
  | (made) a q1 q2 al' where "buffer_new q src pos k al = Some (Some a, q1, al')"
      "STAILQ_INSERT_TAIL q1 a = Some q2" "succeeds al' = succeeds al"
      "stailq_rep q2 (xs @ [(a, \<lparr>buf_len = k, buf_data = take k (drop pos src)\<rparr>)]) Map.empty"
proof -
  let ?x = "\<lparr>buf_len = k, buf_data = take k (drop pos src)\<rparr>"
  let ?al1 = "al\<lparr>calls := Suc (calls al)\<rparr>" and ?al2 = "al\<lparr>calls := Suc (Suc (calls al))\<rparr>"
  obtain a q1 where new: "cell_new q ?x = (a, q1)" by (cases "cell_new q ?x")
  consider (first) "\<not> succeeds al (calls al)"
    | (second) "succeeds al (calls al)" "\<not> succeeds al (Suc (calls al))"
    | (both) "succeeds al (calls al)" "succeeds al (Suc (calls al))" by blast
  then show thesis
  proof cases
    case first
    then have "buffer_new q src pos k al = Some (None, q, ?al1)"
      by (simp add: buffer_new_def malloc_def)
    then show thesis using first assms(1) by (intro failed [of q ?al1]) (auto simp: never_fails_def)
  next
    case second
    obtain a0 q0 where new0: "cell_new q \<lparr>buf_len = 0, buf_data = []\<rparr> = (a0, q0)"
      by (cases "cell_new q \<lparr>buf_len = 0, buf_data = []\<rparr>")
    from stq.abort_insert [OF assms(1) new0] obtain q2 where
      "cell_free q0 a0 = Some q2" "stailq_rep q2 xs Map.empty" by blast
    moreover from this second new0 have "buffer_new q src pos k al = Some (None, q2, ?al2)"
      by (simp add: buffer_new_def malloc_def)
    ultimately show thesis using second by (intro failed [of q2 ?al2]) (auto simp: never_fails_def)
  next
    case both
    with new have "buffer_new q src pos k al = Some (Some a, q1, ?al2)"
      by (simp add: buffer_new_def malloc_def memcpy_ok assms(2))
    with stq.enqueue [OF assms(1) new] show thesis by (auto intro: made)
  qed
qed

lemma bio_append_buffer:
  assumes "bio_rep b xs" and "0 < k" "k \<le> 4096" and "length d = k"
    and "stailq_rep q (xs @ [(a, \<lparr>buf_len = k, buf_data = d\<rparr>)]) Map.empty"
  defines "b' \<equiv> b\<lparr>bio_buffers := q, bio_len := bio_len b + k\<rparr>"
  shows "bio_ok b' \<and> bio_bytes b' = bio_bytes b @ d"
proof -
  have le: "bio_offset b \<le> length (buffers_data xs)"
    using assms(1) by (intro offset_ok_le) (simp_all add: bio_rep_def)
  have "offset_ok (bio_offset b) (xs @ [(a, \<lparr>buf_len = k, buf_data = d\<rparr>)])"
    using assms(1,2) by (cases xs) (auto simp: bio_rep_def)
  then have "bio_mid b' (xs @ [(a, \<lparr>buf_len = k, buf_data = d\<rparr>)])"
    using assms by (auto simp: bio_mid_def bio_rep_def buffer_ok_def)
  moreover have "rest_bytes b' (xs @ [(a, \<lparr>buf_len = k, buf_data = d\<rparr>)]) = bio_bytes b @ d"
    using le by (simp add: b'_def rest_bytes_def bio_bytes_rep [OF assms(1)])
  ultimately show ?thesis
    using bio_okI [of b' "xs @ [(a, \<lparr>buf_len = k, buf_data = d\<rparr>)]"] assms(1,4)
    by (auto simp: b'_def bio_rep_mid bio_bytes_rep)
qed

lemma bio_write_loop_correct:
  assumes "bio_ok b" and "pos \<le> n" and "n \<le> length buf" and "4096 dvd pos \<or> pos = n"
  shows "\<exists>r b' al' k. bio_write_loop b buf n pos al = Some (r, b', al') \<and> bio_ok b' \<and>
    succeeds al' = succeeds al \<and> pos \<le> k \<and> bio_bytes b' = bio_bytes b @ take (k - pos) (drop pos buf) \<and>
    (r = to_int n \<and> k = n \<or> r = - 1 \<and> k < n \<and> 4096 dvd k \<and> \<not> never_fails al)"
  using assms
proof (induction b buf n pos al rule: bio_write_loop.induct)
  case (1 b buf n pos al)
  show ?case
  proof (cases "pos < n")
    case False
    with "1.prems" show ?thesis by (auto simp: bio_write_loop.simps [of b buf n pos al])
  next
    case True
    define k where "k = min 4096 (n - pos)"
    have kk: "k = min 4096 (size_sub n pos)" using True by (simp add: k_def)
    have k: "0 < k" "k \<le> 4096" "pos + k \<le> n" "pos + k \<le> length buf"
      and dvd: "4096 dvd (pos + k) \<or> pos + k = n"
      using True "1.prems" by (auto simp: k_def)
    obtain xs where rep: "bio_rep b xs" using "1.prems"(1) by (auto simp: bio_ok_def)
    then have q: "stailq_rep (bio_buffers b) xs Map.empty" by (simp add: bio_rep_def)
    show ?thesis
    proof (rule buffer_new_cases [OF q k(4), of al])
      fix q' al' assume f: "buffer_new (bio_buffers b) buf pos k al = Some (None, q', al')"
        "stailq_rep q' xs Map.empty" "succeeds al' = succeeds al" "\<not> never_fails al"
      let ?b' = "b\<lparr>bio_buffers := q'\<rparr>"
      have "bio_rep ?b' xs" using rep f(2) by (simp add: bio_rep_def)
      then have "bio_ok ?b'" "bio_bytes ?b' = bio_bytes b"
        using rep by (auto simp: bio_ok_def bio_bytes_rep rest_bytes_def)
      then show ?thesis
        using True f "1.prems" k_def
        by (auto simp: bio_write_loop.simps [of b buf n pos al] intro!: exI [of _ pos])
    next
      fix a q1 q2 al'
      assume m: "buffer_new (bio_buffers b) buf pos k al = Some (Some a, q1, al')"
        "STAILQ_INSERT_TAIL q1 a = Some q2" "succeeds al' = succeeds al"
        "stailq_rep q2 (xs @ [(a, \<lparr>buf_len = k, buf_data = take k (drop pos buf)\<rparr>)]) Map.empty"
      let ?b' = "b\<lparr>bio_buffers := q2, bio_len := bio_len b + k\<rparr>"
      have b': "bio_ok ?b'" "bio_bytes ?b' = bio_bytes b @ take k (drop pos buf)"
        using bio_append_buffer [OF rep k(1,2) _ m(4)] k(4) by auto
      have nf: "never_fails al' = never_fails al" using m(3) by (simp add: never_fails_def)
      have "\<exists>r b'' al'' j. bio_write_loop ?b' buf n (pos + k) al' = Some (r, b'', al'') \<and> bio_ok b'' \<and>
        succeeds al'' = succeeds al' \<and> pos + k \<le> j \<and>
        bio_bytes b'' = bio_bytes ?b' @ take (j - (pos + k)) (drop (pos + k) buf) \<and>
        (r = to_int n \<and> j = n \<or> r = - 1 \<and> j < n \<and> 4096 dvd j \<and> \<not> never_fails al')"
        by (rule "1.IH" [OF True kk m(1) refl refl refl m(2) b'(1) k(3) "1.prems"(3) dvd])
      then obtain r b'' al'' j where run: "bio_write_loop ?b' buf n (pos + k) al' = Some (r, b'', al'')"
        "bio_ok b''" "succeeds al'' = succeeds al" "pos + k \<le> j"
        "bio_bytes b'' = bio_bytes b @ take k (drop pos buf) @ take (j - (pos + k)) (drop (pos + k) buf)"
        "r = to_int n \<and> j = n \<or> r = - 1 \<and> j < n \<and> 4096 dvd j \<and> \<not> never_fails al"
        using b'(2) m(3) nf by auto
      have "take k (drop pos buf) @ take (j - (pos + k)) (drop (pos + k) buf) = take (j - pos) (drop pos buf)"
        using run(4) take_append_take_drop [of k "drop pos buf" "j - (pos + k)"]
        by (simp add: add.commute)
      then show ?thesis
        using True run m k_def
        by (auto simp: bio_write_loop.simps [of b buf n pos al] intro!: exI [of _ j])
    qed
  qed
qed

lemma bio_write_correct:
  assumes "bio_ok b" and "n \<le> length buf"
  shows "\<exists>r b' al' k. bio_write b buf n al = Some (r, b', al') \<and> bio_ok b' \<and>
    succeeds al' = succeeds al \<and> bio_bytes b' = bio_bytes b @ take k buf \<and>
    (r = to_int n \<and> k = n \<or> r = - 1 \<and> k < n \<and> 4096 dvd k \<and> \<not> never_fails al)"
  using bio_write_loop_correct [of b 0 n buf al] assms by (auto simp: bio_write_def)

lemma bio_write_ok:
  assumes "bio_ok b" and "n \<le> length buf" and "never_fails al"
  shows "\<exists>b' al'. bio_write b buf n al = Some (to_int n, b', al') \<and> bio_ok b' \<and>
    never_fails al' \<and> bio_bytes b' = bio_bytes b @ take n buf"
  using bio_write_correct [OF assms(1,2), of al] assms(3) by (auto simp: never_fails_def)

subsection \<open>Reading and consuming\<close>

lemma bio_mid_drop_head:
  assumes "bio_mid b ((a, x) # xs)"
  shows "\<exists>q1 q2. STAILQ_REMOVE_HEAD (bio_buffers b) = Some q1 \<and> buffer_free q1 a = Some q2 \<and>
    bio_mid (b\<lparr>bio_buffers := q2, bio_offset := 0\<rparr>) xs"
  using stq.dequeue [of "bio_buffers b" a x xs] assms
  by (auto simp: bio_mid_def buffer_free_def offset_ok_0)

lemma read_loop_part:
  assumes mid: "bio_mid b ((a, x) # xs)" and part: "nread < n" "n - nread < buf_len x - bio_offset b"
  defines "b' \<equiv> b\<lparr>bio_offset := bio_offset b + (n - nread)\<rparr>"
  shows "bio_read_loop copy n b nread out =
      Some (n, out @ (if copy then take (n - nread) (drop (bio_offset b) (buf_data x)) else []), b')"
    and "bio_mid b' ((a, x) # xs)" and "rest_bytes b' ((a, x) # xs) = drop (n - nread) (rest_bytes b ((a, x) # xs))"
proof -
  from mid have rep: "stailq_rep (bio_buffers b) ((a, x) # xs) Map.empty" and x: "buf_len x = length (buf_data x)"
    by (auto simp: bio_mid_def buffer_ok_def)
  from STAILQ_FIRST_rep [OF rep] obtain c where c: "stqh_first (bio_buffers b) = Some a"
    "cells (bio_buffers b) a = Some c" "elem c = x" by auto
  have "bio_read_loop copy n b nread out = bio_read_loop copy n b' n
      (out @ (if copy then take (n - nread) (drop (bio_offset b) (buf_data x)) else []))"
    using part c STAILQ_EMPTY_rep [OF rep] x unfolding b'_def by (subst bio_read_loop.simps) (auto simp: memcpy_ok Let_def)
  also have "\<dots> = Some (n, out @ (if copy then take (n - nread) (drop (bio_offset b) (buf_data x)) else []), b')"
    by (subst bio_read_loop.simps) simp
  finally show "bio_read_loop copy n b nread out =
      Some (n, out @ (if copy then take (n - nread) (drop (bio_offset b) (buf_data x)) else []), b')" .
  show "bio_mid b' ((a, x) # xs)" using mid part by (auto simp: b'_def bio_mid_def)
  show "rest_bytes b' ((a, x) # xs) = drop (n - nread) (rest_bytes b ((a, x) # xs))"
    using part x by (simp add: b'_def rest_bytes_def add.commute)
qed

lemma read_loop_whole:
  assumes mid: "bio_mid b ((a, x) # xs)" and whole: "nread < n" "buf_len x - bio_offset b \<le> n - nread"
  shows "\<exists>q. bio_mid (b\<lparr>bio_buffers := q, bio_offset := 0\<rparr>) xs \<and>
    bio_read_loop copy n b nread out = bio_read_loop copy n (b\<lparr>bio_buffers := q, bio_offset := 0\<rparr>) (nread + (buf_len x - bio_offset b))
      (out @ (if copy then drop (bio_offset b) (buf_data x) else []))"
proof -
  from mid have rep: "stailq_rep (bio_buffers b) ((a, x) # xs) Map.empty"
    and x: "buf_len x = length (buf_data x)" "bio_offset b < buf_len x" by (auto simp: bio_mid_def buffer_ok_def)
  from STAILQ_FIRST_rep [OF rep] obtain c where c: "stqh_first (bio_buffers b) = Some a"
    "cells (bio_buffers b) a = Some c" "elem c = x" by auto
  from bio_mid_drop_head [OF mid] obtain q1 q2 where
    q: "STAILQ_REMOVE_HEAD (bio_buffers b) = Some q1" "buffer_free q1 a = Some q2" "bio_mid (b\<lparr>bio_buffers := q2, bio_offset := 0\<rparr>) xs" by auto
  show ?thesis
  proof (intro exI [of _ q2] conjI q(3), cases "buf_len x - bio_offset b = n - nread")
    case True
    then have "nread + (buf_len x - bio_offset b) = n" "bio_offset b + (n - nread) = buf_len x" using whole x by linarith+
    with True whole c STAILQ_EMPTY_rep [OF rep] x q(1,2) show "bio_read_loop copy n b nread out =
        bio_read_loop copy n (b\<lparr>bio_buffers := q2, bio_offset := 0\<rparr>) (nread + (buf_len x - bio_offset b))
          (out @ (if copy then drop (bio_offset b) (buf_data x) else []))"
      by (subst bio_read_loop.simps) (auto simp: memcpy_ok Let_def)
  next
    case False
    with whole c STAILQ_EMPTY_rep [OF rep] x q(1,2) show "bio_read_loop copy n b nread out =
        bio_read_loop copy n (b\<lparr>bio_buffers := q2, bio_offset := 0\<rparr>) (nread + (buf_len x - bio_offset b))
          (out @ (if copy then drop (bio_offset b) (buf_data x) else []))"
      by (subst bio_read_loop.simps) (auto simp: memcpy_ok Let_def)
  qed
qed

lemma bio_read_loop_correct:
  assumes "bio_mid b xs" and "nread \<le> n"
  shows "\<exists>b' ys. bio_read_loop copy n b nread out =
      Some (nread + min (n - nread) (length (rest_bytes b xs)),
            out @ (if copy then take (n - nread) (rest_bytes b xs) else []), b') \<and>
    bio_mid b' ys \<and> rest_bytes b' ys = drop (n - nread) (rest_bytes b xs) \<and> bio_len b' = bio_len b"
  using assms
proof (induction xs arbitrary: b nread out)
  case Nil
  then have "STAILQ_EMPTY (bio_buffers b)" using STAILQ_EMPTY_rep by (auto simp: bio_mid_def)
  with Nil.prems show ?case by (subst bio_read_loop.simps) (auto simp: rest_bytes_def intro!: exI [of _ "[]"])
next
  case (Cons ax xs)
  obtain a x where ax: "ax = (a, x)" by (cases ax)
  let ?off = "bio_offset b" let ?k = "buf_len x - ?off"
  note mid = Cons.prems(1) [unfolded ax]
  have x: "buf_len x = length (buf_data x)" "?off < buf_len x" using mid by (auto simp: bio_mid_def buffer_ok_def)
  have rest: "rest_bytes b ((a, x) # xs) = drop ?off (buf_data x) @ buffers_data xs" using x by (simp add: rest_bytes_def)
  consider (stop) "nread = n" | (part) "nread < n" "n - nread < ?k" | (whole) "nread < n" "?k \<le> n - nread"
    using Cons.prems(2) by linarith
  then show ?case
  proof cases
    case stop
    with Cons.prems(1) show ?thesis by (subst bio_read_loop.simps) (auto intro!: exI [of _ "ax # xs"])
  next
    case part
    from read_loop_part [OF mid part] part show ?thesis using x ax rest by (auto intro!: exI [of _ "(a, x) # xs"])
  next
    case whole
    let ?out = "out @ (if copy then drop ?off (buf_data x) else [])"
    from read_loop_whole [OF mid whole] obtain q where q: "bio_mid (b\<lparr>bio_buffers := q, bio_offset := 0\<rparr>) xs"
      "bio_read_loop copy n b nread out = bio_read_loop copy n (b\<lparr>bio_buffers := q, bio_offset := 0\<rparr>) (nread + ?k) ?out" by blast
    have "nread + ?k \<le> n" using whole by simp
    from Cons.IH [OF q(1) this, of ?out] obtain b' ys where
      "bio_read_loop copy n b nread out =
        Some (nread + ?k + min (n - (nread + ?k)) (length (buffers_data xs)),
          ?out @ (if copy then take (n - (nread + ?k)) (buffers_data xs) else []), b')"
      and "bio_mid b' ys" "rest_bytes b' ys = drop (n - (nread + ?k)) (buffers_data xs)" "bio_len b' = bio_len b"
      using q(2) by (auto simp: rest_bytes_def)
    then show ?thesis using whole x ax rest by (auto intro!: exI [of _ ys])
  qed
qed

lemma bio_read_gen_correct:
  assumes "bio_ok b"
  shows "\<exists>b'. bio_read_gen copy b n = Some (to_int (min n (length (bio_bytes b))),
      if copy then take n (bio_bytes b) else [], b') \<and>
    bio_ok b' \<and> bio_bytes b' = drop n (bio_bytes b)"
proof -
  from assms obtain xs where rep: "bio_rep b xs" by (auto simp: bio_ok_def)
  then have mid: "bio_mid b xs" and len: "bio_len b = length (rest_bytes b xs)"
    by (simp_all add: bio_rep_mid)
  from bio_read_loop_correct [OF mid, of 0 n copy "[]"] obtain b' ys where
    run: "bio_read_loop copy n b 0 [] = Some (min n (length (rest_bytes b xs)),
            if copy then take n (rest_bytes b xs) else [], b')"
    and b': "bio_mid b' ys" "rest_bytes b' ys = drop n (rest_bytes b xs)" "bio_len b' = bio_len b"
    by auto
  let ?b' = "b'\<lparr>bio_len := size_sub (bio_len b') (min n (length (rest_bytes b xs)))\<rparr>"
  have mid': "bio_mid ?b' ys" and rest': "rest_bytes ?b' ys = drop n (rest_bytes b xs)"
    using b' by (simp_all add: bio_mid_def rest_bytes_def)
  have "bio_len ?b' = length (rest_bytes ?b' ys)"
    unfolding rest' using b'(3) len by (simp add: min_def)
  from bio_okI [OF mid' this] have "bio_ok ?b' \<and> bio_bytes ?b' = drop n (rest_bytes b xs)"
    unfolding rest' .
  with run show ?thesis
    by (simp add: bio_read_gen_def bio_bytes_rep [OF rep])
qed

lemma bio_read_correct:
  assumes "bio_ok b"
  shows "\<exists>b'. bio_read b n = Some (to_int (min n (length (bio_bytes b))), take n (bio_bytes b), b') \<and>
    bio_ok b' \<and> bio_bytes b' = drop n (bio_bytes b)"
  using bio_read_gen_correct [OF assms, of True n] by (simp add: bio_read_def)

lemma bio_consume_correct:
  assumes "bio_ok b"
  shows "\<exists>b'. bio_consume b n = Some (to_int (min n (length (bio_bytes b))), b') \<and>
    bio_ok b' \<and> bio_bytes b' = drop n (bio_bytes b)"
  using bio_read_gen_correct [OF assms, of False n] by (auto simp: bio_consume_def)

lemma bio_pending_correct: "bio_ok b \<Longrightarrow> bio_pending b = to_int (length (bio_bytes b))"
  by (simp add: bio_pending_def bio_ok_len)

subsection \<open>Peeking and resetting\<close>

lemma bio_peek_loop_correct:
  assumes "list_all buffer_ok xs" and "offset_ok off xs \<or> off = 0" and "nread \<le> n"
  shows "bio_peek_loop n xs off nread out =
    Some (nread + min (n - nread) (length (drop off (buffers_data xs))),
          out @ take (n - nread) (drop off (buffers_data xs)))"
  using assms
proof (induction xs arbitrary: off nread out)
  case Nil
  then show ?case by simp
next
  case (Cons ax xs)
  obtain a x where ax: "ax = (a, x)" by (cases ax)
  from Cons.prems ax have x: "buf_len x = length (buf_data x)" "off < buf_len x"
    by (auto simp: buffer_ok_def)
  let ?k = "min (buf_len x - off) (n - nread)"
  have "list_all buffer_ok xs" "offset_ok 0 xs \<or> (0::nat) = 0" "nread + ?k \<le> n"
    using Cons.prems by auto
  from Cons.IH [OF this, of "out @ take ?k (drop off (buf_data x))"]
  have "bio_peek_loop n xs 0 (nread + ?k) (out @ take ?k (drop off (buf_data x))) =
    Some (nread + ?k + min (n - (nread + ?k)) (length (buffers_data xs)),
      (out @ take ?k (drop off (buf_data x))) @ take (n - (nread + ?k)) (buffers_data xs))"
    unfolding drop_0 .
  moreover have "bio_peek_loop n (ax # xs) off nread out =
      bio_peek_loop n xs 0 (nread + ?k) (out @ take ?k (drop off (buf_data x)))"
  proof -
    define k where "k = ?k"
    have "(if buf_len x - off < n - nread then buf_len x - off else n - nread) = k"
      and "off + k \<le> length (buf_data x)" using x by (auto simp: k_def min_def)
    then show ?thesis
      using x ax Cons.prems(3) by (simp add: Let_def memcpy_ok flip: k_def)
  qed
  ultimately show ?case using x ax Cons.prems(3) by (auto simp: min_def)
qed

lemma bio_peek_correct:
  assumes "bio_ok b"
  shows "bio_peek b n = Some (to_int (min n (length (bio_bytes b))), take n (bio_bytes b))"
proof -
  from assms obtain xs where rep: "bio_rep b xs" by (auto simp: bio_ok_def)
  then have "STAILQ_FOREACH (bio_buffers b) = Some xs"
    using STAILQ_FOREACH_rep by (auto simp: bio_rep_def)
  with rep show ?thesis
    using bio_peek_loop_correct [of xs "bio_offset b" 0 n "[]"]
    by (simp add: bio_peek_def bio_bytes_rep [OF rep] rest_bytes_def bio_rep_def)
qed

lemma bio_reset_loop_correct:
  "stailq_rep q xs Map.empty \<Longrightarrow> \<exists>q'. bio_reset_loop q = Some q' \<and> stailq_rep q' [] Map.empty"
proof (induction xs arbitrary: q)
  case Nil
  then show ?case using STAILQ_EMPTY_rep [of q "[]"] by (subst bio_reset_loop.simps) auto
next
  case (Cons ax xs)
  obtain a x where ax: "ax = (a, x)" by (cases ax)
  with Cons.prems stq.dequeue [of q a x xs] obtain q1 q2 where
    q: "STAILQ_REMOVE_HEAD q = Some q1" "buffer_free q1 a = Some q2" "stailq_rep q2 xs Map.empty"
    by (auto simp: buffer_free_def)
  from Cons.IH [OF q(3)] Cons.prems ax q STAILQ_EMPTY_rep [OF Cons.prems] STAILQ_FIRST_rep [of q ax xs]
  show ?case by (subst bio_reset_loop.simps) auto
qed

lemma bio_reset_correct:
  assumes "bio_ok b"
  shows "\<exists>b'. bio_reset b = Some b' \<and> bio_ok b' \<and> bio_bytes b' = [] \<and> cells (bio_buffers b') = Map.empty"
proof -
  from assms obtain xs where "stailq_rep (bio_buffers b) xs Map.empty"
    by (auto simp: bio_ok_def bio_rep_def)
  from bio_reset_loop_correct [OF this] obtain q where q: "bio_reset_loop (bio_buffers b) = Some q"
    and rep: "stailq_rep q [] Map.empty" by blast
  let ?b = "b\<lparr>bio_buffers := q, bio_offset := 0, bio_len := 0\<rparr>"
  have "bio_mid ?b []" using rep by (simp add: bio_mid_def)
  from bio_okI [OF this] have "bio_ok ?b" "bio_bytes ?b = []" by (simp_all add: rest_bytes_def)
  moreover have "cells q = Map.empty" using rep by (auto simp: stailq_rep_def)
  ultimately show ?thesis using q by (simp add: bio_reset_def)
qed

section \<open>The interface of the byte queue\<close>

text \<open>
  What \<^verbatim>\<open>mux.c\<close> relies on. The derived lemmas are the two ways the multiplexer moves
  bytes: peek and then consume what was peeked, and read in pieces.
\<close>

locale byte_queue =
  fixes ok :: "'b \<Rightarrow> bool"
    and bytes :: "'b \<Rightarrow> byte list"
    and bwrite :: "'b \<Rightarrow> byte list \<Rightarrow> nat \<Rightarrow> alloc \<Rightarrow> (int \<times> 'b \<times> alloc) option"
    and bread :: "'b \<Rightarrow> nat \<Rightarrow> (int \<times> byte list \<times> 'b) option"
    and bconsume :: "'b \<Rightarrow> nat \<Rightarrow> (int \<times> 'b) option"
    and bpeek :: "'b \<Rightarrow> nat \<Rightarrow> (int \<times> byte list) option"
    and bpending :: "'b \<Rightarrow> int"
  assumes write_law: "ok b \<Longrightarrow> n \<le> length d \<Longrightarrow>
      \<exists>r b' al' k. bwrite b d n al = Some (r, b', al') \<and> ok b' \<and> succeeds al' = succeeds al \<and>
        bytes b' = bytes b @ take k d \<and>
        (r = to_int n \<and> k = n \<or> r = - 1 \<and> k < n \<and> 4096 dvd k \<and> \<not> never_fails al)"
    and read_law: "ok b \<Longrightarrow>
      \<exists>b'. bread b n = Some (to_int (min n (length (bytes b))), take n (bytes b), b') \<and>
        ok b' \<and> bytes b' = drop n (bytes b)"
    and consume_law: "ok b \<Longrightarrow>
      \<exists>b'. bconsume b n = Some (to_int (min n (length (bytes b))), b') \<and>
        ok b' \<and> bytes b' = drop n (bytes b)"
    and peek_law: "ok b \<Longrightarrow> bpeek b n = Some (to_int (min n (length (bytes b))), take n (bytes b))"
    and pending_law: "ok b \<Longrightarrow> bpending b = to_int (length (bytes b))"
begin

lemma write_ok:
  assumes "ok b" and "n \<le> length d" and "never_fails al"
  shows "\<exists>b' al'. bwrite b d n al = Some (to_int n, b', al') \<and> ok b' \<and> never_fails al' \<and>
    bytes b' = bytes b @ take n d"
  using write_law [OF assms(1,2), of al] assms(3) by (auto simp: never_fails_def)

lemma peek_then_consume:
  assumes "ok b" and "length (bytes b) < 2 ^ 31" and "bpeek b n = Some (r, d)"
  shows "\<exists>b'. bconsume b (nat r) = Some (r, b') \<and> ok b' \<and> bytes b = d @ bytes b'"
proof -
  from assms peek_law [OF assms(1), of n] have r: "r = int (min n (length (bytes b)))"
    and d: "d = take n (bytes b)" by (auto simp: to_int_small)
  from consume_law [OF assms(1), of "nat r"] obtain b' where
    "bconsume b (nat r) = Some (to_int (min (nat r) (length (bytes b))), b')"
    "ok b'" "bytes b' = drop (nat r) (bytes b)" by blast
  with r d assms(2) show ?thesis
    by (auto simp: min_def to_int_small)
qed

lemma read_split:
  assumes "ok b"
  shows "\<exists>r1 b1 r2 b2. bread b m = Some (r1, take m (bytes b), b1) \<and>
    bread b1 n = Some (r2, take n (drop m (bytes b)), b2) \<and> ok b2 \<and>
    bytes b2 = drop (m + n) (bytes b)"
proof -
  from read_law [OF assms, of m] obtain b1 where b1: "ok b1" "bytes b1 = drop m (bytes b)"
    "bread b m = Some (to_int (min m (length (bytes b))), take m (bytes b), b1)" by blast
  from read_law [OF b1(1), of n] b1 show ?thesis by (auto simp: add.commute)
qed

end

interpretation bq: byte_queue bio_ok bio_bytes bio_write bio_read bio_consume bio_peek bio_pending
  by (unfold_locales; (rule bio_write_correct bio_read_correct bio_consume_correct
      bio_peek_correct bio_pending_correct; assumption))

end
