(* ===== verification/Frame.thy ===== *)
theory Frame
  imports Yamux_Prelude
begin

text \<open>
  The frame header of \<^verbatim>\<open>mux.c\<close>: the protocol constants, the macros that write and read the
  12 byte header through casts of a byte pointer, and the wire format they implement. The
  host byte order is a parameter (\<open>le\<close>, true on a little-endian machine): the header on the
  wire does not depend on it.
\<close>

unbundle bit_operations_syntax

section \<open>Constants\<close>

definition VERSION :: uint8 where "VERSION = 0"

definition TYPE_DATA :: uint8 where "TYPE_DATA = 0x00"
definition TYPE_WINDOW_UPDATE :: uint8 where "TYPE_WINDOW_UPDATE = 0x01"
definition TYPE_PING :: uint8 where "TYPE_PING = 0x02"
definition TYPE_GO_AWAY :: uint8 where "TYPE_GO_AWAY = 0x03"

definition FLAG_SYN :: uint16 where "FLAG_SYN = 0x01"
definition FLAG_ACK :: uint16 where "FLAG_ACK = 0x02"
definition FLAG_FIN :: uint16 where "FLAG_FIN = 0x04"
definition FLAG_RST :: uint16 where "FLAG_RST = 0x08"

definition GO_AWAY_NORMAL :: uint32 where "GO_AWAY_NORMAL = 0x00"
definition GO_AWAY_PROTO_ERR :: uint32 where "GO_AWAY_PROTO_ERR = 0x01"
definition GO_AWAY_INTERNAL_ERR :: uint32 where "GO_AWAY_INTERNAL_ERR = 0x02"

definition MAX_STREAM_WINDOW_SIZE :: uint32 where "MAX_STREAM_WINDOW_SIZE = 1024 * 256"

lemmas type_defs = TYPE_DATA_def TYPE_WINDOW_UPDATE_def TYPE_PING_def TYPE_GO_AWAY_def
lemmas flag_defs = FLAG_SYN_def FLAG_ACK_def FLAG_FIN_def FLAG_RST_def
lemmas go_away_defs = GO_AWAY_NORMAL_def GO_AWAY_PROTO_ERR_def GO_AWAY_INTERNAL_ERR_def

section \<open>Integers in memory\<close>

text \<open>The byte \<open>i\<close> of a word, the least significant one first.\<close>

definition byte_of :: "nat \<Rightarrow> 'a :: len word \<Rightarrow> byte" where
  "byte_of i w = ucast (drop_bit (8 * i) w)"

text \<open>Native stores and loads of 16 and 32 bit integers through a cast pointer.\<close>

definition store16 :: "bool \<Rightarrow> uint16 \<Rightarrow> byte list" where
  "store16 le w = (let bs = [byte_of 0 w, byte_of 1 w] in if le then bs else rev bs)"

definition store32 :: "bool \<Rightarrow> uint32 \<Rightarrow> byte list" where
  "store32 le w =
     (let bs = [byte_of 0 w, byte_of 1 w, byte_of 2 w, byte_of 3 w] in if le then bs else rev bs)"

definition load16 :: "bool \<Rightarrow> byte list \<Rightarrow> uint16" where
  "load16 le bs =
     (let b = (if le then bs else rev bs) in ucast (b ! 0) OR push_bit 8 (ucast (b ! 1)))"

definition load32 :: "bool \<Rightarrow> byte list \<Rightarrow> uint32" where
  "load32 le bs =
     (let b = (if le then bs else rev bs) in
      ucast (b ! 0) OR push_bit 8 (ucast (b ! 1)) OR push_bit 16 (ucast (b ! 2)) OR
        push_bit 24 (ucast (b ! 3)))"

text \<open>The conversions between host and network order are identities on a big-endian host.\<close>

definition htons :: "bool \<Rightarrow> uint16 \<Rightarrow> uint16" where
  "htons le w = (if le then ucast (byte_of 1 w) OR push_bit 8 (ucast (byte_of 0 w)) else w)"

definition htonl :: "bool \<Rightarrow> uint32 \<Rightarrow> uint32" where
  "htonl le w =
     (if le then ucast (byte_of 3 w) OR push_bit 8 (ucast (byte_of 2 w)) OR
        push_bit 16 (ucast (byte_of 1 w)) OR push_bit 24 (ucast (byte_of 0 w))
      else w)"

definition ntohs :: "bool \<Rightarrow> uint16 \<Rightarrow> uint16" where
  "ntohs le w = htons le w"

definition ntohl :: "bool \<Rightarrow> uint32 \<Rightarrow> uint32" where
  "ntohl le w = htonl le w"

section \<open>The header macros\<close>

definition hdr_encode :: "bool \<Rightarrow> uint8 \<Rightarrow> uint16 \<Rightarrow> uint32 \<Rightarrow> uint32 \<Rightarrow> byte list" where
  "hdr_encode le type flags sid len =
     [VERSION] @ [type] @ store16 le (htons le flags) @ store32 le (htonl le sid) @
     store32 le (htonl le len)"

definition hdr_version :: "byte list \<Rightarrow> uint8" where
  "hdr_version h = h ! 0"

definition hdr_type :: "byte list \<Rightarrow> uint8" where
  "hdr_type h = h ! 1"

definition hdr_flags :: "bool \<Rightarrow> byte list \<Rightarrow> uint16" where
  "hdr_flags le h = ntohs le (load16 le (take 2 (drop 2 h)))"

definition hdr_stream_id :: "bool \<Rightarrow> byte list \<Rightarrow> uint32" where
  "hdr_stream_id le h = ntohl le (load32 le (take 4 (drop 4 h)))"

definition hdr_length :: "bool \<Rightarrow> byte list \<Rightarrow> uint32" where
  "hdr_length le h = ntohl le (load32 le (take 4 (drop 8 h)))"

section \<open>The wire format\<close>

text \<open>Version, type, flags, stream id and length, each in network byte order.\<close>

definition frame_hdr :: "uint8 \<Rightarrow> uint16 \<Rightarrow> uint32 \<Rightarrow> uint32 \<Rightarrow> byte list" where
  "frame_hdr type flags sid len =
     [VERSION, type, byte_of 1 flags, byte_of 0 flags,
      byte_of 3 sid, byte_of 2 sid, byte_of 1 sid, byte_of 0 sid,
      byte_of 3 len, byte_of 2 len, byte_of 1 len, byte_of 0 len]"

lemma byte_bits: "bit (byte_of i w) n \<longleftrightarrow> n < 8 \<and> bit w (8 * i + n)"
  by (auto simp: byte_of_def bit_simps dest: bit_imp_le_length)

lemma word_bytes_eqI:
  fixes v w :: "'a :: len word"
  assumes "\<And>i. 8 * i < LENGTH('a) \<Longrightarrow> byte_of i v = byte_of i w"
  shows "v = w"
proof (rule bit_word_eqI)
  fix n assume n: "n < LENGTH('a)"
  then have "byte_of (n div 8) v = byte_of (n div 8) w" by (intro assms) linarith
  then have "bit (byte_of (n div 8) v) (n mod 8) = bit (byte_of (n div 8) w) (n mod 8)" by simp
  then show "bit v n = bit w n" by (simp add: byte_bits)
qed

lemma byte_of_join16:
  "byte_of 0 (ucast b0 OR push_bit 8 (ucast b1) :: uint16) = b0"
  "byte_of (Suc 0) (ucast b0 OR push_bit 8 (ucast b1) :: uint16) = b1"
  by (rule bit_word_eqI; auto simp: byte_bits bit_simps dest: bit_imp_le_length)+

lemma byte_of_join32:
  defines "j \<equiv> \<lambda>b0 b1 b2 b3 :: byte. ucast b0 OR push_bit 8 (ucast b1) OR
    push_bit 16 (ucast b2) OR push_bit 24 (ucast b3) :: uint32"
  shows "byte_of 0 (j b0 b1 b2 b3) = b0" "byte_of (Suc 0) (j b0 b1 b2 b3) = b1"
    "byte_of 2 (j b0 b1 b2 b3) = b2" "byte_of 3 (j b0 b1 b2 b3) = b3"
  unfolding j_def by (rule bit_word_eqI; auto simp: byte_bits bit_simps dest: bit_imp_le_length)+

lemmas byte_joins [simp] = byte_of_join16 byte_of_join32

lemma bytes_of_uint16:
  fixes v w :: uint16
  assumes "byte_of 0 v = byte_of 0 w" and "byte_of 1 v = byte_of 1 w"
  shows "v = w"
proof (rule word_bytes_eqI)
  fix i :: nat assume "8 * i < LENGTH(16)"
  then have "i = 0 \<or> i = 1" by auto
  then show "byte_of i v = byte_of i w" using assms by auto
qed

lemma bytes_of_uint32:
  fixes v w :: uint32
  assumes "byte_of 0 v = byte_of 0 w" "byte_of 1 v = byte_of 1 w" "byte_of 2 v = byte_of 2 w"
    "byte_of 3 v = byte_of 3 w"
  shows "v = w"
proof (rule word_bytes_eqI)
  fix i :: nat assume "8 * i < LENGTH(32)"
  then have "i = 0 \<or> i = 1 \<or> i = 2 \<or> i = 3" by auto
  then show "byte_of i v = byte_of i w" using assms by auto
qed

lemma join16_bytes: "ucast (byte_of 0 w) OR push_bit 8 (ucast (byte_of (Suc 0) w)) = (w :: uint16)"
  by (rule bytes_of_uint16) simp_all

lemma join32_bytes:
  "ucast (byte_of 0 w) OR push_bit 8 (ucast (byte_of (Suc 0) w)) OR push_bit 16 (ucast (byte_of 2 w)) OR
     push_bit 24 (ucast (byte_of 3 w)) = (w :: uint32)"
  by (rule bytes_of_uint32) simp_all

lemma store_htons: "store16 le (htons le w) = [byte_of 1 w, byte_of 0 w]"
  by (cases le) (simp_all add: store16_def htons_def)

lemma store_htonl: "store32 le (htonl le w) = [byte_of 3 w, byte_of 2 w, byte_of 1 w, byte_of 0 w]"
  by (cases le) (simp_all add: store32_def htonl_def)

lemma load_ntohs: "ntohs le (load16 le [byte_of 1 w, byte_of 0 w]) = w"
  by (cases le) (simp_all add: ntohs_def htons_def load16_def join16_bytes)

lemma load_ntohl: "ntohl le (load32 le [byte_of 3 w, byte_of 2 w, byte_of 1 w, byte_of 0 w]) = w"
  by (cases le) (simp_all add: ntohl_def htonl_def load32_def join32_bytes)

lemma load_store32: "load32 le (store32 le w) = w"
  by (cases le) (simp_all add: load32_def store32_def join32_bytes)

lemma length_store32 [simp]: "length (store32 le w) = 4"
  by (simp add: store32_def Let_def)

text \<open>The macros implement the wire format on every host.\<close>

lemma hdr_encode_frame: "hdr_encode le type flags sid len = frame_hdr type flags sid len"
  by (simp add: hdr_encode_def frame_hdr_def store_htons store_htonl)

lemma length_frame_hdr [simp]: "length (frame_hdr type flags sid len) = 12"
  by (simp add: frame_hdr_def)

lemma hdr_fields [simp]:
  "hdr_version (frame_hdr type flags sid len @ xs) = VERSION"
  "hdr_type (frame_hdr type flags sid len @ xs) = type"
  "hdr_flags le (frame_hdr type flags sid len @ xs) = flags"
  "hdr_stream_id le (frame_hdr type flags sid len @ xs) = sid"
  "hdr_length le (frame_hdr type flags sid len @ xs) = len"
  by (simp_all add: hdr_version_def hdr_type_def hdr_flags_def hdr_stream_id_def hdr_length_def
      frame_hdr_def load_ntohs [simplified] load_ntohl [simplified])

lemmas hdr_fields_Nil [simp] = hdr_fields [where xs = "[]", simplified]

lemma length_hdr_encode [simp]: "length (hdr_encode le type flags sid len) = 12"
  by (simp add: hdr_encode_frame)

text \<open>Conversely every 12 byte header of version 0 is the encoding of its fields.\<close>

lemma hdr_reencode:
  assumes "length h = 12" and "hdr_version h = VERSION"
  shows "hdr_encode le (hdr_type h) (hdr_flags le h) (hdr_stream_id le h) (hdr_length le h) = h"
proof -
  from assms(1) obtain a b c d e f g i j k l m where h: "h = [a, b, c, d, e, f, g, i, j, k, l, m]"
    by (auto simp: numeral_eq_Suc length_Suc_conv)
  show ?thesis using assms(2)
    by (cases le) (simp_all add: h hdr_encode_frame frame_hdr_def hdr_version_def hdr_type_def hdr_flags_def
        hdr_stream_id_def hdr_length_def ntohs_def ntohl_def htons_def htonl_def load16_def load32_def)
qed

end
