(* ===== verification/Platform.thy ===== *)
theory Platform
  imports Bio RB_Map Frame
begin

text \<open>
  What the multiplexer runs on: the system calls it makes, as a record of functions over an
  abstract kernel state, the POSIX mutexes, and the memory of one session. The system calls
  are not under \<^verbatim>\<open>src/\<close>, so they stay a parameter (\<open>os\<close>) of every operation that makes
  one; the theorems name what they assume of it.
\<close>

section \<open>System calls\<close>

datatype sockopt = SO_RCVBUF | SO_SNDBUF

datatype direction = For_Reading | For_Writing

text \<open>
  \<open>host_le\<close> is the byte order of the host and \<open>O_NONBLOCK\<close> the flag's value there. A call
  whose result is \<open>None\<close> blocks for ever. \<open>sys_read\<close> returns the bytes read (\<open>None\<close> is -1),
  \<open>sys_write\<close> the count or -1, \<open>sys_select\<close> its return value and whether the descriptor is
  set. \<open>uninit\<close> is the contents of a buffer that was never written.

  The last two fields are not called by the code. They observe the kernel, so that the
  theorems can say what the calls do: how many bytes can be read from a descriptor, and the
  other end of a descriptor that is one end of a socket pair.
\<close>

record 'k os =
  host_le :: bool
  O_NONBLOCK :: int
  sys_read :: "int \<Rightarrow> nat \<Rightarrow> 'k \<Rightarrow> (byte list option \<times> 'k) option"
  sys_write :: "int \<Rightarrow> byte list \<Rightarrow> 'k \<Rightarrow> (int \<times> 'k) option"
  sys_socketpair :: "'k \<Rightarrow> (int \<times> int) option \<times> 'k"
  sys_setsockopt :: "int \<Rightarrow> sockopt \<Rightarrow> int \<Rightarrow> 'k \<Rightarrow> int \<times> 'k"
  sys_getsockopt :: "int \<Rightarrow> sockopt \<Rightarrow> 'k \<Rightarrow> int option \<times> 'k"
  sys_getfl :: "int \<Rightarrow> 'k \<Rightarrow> int"
  sys_setfl :: "int \<Rightarrow> int \<Rightarrow> 'k \<Rightarrow> int \<times> 'k"
  sys_select :: "int \<Rightarrow> direction \<Rightarrow> 'k \<Rightarrow> (int \<times> bool \<times> 'k) option"
  sys_close :: "int \<Rightarrow> 'k \<Rightarrow> 'k"
  uninit :: "nat \<Rightarrow> 'k \<Rightarrow> byte list"
  avail :: "int \<Rightarrow> 'k \<Rightarrow> nat"
  peer :: "int \<Rightarrow> 'k \<Rightarrow> int option"

definition EAGAIN :: int where "EAGAIN = 11"

section \<open>The structures of mux.h\<close>

datatype stream_state =
  STATE_INIT | STATE_SYN_SENT | STATE_SYN_RECEIVED | STATE_ESTABLISHED |
  STATE_LOCAL_CLOSE | STATE_REMOTE_CLOSE | STATE_CLOSED | STATE_RESET

text \<open>
  \<^verbatim>\<open>struct stream\<close>. Its tree links (\<^verbatim>\<open>entry\<close>) are kept in \<^typ>\<open>rb_head\<close>, its mutexes in
  the table of mutexes of the world; \<^verbatim>\<open>session\<close> is the one session of the world.
\<close>

record stream =
  st_state :: stream_state
  st_id :: uint32
  st_send_padding :: uint32
  st_recv_window :: uint32
  st_send_window :: uint32
  st_recv_buf :: bio
  st_readable :: bool
  st_writeable :: bool
  st_fd :: int
  st_private_fd :: int

record session =
  ss_remote_go_away :: bool
  ss_local_go_away :: bool
  ss_next_id :: uint32
  ss_new_frame :: bool
  ss_frame_remain :: uint32
  ss_recv_buf :: bio
  ss_send_buf :: bio
  ss_streams :: rb_head
  ss_hdr :: "byte list"
  ss_fd :: int
  ss_private_fd :: int

datatype mutex =
  Session_recv_lock | Session_send_lock | Session_streams_lock |
  State_lock addr | Recv_lock addr | Send_lock addr

datatype mutex_state = Uninitialised | Free | Held

text \<open>
  The world of one thread that works on one session: the session, the live streams by address,
  the next address \<^verbatim>\<open>malloc\<close> hands out for a stream, the mutexes, the allocator, \<^verbatim>\<open>errno\<close>
  where the code assigns it, and the kernel.
\<close>

record 'k world =
  sess :: session
  heap :: "addr \<rightharpoonup> stream"
  brk :: addr
  mutexes :: "mutex \<Rightarrow> mutex_state"
  mem :: alloc
  errno :: int
  kern :: 'k

section \<open>Primitives\<close>

text \<open>
  The mutexes are of the default kind: locking one that this thread holds never returns, and
  using one that is not initialised, or unlocking one that is not held, is undefined.
\<close>

definition mutex_lock :: "mutex \<Rightarrow> 'k world \<Rightarrow> 'k world option" where
  "mutex_lock m w = (if mutexes w m = Free then Some (w\<lparr>mutexes := (mutexes w)(m := Held)\<rparr>) else None)"

definition mutex_unlock :: "mutex \<Rightarrow> 'k world \<Rightarrow> 'k world option" where
  "mutex_unlock m w = (if mutexes w m = Held then Some (w\<lparr>mutexes := (mutexes w)(m := Free)\<rparr>) else None)"

definition mutex_init :: "mutex \<Rightarrow> 'k world \<Rightarrow> 'k world" where
  "mutex_init m w = w\<lparr>mutexes := (mutexes w)(m := Free)\<rparr>"

definition mutex_destroy :: "mutex \<Rightarrow> 'k world \<Rightarrow> 'k world option" where
  "mutex_destroy m w =
     (if mutexes w m = Free then Some (w\<lparr>mutexes := (mutexes w)(m := Uninitialised)\<rparr>) else None)"

definition c_malloc :: "'k world \<Rightarrow> bool \<times> 'k world" where
  "c_malloc w = (let (ok, al) = malloc (mem w) in (ok, w\<lparr>mem := al\<rparr>))"

text \<open>The return value of \<^verbatim>\<open>read\<close> with the bytes it stored.\<close>

definition c_read :: "'k os \<Rightarrow> int \<Rightarrow> nat \<Rightarrow> 'k world \<Rightarrow> (int \<times> byte list \<times> 'k world) option" where
  "c_read os fd n w = do {
     (res, k) \<leftarrow> sys_read os fd n (kern w);
     Some (case res of None \<Rightarrow> - 1 | Some d \<Rightarrow> int (length d), case res of None \<Rightarrow> [] | Some d \<Rightarrow> d,
           w\<lparr>kern := k\<rparr>)
   }"

definition c_write :: "'k os \<Rightarrow> int \<Rightarrow> byte list \<Rightarrow> 'k world \<Rightarrow> (int \<times> 'k world) option" where
  "c_write os fd d w = do {
     (r, k) \<leftarrow> sys_write os fd d (kern w);
     Some (r, w\<lparr>kern := k\<rparr>)
   }"

definition c_setsockopt :: "'k os \<Rightarrow> int \<Rightarrow> sockopt \<Rightarrow> int \<Rightarrow> 'k world \<Rightarrow> int \<times> 'k world" where
  "c_setsockopt os fd opt v w = (let (r, k) = sys_setsockopt os fd opt v (kern w) in (r, w\<lparr>kern := k\<rparr>))"

definition c_close :: "'k os \<Rightarrow> int \<Rightarrow> 'k world \<Rightarrow> 'k world" where
  "c_close os fd w = w\<lparr>kern := sys_close os fd (kern w)\<rparr>"

definition put_stream :: "addr \<Rightarrow> stream \<Rightarrow> 'k world \<Rightarrow> 'k world" where
  "put_stream a s w = w\<lparr>heap := (heap w)(a \<mapsto> s)\<rparr>"

definition put_sess :: "session \<Rightarrow> 'k world \<Rightarrow> 'k world" where
  "put_sess s w = w\<lparr>sess := s\<rparr>"

definition c_free_stream :: "addr \<Rightarrow> 'k world \<Rightarrow> 'k world option" where
  "c_free_stream a w = (if heap w a = None then None else Some (w\<lparr>heap := (heap w)(a := None)\<rparr>))"

section \<open>misc.c\<close>

text \<open>The descriptor flag helpers of \<^verbatim>\<open>misc.c\<close>.\<close>

definition would_block :: "'k os \<Rightarrow> int \<Rightarrow> 'k world \<Rightarrow> bool" where
  "would_block os fd w =
     (let r = sys_getfl os fd (kern w) in
      if r = - 1 then False
      else if and r (O_NONBLOCK os) \<noteq> 0 then False
      else True)"

definition setblock :: "'k os \<Rightarrow> int \<Rightarrow> 'k world \<Rightarrow> int \<times> 'k world" where
  "setblock os fd w =
     (let (r, k) = sys_setfl os fd (and (sys_getfl os fd (kern w)) (not (O_NONBLOCK os))) (kern w)
      in (r, w\<lparr>kern := k\<rparr>))"

definition setnonblock :: "'k os \<Rightarrow> int \<Rightarrow> 'k world \<Rightarrow> int \<times> 'k world" where
  "setnonblock os fd w =
     (let (r, k) = sys_setfl os fd (or (sys_getfl os fd (kern w)) (O_NONBLOCK os)) (kern w)
      in (r, w\<lparr>kern := k\<rparr>))"

end
