(* ===== verification/Streams.thy ===== *)
theory Streams
  imports Platform
begin

text \<open>
  The stream layer of \<^verbatim>\<open>mux.c\<close>: the stream table of a session, the descriptor pair that
  signals readiness, creation and release of streams, the flag state machine and the two
  frames the stream layer sends by itself.
\<close>

section \<open>The stream table\<close>

definition stream_compare :: "uint32 \<Rightarrow> uint32 \<Rightarrow> int" where
  "stream_compare id1 id2 = (if id1 < id2 then - 1 else if id1 > id2 then 1 else 0)"

text \<open>The comparison of a probe with a node of the tree; a node that was freed has no id.\<close>

definition stream_probe :: "'k world \<Rightarrow> uint32 \<Rightarrow> addr \<Rightarrow> int option" where
  "stream_probe w sid b = do { s \<leftarrow> heap w b; Some (stream_compare sid (st_id s)) }"

definition session_insert_stream :: "addr \<Rightarrow> 'k world \<Rightarrow> 'k world option" where
  "session_insert_stream a w = do {
     w \<leftarrow> mutex_lock Session_streams_lock w;
     s \<leftarrow> heap w a;
     (res, t) \<leftarrow> RB_INSERT (stream_probe w (st_id s)) (ss_streams (sess w)) a;
     let w = put_sess ((sess w)\<lparr>ss_streams := t\<rparr>) w;
     _ \<leftarrow> c_assert (res = None);
     mutex_unlock Session_streams_lock w
   }"

definition session_remove_stream :: "addr \<Rightarrow> 'k world \<Rightarrow> 'k world option" where
  "session_remove_stream a w = do {
     w \<leftarrow> mutex_lock Session_streams_lock w;
     s \<leftarrow> heap w a;
     res \<leftarrow> RB_FIND (stream_probe w (st_id s)) (ss_streams (sess w));
     b \<leftarrow> res;
     r \<leftarrow> heap w b;
     w \<leftarrow> (if st_id r = st_id s then do {
             t \<leftarrow> RB_REMOVE (ss_streams (sess w)) a;
             Some (put_sess ((sess w)\<lparr>ss_streams := t\<rparr>) w)
           } else Some w);
     mutex_unlock Session_streams_lock w
   }"

definition session_find_stream :: "uint32 \<Rightarrow> 'k world \<Rightarrow> (ptr \<times> 'k world) option" where
  "session_find_stream sid w = do {
     w \<leftarrow> mutex_lock Session_streams_lock w;
     res \<leftarrow> RB_FIND (stream_probe w sid) (ss_streams (sess w));
     w \<leftarrow> mutex_unlock Session_streams_lock w;
     case res of
       None \<Rightarrow> Some (None, w)
     | Some b \<Rightarrow> do { r \<leftarrow> heap w b; Some (if st_id r = sid then Some b else None, w) }
   }"

section \<open>Readiness of the public descriptor\<close>

text \<open>
  The buffer for the padding is on the stack up to 4096 bytes and from \<^verbatim>\<open>malloc\<close> beyond; the
  first component says whether there is one.
\<close>

definition padding_buf :: "stream \<Rightarrow> 'k world \<Rightarrow> bool \<times> 'k world" where
  "padding_buf s w = (if unat (st_send_padding s) > 4096 then c_malloc w else (True, w))"

definition stream_writeable_notify :: "'k os \<Rightarrow> addr \<Rightarrow> 'k world \<Rightarrow> (int \<times> 'k world) option" where
  "stream_writeable_notify os a w = do {
     w \<leftarrow> mutex_lock (Send_lock a) w;
     s \<leftarrow> heap w a;
     if \<not> st_writeable s then
       let (have_buf, w) = padding_buf s w in
       if \<not> have_buf then do { w \<leftarrow> mutex_unlock (Send_lock a) w; Some (- 1, w) }
       else do {
         (r, _, w) \<leftarrow> c_read os (st_private_fd s) (unat (st_send_padding s)) w;
         if r \<le> 0 then do { w \<leftarrow> mutex_unlock (Send_lock a) w; Some (- 1, w) }
         else do {
           let w = put_stream a (s\<lparr>st_writeable := True\<rparr>) w;
           w \<leftarrow> mutex_unlock (Send_lock a) w;
           Some (0, w)
         }
       }
     else do { w \<leftarrow> mutex_unlock (Send_lock a) w; Some (0, w) }
   }"

definition stream_writeable_waiting :: "'k os \<Rightarrow> addr \<Rightarrow> 'k world \<Rightarrow> (int \<times> 'k world) option" where
  "stream_writeable_waiting os a w = do {
     w \<leftarrow> mutex_lock (Send_lock a) w;
     s \<leftarrow> heap w a;
     if st_writeable s then
       let (have_buf, w) = padding_buf s w in
       if \<not> have_buf then do { w \<leftarrow> mutex_unlock (Send_lock a) w; Some (- 1, w) }
       else do {
         (r, w) \<leftarrow> c_write os (st_fd s) (uninit os (unat (st_send_padding s)) (kern w)) w;
         if r \<le> 0 then do { w \<leftarrow> mutex_unlock (Send_lock a) w; Some (- 1, w) }
         else do {
           let w = put_stream a (s\<lparr>st_writeable := False\<rparr>) w;
           w \<leftarrow> mutex_unlock (Send_lock a) w;
           Some (0, w)
         }
       }
     else do { w \<leftarrow> mutex_unlock (Send_lock a) w; Some (0, w) }
   }"

definition stream_readable_notify :: "'k os \<Rightarrow> addr \<Rightarrow> 'k world \<Rightarrow> (int \<times> 'k world) option" where
  "stream_readable_notify os a w = do {
     w \<leftarrow> mutex_lock (Recv_lock a) w;
     s \<leftarrow> heap w a;
     if \<not> st_readable s then do {
       (r, w) \<leftarrow> c_write os (st_private_fd s) [0] w;
       if r \<le> 0 then do { w \<leftarrow> mutex_unlock (Recv_lock a) w; Some (- 1, w) }
       else do {
         let w = put_stream a (s\<lparr>st_readable := True\<rparr>) w;
         w \<leftarrow> mutex_unlock (Recv_lock a) w;
         Some (0, w)
       }
     }
     else do { w \<leftarrow> mutex_unlock (Recv_lock a) w; Some (0, w) }
   }"

definition stream_readable_waiting :: "'k os \<Rightarrow> addr \<Rightarrow> 'k world \<Rightarrow> (int \<times> 'k world) option" where
  "stream_readable_waiting os a w = do {
     w \<leftarrow> mutex_lock (Recv_lock a) w;
     s \<leftarrow> heap w a;
     if st_readable s then do {
       (r, _, w) \<leftarrow> c_read os (st_fd s) 1 w;
       if r \<le> 0 then do { w \<leftarrow> mutex_unlock (Recv_lock a) w; Some (- 1, w) }
       else do {
         let w = put_stream a (s\<lparr>st_readable := False\<rparr>) w;
         w \<leftarrow> mutex_unlock (Recv_lock a) w;
         Some (0, w)
       }
     }
     else do { w \<leftarrow> mutex_unlock (Recv_lock a) w; Some (0, w) }
   }"

definition stream_notify_waiting :: "'k os \<Rightarrow> addr \<Rightarrow> 'k world \<Rightarrow> 'k world option" where
  "stream_notify_waiting os a w = do {
     (_, w) \<leftarrow> stream_writeable_notify os a w;
     (_, w) \<leftarrow> stream_readable_notify os a w;
     Some w
   }"

section \<open>Creation and release\<close>

text \<open>The four \<^verbatim>\<open>setsockopt\<close> calls are chained by \<^verbatim>\<open>||\<close>: the first failure ends the chain.\<close>

definition stream_setup_fd :: "'k os \<Rightarrow> addr \<Rightarrow> 'k world \<Rightarrow> (int \<times> 'k world) option" where
  "stream_setup_fd os a w = do {
     s \<leftarrow> heap w a;
     let sz = 256;
     let (r1, w) = c_setsockopt os (st_fd s) SO_RCVBUF sz w;
     let (r2, w) = (if r1 \<noteq> 0 then (r1, w) else c_setsockopt os (st_fd s) SO_SNDBUF sz w);
     let (r3, w) = (if r2 \<noteq> 0 then (r2, w) else c_setsockopt os (st_private_fd s) SO_RCVBUF sz w);
     let (r4, w) = (if r3 \<noteq> 0 then (r3, w) else c_setsockopt os (st_private_fd s) SO_SNDBUF sz w);
     if r4 \<noteq> 0 then Some (- 1, w)
     else
       let (r, k) = sys_getsockopt os (st_private_fd s) SO_RCVBUF (kern w); w = w\<lparr>kern := k\<rparr> in
       case r of
         None \<Rightarrow> Some (- 1, w)
       | Some v \<Rightarrow> Some (0, put_stream a (s\<lparr>st_send_padding := word_of_int v\<rparr>) w)
   }"

text \<open>
  \<^verbatim>\<open>stream_new\<close>: the object becomes visible with its descriptors; \<^verbatim>\<open>send_padding\<close> is
  stored by \<^verbatim>\<open>stream_setup_fd\<close> and has no value before (0 here). The mutexes are
  initialised last, after the stream is in the table.
\<close>

definition stream_new :: "'k os \<Rightarrow> uint32 \<Rightarrow> stream_state \<Rightarrow> 'k world \<Rightarrow> (ptr \<times> 'k world) option" where
  "stream_new os sid state w =
     (let (ok, w) = c_malloc w in
      if \<not> ok then Some (None, w)
      else
        let a = brk w; w = w\<lparr>brk := Suc a\<rparr>; (buf, al) = bio_new (mem w); w = w\<lparr>mem := al\<rparr> in
        case buf of
          None \<Rightarrow> Some (None, w)
        | Some buf \<Rightarrow>
            let (fds, k) = sys_socketpair os (kern w); w = w\<lparr>kern := k\<rparr> in
            case fds of
              None \<Rightarrow> do { _ \<leftarrow> bio_free buf; Some (None, w) }
            | Some (fd0, fd1) \<Rightarrow> do {
                let w = put_stream a
                  \<lparr>st_state = state, st_id = sid, st_send_padding = 0,
                   st_recv_window = MAX_STREAM_WINDOW_SIZE, st_send_window = MAX_STREAM_WINDOW_SIZE,
                   st_recv_buf = buf, st_readable = False, st_writeable = True,
                   st_fd = fd0, st_private_fd = fd1\<rparr> w;
                (r, w) \<leftarrow> stream_setup_fd os a w;
                if r \<noteq> 0 then do {
                  let w = c_close os fd0 w;
                  let w = c_close os fd1 w;
                  _ \<leftarrow> bio_free buf;
                  w \<leftarrow> c_free_stream a w;
                  Some (None, w)
                }
                else do {
                  w \<leftarrow> session_insert_stream a w;
                  let w = mutex_init (State_lock a) w;
                  let w = mutex_init (Send_lock a) w;
                  let w = mutex_init (Recv_lock a) w;
                  Some (Some a, w)
                }
              })"

definition stream_free :: "'k os \<Rightarrow> addr \<Rightarrow> 'k world \<Rightarrow> 'k world option" where
  "stream_free os a w = do {
     w \<leftarrow> session_remove_stream a w;
     w \<leftarrow> mutex_destroy (State_lock a) w;
     w \<leftarrow> mutex_destroy (Send_lock a) w;
     w \<leftarrow> mutex_destroy (Recv_lock a) w;
     s \<leftarrow> heap w a;
     _ \<leftarrow> bio_free (st_recv_buf s);
     let w = c_close os (st_fd s) w;
     let w = c_close os (st_private_fd s) w;
     c_free_stream a w
   }"

section \<open>The flag state machine\<close>

definition has_flag :: "uint16 \<Rightarrow> uint16 \<Rightarrow> bool" where
  "has_flag flags f \<longleftrightarrow> and flags f \<noteq> 0"

text \<open>The \<^verbatim>\<open>FLAG_FIN\<close> switch: the next state, or \<open>None\<close> for its default branch.\<close>

fun fin_state :: "stream_state \<Rightarrow> stream_state option" where
  "fin_state STATE_SYN_SENT = Some STATE_REMOTE_CLOSE"
| "fin_state STATE_SYN_RECEIVED = Some STATE_REMOTE_CLOSE"
| "fin_state STATE_ESTABLISHED = Some STATE_REMOTE_CLOSE"
| "fin_state STATE_LOCAL_CLOSE = Some STATE_CLOSED"
| "fin_state _ = None"

definition set_state :: "addr \<Rightarrow> stream_state \<Rightarrow> 'k world \<Rightarrow> 'k world option" where
  "set_state a st w = do { s \<leftarrow> heap w a; Some (put_stream a (s\<lparr>st_state := st\<rparr>) w) }"

text \<open>The three blocks of \<^verbatim>\<open>stream_process_flags\<close>, one per flag, under \<^verbatim>\<open>state_lock\<close>.\<close>

definition process_ack :: "addr \<Rightarrow> uint16 \<Rightarrow> 'k world \<Rightarrow> 'k world option" where
  "process_ack a flags w = do {
     s \<leftarrow> heap w a;
     if has_flag flags FLAG_ACK \<and> st_state s = STATE_SYN_SENT then set_state a STATE_ESTABLISHED w
     else Some w
   }"

definition process_fin :: "'k os \<Rightarrow> addr \<Rightarrow> uint16 \<Rightarrow> 'k world \<Rightarrow> (bool \<times> 'k world) option" where
  "process_fin os a flags w = do {
     s \<leftarrow> heap w a;
     if has_flag flags FLAG_FIN then
       case fin_state (st_state s) of
         None \<Rightarrow> Some (True, w)
       | Some st \<Rightarrow> do {
           w \<leftarrow> set_state a st w;
           w \<leftarrow> stream_notify_waiting os a w;
           Some (False, w)
         }
     else Some (False, w)
   }"

definition process_rst :: "'k os \<Rightarrow> addr \<Rightarrow> uint16 \<Rightarrow> 'k world \<Rightarrow> 'k world option" where
  "process_rst os a flags w =
     (if has_flag flags FLAG_RST then do {
        w \<leftarrow> set_state a STATE_RESET w;
        stream_notify_waiting os a w
      } else Some w)"

definition stream_process_flags :: "'k os \<Rightarrow> addr \<Rightarrow> uint16 \<Rightarrow> 'k world \<Rightarrow> (int \<times> 'k world) option" where
  "stream_process_flags os a flags w = do {
     w \<leftarrow> mutex_lock (State_lock a) w;
     w \<leftarrow> process_ack a flags w;
     (err, w) \<leftarrow> process_fin os a flags w;
     if err then do { w \<leftarrow> mutex_unlock (State_lock a) w; Some (- 1, w) }
     else do {
       w \<leftarrow> process_rst os a flags w;
       w \<leftarrow> mutex_unlock (State_lock a) w;
       Some (0, w)
     }
   }"

definition stream_send_flags :: "addr \<Rightarrow> 'k world \<Rightarrow> (uint16 \<times> 'k world) option" where
  "stream_send_flags a w = do {
     w \<leftarrow> mutex_lock (State_lock a) w;
     s \<leftarrow> heap w a;
     (flags, w) \<leftarrow> (case st_state s of
         STATE_INIT \<Rightarrow> do { w \<leftarrow> set_state a STATE_SYN_SENT w; Some (FLAG_SYN, w) }
       | STATE_SYN_RECEIVED \<Rightarrow> do { w \<leftarrow> set_state a STATE_ESTABLISHED w; Some (FLAG_ACK, w) }
       | _ \<Rightarrow> Some (0, w));
     w \<leftarrow> mutex_unlock (State_lock a) w;
     Some (flags, w)
   }"

section \<open>Frames the stream layer sends\<close>

definition session_send_buf_write :: "byte list \<Rightarrow> nat \<Rightarrow> 'k world \<Rightarrow> (int \<times> 'k world) option" where
  "session_send_buf_write data n w = do {
     w \<leftarrow> mutex_lock Session_send_lock w;
     (r, b, al) \<leftarrow> bio_write (ss_send_buf (sess w)) data n (mem w);
     let w = (put_sess ((sess w)\<lparr>ss_send_buf := b\<rparr>) w)\<lparr>mem := al\<rparr>;
     w \<leftarrow> mutex_unlock Session_send_lock w;
     if r = - 1 then Some (- 1, w) else Some (0, w)
   }"

definition session_go_away_for_reason :: "'k os \<Rightarrow> uint32 \<Rightarrow> 'k world \<Rightarrow> (int \<times> 'k world) option" where
  "session_go_away_for_reason os reason w = do {
     let w = put_sess ((sess w)\<lparr>ss_local_go_away := True\<rparr>) w;
     let hdr = hdr_encode (host_le os) TYPE_GO_AWAY 0 0 reason;
     (r, w) \<leftarrow> session_send_buf_write hdr 12 w;
     if r \<noteq> 0 then Some (- 1, w) else Some (0, w)
   }"

definition notify_accept :: "'k os \<Rightarrow> uint32 \<Rightarrow> 'k world \<Rightarrow> (int \<times> 'k world) option" where
  "notify_accept os sid w = do {
     (r, w) \<leftarrow> c_write os (ss_private_fd (sess w)) (store32 (host_le os) sid) w;
     if r = - 1 then do {
       (_, w) \<leftarrow> session_go_away_for_reason os GO_AWAY_INTERNAL_ERR w;
       Some (- 1, w)
     }
     else do { _ \<leftarrow> c_assert (r = 4); Some (0, w) }
   }"

text \<open>
  \<^verbatim>\<open>buf_len\<close> is the \<^verbatim>\<open>int\<close> of \<^verbatim>\<open>bio_pending\<close> stored in a \<^verbatim>\<open>uint32_t\<close>; the
  difference \<^verbatim>\<open>delta\<close> wraps around.
\<close>

definition send_window_update :: "'k os \<Rightarrow> addr \<Rightarrow> 'k world \<Rightarrow> (int \<times> 'k world) option" where
  "send_window_update os a w = do {
     (flags, w) \<leftarrow> stream_send_flags a w;
     w \<leftarrow> mutex_lock (Recv_lock a) w;
     s \<leftarrow> heap w a;
     let max_win = MAX_STREAM_WINDOW_SIZE;
     let pend = word_of_int (bio_pending (st_recv_buf s));
     let delta = (max_win - pend) - st_recv_window s;
     if delta < max_win div 2 \<and> flags = 0 then do {
       w \<leftarrow> mutex_unlock (Recv_lock a) w;
       Some (0, w)
     }
     else do {
       let w = put_stream a (s\<lparr>st_recv_window := st_recv_window s + delta\<rparr>) w;
       w \<leftarrow> mutex_unlock (Recv_lock a) w;
       let hdr = hdr_encode (host_le os) TYPE_WINDOW_UPDATE flags (st_id s) delta;
       (r, w) \<leftarrow> session_send_buf_write hdr 12 w;
       if r \<noteq> 0 then Some (- 1, w) else Some (0, w)
     }
   }"

end
