(* ===== verification/Session.thy ===== *)
theory Session
  imports Streams
begin

text \<open>
  The session layer of \<^verbatim>\<open>mux.c\<close>: initialisation, the receive machine that cuts the byte
  stream of the peer into frames and dispatches them, and the buffers between the session
  and the transport.
\<close>

section \<open>Initialisation\<close>

definition session_init :: "'k os \<Rightarrow> bool \<Rightarrow> 'k world \<Rightarrow> (int \<times> 'k world) option" where
  "session_init os client w =
     (let (rb, al) = bio_new (mem w); w = w\<lparr>mem := al\<rparr> in
      case rb of
        None \<Rightarrow> Some (- 1, w)
      | Some rb \<Rightarrow>
          let w = put_sess ((sess w)\<lparr>ss_recv_buf := rb\<rparr>) w; (sb, al) = bio_new (mem w); w = w\<lparr>mem := al\<rparr> in
          case sb of
            None \<Rightarrow> do { rb \<leftarrow> bio_free rb; Some (- 1, w) }
          | Some sb \<Rightarrow>
              let w = put_sess ((sess w)\<lparr>ss_send_buf := sb\<rparr>) w;
                  (fds, k) = sys_socketpair os (kern w); w = w\<lparr>kern := k\<rparr> in
              case fds of
                None \<Rightarrow> do { sb \<leftarrow> bio_free sb; rb \<leftarrow> bio_free rb; Some (- 1, w) }
              | Some (fd0, fd1) \<Rightarrow> do {
                  let w = put_sess ((sess w)\<lparr>
                    ss_remote_go_away := False, ss_local_go_away := False,
                    ss_next_id := (if client then 1 else 2),
                    ss_streams := RB_INIT (ss_streams (sess w)), ss_hdr := replicate 12 0,
                    ss_new_frame := True, ss_fd := fd0, ss_private_fd := fd1, ss_frame_remain := 0\<rparr>) w;
                  let w = mutex_init Session_recv_lock w;
                  let w = mutex_init Session_send_lock w;
                  let w = mutex_init Session_streams_lock w;
                  Some (0, w)
                })"

section \<open>Frames from the peer\<close>

definition session_exit :: "'k world \<Rightarrow> 'k world" where
  "session_exit w = w"

definition incoming_stream :: "'k os \<Rightarrow> 'k world \<Rightarrow> (int \<times> 'k world) option" where
  "incoming_stream os w = do {
     _ \<leftarrow> c_assert (ss_new_frame (sess w));
     let sid = hdr_stream_id (host_le os) (ss_hdr (sess w));
     if ss_local_go_away (sess w) then do {
       (r, w) \<leftarrow> session_send_buf_write (hdr_encode (host_le os) TYPE_WINDOW_UPDATE FLAG_RST sid 0) 12 w;
       if r \<noteq> 0 then Some (- 1, w) else Some (0, w)
     }
     else do {
       (dup, w) \<leftarrow> session_find_stream sid w;
       if dup \<noteq> None then do {
         (_, w) \<leftarrow> session_go_away_for_reason os GO_AWAY_PROTO_ERR w;
         Some (- 1, w)
       }
       else do {
         (stream, w) \<leftarrow> stream_new os sid STATE_SYN_RECEIVED w;
         case stream of
           None \<Rightarrow> do {
             (_, w) \<leftarrow> session_go_away_for_reason os GO_AWAY_INTERNAL_ERR w;
             Some (- 1, w)
           }
         | Some a \<Rightarrow> do {
             (r, w) \<leftarrow> notify_accept os sid w;
             if r \<noteq> 0 then do { w \<leftarrow> stream_free os a w; Some (0, w) }
             else Some (0, w)
           }
       }
     }
   }"

text \<open>
  One pass of the loop of \<^verbatim>\<open>session_handle_data\<close> with a stream: at most 4096 bytes of the frame
  move from the receive buffer of the session to that of the stream. The result is whether
  the function returns -1 here, with the number of bytes to consume otherwise.
\<close>

definition deliver_chunk :: "'k os \<Rightarrow> addr \<Rightarrow> nat \<Rightarrow> 'k world \<Rightarrow> (int option \<times> 'k world) option" where
  "deliver_chunk os a sz w = do {
     (r, buf) \<leftarrow> bio_peek (ss_recv_buf (sess w)) sz;
     _ \<leftarrow> c_assert (r > 0);
     w \<leftarrow> mutex_lock (Recv_lock a) w;
     s \<leftarrow> heap w a;
     (r, b, al) \<leftarrow> bio_write (st_recv_buf s) buf (nat r) (mem w);
     let w = (put_stream a (s\<lparr>st_recv_buf := b\<rparr>) w)\<lparr>mem := al\<rparr>;
     if r = - 1 then do {
       (_, w) \<leftarrow> session_go_away_for_reason os GO_AWAY_INTERNAL_ERR w;
       w \<leftarrow> mutex_unlock (Recv_lock a) w;
       Some (None, w)
     }
     else do {
       let w = put_stream a (s\<lparr>st_recv_buf := b, st_recv_window := st_recv_window s - word_of_int r\<rparr>) w;
       w \<leftarrow> mutex_unlock (Recv_lock a) w;
       (e, w) \<leftarrow> stream_readable_notify os a w;
       if e \<noteq> 0 then do {
         (_, w) \<leftarrow> session_go_away_for_reason os GO_AWAY_INTERNAL_ERR w;
         Some (None, w)
       }
       else Some (Some r, w)
     }
   }"

partial_function (option) session_handle_data_loop ::
  "'k os \<Rightarrow> ptr \<Rightarrow> 'k world \<Rightarrow> (int \<times> 'k world) option" where
  "session_handle_data_loop os stream w =
     (if ss_frame_remain (sess w) \<noteq> 0 \<and> bio_pending (ss_recv_buf (sess w)) \<noteq> 0 then do {
        let sz = min (unat (ss_frame_remain (sess w))) 4096;
        (r, w) \<leftarrow> (case stream of
            Some a \<Rightarrow> deliver_chunk os a sz w
          | None \<Rightarrow> Some (Some (int sz), w));
        case r of
          None \<Rightarrow> Some (- 1, w)
        | Some r \<Rightarrow> do {
            (_, b) \<leftarrow> bio_consume (ss_recv_buf (sess w)) (nat r);
            let w = put_sess ((sess w)\<lparr>ss_recv_buf := b,
                      ss_frame_remain := ss_frame_remain (sess w) - word_of_int r\<rparr>) w;
            session_handle_data_loop os stream w
          }
      }
      else Some (0, if ss_frame_remain (sess w) = 0 then put_sess ((sess w)\<lparr>ss_new_frame := True\<rparr>) w else w))"

text \<open>
  The part of \<^verbatim>\<open>session_handle_data\<close> between the lookup and the loop, for the header of a new
  frame: \<open>Some r\<close> is a return of the function, \<open>None\<close> goes on to the loop. The frame is begun
  at once without a stream, and after the check of its receive window with one.
\<close>

definition begin_frame :: "uint32 \<Rightarrow> 'k world \<Rightarrow> 'k world" where
  "begin_frame len w = put_sess ((sess w)\<lparr>ss_frame_remain := len, ss_new_frame := False\<rparr>) w"

definition check_window :: "'k os \<Rightarrow> addr \<Rightarrow> uint32 \<Rightarrow> 'k world \<Rightarrow> (int option \<times> 'k world) option" where
  "check_window os a len w = do {
     w \<leftarrow> mutex_lock (Recv_lock a) w;
     s \<leftarrow> heap w a;
     if len > st_recv_window s then do {
       (_, w) \<leftarrow> session_go_away_for_reason os GO_AWAY_PROTO_ERR w;
       w \<leftarrow> mutex_unlock (Recv_lock a) w;
       Some (Some (- 1), w)
     }
     else do {
       w \<leftarrow> mutex_unlock (Recv_lock a) w;
       Some (None, begin_frame len w)
     }
   }"

definition begin_data_frame :: "'k os \<Rightarrow> ptr \<Rightarrow> 'k world \<Rightarrow> (int option \<times> 'k world) option" where
  "begin_data_frame os stream w = do {
     let len = hdr_length (host_le os) (ss_hdr (sess w));
     case stream of
       None \<Rightarrow> Some (None, begin_frame len w)
     | Some a \<Rightarrow> do {
         (r, w) \<leftarrow> stream_process_flags os a (hdr_flags (host_le os) (ss_hdr (sess w))) w;
         if r \<noteq> 0 then do {
           (_, w) \<leftarrow> session_go_away_for_reason os GO_AWAY_PROTO_ERR w;
           Some (Some (- 1), w)
         }
         else if len = 0 then Some (Some 0, w)
         else check_window os a len w
       }
   }"

definition session_handle_data :: "'k os \<Rightarrow> 'k world \<Rightarrow> (int \<times> 'k world) option" where
  "session_handle_data os w = do {
     (e, w) \<leftarrow> (if ss_new_frame (sess w) \<and> has_flag (hdr_flags (host_le os) (ss_hdr (sess w))) FLAG_SYN
                then incoming_stream os w else Some (0, w));
     if e \<noteq> 0 then Some (- 1, w)
     else do {
       (stream, w) \<leftarrow> session_find_stream (hdr_stream_id (host_le os) (ss_hdr (sess w))) w;
       (ret, w) \<leftarrow> (if ss_new_frame (sess w) then begin_data_frame os stream w else Some (None, w));
       case ret of
         Some r \<Rightarrow> Some (r, w)
       | None \<Rightarrow> session_handle_data_loop os stream w
     }
   }"

text \<open>The end of \<^verbatim>\<open>session_handle_window_update\<close>, when the frame grants something.\<close>

definition grow_send_window :: "'k os \<Rightarrow> addr \<Rightarrow> uint32 \<Rightarrow> 'k world \<Rightarrow> (int \<times> 'k world) option" where
  "grow_send_window os a len w = do {
     w \<leftarrow> mutex_lock (Send_lock a) w;
     s \<leftarrow> heap w a;
     let w = put_stream a (s\<lparr>st_send_window := st_send_window s + len\<rparr>) w;
     w \<leftarrow> mutex_unlock (Send_lock a) w;
     (r, w) \<leftarrow> stream_writeable_notify os a w;
     if r \<noteq> 0 then do {
       (_, w) \<leftarrow> session_go_away_for_reason os GO_AWAY_INTERNAL_ERR w;
       Some (- 1, w)
     }
     else Some (0, w)
   }"

definition session_handle_window_update :: "'k os \<Rightarrow> 'k world \<Rightarrow> (int \<times> 'k world) option" where
  "session_handle_window_update os w = do {
     _ \<leftarrow> c_assert (ss_new_frame (sess w));
     (e, w) \<leftarrow> (if has_flag (hdr_flags (host_le os) (ss_hdr (sess w))) FLAG_SYN
                then incoming_stream os w else Some (0, w));
     if e \<noteq> 0 then Some (- 1, w)
     else do {
       (stream, w) \<leftarrow> session_find_stream (hdr_stream_id (host_le os) (ss_hdr (sess w))) w;
       case stream of
         None \<Rightarrow> Some (0, w)
       | Some a \<Rightarrow> do {
           (r, w) \<leftarrow> stream_process_flags os a (hdr_flags (host_le os) (ss_hdr (sess w))) w;
           if r \<noteq> 0 then do {
             (_, w) \<leftarrow> session_go_away_for_reason os GO_AWAY_PROTO_ERR w;
             Some (- 1, w)
           }
           else do {
             let len = hdr_length (host_le os) (ss_hdr (sess w));
             if len = 0 then Some (0, w)
             else grow_send_window os a len w
           }
         }
     }
   }"

definition session_handle_ping :: "'k os \<Rightarrow> 'k world \<Rightarrow> (int \<times> 'k world) option" where
  "session_handle_ping os w = do {
     _ \<leftarrow> c_assert (ss_new_frame (sess w));
     if has_flag (hdr_flags (host_le os) (ss_hdr (sess w))) FLAG_SYN then do {
       let hdr = hdr_encode (host_le os) TYPE_PING FLAG_ACK 0 (hdr_length (host_le os) (ss_hdr (sess w)));
       (r, w) \<leftarrow> session_send_buf_write hdr 12 w;
       if r \<noteq> 0 then do {
         (_, w) \<leftarrow> session_go_away_for_reason os GO_AWAY_INTERNAL_ERR w;
         Some (- 1, w)
       }
       else Some (0, w)
     }
     else Some (0, w)
   }"

definition session_handle_go_away :: "'k os \<Rightarrow> 'k world \<Rightarrow> (int \<times> 'k world) option" where
  "session_handle_go_away os w = do {
     _ \<leftarrow> c_assert (ss_new_frame (sess w));
     let code = hdr_length (host_le os) (ss_hdr (sess w));
     if code = GO_AWAY_NORMAL then Some (0, put_sess ((sess w)\<lparr>ss_remote_go_away := True\<rparr>) w)
     else if code = GO_AWAY_PROTO_ERR then Some (- 1, w)
     else if code = GO_AWAY_INTERNAL_ERR then Some (- 1, w)
     else Some (- 1, w)
   }"

definition session_handle :: "'k os \<Rightarrow> 'k world \<Rightarrow> (int \<times> 'k world) option" where
  "session_handle os w =
     (let type = hdr_type (ss_hdr (sess w)) in
      if type = TYPE_DATA then session_handle_data os w
      else if type = TYPE_WINDOW_UPDATE then session_handle_window_update os w
      else if type = TYPE_PING then session_handle_ping os w
      else if type = TYPE_GO_AWAY then session_handle_go_away os w
      else Some (- 1, w))"

text \<open>The loop of \<^verbatim>\<open>session_process\<close>, with \<^verbatim>\<open>recv_lock\<close> held; the caller unlocks on every exit.\<close>

partial_function (option) session_process_loop :: "'k os \<Rightarrow> 'k world \<Rightarrow> (int \<times> 'k world) option" where
  "session_process_loop os w =
     (if bio_pending (ss_recv_buf (sess w)) = 0 then Some (0, w)
      else if ss_new_frame (sess w) \<and> bio_pending (ss_recv_buf (sess w)) < 12 then Some (0, w)
      else do {
        (bad, w) \<leftarrow> (if ss_new_frame (sess w) then do {
             (r, hdr, b) \<leftarrow> bio_read (ss_recv_buf (sess w)) 12;
             let w = put_sess ((sess w)\<lparr>ss_recv_buf := b, ss_hdr := hdr @ drop (length hdr) (ss_hdr (sess w))\<rparr>) w;
             _ \<leftarrow> c_assert (r = 12);
             Some (hdr_version (ss_hdr (sess w)) \<noteq> VERSION, w)
           } else Some (False, w));
        if bad then Some (- 1, w)
        else do {
          (r, w) \<leftarrow> session_handle os w;
          if r \<noteq> 0 then Some (- 1, session_exit w)
          else session_process_loop os w
        }
      })"

definition session_process :: "'k os \<Rightarrow> 'k world \<Rightarrow> (int \<times> 'k world) option" where
  "session_process os w = do {
     w \<leftarrow> mutex_lock Session_recv_lock w;
     (r, w) \<leftarrow> session_process_loop os w;
     w \<leftarrow> mutex_unlock Session_recv_lock w;
     Some (r, w)
   }"

section \<open>Buffers towards the transport\<close>

definition session_go_away :: "'k os \<Rightarrow> 'k world \<Rightarrow> (int \<times> 'k world) option" where
  "session_go_away os w = session_go_away_for_reason os GO_AWAY_NORMAL w"

definition session_recv_buf_write :: "byte list \<Rightarrow> nat \<Rightarrow> 'k world \<Rightarrow> (int \<times> 'k world) option" where
  "session_recv_buf_write data n w = do {
     w \<leftarrow> mutex_lock Session_recv_lock w;
     (r, b, al) \<leftarrow> bio_write (ss_recv_buf (sess w)) data n (mem w);
     let w = (put_sess ((sess w)\<lparr>ss_recv_buf := b\<rparr>) w)\<lparr>mem := al\<rparr>;
     w \<leftarrow> mutex_unlock Session_recv_lock w;
     Some (if r = - 1 then - 1 else to_int n, w)
   }"

definition session_send_buf_pending :: "'k world \<Rightarrow> (int \<times> 'k world) option" where
  "session_send_buf_pending w = do {
     w \<leftarrow> mutex_lock Session_send_lock w;
     let r = bio_pending (ss_send_buf (sess w));
     w \<leftarrow> mutex_unlock Session_send_lock w;
     Some (r, w)
   }"

definition session_send_buf_peek :: "nat \<Rightarrow> 'k world \<Rightarrow> (int \<times> byte list \<times> 'k world) option" where
  "session_send_buf_peek n w = do {
     w \<leftarrow> mutex_lock Session_send_lock w;
     (r, buf) \<leftarrow> bio_peek (ss_send_buf (sess w)) n;
     w \<leftarrow> mutex_unlock Session_send_lock w;
     Some (r, buf, w)
   }"

definition session_send_buf_consume :: "nat \<Rightarrow> 'k world \<Rightarrow> (int \<times> 'k world) option" where
  "session_send_buf_consume n w = do {
     w \<leftarrow> mutex_lock Session_send_lock w;
     (r, b) \<leftarrow> bio_consume (ss_send_buf (sess w)) n;
     let w = put_sess ((sess w)\<lparr>ss_send_buf := b\<rparr>) w;
     w \<leftarrow> mutex_unlock Session_send_lock w;
     Some (r, w)
   }"

text \<open>Stubs of the source.\<close>

definition session_close :: "'k world \<Rightarrow> int \<times> 'k world" where
  "session_close w = (0, w)"

definition session_ping :: "'k world \<Rightarrow> int \<times> 'k world" where
  "session_ping w = (0, w)"

end
