(* ===== verification/Api.thy ===== *)
theory Api
  imports Session
begin

text \<open>
  The calls an application makes on streams and sessions (\<^verbatim>\<open>mux.c\<close>, second half). A call on a
  blocking descriptor waits in \<^verbatim>\<open>select\<close> while other threads work on the session; what they
  do meanwhile is the parameter \<open>env\<close>, applied to the world when \<^verbatim>\<open>select\<close> returns.
\<close>

definition c_select ::
  "'k os \<Rightarrow> ('k world \<Rightarrow> 'k world) \<Rightarrow> int \<Rightarrow> direction \<Rightarrow> 'k world \<Rightarrow> (int \<times> bool \<times> 'k world) option" where
  "c_select os env fd dir w = do {
     let w = env w;
     (r, isset, k) \<leftarrow> sys_select os fd dir (kern w);
     Some (r, isset, w\<lparr>kern := k\<rparr>)
   }"

section \<open>Reading\<close>

text \<open>The first block of \<^verbatim>\<open>stream_read\<close>: \<open>Some r\<close> when the state alone decides the result.\<close>

definition read_state_check :: "addr \<Rightarrow> 'k world \<Rightarrow> (int option \<times> 'k world) option" where
  "read_state_check a w = do {
     w \<leftarrow> mutex_lock (State_lock a) w;
     s \<leftarrow> heap w a;
     if st_state s \<in> {STATE_LOCAL_CLOSE, STATE_REMOTE_CLOSE, STATE_CLOSED} then do {
       w \<leftarrow> mutex_lock (Recv_lock a) w;
       if bio_pending (st_recv_buf s) = 0 then do {
         w \<leftarrow> mutex_unlock (Recv_lock a) w;
         w \<leftarrow> mutex_unlock (State_lock a) w;
         Some (Some 0, w)
       }
       else do {
         w \<leftarrow> mutex_unlock (Recv_lock a) w;
         w \<leftarrow> mutex_unlock (State_lock a) w;
         Some (None, w)
       }
     }
     else if st_state s = STATE_RESET then do {
       w \<leftarrow> mutex_unlock (State_lock a) w;
       Some (Some (- 1), w)
     }
     else do {
       w \<leftarrow> mutex_unlock (State_lock a) w;
       Some (None, w)
     }
   }"

text \<open>The end of \<^verbatim>\<open>stream_read\<close>, when the receive buffer is not empty.\<close>

definition read_data :: "'k os \<Rightarrow> addr \<Rightarrow> nat \<Rightarrow> 'k world \<Rightarrow> (int \<times> byte list \<times> 'k world) option" where
  "read_data os a n w = do {
     w \<leftarrow> mutex_lock (Recv_lock a) w;
     s \<leftarrow> heap w a;
     (r, buf, b) \<leftarrow> bio_read (st_recv_buf s) n;
     _ \<leftarrow> c_assert (r > 0);
     let pending = bio_pending b;
     let w = put_stream a (s\<lparr>st_recv_buf := b\<rparr>) w;
     w \<leftarrow> mutex_unlock (Recv_lock a) w;
     (e, w) \<leftarrow> (if pending = 0 then stream_readable_waiting os a w else Some (0, w));
     if e \<noteq> 0 then Some (- 1, buf, w)
     else do {
       (_, w) \<leftarrow> send_window_update os a w;
       Some (r, buf, w)
     }
   }"

text \<open>The result is the return value with the bytes stored in the caller's buffer.\<close>

partial_function (option) stream_read ::
  "'k os \<Rightarrow> ('k world \<Rightarrow> 'k world) \<Rightarrow> addr \<Rightarrow> nat \<Rightarrow> 'k world \<Rightarrow> (int \<times> byte list \<times> 'k world) option" where
  "stream_read os env a n w = do {
     (ret, w) \<leftarrow> read_state_check a w;
     case ret of
       Some r \<Rightarrow> Some (r, [], w)
     | None \<Rightarrow> do {
         w \<leftarrow> mutex_lock (Recv_lock a) w;
         s \<leftarrow> heap w a;
         let r = bio_pending (st_recv_buf s);
         w \<leftarrow> mutex_unlock (Recv_lock a) w;
         if r = 0 then
           (if \<not> would_block os (st_fd s) w then Some (- 1, [], w\<lparr>errno := EAGAIN\<rparr>)
            else do {
              (r, isset, w) \<leftarrow> c_select os env (st_fd s) For_Reading w;
              if r \<noteq> 1 then Some (- 1, [], w)
              else do {
                _ \<leftarrow> c_assert isset;
                stream_read os env a n w
              }
            })
         else read_data os a n w
       }
   }"

section \<open>Writing\<close>

text \<open>The first block of \<^verbatim>\<open>stream_write\<close>: whether the state closes the sending side.\<close>

definition write_state_check :: "addr \<Rightarrow> 'k world \<Rightarrow> (bool \<times> 'k world) option" where
  "write_state_check a w = do {
     w \<leftarrow> mutex_lock (State_lock a) w;
     s \<leftarrow> heap w a;
     w \<leftarrow> mutex_unlock (State_lock a) w;
     Some (st_state s \<in> {STATE_LOCAL_CLOSE, STATE_CLOSED, STATE_RESET}, w)
   }"

text \<open>The last part of \<^verbatim>\<open>stream_write\<close>, after the frame is in the send buffer.\<close>

definition write_finish :: "'k os \<Rightarrow> addr \<Rightarrow> uint32 \<Rightarrow> 'k world \<Rightarrow> (int \<times> 'k world) option" where
  "write_finish os a max_len w = do {
     w \<leftarrow> mutex_lock (Send_lock a) w;
     s \<leftarrow> heap w a;
     let window = st_send_window s - max_len;
     let w = put_stream a (s\<lparr>st_send_window := window\<rparr>) w;
     w \<leftarrow> mutex_unlock (Send_lock a) w;
     (e, w) \<leftarrow> (if window = 0 then stream_writeable_waiting os a w else Some (0, w));
     w \<leftarrow> (if e \<noteq> 0 then do {
             (_, w) \<leftarrow> session_go_away_for_reason os GO_AWAY_INTERNAL_ERR w;
             Some w
           } else Some w);
     Some (sint max_len, w)
   }"

text \<open>The end of \<^verbatim>\<open>stream_write\<close>, when the window it read was \<open>window\<close>, not 0.\<close>

definition write_data ::
  "'k os \<Rightarrow> addr \<Rightarrow> uint32 \<Rightarrow> byte list \<Rightarrow> nat \<Rightarrow> 'k world \<Rightarrow> (int \<times> 'k world) option" where
  "write_data os a window data n w = do {
     (flags, w) \<leftarrow> stream_send_flags a w;
     let max_len = (of_nat (min (unat window) n) :: uint32);
     s \<leftarrow> heap w a;
     let hdr = hdr_encode (host_le os) TYPE_DATA flags (st_id s) max_len;
     (r, w) \<leftarrow> session_send_buf_write hdr 12 w;
     if r = - 1 then Some (- 1, w)
     else do {
       (r, w) \<leftarrow> session_send_buf_write data (unat max_len) w;
       if r = - 1 then Some (- 1, w)
       else write_finish os a max_len w
     }
   }"

partial_function (option) stream_write ::
  "'k os \<Rightarrow> ('k world \<Rightarrow> 'k world) \<Rightarrow> addr \<Rightarrow> byte list \<Rightarrow> nat \<Rightarrow> 'k world \<Rightarrow> (int \<times> 'k world) option" where
  "stream_write os env a data n w = do {
     (closed, w) \<leftarrow> write_state_check a w;
     if closed then Some (0, w)
     else do {
       w \<leftarrow> mutex_lock (Send_lock a) w;
       s \<leftarrow> heap w a;
       w \<leftarrow> mutex_unlock (Send_lock a) w;
       if st_send_window s = 0 then
         (if \<not> would_block os (st_fd s) w then Some (- 1, w\<lparr>errno := EAGAIN\<rparr>)
          else do {
            (r, isset, w) \<leftarrow> c_select os env (st_fd s) For_Writing w;
            if r \<le> 0 then Some (- 1, w)
            else do {
              _ \<leftarrow> c_assert isset;
              stream_write os env a data n w
            }
          })
       else write_data os a (st_send_window s) data n w
     }
   }"

definition stream_close :: "addr \<Rightarrow> 'k world \<Rightarrow> 'k world" where
  "stream_close a w = w"

section \<open>Opening and accepting\<close>

text \<open>
  The compare-and-exchange loop of \<^verbatim>\<open>session_open\<close>, from a value loaded from \<^verbatim>\<open>next_id\<close>.
  \<open>cur\<close> is what other threads do to \<^verbatim>\<open>next_id\<close> meanwhile: for every round the value it has at
  the exchange, and the value the next round loads. The exchange stores only if the value
  is the one that was loaded; with no entry left the thread is not disturbed.
\<close>

fun next_id_loop :: "(uint32 \<times> uint32) list \<Rightarrow> uint32 \<Rightarrow> (uint32 option \<times> uint32)" where
  "next_id_loop cur nid =
     (if nid \<ge> 0xFFFFFFFF then (None, nid)
      else case cur of
        [] \<Rightarrow> (Some nid, nid + 2)
      | (c, l) # cs \<Rightarrow> if c = nid then (Some nid, nid + 2) else next_id_loop cs l)"

definition session_open :: "'k os \<Rightarrow> (uint32 \<times> uint32) list \<Rightarrow> 'k world \<Rightarrow> (int \<times> ptr \<times> 'k world) option" where
  "session_open os cur w =
     (if ss_remote_go_away (sess w) then Some (- 1, None, w)
      else
        let (sid, nid) = next_id_loop cur (ss_next_id (sess w));
            w = put_sess ((sess w)\<lparr>ss_next_id := nid\<rparr>) w in
        case sid of
          None \<Rightarrow> Some (- 1, None, w)
        | Some sid \<Rightarrow> do {
            (stream, w) \<leftarrow> stream_new os sid STATE_INIT w;
            case stream of
              None \<Rightarrow> Some (- 1, None, w)
            | Some a \<Rightarrow> do {
                (e, w) \<leftarrow> send_window_update os a w;
                if e \<noteq> 0 then do { w \<leftarrow> stream_free os a w; Some (- 1, Some a, w) }
                else Some (0, Some a, w)
              }
          })"

definition session_accept :: "'k os \<Rightarrow> 'k world \<Rightarrow> (int \<times> ptr \<times> 'k world) option" where
  "session_accept os w = do {
     (r, d, w) \<leftarrow> c_read os (ss_fd (sess w)) 4 w;
     if r = - 1 then do {
       (_, w) \<leftarrow> session_go_away_for_reason os GO_AWAY_INTERNAL_ERR w;
       Some (- 1, None, w)
     }
     else do {
       _ \<leftarrow> c_assert (r = 4);
       let sid = load32 (host_le os) d;
       (stream, w) \<leftarrow> session_find_stream sid w;
       a \<leftarrow> stream;
       (e, w) \<leftarrow> send_window_update os a w;
       if e \<noteq> 0 then Some (- 1, Some a, w) else Some (0, Some a, w)
     }
   }"

end
