(* ===== verification/View.thy ===== *)
theory View
  imports Api
begin

text \<open>
  The abstract session and the representation invariant. \<open>view w\<close> forgets the pointers: byte
  queues become byte lists, the red-black tree a map from stream ids to streams, and mutexes,
  allocator and kernel disappear. \<open>winv os H w\<close> says that the concrete state is well formed and
  that exactly the mutexes of \<open>H\<close> are held. Every operation is then described by what it does
  to \<open>view w\<close>.
\<close>

section \<open>The abstract session\<close>

record astream =
  a_state :: stream_state
  a_id :: uint32
  a_recv_window :: uint32
  a_send_window :: uint32
  a_data :: "byte list"
  a_readable :: bool
  a_writeable :: bool

record asession =
  a_table :: "uint32 \<rightharpoonup> addr"
  a_streams :: "addr \<rightharpoonup> astream"
  a_in :: "byte list"
  a_out :: "byte list"
  a_hdr :: "byte list"
  a_new_frame :: bool
  a_remain :: uint32
  a_remote_go_away :: bool
  a_local_go_away :: bool
  a_next_id :: uint32
  a_brk :: addr

definition view_stream :: "stream \<Rightarrow> astream" where
  "view_stream s = \<lparr>a_state = st_state s, a_id = st_id s, a_recv_window = st_recv_window s,
     a_send_window = st_send_window s, a_data = bio_bytes (st_recv_buf s),
     a_readable = st_readable s, a_writeable = st_writeable s\<rparr>"

text \<open>The map the tree implements: what a lookup of an id returns.\<close>

definition table :: "'k world \<Rightarrow> uint32 \<rightharpoonup> addr" where
  "table w = (\<lambda>sid. the (RB_FIND (stream_probe w sid) (ss_streams (sess w))))"

definition view :: "'k world \<Rightarrow> asession" where
  "view w = \<lparr>a_table = table w, a_streams = (\<lambda>a. map_option view_stream (heap w a)),
     a_in = bio_bytes (ss_recv_buf (sess w)), a_out = bio_bytes (ss_send_buf (sess w)),
     a_hdr = ss_hdr (sess w), a_new_frame = ss_new_frame (sess w), a_remain = ss_frame_remain (sess w),
     a_remote_go_away = ss_remote_go_away (sess w), a_local_go_away = ss_local_go_away (sess w),
     a_next_id = ss_next_id (sess w), a_brk = brk w\<rparr>"

section \<open>The representation invariant\<close>

fun live :: "'k world \<Rightarrow> mutex \<Rightarrow> bool" where
  "live w Session_recv_lock = True"
| "live w Session_send_lock = True"
| "live w Session_streams_lock = True"
| "live w (State_lock a) = (heap w a \<noteq> None)"
| "live w (Recv_lock a) = (heap w a \<noteq> None)"
| "live w (Send_lock a) = (heap w a \<noteq> None)"

definition stream_key :: "'k world \<Rightarrow> addr \<Rightarrow> uint32" where
  "stream_key w a = (case heap w a of None \<Rightarrow> 0 | Some s \<Rightarrow> st_id s)"

definition locks_ok :: "mutex set \<Rightarrow> 'k world \<Rightarrow> bool" where
  "locks_ok H w \<longleftrightarrow> (\<forall>m. live w m \<longrightarrow> mutexes w m = (if m \<in> H then Held else Free))"

definition index_ok :: "'k world \<Rightarrow> bool" where
  "index_ok w \<longleftrightarrow> rb_map (stream_key w) (ss_streams (sess w)) (table w) \<and>
     (\<forall>sid a. table w sid = Some a \<longleftrightarrow> (\<exists>s. heap w a = Some s \<and> st_id s = sid))"

definition store_ok :: "'k world \<Rightarrow> bool" where
  "store_ok w \<longleftrightarrow> bio_ok (ss_recv_buf (sess w)) \<and> bio_ok (ss_send_buf (sess w)) \<and>
     length (ss_hdr (sess w)) = 12 \<and>
     (\<forall>a s. heap w a = Some s \<longrightarrow> bio_ok (st_recv_buf s) \<and> a < brk w)"

text \<open>
  The descriptors. Every stream and the session have a socket pair of their own, and the two
  flags of a stream agree with what is in its pair: there is a byte to read where the code
  is going to read one, so that the read does not wait.
\<close>

definition socks :: "'k world \<Rightarrow> addr option \<Rightarrow> (int \<times> int) option" where
  "socks w x = (case x of
      None \<Rightarrow> Some (ss_fd (sess w), ss_private_fd (sess w))
    | Some a \<Rightarrow> map_option (\<lambda>s. (st_fd s, st_private_fd s)) (heap w a))"

definition signals :: "'k world \<Rightarrow> addr \<Rightarrow> (bool \<times> bool) option" where
  "signals w a = map_option (\<lambda>s. (st_readable s, st_writeable s)) (heap w a)"

definition paired :: "'k os \<Rightarrow> 'k \<Rightarrow> int \<times> int \<Rightarrow> bool" where
  "paired os k p \<longleftrightarrow> fst p \<noteq> snd p \<and> peer os (fst p) k = Some (snd p) \<and> peer os (snd p) k = Some (fst p)"

definition apart :: "int \<times> int \<Rightarrow> int \<times> int \<Rightarrow> bool" where
  "apart p q \<longleftrightarrow> {fst p, snd p} \<inter> {fst q, snd q} = {}"

definition signalled :: "'k os \<Rightarrow> 'k \<Rightarrow> int \<times> int \<Rightarrow> bool \<times> bool \<Rightarrow> bool" where
  "signalled os k p f \<longleftrightarrow> (fst f \<longrightarrow> 0 < avail os (fst p) k) \<and> (\<not> snd f \<longrightarrow> 0 < avail os (snd p) k)"

definition wired :: "'k os \<Rightarrow> 'k world \<Rightarrow> bool" where
  "wired os w \<longleftrightarrow> (\<forall>x p. socks w x = Some p \<longrightarrow> paired os (kern w) p) \<and>
     (\<forall>x y p q. socks w x = Some p \<longrightarrow> socks w y = Some q \<longrightarrow> x \<noteq> y \<longrightarrow> apart p q) \<and>
     (\<forall>a p f. socks w (Some a) = Some p \<longrightarrow> signals w a = Some f \<longrightarrow> signalled os (kern w) p f)"

lemma wiredI:
  assumes "\<And>x p. socks w x = Some p \<Longrightarrow> paired os (kern w) p"
    and "\<And>x y p q. socks w x = Some p \<Longrightarrow> socks w y = Some q \<Longrightarrow> x \<noteq> y \<Longrightarrow> apart p q"
    and "\<And>a p f. socks w (Some a) = Some p \<Longrightarrow> signals w a = Some f \<Longrightarrow> signalled os (kern w) p f"
  shows "wired os w"
  unfolding wired_def using assms by blast

lemma wiredD:
  assumes "wired os w"
  shows "socks w x = Some p \<Longrightarrow> paired os (kern w) p"
    and "socks w x = Some p \<Longrightarrow> socks w y = Some q \<Longrightarrow> x \<noteq> y \<Longrightarrow> apart p q"
    and "socks w (Some a) = Some p \<Longrightarrow> signals w a = Some f \<Longrightarrow> signalled os (kern w) p f"
  using assms unfolding wired_def by blast+

definition winv :: "'k os \<Rightarrow> mutex set \<Rightarrow> 'k world \<Rightarrow> bool" where
  "winv os H w \<longleftrightarrow> locks_ok H w \<and> index_ok w \<and> store_ok w \<and> wired os w"

section \<open>What is assumed of the system calls\<close>

text \<open>
  \<open>os_live\<close> is the documented behaviour of the calls, failures included. A read returns if
  there is something to read or nothing is asked for; it takes what it returns from the front
  and changes no other descriptor. A write returns, is not split if it is of at most four
  bytes, and adds to what the other end can read. A new socket pair is two descriptors that
  are in no pair. The other calls leave the contents of the sockets alone.
\<close>

definition quiet :: "'k os \<Rightarrow> 'k \<Rightarrow> 'k \<Rightarrow> bool" where
  "quiet os k k' \<longleftrightarrow> (\<forall>fd. peer os fd k' = peer os fd k \<and> avail os fd k' = avail os fd k)"

definition reads_ok :: "'k os \<Rightarrow> bool" where
  "reads_ok os \<longleftrightarrow> (\<forall>fd n k.
     (n = 0 \<or> 0 < avail os fd k \<longrightarrow> sys_read os fd n k \<noteq> None) \<and>
     (\<forall>res k'. sys_read os fd n k = Some (res, k') \<longrightarrow>
        (\<forall>f. peer os f k' = peer os f k) \<and> (\<forall>f. f \<noteq> fd \<longrightarrow> avail os f k' = avail os f k) \<and>
        avail os fd k = avail os fd k' + (case res of None \<Rightarrow> 0 | Some d \<Rightarrow> length d) \<and>
        (\<forall>d. res = Some d \<longrightarrow> length d \<le> n \<and> (0 < n \<and> 0 < avail os fd k \<longrightarrow> d \<noteq> []))))"

definition writes_ok :: "'k os \<Rightarrow> bool" where
  "writes_ok os \<longleftrightarrow> (\<forall>fd d k. \<exists>r k'. sys_write os fd d k = Some (r, k') \<and>
     - 1 \<le> r \<and> r \<le> int (length d) \<and> (length d \<le> 4 \<longrightarrow> r = - 1 \<or> r = int (length d)) \<and>
     (\<forall>f. peer os f k' = peer os f k) \<and>
     (\<forall>f. avail os f k' = (if peer os fd k = Some f \<and> 0 < r then avail os f k + nat r else avail os f k)))"

definition pairs_ok :: "'k os \<Rightarrow> bool" where
  "pairs_ok os \<longleftrightarrow> (\<forall>k k'. (sys_socketpair os k = (None, k') \<longrightarrow> quiet os k k') \<and>
     (\<forall>fd0 fd1. sys_socketpair os k = (Some (fd0, fd1), k') \<longrightarrow>
        peer os fd0 k = None \<and> peer os fd1 k = None \<and> paired os k' (fd0, fd1) \<and>
        (\<forall>f. f \<noteq> fd0 \<and> f \<noteq> fd1 \<longrightarrow> peer os f k' = peer os f k \<and> avail os f k' = avail os f k)))"

definition closes_ok :: "'k os \<Rightarrow> bool" where
  "closes_ok os \<longleftrightarrow> (\<forall>fd k f. f \<noteq> fd \<and> peer os f k \<noteq> Some fd \<longrightarrow>
     peer os f (sys_close os fd k) = peer os f k \<and> avail os f (sys_close os fd k) = avail os f k)"

definition options_ok :: "'k os \<Rightarrow> bool" where
  "options_ok os \<longleftrightarrow> (\<forall>fd opt v k. quiet os k (snd (sys_setsockopt os fd opt v k))) \<and>
     (\<forall>fd opt k. quiet os k (snd (sys_getsockopt os fd opt k)))"

definition os_live :: "'k os \<Rightarrow> bool" where
  "os_live os \<longleftrightarrow> reads_ok os \<and> writes_ok os \<and> pairs_ok os \<and> closes_ok os \<and> options_ok os"

text \<open>
  \<open>reliable\<close>: moreover no call and no \<^verbatim>\<open>malloc\<close> fails, and every stream has some padding to
  write.
\<close>

definition os_reliable :: "'k os \<Rightarrow> bool" where
  "os_reliable os \<longleftrightarrow> os_live os \<and>
     (\<forall>fd n k. 0 < n \<longrightarrow> 0 < avail os fd k \<longrightarrow> (\<exists>d k'. sys_read os fd n k = Some (Some d, k'))) \<and>
     (\<forall>fd d k. d \<noteq> [] \<longrightarrow> (\<exists>r k'. sys_write os fd d k = Some (r, k') \<and> 0 < r)) \<and>
     (\<forall>k. fst (sys_socketpair os k) \<noteq> None) \<and>
     (\<forall>fd opt v k. fst (sys_setsockopt os fd opt v k) = 0) \<and>
     (\<forall>fd opt k. \<exists>v. fst (sys_getsockopt os fd opt k) = Some v \<and> 0 < v \<and> v < 2 ^ 31) \<and>
     (\<forall>n k. length (uninit os n k) = n)"

definition reliable :: "'k os \<Rightarrow> 'k world \<Rightarrow> bool" where
  "reliable os w \<longleftrightarrow> os_reliable os \<and> never_fails (mem w) \<and>
     (\<forall>a s. heap w a = Some s \<longrightarrow> st_send_padding s \<noteq> 0)"

section \<open>Frame rules\<close>

text \<open>The index depends on the ids of the streams and on the tree only.\<close>

definition ids :: "'k world \<Rightarrow> addr \<rightharpoonup> uint32" where
  "ids w a = map_option st_id (heap w a)"

lemma probe_ids: "stream_probe w = (\<lambda>sid b. map_option (stream_compare sid) (ids w b))"
  by (intro ext) (simp add: stream_probe_def ids_def map_conv_bind_option bind_split split: option.split)

lemma key_ids: "stream_key w = (\<lambda>a. case ids w a of None \<Rightarrow> 0 | Some i \<Rightarrow> i)"
  by (intro ext) (simp add: stream_key_def ids_def split: option.split)

lemma ex_ids: "(\<exists>s. heap w a = Some s \<and> st_id s = sid) \<longleftrightarrow> ids w a = Some sid"
  by (simp add: ids_def map_option_eq_Some)

lemma index_cong:
  assumes "ids w' = ids w" and "ss_streams (sess w') = ss_streams (sess w)"
  shows "table w' = table w" "index_ok w' = index_ok w"
  using assms by (simp_all add: table_def index_ok_def probe_ids key_ids ex_ids)

lemma ids_upd [simp]:
  "ids (w\<lparr>kern := k\<rparr>) = ids w" "ids (w\<lparr>mem := al\<rparr>) = ids w" "ids (w\<lparr>errno := e\<rparr>) = ids w"
  "ids (w\<lparr>mutexes := f\<rparr>) = ids w" "ids (w\<lparr>sess := t\<rparr>) = ids w" "ids (w\<lparr>brk := n\<rparr>) = ids w"
  by (simp_all add: ids_def fun_eq_iff)

lemma live_cong: "(\<And>a. (heap w' a = None) = (heap w a = None)) \<Longrightarrow> live w' m = live w m"
  by (cases m) auto

text \<open>The sockets matter to \<open>wired\<close> only; the allocator matters to nothing.\<close>

lemma wired_cong:
  assumes "\<And>x. socks w' x = socks w x" and "\<And>a. signals w' a = signals w a" and "quiet os (kern w) (kern w')"
  shows "wired os w' = wired os w"
  using assms by (simp add: wired_def paired_def signalled_def quiet_def)

lemma quiet_refl [simp]: "quiet os k k"
  by (simp add: quiet_def)

lemma socks_upd [simp]:
  "socks (w\<lparr>kern := k\<rparr>) = socks w" "socks (w\<lparr>mem := al\<rparr>) = socks w" "socks (w\<lparr>errno := e\<rparr>) = socks w"
  "socks (w\<lparr>mutexes := f\<rparr>) = socks w" "socks (w\<lparr>brk := n\<rparr>) = socks w"
  "signals (w\<lparr>kern := k\<rparr>) = signals w" "signals (w\<lparr>mem := al\<rparr>) = signals w" "signals (w\<lparr>errno := e\<rparr>) = signals w"
  "signals (w\<lparr>mutexes := f\<rparr>) = signals w" "signals (w\<lparr>brk := n\<rparr>) = signals w"
  by (simp_all add: socks_def signals_def fun_eq_iff split: option.split)

lemma wired_upd [simp]:
  "wired os (w\<lparr>mem := al\<rparr>) = wired os w" "wired os (w\<lparr>errno := e\<rparr>) = wired os w"
  "wired os (w\<lparr>mutexes := f\<rparr>) = wired os w" "wired os (w\<lparr>brk := n\<rparr>) = wired os w"
  by (rule wired_cong; simp)+

lemma winv_kern:
  assumes "winv os H w" and "wired os (w\<lparr>kern := k\<rparr>)"
  shows "winv os H (w\<lparr>kern := k\<rparr>)"
proof -
  have "live (w\<lparr>kern := k\<rparr>) = live w" by (intro ext live_cong) simp
  then show ?thesis using assms index_cong(2) [of "w\<lparr>kern := k\<rparr>" w] by (simp add: winv_def locks_ok_def store_ok_def)
qed

lemma winv_upd [simp]:
  "winv os H (w\<lparr>mem := al\<rparr>) = winv os H w" "winv os H (w\<lparr>errno := e\<rparr>) = winv os H w"
proof -
  have "live (w\<lparr>mem := al\<rparr>) = live w" "live (w\<lparr>errno := e\<rparr>) = live w" by (intro ext live_cong; simp)+
  then show "winv os H (w\<lparr>mem := al\<rparr>) = winv os H w" "winv os H (w\<lparr>errno := e\<rparr>) = winv os H w"
    using index_cong(2) [of "w\<lparr>mem := al\<rparr>" w] index_cong(2) [of "w\<lparr>errno := e\<rparr>" w]
    by (simp_all add: winv_def locks_ok_def store_ok_def)
qed

lemma winv_wired: "winv os H w \<Longrightarrow> wired os w"
  by (simp add: winv_def)

lemma view_upd [simp]:
  "view (w\<lparr>kern := k\<rparr>) = view w" "view (w\<lparr>mem := al\<rparr>) = view w" "view (w\<lparr>errno := e\<rparr>) = view w"
  "view (w\<lparr>mutexes := f\<rparr>) = view w"
  using index_cong(1) [of "w\<lparr>kern := k\<rparr>" w] index_cong(1) [of "w\<lparr>mem := al\<rparr>" w]
    index_cong(1) [of "w\<lparr>errno := e\<rparr>" w] index_cong(1) [of "w\<lparr>mutexes := f\<rparr>" w]
  by (simp_all add: view_def)

lemma reliable_upd [simp]:
  "reliable os (w\<lparr>kern := k\<rparr>) = reliable os w" "reliable os (w\<lparr>errno := e\<rparr>) = reliable os w"
  "reliable os (w\<lparr>mutexes := f\<rparr>) = reliable os w" "reliable os (put_sess s w) = reliable os w"
  "succeeds al = succeeds (mem w) \<Longrightarrow> reliable os (w\<lparr>mem := al\<rparr>) = reliable os w"
  by (simp_all add: reliable_def put_sess_def never_fails_def)

lemma put_simps [simp]:
  "sess (put_stream a s w) = sess w" "heap (put_stream a s w) = (heap w)(a \<mapsto> s)"
  "mutexes (put_stream a s w) = mutexes w" "mem (put_stream a s w) = mem w"
  "kern (put_stream a s w) = kern w" "brk (put_stream a s w) = brk w" "errno (put_stream a s w) = errno w"
  "sess (put_sess t w) = t" "heap (put_sess t w) = heap w" "mutexes (put_sess t w) = mutexes w"
  "mem (put_sess t w) = mem w" "kern (put_sess t w) = kern w" "brk (put_sess t w) = brk w"
  "errno (put_sess t w) = errno w"
  by (simp_all add: put_stream_def put_sess_def)

lemma ids_put:
  "ids (put_sess t w) = ids w" "heap w a = Some s \<Longrightarrow> st_id s' = st_id s \<Longrightarrow> ids (put_stream a s' w) = ids w"
  by (auto simp: ids_def fun_eq_iff)

subsection \<open>Mutexes\<close>

lemma locks_ok_held:
  assumes "locks_ok H w" and "live w m"
  shows "mutexes w m = (if m \<in> H then Held else Free)"
  using assms by (simp add: locks_ok_def)

lemma winv_mutex: "winv os H w \<Longrightarrow> live w m \<Longrightarrow> mutexes w m = (if m \<in> H then Held else Free)"
  by (simp add: winv_def locks_ok_held)

lemma winv_mutexes_upd:
  assumes "winv os H w"
  shows "winv os (insert m H) (w\<lparr>mutexes := (mutexes w)(m := Held)\<rparr>)"
    "winv os (H - {m}) (w\<lparr>mutexes := (mutexes w)(m := Free)\<rparr>)"
proof -
  have "\<And>f. live (w\<lparr>mutexes := f\<rparr>) = live w" by (intro ext live_cong) simp
  moreover have "\<And>f. index_ok (w\<lparr>mutexes := f\<rparr>) = index_ok w" by (rule index_cong(2)) simp_all
  ultimately show "winv os (insert m H) (w\<lparr>mutexes := (mutexes w)(m := Held)\<rparr>)"
    "winv os (H - {m}) (w\<lparr>mutexes := (mutexes w)(m := Free)\<rparr>)"
    using assms by (auto simp: winv_def locks_ok_def store_ok_def)
qed

lemma wp_lock:
  assumes "winv os H w" and "live w m" and "m \<notin> H"
    and "winv os (insert m H) (w\<lparr>mutexes := (mutexes w)(m := Held)\<rparr>) \<Longrightarrow> Q (w\<lparr>mutexes := (mutexes w)(m := Held)\<rparr>)"
  shows "wp (mutex_lock m w) Q"
  using assms winv_mutexes_upd(1) [OF assms(1)] winv_mutex [OF assms(1,2)] by (simp add: mutex_lock_def)

lemma wp_unlock:
  assumes "winv os H w" and "live w m" and "m \<in> H"
    and "winv os (H - {m}) (w\<lparr>mutexes := (mutexes w)(m := Free)\<rparr>) \<Longrightarrow> Q (w\<lparr>mutexes := (mutexes w)(m := Free)\<rparr>)"
  shows "wp (mutex_unlock m w) Q"
  using assms winv_mutexes_upd(2) [OF assms(1)] winv_mutex [OF assms(1,2)] by (simp add: mutex_unlock_def)

text \<open>Around a body that leaves the mutexes alone, a lock and its unlock cancel.\<close>

lemma mutex_lock_free: "mutexes w m = Free \<Longrightarrow> mutex_lock m w = Some (w\<lparr>mutexes := (mutexes w)(m := Held)\<rparr>)"
  by (simp add: mutex_lock_def)

lemma mutex_unlock_held: "mutexes w m = Held \<Longrightarrow> mutex_unlock m w = Some (w\<lparr>mutexes := (mutexes w)(m := Free)\<rparr>)"
  by (simp add: mutex_unlock_def)

lemma mutexes_same: "f = mutexes w \<Longrightarrow> w\<lparr>mutexes := f\<rparr> = w"
  by simp

lemma put_mutexes:
  "put_stream a s (w\<lparr>mutexes := f\<rparr>) = (put_stream a s w)\<lparr>mutexes := f\<rparr>"
  "put_sess t (w\<lparr>mutexes := f\<rparr>) = (put_sess t w)\<lparr>mutexes := f\<rparr>"
  by (simp_all add: put_stream_def put_sess_def)

lemma put_mutexes_same [simp]:
  "(put_stream a s w)\<lparr>mutexes := mutexes w\<rparr> = put_stream a s w"
  "(put_sess t w)\<lparr>mutexes := mutexes w\<rparr> = put_sess t w"
  by (simp_all add: put_stream_def put_sess_def)

subsection \<open>Streams\<close>

text \<open>A stream with the same pair and the same flags is wired the same.\<close>

definition same_wires :: "stream \<Rightarrow> stream \<Rightarrow> bool" where
  "same_wires s s' \<longleftrightarrow> st_fd s' = st_fd s \<and> st_private_fd s' = st_private_fd s \<and>
     st_readable s' = st_readable s \<and> st_writeable s' = st_writeable s"

declare same_wires_def [simp]

lemma wired_put_stream:
  assumes "heap w a = Some s" and "same_wires s s'"
  shows "wired os (put_stream a s' w) = wired os w"
  using assms by (intro wired_cong) (auto simp: socks_def signals_def same_wires_def split: option.split)

lemma view_put_sess:
  assumes "ss_streams t = ss_streams (sess w)"
  shows "view (put_sess t w) = (view w)\<lparr>a_in := bio_bytes (ss_recv_buf t), a_out := bio_bytes (ss_send_buf t),
    a_hdr := ss_hdr t, a_new_frame := ss_new_frame t, a_remain := ss_frame_remain t,
    a_remote_go_away := ss_remote_go_away t, a_local_go_away := ss_local_go_away t, a_next_id := ss_next_id t\<rparr>"
  using index_cong(1) [of "put_sess t w" w] assms by (simp add: view_def ids_put)

text \<open>The updates of session fields the code makes.\<close>

lemma view_sess:
  "view (put_sess ((sess w)\<lparr>ss_recv_buf := b\<rparr>) w) = (view w)\<lparr>a_in := bio_bytes b\<rparr>"
  "view (put_sess ((sess w)\<lparr>ss_send_buf := b\<rparr>) w) = (view w)\<lparr>a_out := bio_bytes b\<rparr>"
  "view (put_sess ((sess w)\<lparr>ss_local_go_away := t\<rparr>) w) = (view w)\<lparr>a_local_go_away := t\<rparr>"
  "view (put_sess ((sess w)\<lparr>ss_remote_go_away := t\<rparr>) w) = (view w)\<lparr>a_remote_go_away := t\<rparr>"
  "view (put_sess ((sess w)\<lparr>ss_new_frame := t\<rparr>) w) = (view w)\<lparr>a_new_frame := t\<rparr>"
  "view (put_sess ((sess w)\<lparr>ss_next_id := n\<rparr>) w) = (view w)\<lparr>a_next_id := n\<rparr>"
  "view (put_sess ((sess w)\<lparr>ss_recv_buf := b, ss_hdr := h\<rparr>) w) = (view w)\<lparr>a_in := bio_bytes b, a_hdr := h\<rparr>"
  "view (put_sess ((sess w)\<lparr>ss_recv_buf := b, ss_frame_remain := n\<rparr>) w) =
     (view w)\<lparr>a_in := bio_bytes b, a_remain := n\<rparr>"
  "view (put_sess ((sess w)\<lparr>ss_new_frame := t, ss_frame_remain := n\<rparr>) w) =
     (view w)\<lparr>a_new_frame := t, a_remain := n\<rparr>"
  by (simp_all add: view_put_sess, simp_all add: view_def)

lemma winv_put_sess:
  assumes "winv os H w" and "ss_streams t = ss_streams (sess w)"
    and "bio_ok (ss_recv_buf t)" "bio_ok (ss_send_buf t)" "length (ss_hdr t) = 12"
    and "ss_fd t = ss_fd (sess w)" "ss_private_fd t = ss_private_fd (sess w)"
  shows "winv os H (put_sess t w)"
proof -
  have "wired os (put_sess t w) = wired os w" using assms(6,7)
    by (intro wired_cong) (simp_all add: socks_def signals_def split: option.split)
  moreover
  have "live (put_sess t w) = live w" by (intro ext live_cong) simp
  moreover have "index_ok (put_sess t w) = index_ok w" using assms(2) by (intro index_cong(2)) (simp_all add: ids_put)
  ultimately show ?thesis using assms by (simp add: winv_def locks_ok_def store_ok_def)
qed

lemma view_put_stream:
  assumes "heap w a = Some s" and "st_id s' = st_id s"
  shows "view (put_stream a s' w) = (view w)\<lparr>a_streams := (a_streams (view w))(a \<mapsto> view_stream s')\<rparr>"
  using index_cong(1) [of "put_stream a s' w" w] ids_put(2) [OF assms] by (auto simp: view_def fun_eq_iff)

lemma winv_put_wired:
  assumes "winv os H w" and "heap w a = Some s" and "st_id s' = st_id s" and "bio_ok (st_recv_buf s')"
    and "wired os ((put_stream a s' w)\<lparr>kern := k\<rparr>)"
  shows "winv os H ((put_stream a s' w)\<lparr>kern := k\<rparr>)"
proof -
  let ?w = "(put_stream a s' w)\<lparr>kern := k\<rparr>"
  have "live ?w = live w" using assms(2) by (intro ext live_cong) auto
  moreover have "index_ok ?w = index_ok w" using ids_put(2) [OF assms(2,3)] by (intro index_cong(2)) simp_all
  moreover have "store_ok ?w" using assms by (auto simp: winv_def store_ok_def)
  ultimately show ?thesis using assms(1,5) by (simp add: winv_def locks_ok_def)
qed

lemma winv_put_stream:
  assumes "winv os H w" and "heap w a = Some s" and "st_id s' = st_id s" and "bio_ok (st_recv_buf s')"
    and "same_wires s s'"
  shows "winv os H (put_stream a s' w)"
proof -
  have "(put_stream a s' w)\<lparr>kern := kern w\<rparr> = put_stream a s' w" by (simp add: put_stream_def)
  then show ?thesis
    using winv_put_wired [OF assms(1-4), of "kern w"] wired_put_stream [OF assms(2,5), of os] winv_wired [OF assms(1)]
    by (simp only:)
qed

lemma reliable_put_stream [simp]:
  "heap w a = Some s \<Longrightarrow> st_send_padding s' = st_send_padding s \<Longrightarrow>
     reliable os (put_stream a s' w) = reliable os w"
  by (auto simp: reliable_def)

end
