(* ===== verification/Stream_Specs.thy ===== *)
theory Stream_Specs
  imports View
begin

text \<open>
  What the operations of the stream layer do to the abstract session. The lemmas have one
  shape: from a well-formed state in which the mutexes the operation takes are free, the call
  returns, leaves a well-formed state with the same mutexes held, and changes the view as
  stated; a result of -1 is possible only when \<^verbatim>\<open>malloc\<close> or a system call fails.
\<close>

section \<open>Abstract updates\<close>

definition upd :: "addr \<Rightarrow> (astream \<Rightarrow> astream) \<Rightarrow> asession \<Rightarrow> asession" where
  "upd a f A = A\<lparr>a_streams := (a_streams A)(a := map_option f (a_streams A a))\<rparr>"

definition put_out :: "byte list \<Rightarrow> asession \<Rightarrow> asession" where
  "put_out bs A = A\<lparr>a_out := a_out A @ bs\<rparr>"

definition keeps :: "'k os \<Rightarrow> mutex set \<Rightarrow> 'k world \<Rightarrow> 'k world \<Rightarrow> bool" where
  "keeps os H w w' \<longleftrightarrow> winv os H w' \<and> (reliable os w \<longrightarrow> reliable os w')"

lemma view_sel [simp]:
  "a_streams (view w) a = map_option view_stream (heap w a)" "a_table (view w) = table w"
  "a_in (view w) = bio_bytes (ss_recv_buf (sess w))" "a_out (view w) = bio_bytes (ss_send_buf (sess w))"
  "a_hdr (view w) = ss_hdr (sess w)" "a_new_frame (view w) = ss_new_frame (sess w)"
  "a_remain (view w) = ss_frame_remain (sess w)" "a_remote_go_away (view w) = ss_remote_go_away (sess w)"
  "a_local_go_away (view w) = ss_local_go_away (sess w)" "a_next_id (view w) = ss_next_id (sess w)"
  "a_brk (view w) = brk w"
  by (simp_all add: view_def)

lemma upd_sel [simp]:
  "a_streams (upd a f A) b = (if b = a then map_option f (a_streams A a) else a_streams A b)"
  "a_table (upd a f A) = a_table A" "a_in (upd a f A) = a_in A" "a_out (upd a f A) = a_out A"
  "a_hdr (upd a f A) = a_hdr A" "a_new_frame (upd a f A) = a_new_frame A" "a_remain (upd a f A) = a_remain A"
  "a_remote_go_away (upd a f A) = a_remote_go_away A" "a_local_go_away (upd a f A) = a_local_go_away A"
  "a_next_id (upd a f A) = a_next_id A" "a_brk (upd a f A) = a_brk A"
  by (simp_all add: upd_def)

lemma put_out_sel [simp]:
  "a_streams (put_out bs A) = a_streams A" "a_table (put_out bs A) = a_table A" "a_in (put_out bs A) = a_in A"
  "a_out (put_out bs A) = a_out A @ bs" "a_hdr (put_out bs A) = a_hdr A"
  "a_new_frame (put_out bs A) = a_new_frame A" "a_remain (put_out bs A) = a_remain A"
  "a_remote_go_away (put_out bs A) = a_remote_go_away A" "a_local_go_away (put_out bs A) = a_local_go_away A"
  "a_next_id (put_out bs A) = a_next_id A" "a_brk (put_out bs A) = a_brk A"
  by (simp_all add: put_out_def)

lemma put_out_Nil [simp]: "put_out [] A = A"
  by (simp add: put_out_def)

lemma upd_upd: "upd a f (upd a g A) = upd a (\<lambda>s. f (g s)) A"
  by (simp add: upd_def option.map_comp comp_def)

lemma upd_cong: "(\<And>s. a_streams A a = Some s \<Longrightarrow> f s = g s) \<Longrightarrow> upd a f A = upd a g A"
  by (cases "a_streams A a") (simp_all add: upd_def)

lemma upd_id: "(\<And>s. a_streams A a = Some s \<Longrightarrow> f s = s) \<Longrightarrow> upd a f A = A"
  by (cases "a_streams A a") (simp_all add: upd_def fun_upd_idem)

lemma view_stream_sel [simp]:
  "a_state (view_stream s) = st_state s" "a_id (view_stream s) = st_id s"
  "a_recv_window (view_stream s) = st_recv_window s" "a_send_window (view_stream s) = st_send_window s"
  "a_data (view_stream s) = bio_bytes (st_recv_buf s)" "a_readable (view_stream s) = st_readable s"
  "a_writeable (view_stream s) = st_writeable s"
  by (simp_all add: view_stream_def)

lemma view_heap: "a_streams (view w) a = Some t \<Longrightarrow> \<exists>s. heap w a = Some s \<and> view_stream s = t"
  by auto

lemma keeps_refl: "winv os H w \<Longrightarrow> keeps os H w w"
  by (simp add: keeps_def)

lemma keeps_trans: "keeps os H w w' \<Longrightarrow> keeps os H' w' w'' \<Longrightarrow> keeps os H' w w''"
  by (simp add: keeps_def)

lemma keeps_winv: "keeps os H w w' \<Longrightarrow> winv os H w'"
  by (simp add: keeps_def)

lemma keeps_reliable: "keeps os H w w' \<Longrightarrow> reliable os w \<Longrightarrow> reliable os w'"
  by (simp add: keeps_def)

lemma keeps_put_stream:
  assumes "winv os H w" and "heap w a = Some s" and "st_id s' = st_id s" "st_send_padding s' = st_send_padding s"
    and "bio_ok (st_recv_buf s')" and "same_wires s s'"
  shows "keeps os H w (put_stream a s' w)"
  using assms by (auto simp: keeps_def intro: winv_put_stream)

lemma winv_recv_buf: "winv os H w \<Longrightarrow> heap w a = Some s \<Longrightarrow> bio_ok (st_recv_buf s)"
  by (auto simp: winv_def store_ok_def)

lemma winv_bufs: "winv os H w \<Longrightarrow> bio_ok (ss_recv_buf (sess w)) \<and> bio_ok (ss_send_buf (sess w)) \<and>
    length (ss_hdr (sess w)) = 12"
  by (auto simp: winv_def store_ok_def)

section \<open>The stream table\<close>

lemma winv_table:
  "winv os H w \<Longrightarrow> table w sid = Some a \<longleftrightarrow> (\<exists>s. heap w a = Some s \<and> st_id s = sid)"
  by (simp add: winv_def index_ok_def)

lemma probe_cmp:
  "(\<And>a. a \<in> A \<Longrightarrow> heap w a \<noteq> None) \<Longrightarrow> cmp_for (stream_key w) sid (stream_probe w sid) A"
  unfolding cmp_for_def by (force simp: stream_probe_def stream_key_def stream_compare_def)

lemma table_ran: "index_ok w \<Longrightarrow> a \<in> ran (table w) \<Longrightarrow> heap w a \<noteq> None"
  by (force simp: ran_def index_ok_def)

lemma find_table:
  "index_ok w \<Longrightarrow> RB_FIND (stream_probe w sid) (ss_streams (sess w)) = Some (table w sid)"
  by (rule rbm.find_law [of "stream_key w"], simp add: index_ok_def) (rule probe_cmp, erule (1) table_ran)

lemma session_find_stream_eq:
  assumes "winv os H w" and "Session_streams_lock \<notin> H"
  shows "session_find_stream sid w = Some (table w sid, w)"
proof -
  have m: "mutexes w Session_streams_lock = Free" using winv_mutex [OF assms(1)] assms(2) by simp
  let ?w = "w\<lparr>mutexes := (mutexes w)(Session_streams_lock := Held)\<rparr>"
  have "stream_probe ?w = stream_probe w" by (simp add: probe_ids)
  then have "RB_FIND (stream_probe ?w sid) (ss_streams (sess ?w)) = Some (table w sid)"
    using find_table [of w sid] assms(1) by (simp add: winv_def)
  moreover have "table w sid = Some a \<Longrightarrow> \<exists>s. heap w a = Some s \<and> st_id s = sid" for a
    using winv_table [OF assms(1)] by simp
  ultimately show ?thesis using m
    by (cases "table w sid") (force simp: session_find_stream_def mutex_lock_free mutex_unlock_held fun_upd_idem)+
qed

section \<open>Readiness\<close>

lemma view_put_upd:
  assumes "heap w a = Some s" and "st_id s' = st_id s" and "view_stream s' = f (view_stream s)"
  shows "view (put_stream a s' w) = upd a f (view w)"
  using assms by (simp add: view_put_stream [OF assms(1,2)] upd_def)

text \<open>
  The four readiness operations either set their flag, or fail and leave the stream as it is;
  the other half of the state is not touched.
\<close>

definition sets :: "'k os \<Rightarrow> mutex set \<Rightarrow> addr \<Rightarrow> (astream \<Rightarrow> astream) \<Rightarrow> 'k world \<Rightarrow> int \<times> 'k world \<Rightarrow> bool" where
  "sets os H a f w = (\<lambda>(r, w'). keeps os H w w' \<and>
     (r = 0 \<and> view w' = upd a f (view w) \<or> r = - 1 \<and> view w' = view w \<and> \<not> reliable os w))"

lemma sets_same:
  assumes "winv os H w" and "heap w a = Some s" and "f (view_stream s) = view_stream s"
  shows "sets os H a f w (0, w)"
  using assms upd_id [of "view w" a f] by (simp add: sets_def keeps_refl)

lemma sets_put:
  assumes "winv os H w" and "heap w a = Some s" and "succeeds al = succeeds (mem w)"
    and "st_id s' = st_id s" "st_send_padding s' = st_send_padding s" "st_recv_buf s' = st_recv_buf s"
    and "view_stream s' = f (view_stream s)" and "wired os ((put_stream a s' w)\<lparr>kern := k\<rparr>)"
  shows "sets os H a f w (0, put_stream a s' (w\<lparr>mem := al, kern := k\<rparr>))"
proof -
  let ?w = "w\<lparr>mem := al\<rparr>"
  have w: "winv os H ?w" "view ?w = view w" "reliable os ?w = reliable os w" "heap ?w a = Some s"
    using assms by simp_all
  have e: "put_stream a s' (w\<lparr>mem := al, kern := k\<rparr>) = (put_stream a s' ?w)\<lparr>kern := k\<rparr>" by (simp add: put_stream_def)
  have "(put_stream a s' ?w)\<lparr>kern := k\<rparr> = ((put_stream a s' w)\<lparr>kern := k\<rparr>)\<lparr>mem := al\<rparr>" by (simp add: put_stream_def)
  then have "wired os ((put_stream a s' ?w)\<lparr>kern := k\<rparr>)" using assms(8) by (simp only: wired_upd)
  then have "winv os H ((put_stream a s' ?w)\<lparr>kern := k\<rparr>)"
    using assms winv_recv_buf [OF assms(1,2)] by (intro winv_put_wired [OF w(1,4)]) auto
  then show ?thesis unfolding e using assms w view_put_upd [of ?w a s s' f] by (simp add: sets_def keeps_def)
qed

lemma sets_failed:
  assumes "winv os H w" and "succeeds al = succeeds (mem w)" and "\<not> reliable os w" and "wired os (w\<lparr>kern := k\<rparr>)"
  shows "sets os H a f w (- 1, w\<lparr>mem := al, kern := k\<rparr>)"
proof -
  have "winv os H ((w\<lparr>mem := al\<rparr>)\<lparr>kern := k\<rparr>)"
  proof (rule winv_kern)
    have "(w\<lparr>mem := al\<rparr>)\<lparr>kern := k\<rparr> = (w\<lparr>kern := k\<rparr>)\<lparr>mem := al\<rparr>" by (cases w) simp
    then show "wired os ((w\<lparr>mem := al\<rparr>)\<lparr>kern := k\<rparr>)" using assms(4) by (simp only: wired_upd)
  qed (use assms(1) in simp)
  with assms show ?thesis by (simp add: sets_def keeps_def)
qed

text \<open>Reads and writes on the pair of a stream.\<close>

lemma os_write:
  assumes "os_live os"
  obtains r k' where "sys_write os fd d k = Some (r, k')" "- 1 \<le> r" "length d \<le> 4 \<longrightarrow> r = - 1 \<or> r = int (length d)"
    "\<And>f. peer os f k' = peer os f k"
    "\<And>f. avail os f k' = (if peer os fd k = Some f \<and> 0 < r then avail os f k + nat r else avail os f k)"
proof -
  from assms have "writes_ok os" by (simp add: os_live_def)
  then obtain r k' where "sys_write os fd d k = Some (r, k') \<and>
     - 1 \<le> r \<and> r \<le> int (length d) \<and> (length d \<le> 4 \<longrightarrow> r = - 1 \<or> r = int (length d)) \<and>
     (\<forall>f. peer os f k' = peer os f k) \<and>
     (\<forall>f. avail os f k' = (if peer os fd k = Some f \<and> 0 < r then avail os f k + nat r else avail os f k))"
    unfolding writes_ok_def by blast
  then show thesis using that by blast
qed

lemma os_read:
  assumes "os_live os" and "n = 0 \<or> 0 < avail os fd k"
  obtains res k' where "sys_read os fd n k = Some (res, k')" "\<And>f. peer os f k' = peer os f k"
    "\<And>f. f \<noteq> fd \<Longrightarrow> avail os f k' = avail os f k" "res = None \<Longrightarrow> avail os fd k' = avail os fd k"
    "res = Some [] \<Longrightarrow> avail os fd k' = avail os fd k \<and> n = 0"
proof -
  from assms(1) have r0: "reads_ok os" by (simp add: os_live_def)
  note r = r0 [unfolded reads_ok_def, THEN spec, of fd, THEN spec, of n, THEN spec, of k]
  from r [THEN conjunct1] assms(2) obtain res k' where io: "sys_read os fd n k = Some (res, k')" by auto
  from r [THEN conjunct2, THEN spec, of res, THEN spec, of k', THEN mp, OF io] have "(\<forall>f. peer os f k' = peer os f k) \<and> (\<forall>f. f \<noteq> fd \<longrightarrow> avail os f k' = avail os f k) \<and>
        avail os fd k = avail os fd k' + (case res of None \<Rightarrow> 0 | Some d \<Rightarrow> length d) \<and>
        (\<forall>d. res = Some d \<longrightarrow> length d \<le> n \<and> (0 < n \<and> 0 < avail os fd k \<longrightarrow> d \<noteq> []))" .
  then have *: "\<forall>f. peer os f k' = peer os f k" "\<forall>f. f \<noteq> fd \<longrightarrow> avail os f k' = avail os f k"
    "avail os fd k = avail os fd k' + (case res of None \<Rightarrow> 0 | Some d \<Rightarrow> length d)"
    "\<forall>d. res = Some d \<longrightarrow> length d \<le> n \<and> (0 < n \<and> 0 < avail os fd k \<longrightarrow> d \<noteq> [])" by blast+
  show thesis
  proof (rule that [OF io])
    show "res = None \<Longrightarrow> avail os fd k' = avail os fd k" using *(3) by simp
    assume e: "res = Some []"
    with *(4) have "\<not> (0 < n \<and> 0 < avail os fd k)" by auto
    with assms(2) have "n = 0" by auto
    with e *(3) show "avail os fd k' = avail os fd k \<and> n = 0" by simp
  qed (use *(1,2) in blast)+
qed

text \<open>A write only adds to what can be read, so it keeps every flag right.\<close>

lemma wired_more:
  assumes "wired os w" and "\<And>f. peer os f k = peer os f (kern w)" and "\<And>f. avail os f (kern w) \<le> avail os f k"
  shows "wired os (w\<lparr>kern := k\<rparr>)"
proof -
  have "0 < avail os f (kern w) \<Longrightarrow> 0 < avail os f k" for f using assms(3) [of f] by linarith
  then have "signalled os (kern w) p f \<Longrightarrow> signalled os k p f" for p f by (simp add: signalled_def)
  moreover have "paired os k p = paired os (kern w) p" for p using assms(2) by (simp add: paired_def)
  ultimately show ?thesis using assms(1) unfolding wired_def by simp
qed

text \<open>A change of one stream's flags and of its own sockets does not reach the others.\<close>

lemma wired_own:
  assumes w: "wired os w" and a: "heap w a = Some s" and fds: "st_fd s' = st_fd s" "st_private_fd s' = st_private_fd s"
    and p: "\<And>f. peer os f k = peer os f (kern w)"
    and v: "\<And>f. f \<notin> {st_fd s, st_private_fd s} \<Longrightarrow> avail os f k = avail os f (kern w)"
    and own: "signalled os k (st_fd s, st_private_fd s) (st_readable s', st_writeable s')"
  shows "wired os ((put_stream a s' w)\<lparr>kern := k\<rparr>)"
proof -
  let ?w = "(put_stream a s' w)\<lparr>kern := k\<rparr>"
  have socks: "socks ?w = socks w" using a fds by (auto simp: socks_def fun_eq_iff split: option.split)
  have sa: "socks w (Some a) = Some (st_fd s, st_private_fd s)" using a by (simp add: socks_def)
  have "signalled os k q f" if q: "socks w (Some b) = Some q" and f: "signals ?w b = Some f" for b q f
  proof (cases "b = a")
    case True
    with q f sa own show ?thesis by (simp add: signals_def)
  next
    case False
    then have "apart q (st_fd s, st_private_fd s)" using w q sa unfolding wired_def by blast
    then have "avail os (fst q) k = avail os (fst q) (kern w)" "avail os (snd q) k = avail os (snd q) (kern w)"
      using v by (auto simp: apart_def)
    moreover have "signals w b = Some f" using f False by (simp add: signals_def)
    then have "signalled os (kern w) q f" using w q unfolding wired_def by blast
    ultimately show ?thesis by (simp add: signalled_def)
  qed
  then show ?thesis using w p unfolding wired_def socks by (simp add: paired_def)
qed

lemma wired_stream:
  assumes "winv os H w" and "heap w a = Some s"
  shows "peer os (st_fd s) (kern w) = Some (st_private_fd s)" "peer os (st_private_fd s) (kern w) = Some (st_fd s)"
    "st_fd s \<noteq> st_private_fd s" "st_readable s \<Longrightarrow> 0 < avail os (st_fd s) (kern w)"
    "\<not> st_writeable s \<Longrightarrow> 0 < avail os (st_private_fd s) (kern w)"
proof -
  have "socks w (Some a) = Some (st_fd s, st_private_fd s)" "signals w a = Some (st_readable s, st_writeable s)"
    using assms(2) by (simp_all add: socks_def signals_def)
  then have "paired os (kern w) (st_fd s, st_private_fd s)"
    "signalled os (kern w) (st_fd s, st_private_fd s) (st_readable s, st_writeable s)"
    using winv_wired [OF assms(1)] unfolding wired_def by blast+
  then show "peer os (st_fd s) (kern w) = Some (st_private_fd s)" "peer os (st_private_fd s) (kern w) = Some (st_fd s)"
    "st_fd s \<noteq> st_private_fd s" "st_readable s \<Longrightarrow> 0 < avail os (st_fd s) (kern w)"
    "\<not> st_writeable s \<Longrightarrow> 0 < avail os (st_private_fd s) (kern w)" by (auto simp: paired_def signalled_def)
qed

lemma reliable_write: "reliable os w \<Longrightarrow> d \<noteq> [] \<Longrightarrow> sys_write os fd d k = Some (r, k') \<Longrightarrow> 0 < r"
proof -
  assume *: "reliable os w" "d \<noteq> []" "sys_write os fd d k = Some (r, k')"
  then have "\<forall>fd d k. d \<noteq> [] \<longrightarrow> (\<exists>r k'. sys_write os fd d k = Some (r, k') \<and> 0 < r)"
    by (simp add: reliable_def os_reliable_def)
  with *(2) obtain r2 k2 where "sys_write os fd d k = Some (r2, k2)" "0 < r2" by blast
  with *(3) show "0 < r" by simp
qed

lemma reliable_read:
  "reliable os w \<Longrightarrow> 0 < n \<Longrightarrow> 0 < avail os fd k \<Longrightarrow> sys_read os fd n k = Some (res, k') \<Longrightarrow> \<exists>d. res = Some d"
proof -
  assume *: "reliable os w" "0 < n" "0 < avail os fd k" "sys_read os fd n k = Some (res, k')"
  then have "\<forall>fd n k. 0 < n \<longrightarrow> 0 < avail os fd k \<longrightarrow> (\<exists>d k'. sys_read os fd n k = Some (Some d, k'))"
    by (simp add: reliable_def os_reliable_def)
  with *(2,3) obtain d k2 where "sys_read os fd n k = Some (Some d, k2)" by blast
  with *(4) show ?thesis by auto
qed

lemma reliable_uninit: "reliable os w \<Longrightarrow> length (uninit os n k) = n"
  by (simp add: reliable_def os_reliable_def)

lemma reliable_socketpair: "reliable os w \<Longrightarrow> fst (sys_socketpair os k) \<noteq> None"
  by (simp add: reliable_def os_reliable_def)

lemma reliable_padding: "reliable os w \<Longrightarrow> heap w a = Some s \<Longrightarrow> 0 < unat (st_send_padding s)"
  by (simp add: reliable_def unat_gt_0)

lemma mem_kern_same: "w\<lparr>kern := k\<rparr> = w\<lparr>mem := mem w, kern := k\<rparr>"
  by simp

lemma stream_readable_notify_wp:
  assumes "winv os H w" and "os_live os" and "heap w a = Some s" and "Recv_lock a \<notin> H"
  shows "wp (stream_readable_notify os a w) (sets os H a (a_readable_update (\<lambda>_. True)) w)"
proof (cases "st_readable s")
  case True
  have m: "mutexes w (Recv_lock a) = Free" using winv_mutex [OF assms(1)] assms(3,4) by simp
  have "stream_readable_notify os a w = Some (0, w)"
    using True m assms(3) by (simp add: stream_readable_notify_def mutex_lock_free mutex_unlock_held fun_upd_idem)
  then show ?thesis using True assms sets_same [of os H w a s] by (simp add: view_stream_def)
next
  case False
  have m: "mutexes w (Recv_lock a) = Free" using winv_mutex [OF assms(1)] assms(3,4) by simp
  note st = wired_stream [OF assms(1,3)]
  let ?s = "s\<lparr>st_readable := True\<rparr>"
  from os_write [OF assms(2), of "st_private_fd s" "[0]" "kern w"] obtain r k where
    io: "sys_write os (st_private_fd s) [0] (kern w) = Some (r, k)" "\<And>f. peer os f k = peer os f (kern w)"
    "\<And>f. avail os f k = (if peer os (st_private_fd s) (kern w) = Some f \<and> 0 < r then avail os f (kern w) + nat r else avail os f (kern w))"
    by metis
  have "stream_readable_notify os a w =
     Some (if r \<le> 0 then (- 1, w\<lparr>kern := k\<rparr>) else (0, put_stream a ?s (w\<lparr>kern := k\<rparr>)))"
    using False m assms(3) io(1)
    by (simp add: stream_readable_notify_def mutex_lock_free mutex_unlock_held fun_upd_idem c_write_def put_stream_def)
  moreover have "0 < r \<Longrightarrow> sets os H a (a_readable_update (\<lambda>_. True)) w (0, put_stream a ?s (w\<lparr>kern := k\<rparr>))"
  proof -
    assume "0 < r"
    then have "wired os ((put_stream a ?s w)\<lparr>kern := k\<rparr>)" using st io(2,3)
      by (intro wired_own [OF winv_wired [OF assms(1)] assms(3)]) (auto simp: signalled_def)
    then show ?thesis unfolding mem_kern_same [of k w] using assms by (intro sets_put) (auto simp: view_stream_def)
  qed
  moreover have "r \<le> 0 \<Longrightarrow> sets os H a (a_readable_update (\<lambda>_. True)) w (- 1, w\<lparr>kern := k\<rparr>)"
  proof -
    assume r: "r \<le> 0"
    then have "\<not> reliable os w" using io(1) reliable_write by fastforce
    moreover have "wired os (w\<lparr>kern := k\<rparr>)" using io(2,3) by (intro wired_more [OF winv_wired [OF assms(1)]]) auto
    ultimately show ?thesis unfolding mem_kern_same [of k w] using assms by (intro sets_failed) auto
  qed
  ultimately show ?thesis by simp
qed

lemma stream_readable_waiting_wp:
  assumes "winv os H w" and "os_live os" and "heap w a = Some s" and "Recv_lock a \<notin> H"
  shows "wp (stream_readable_waiting os a w) (sets os H a (a_readable_update (\<lambda>_. False)) w)"
proof (cases "st_readable s")
  case False
  have m: "mutexes w (Recv_lock a) = Free" using winv_mutex [OF assms(1)] assms(3,4) by simp
  have "stream_readable_waiting os a w = Some (0, w)"
    using False m assms(3) by (simp add: stream_readable_waiting_def mutex_lock_free mutex_unlock_held fun_upd_idem)
  then show ?thesis using False assms sets_same [of os H w a s] by (simp add: view_stream_def)
next
  case True
  have m: "mutexes w (Recv_lock a) = Free" using winv_mutex [OF assms(1)] assms(3,4) by simp
  note st = wired_stream [OF assms(1,3)]
  let ?s = "s\<lparr>st_readable := False\<rparr>"
  from os_read [OF assms(2), of 1 "st_fd s" "kern w"] st(4) [OF True] obtain res k where
    io: "sys_read os (st_fd s) 1 (kern w) = Some (res, k)" "\<And>f. peer os f k = peer os f (kern w)"
    "\<And>f. f \<noteq> st_fd s \<Longrightarrow> avail os f k = avail os f (kern w)" "res = None \<Longrightarrow> avail os (st_fd s) k = avail os (st_fd s) (kern w)"
    "res \<noteq> Some []" by (metis zero_neq_one)
  have "stream_readable_waiting os a w =
     Some (if res = None then (- 1, w\<lparr>kern := k\<rparr>) else (0, put_stream a ?s (w\<lparr>kern := k\<rparr>)))"
    using True m assms(3) io(1,5)
    by (auto simp: stream_readable_waiting_def mutex_lock_free mutex_unlock_held fun_upd_idem c_read_def
        put_stream_def split: option.split)
  moreover have "sets os H a (a_readable_update (\<lambda>_. False)) w (0, put_stream a ?s (w\<lparr>kern := k\<rparr>))"
  proof -
    have "wired os ((put_stream a ?s w)\<lparr>kern := k\<rparr>)" using st io(2,3)
      by (intro wired_own [OF winv_wired [OF assms(1)] assms(3)]) (auto simp: signalled_def)
    then show ?thesis unfolding mem_kern_same [of k w] using assms by (intro sets_put) (auto simp: view_stream_def)
  qed
  moreover have "res = None \<Longrightarrow> sets os H a (a_readable_update (\<lambda>_. False)) w (- 1, w\<lparr>kern := k\<rparr>)"
  proof -
    assume r: "res = None"
    then have "\<not> reliable os w" using io(1) reliable_read [of os w 1 "st_fd s" "kern w"] st(4) [OF True] by auto
    moreover have "avail os f (kern w) \<le> avail os f k" for f using io(3,4) r by (cases "f = st_fd s") auto
    then have "wired os (w\<lparr>kern := k\<rparr>)" using io(2) by (intro wired_more [OF winv_wired [OF assms(1)]]) auto
    ultimately show ?thesis unfolding mem_kern_same [of k w] using assms by (intro sets_failed) auto
  qed
  ultimately show ?thesis by simp
qed

lemma padding_buf_eq:
  assumes "padding_buf s w = (ok, w')"
  shows "\<exists>al. w' = w\<lparr>mem := al\<rparr> \<and> succeeds al = succeeds (mem w) \<and> (\<not> ok \<longrightarrow> \<not> reliable os w)"
proof (cases "unat (st_send_padding s) > 4096")
  case True
  with assms show ?thesis
    by (auto simp: padding_buf_def c_malloc_def malloc_def reliable_def never_fails_def)
next
  case False
  with assms show ?thesis by (auto simp: padding_buf_def intro!: exI [of _ "mem w"])
qed

lemma stream_writeable_notify_wp:
  assumes "winv os H w" and "os_live os" and "heap w a = Some s" and "Send_lock a \<notin> H"
  shows "wp (stream_writeable_notify os a w) (sets os H a (a_writeable_update (\<lambda>_. True)) w)"
proof (cases "st_writeable s")
  case True
  have m: "mutexes w (Send_lock a) = Free" using winv_mutex [OF assms(1)] assms(3,4) by simp
  have "stream_writeable_notify os a w = Some (0, w)"
    using True m assms(3) by (simp add: stream_writeable_notify_def mutex_lock_free mutex_unlock_held fun_upd_idem)
  then show ?thesis using True assms sets_same [of os H w a s] by (simp add: view_stream_def)
next
  case False
  have m: "mutexes w (Send_lock a) = Free" using winv_mutex [OF assms(1)] assms(3,4) by simp
  let ?w = "w\<lparr>mutexes := (mutexes w)(Send_lock a := Held)\<rparr>" and ?n = "unat (st_send_padding s)"
  obtain ok w1 where pb: "padding_buf s ?w = (ok, w1)" by (cases "padding_buf s ?w")
  from padding_buf_eq [OF this, of os] obtain al where
    al: "w1 = ?w\<lparr>mem := al\<rparr>" "succeeds al = succeeds (mem w)" "\<not> ok \<longrightarrow> \<not> reliable os w" by auto
  note st = wired_stream [OF assms(1,3)]
  from os_read [OF assms(2), of ?n "st_private_fd s" "kern w"] st(5) [OF False] obtain res k where
    io: "sys_read os (st_private_fd s) ?n (kern w) = Some (res, k)" and
    kp: "\<And>f. peer os f k = peer os f (kern w)" "\<And>f. f \<noteq> st_private_fd s \<Longrightarrow> avail os f k = avail os f (kern w)"
    "res = None \<Longrightarrow> avail os (st_private_fd s) k = avail os (st_private_fd s) (kern w)"
    "res = Some [] \<Longrightarrow> avail os (st_private_fd s) k = avail os (st_private_fd s) (kern w) \<and> ?n = 0" by metis
  let ?bad = "res = None \<or> res = Some []" and ?s = "s\<lparr>st_writeable := True\<rparr>"
  have eq: "stream_writeable_notify os a w =
     Some (if \<not> ok then (- 1, w\<lparr>mem := al, kern := kern w\<rparr>) else if ?bad then (- 1, w\<lparr>mem := al, kern := k\<rparr>)
           else (0, put_stream a ?s (w\<lparr>mem := al, kern := k\<rparr>)))"
    using False m assms(3) io pb al(1)
    by (auto simp: stream_writeable_notify_def mutex_lock_free mutex_unlock_held fun_upd_idem c_read_def
        put_stream_def Let_def split: option.split)
  have "0 < ?n \<or> \<not> reliable os w" using reliable_padding [OF _ assms(3)] by blast
  then have bad: "?bad \<Longrightarrow> \<not> reliable os w" using io reliable_read [of os w ?n "st_private_fd s" "kern w"] st(5) [OF False] kp(4) by auto
  have "?bad \<Longrightarrow> avail os f (kern w) \<le> avail os f k" for f using kp by (cases "f = st_private_fd s") auto
  then have "?bad \<Longrightarrow> wired os (w\<lparr>kern := k\<rparr>)" using kp(1) by (intro wired_more [OF winv_wired [OF assms(1)]]) auto
  with al bad have "?bad \<Longrightarrow> sets os H a (a_writeable_update (\<lambda>_. True)) w (- 1, w\<lparr>mem := al, kern := k\<rparr>)"
    using assms by (intro sets_failed) auto
  moreover have "\<not> ok \<Longrightarrow> sets os H a (a_writeable_update (\<lambda>_. True)) w (- 1, w\<lparr>mem := al, kern := kern w\<rparr>)"
    using assms al winv_wired [OF assms(1)] by (intro sets_failed) auto
  moreover have "wired os ((put_stream a ?s w)\<lparr>kern := k\<rparr>)" using st kp
    by (intro wired_own [OF winv_wired [OF assms(1)] assms(3)]) (auto simp: signalled_def)
  then have "sets os H a (a_writeable_update (\<lambda>_. True)) w (0, put_stream a ?s (w\<lparr>mem := al, kern := k\<rparr>))"
    using assms al by (intro sets_put) (auto simp: view_stream_def)
  ultimately show ?thesis unfolding eq by (simp only: wp_simps not_le split: if_split) blast
qed

lemma stream_writeable_waiting_wp:
  assumes "winv os H w" and "os_live os" and "heap w a = Some s" and "Send_lock a \<notin> H"
  shows "wp (stream_writeable_waiting os a w) (sets os H a (a_writeable_update (\<lambda>_. False)) w)"
proof (cases "st_writeable s")
  case False
  have m: "mutexes w (Send_lock a) = Free" using winv_mutex [OF assms(1)] assms(3,4) by simp
  have "stream_writeable_waiting os a w = Some (0, w)"
    using False m assms(3) by (simp add: stream_writeable_waiting_def mutex_lock_free mutex_unlock_held fun_upd_idem)
  then show ?thesis using False assms sets_same [of os H w a s] by (simp add: view_stream_def)
next
  case True
  have m: "mutexes w (Send_lock a) = Free" using winv_mutex [OF assms(1)] assms(3,4) by simp
  let ?w = "w\<lparr>mutexes := (mutexes w)(Send_lock a := Held)\<rparr>" and ?n = "unat (st_send_padding s)"
  obtain ok w1 where pb: "padding_buf s ?w = (ok, w1)" by (cases "padding_buf s ?w")
  from padding_buf_eq [OF this, of os] obtain al where
    al: "w1 = ?w\<lparr>mem := al\<rparr>" "succeeds al = succeeds (mem w)" "\<not> ok \<longrightarrow> \<not> reliable os w" by auto
  note st = wired_stream [OF assms(1,3)]
  from os_write [OF assms(2), of "st_fd s" "uninit os ?n (kern w)" "kern w"] obtain r k where
    io: "sys_write os (st_fd s) (uninit os ?n (kern w)) (kern w) = Some (r, k)" and kp: "\<And>f. peer os f k = peer os f (kern w)"
    "\<And>f. avail os f k = (if peer os (st_fd s) (kern w) = Some f \<and> 0 < r then avail os f (kern w) + nat r else avail os f (kern w))"
    by metis
  let ?s = "s\<lparr>st_writeable := False\<rparr>"
  have eq: "stream_writeable_waiting os a w =
     Some (if \<not> ok then (- 1, w\<lparr>mem := al, kern := kern w\<rparr>) else if r \<le> 0 then (- 1, w\<lparr>mem := al, kern := k\<rparr>)
           else (0, put_stream a ?s (w\<lparr>mem := al, kern := k\<rparr>)))"
    using True m assms(3) io pb al(1)
    by (auto simp: stream_writeable_waiting_def mutex_lock_free mutex_unlock_held fun_upd_idem c_write_def
        put_stream_def Let_def)
  have "uninit os ?n (kern w) \<noteq> [] \<or> \<not> reliable os w"
    using reliable_padding [OF _ assms(3)] reliable_uninit [of os w ?n "kern w"] by fastforce
  then have bad: "r \<le> 0 \<Longrightarrow> \<not> reliable os w" using io reliable_write [of os w] by fastforce
  have "wired os (w\<lparr>kern := k\<rparr>)" using kp by (intro wired_more [OF winv_wired [OF assms(1)]]) auto
  with al bad have "r \<le> 0 \<Longrightarrow> sets os H a (a_writeable_update (\<lambda>_. False)) w (- 1, w\<lparr>mem := al, kern := k\<rparr>)"
    using assms by (intro sets_failed) auto
  moreover have "\<not> ok \<Longrightarrow> sets os H a (a_writeable_update (\<lambda>_. False)) w (- 1, w\<lparr>mem := al, kern := kern w\<rparr>)"
    using assms al winv_wired [OF assms(1)] by (intro sets_failed) auto
  moreover have "0 < r \<Longrightarrow> wired os ((put_stream a ?s w)\<lparr>kern := k\<rparr>)" using st kp
    by (intro wired_own [OF winv_wired [OF assms(1)] assms(3)]) (auto simp: signalled_def)
  then have "0 < r \<Longrightarrow> sets os H a (a_writeable_update (\<lambda>_. False)) w (0, put_stream a ?s (w\<lparr>mem := al, kern := k\<rparr>))"
    using assms al by (intro sets_put) (auto simp: view_stream_def)
  ultimately show ?thesis unfolding eq by (simp only: wp_simps not_le split: if_split) blast
qed

lemma view_stream_at:
  assumes "view w' = upd a f (view w)" and "heap w a = Some s"
  shows "\<exists>s'. heap w' a = Some s' \<and> view_stream s' = f (view_stream s)"
proof -
  have "a_streams (view w') a = Some (f (view_stream s))" using assms by simp
  then show ?thesis by auto
qed

lemma setsD:
  assumes "sets os H a f w (r, w')"
  shows "keeps os H w w'" "r = 0 \<and> view w' = upd a f (view w) \<or> r = - 1 \<and> view w' = view w \<and> \<not> reliable os w"
  using assms by (simp_all add: sets_def)

text \<open>Waking both directions; a failure of either is ignored by the code.\<close>

definition wake :: "bool \<Rightarrow> bool \<Rightarrow> astream \<Rightarrow> astream" where
  "wake rd wr s = s\<lparr>a_readable := a_readable s \<or> rd, a_writeable := a_writeable s \<or> wr\<rparr>"

lemma wake_False [simp]: "wake False False s = s"
  by (simp add: wake_def)

lemma wake_flags:
  "a_writeable_update (\<lambda>_. True) = wake False True" "a_readable_update (\<lambda>_. True) = wake True False"
  by (simp_all add: wake_def fun_eq_iff)

lemma upd_wake_False [simp]: "upd a (wake False False) A = A"
  by (rule upd_id) simp

lemma wake_wake: "wake rd wr (wake rd' wr' s) = wake (rd' \<or> rd) (wr' \<or> wr) s"
  by (simp add: wake_def)

lemma wake_sel [simp]:
  "a_state (wake rd wr s) = a_state s" "a_id (wake rd wr s) = a_id s" "a_data (wake rd wr s) = a_data s"
  "a_recv_window (wake rd wr s) = a_recv_window s" "a_send_window (wake rd wr s) = a_send_window s"
  "a_readable (wake rd wr s) = (a_readable s \<or> rd)" "a_writeable (wake rd wr s) = (a_writeable s \<or> wr)"
  by (simp_all add: wake_def)

lemma stream_notify_waiting_wp:
  assumes "winv os H w" and "os_live os" and "heap w a = Some s" and "Send_lock a \<notin> H" "Recv_lock a \<notin> H"
  shows "wp (stream_notify_waiting os a w) (\<lambda>w'. keeps os H w w' \<and>
    (\<exists>rd wr. view w' = upd a (wake rd wr) (view w) \<and> (reliable os w \<longrightarrow> rd \<and> wr)))"
  unfolding stream_notify_waiting_def wp_simps
proof (rule wp_call2 [OF stream_writeable_notify_wp [OF assms(1-4)]])
  fix r w1 assume s1: "sets os H a (a_writeable_update (\<lambda>_. True)) w (r, w1)"
  then obtain wr where wr: "view w1 = upd a (wake False wr) (view w)" "reliable os w \<longrightarrow> wr"
    using setsD(2) [OF s1] that [of True] that [of False] by (auto simp: wake_flags)
  have w1: "winv os H w1" using setsD(1) [OF s1] by (rule keeps_winv)
  from view_stream_at [OF wr(1) assms(3)] obtain s' where s': "heap w1 a = Some s'" by blast
  show "wp (case (r, w1) of (x, w) \<Rightarrow> stream_readable_notify os a w \<bind> (\<lambda>(x, w). Some w)) (\<lambda>w'. keeps os H w w' \<and>
    (\<exists>rd wr. view w' = upd a (wake rd wr) (view w) \<and> (reliable os w \<longrightarrow> rd \<and> wr)))"
    unfolding prod.case wp_simps
  proof (rule wp_call2 [OF stream_readable_notify_wp [OF w1 assms(2) s' assms(5)]])
    fix r' w2 assume s2: "sets os H a (a_readable_update (\<lambda>_. True)) w1 (r', w2)"
    then obtain rd where rd: "view w2 = upd a (wake rd False) (view w1)" "reliable os w1 \<longrightarrow> rd"
      using setsD(2) [OF s2] that [of True] that [of False] by (auto simp: wake_flags)
    have "view w2 = upd a (wake rd wr) (view w)"
      unfolding rd(1) wr(1) upd_upd by (simp add: wake_wake)
    moreover have "keeps os H w w2" "reliable os w \<longrightarrow> rd \<and> wr"
      using setsD(1) [OF s1] setsD(1) [OF s2] rd(2) wr(2) by (auto simp: keeps_def)
    ultimately show "wp (case (r', w2) of (x, w) \<Rightarrow> Some w) (\<lambda>w'. keeps os H w w' \<and>
      (\<exists>rd wr. view w' = upd a (wake rd wr) (view w) \<and> (reliable os w \<longrightarrow> rd \<and> wr)))" by auto
  qed
qed

section \<open>The flag state machine\<close>

definition ack_state :: "uint16 \<Rightarrow> stream_state \<Rightarrow> stream_state" where
  "ack_state flags st = (if has_flag flags FLAG_ACK \<and> st = STATE_SYN_SENT then STATE_ESTABLISHED else st)"

text \<open>The state after the flags of a frame; \<open>None\<close> is a protocol error.\<close>

definition next_state :: "uint16 \<Rightarrow> stream_state \<Rightarrow> stream_state option" where
  "next_state flags st =
     map_option (\<lambda>st. if has_flag flags FLAG_RST then STATE_RESET else st)
       (if has_flag flags FLAG_FIN then fin_state (ack_state flags st) else Some (ack_state flags st))"

lemma set_state_wp:
  assumes "winv os H w" and "heap w a = Some s"
  shows "wp (set_state a st w) (\<lambda>w'. keeps os H w w' \<and> view w' = upd a (a_state_update (\<lambda>_. st)) (view w))"
  using assms by (auto simp: set_state_def view_stream_def winv_recv_buf intro!: keeps_put_stream view_put_upd)

lemma keeps_lock:
  "winv os H w \<Longrightarrow> keeps os (insert m H) w (w\<lparr>mutexes := (mutexes w)(m := Held)\<rparr>)"
  by (simp add: keeps_def winv_mutexes_upd)

lemma wp_lock_keeps:
  assumes "winv os H w" and "live w m" and "m \<notin> H"
    and "\<And>w'. keeps os (insert m H) w w' \<Longrightarrow> view w' = view w \<Longrightarrow> heap w' = heap w \<Longrightarrow> sess w' = sess w \<Longrightarrow>
      kern w' = kern w \<Longrightarrow> mem w' = mem w \<Longrightarrow> Q w'"
  shows "wp (mutex_lock m w) Q"
  using assms(1-3) by (intro wp_lock [OF assms(1)]) (auto intro!: assms(4) keeps_lock)

lemma wp_unlock_keeps:
  assumes "winv os (insert m H) w" and "live w m" and "m \<notin> H"
    and "\<And>w'. keeps os H w w' \<Longrightarrow> view w' = view w \<Longrightarrow> heap w' = heap w \<Longrightarrow> sess w' = sess w \<Longrightarrow>
      kern w' = kern w \<Longrightarrow> mem w' = mem w \<Longrightarrow> Q w'"
  shows "wp (mutex_unlock m w) Q"
  using assms(1-3) by (intro wp_unlock [OF assms(1)]) (auto simp: keeps_def intro!: assms(4))

definition closing :: "uint16 \<Rightarrow> bool" where
  "closing flags \<longleftrightarrow> has_flag flags FLAG_FIN \<or> has_flag flags FLAG_RST"

lemma process_ack_wp:
  assumes "winv os H w" and "heap w a = Some s"
  shows "wp (process_ack a flags w)
    (\<lambda>w'. keeps os H w w' \<and> view w' = upd a (a_state_update (\<lambda>_. ack_state flags (st_state s))) (view w))"
proof (cases "has_flag flags FLAG_ACK \<and> st_state s = STATE_SYN_SENT")
  case True
  with set_state_wp [OF assms, of STATE_ESTABLISHED] assms(2) show ?thesis
    by (simp add: ack_state_def process_ack_def)
next
  case False
  have "upd a (a_state_update (\<lambda>_. st_state s)) (view w) = view w"
    using assms(2) by (intro upd_id) (auto simp: view_stream_def)
  with False assms show ?thesis by (auto simp: ack_state_def keeps_refl process_ack_def)
qed

lemma close_stage:
  assumes "winv os H w" and "os_live os" and "heap w a = Some s" and "Send_lock a \<notin> H" "Recv_lock a \<notin> H"
  shows "wp (set_state a st w) (\<lambda>w'. wp (stream_notify_waiting os a w') (\<lambda>w''. keeps os H w w'' \<and>
    (\<exists>rd wr. view w'' = upd a (\<lambda>s. wake rd wr (s\<lparr>a_state := st\<rparr>)) (view w) \<and> (reliable os w \<longrightarrow> rd \<and> wr))))"
proof (rule wp_call [OF set_state_wp [OF assms(1,3)]])
  fix w1 assume w1: "keeps os H w w1 \<and> view w1 = upd a (a_state_update (\<lambda>_. st)) (view w)"
  with view_stream_at assms(3) obtain s1 where "heap w1 a = Some s1" by blast
  from stream_notify_waiting_wp [OF _ assms(2) this assms(4,5)] w1
  have "wp (stream_notify_waiting os a w1) (\<lambda>w'. keeps os H w1 w' \<and>
    (\<exists>rd wr. view w' = upd a (wake rd wr) (view w1) \<and> (reliable os w1 \<longrightarrow> rd \<and> wr)))" by (simp add: keeps_def)
  then show "wp (stream_notify_waiting os a w1) (\<lambda>w''. keeps os H w w'' \<and>
    (\<exists>rd wr. view w'' = upd a (\<lambda>s. wake rd wr (s\<lparr>a_state := st\<rparr>)) (view w) \<and> (reliable os w \<longrightarrow> rd \<and> wr)))"
    by (rule wp_call) (use w1 in \<open>auto simp: upd_upd keeps_def\<close>)
qed

lemma process_fin_wp:
  assumes "winv os H w" and "os_live os" and "heap w a = Some s" and "Send_lock a \<notin> H" "Recv_lock a \<notin> H"
  shows "wp (process_fin os a flags w)
    (\<lambda>(err, w'). keeps os H w w' \<and>
      (case if has_flag flags FLAG_FIN then fin_state (st_state s) else Some (st_state s) of
        None \<Rightarrow> err \<and> view w' = view w
      | Some st \<Rightarrow> \<not> err \<and> (\<exists>rd wr. view w' = upd a (\<lambda>s. wake rd wr (s\<lparr>a_state := st\<rparr>)) (view w) \<and>
          (if has_flag flags FLAG_FIN then reliable os w \<longrightarrow> rd \<and> wr else \<not> rd \<and> \<not> wr))))"
proof (cases "has_flag flags FLAG_FIN")
  case False
  have "upd a (a_state_update (\<lambda>_. st_state s)) (view w) = view w"
    using assms(3) by (intro upd_id) (auto simp: view_stream_def)
  then show ?thesis using False assms(1,3) by (auto simp: process_fin_def keeps_refl intro!: exI [of _ False])
next
  case True
  show ?thesis
  proof (cases "fin_state (st_state s)")
    case None
    with True assms(1,3) show ?thesis by (simp add: process_fin_def keeps_refl)
  next
    case (Some st)
    show ?thesis using True Some assms(3)
      by (simp add: process_fin_def, intro wp_call [OF close_stage [OF assms, of st]]) (auto simp: wp_iff)
  qed
qed

lemma process_rst_wp:
  assumes "winv os H w" and "os_live os" and "heap w a = Some s" and "Send_lock a \<notin> H" "Recv_lock a \<notin> H"
  shows "wp (process_rst os a flags w) (\<lambda>w'. keeps os H w w' \<and>
      (\<exists>rd wr. view w' = upd a (\<lambda>s. wake rd wr (if has_flag flags FLAG_RST then s\<lparr>a_state := STATE_RESET\<rparr> else s)) (view w) \<and>
        (if has_flag flags FLAG_RST then reliable os w \<longrightarrow> rd \<and> wr else \<not> rd \<and> \<not> wr)))"
proof (cases "has_flag flags FLAG_RST")
  case True
  with close_stage [OF assms, of STATE_RESET] show ?thesis by (simp add: process_rst_def)
next
  case False
  have "upd a (\<lambda>s. s) (view w) = view w" by (rule upd_id) simp
  with False assms(1) show ?thesis by (auto simp: process_rst_def keeps_refl intro!: exI [of _ False])
qed

definition flags_post ::
  "'k os \<Rightarrow> mutex set \<Rightarrow> addr \<Rightarrow> uint16 \<Rightarrow> stream_state \<Rightarrow> 'k world \<Rightarrow> int \<Rightarrow> 'k world \<Rightarrow> bool" where
  "flags_post os H a flags st0 w r w' \<longleftrightarrow> keeps os H w w' \<and>
     (case next_state flags st0 of
        None \<Rightarrow> r = - 1 \<and> view w' = upd a (a_state_update (\<lambda>_. ack_state flags st0)) (view w)
      | Some st \<Rightarrow> r = 0 \<and> (\<exists>rd wr. view w' = upd a (\<lambda>s. wake rd wr (s\<lparr>a_state := st\<rparr>)) (view w) \<and>
          (if closing flags then reliable os w \<longrightarrow> rd \<and> wr else \<not> rd \<and> \<not> wr)))"

lemma lock_eq:
  assumes "winv os H w" and "live w m" and "m \<notin> H"
  shows "\<exists>w'. mutex_lock m w = Some w' \<and> keeps os (insert m H) w w' \<and> view w' = view w \<and> heap w' = heap w \<and>
    sess w' = sess w \<and> kern w' = kern w \<and> mem w' = mem w \<and> brk w' = brk w"
  using assms winv_mutex [OF assms(1,2)] by (auto simp: mutex_lock_def keeps_lock)

lemma unlock_eq:
  assumes "winv os (insert m H) w" and "live w m" and "m \<notin> H"
  shows "\<exists>w'. mutex_unlock m w = Some w' \<and> keeps os H w w' \<and> view w' = view w \<and> heap w' = heap w \<and>
    sess w' = sess w \<and> kern w' = kern w \<and> mem w' = mem w \<and> brk w' = brk w"
  using assms winv_mutex [OF assms(1,2)] winv_mutexes_upd(2) [OF assms(1), of m]
  by (auto simp: mutex_unlock_def keeps_def)

text \<open>The flags after an acceptable \<open>FIN\<close>: a \<open>RST\<close> is processed and the state lock is released.\<close>

lemma flags_finish:
  assumes live: "os_live os" and H: "State_lock a \<notin> H" "Send_lock a \<notin> H" "Recv_lock a \<notin> H" and s: "heap w a \<noteq> None"
    and inv: "winv os (insert (State_lock a) H) w"
  shows "\<exists>w3 w4 rd wr. process_rst os a flags w = Some w3 \<and> mutex_unlock (State_lock a) w3 = Some w4 \<and>
    keeps os H w w4 \<and>
    view w4 = upd a (\<lambda>s. wake rd wr (if has_flag flags FLAG_RST then s\<lparr>a_state := STATE_RESET\<rparr> else s)) (view w) \<and>
    (if has_flag flags FLAG_RST then reliable os w \<longrightarrow> rd \<and> wr else \<not> rd \<and> \<not> wr)"
proof -
  let ?H = "insert (State_lock a) H"
  have free: "Send_lock a \<notin> ?H" "Recv_lock a \<notin> ?H" using H by auto
  from s obtain t where t: "heap w a = Some t" by blast
  from wpD [OF process_rst_wp [OF inv live t free, of flags]] obtain w3 rd wr where
    w3: "process_rst os a flags w = Some w3" "keeps os ?H w w3"
    "view w3 = upd a (\<lambda>s. wake rd wr (if has_flag flags FLAG_RST then s\<lparr>a_state := STATE_RESET\<rparr> else s)) (view w)"
    "if has_flag flags FLAG_RST then reliable os w \<longrightarrow> rd \<and> wr else \<not> rd \<and> \<not> wr" by auto
  from view_stream_at [OF w3(3) t] have "live w3 (State_lock a)" by auto
  from unlock_eq [OF keeps_winv [OF w3(2)] this H(1)] obtain w4 where
    w4: "mutex_unlock (State_lock a) w3 = Some w4" "keeps os H w3 w4" "view w4 = view w3" by auto
  have "keeps os H w w4" using w3(2) w4(2) by (simp add: keeps_def)
  with w3(1,3,4) w4(1,3) show ?thesis by (intro exI [of _ w3] exI [of _ w4] exI [of _ rd] exI [of _ wr]) simp
qed

lemma stream_process_flags_spec:
  assumes "winv os H w" and "os_live os" and "heap w a = Some s"
    and "State_lock a \<notin> H" "Send_lock a \<notin> H" "Recv_lock a \<notin> H"
  shows "\<exists>r w'. stream_process_flags os a flags w = Some (r, w') \<and> flags_post os H a flags (st_state s) w r w'"
proof -
  let ?H = "insert (State_lock a) H" and ?ack = "ack_state flags (st_state s)"
  have free: "Send_lock a \<notin> ?H" "Recv_lock a \<notin> ?H" using assms by auto
  from lock_eq [OF assms(1) _ assms(4)] assms(3) obtain w0 where w0: "mutex_lock (State_lock a) w = Some w0"
    "keeps os ?H w w0" "view w0 = view w" "heap w0 a = Some s" by auto
  from wpD [OF process_ack_wp [OF keeps_winv [OF w0(2)] w0(4), of flags]] obtain w1 where
    w1: "process_ack a flags w0 = Some w1" "keeps os ?H w0 w1"
    "view w1 = upd a (a_state_update (\<lambda>_. ?ack)) (view w)" using w0(3) by auto
  from view_stream_at [OF w1(3) assms(3)] obtain s1 where s1: "heap w1 a = Some s1" "st_state s1 = ?ack"
    by (metis (no_types, lifting) astream.select_convs(1) astream.update_convs(1) view_stream_sel(1) astream.surjective)
  from wpD [OF process_fin_wp [OF keeps_winv [OF w1(2)] assms(2) s1(1) free, of flags, unfolded s1(2)]] obtain err w2 where
    w2: "process_fin os a flags w1 = Some (err, w2)" "keeps os ?H w1 w2" and
    fin: "case if has_flag flags FLAG_FIN then fin_state ?ack else Some ?ack of
        None \<Rightarrow> err \<and> view w2 = view w1
      | Some st \<Rightarrow> \<not> err \<and> (\<exists>rd wr. view w2 = upd a (\<lambda>s. wake rd wr (s\<lparr>a_state := st\<rparr>)) (view w1) \<and>
          (if has_flag flags FLAG_FIN then reliable os w1 \<longrightarrow> rd \<and> wr else \<not> rd \<and> \<not> wr))" by auto
  have k2: "keeps os ?H w w2" using w0(2) w1(2) w2(2) by (auto simp: keeps_def)
  show ?thesis
  proof (cases "if has_flag flags FLAG_FIN then fin_state ?ack else Some ?ack")
    case None
    with fin have v2: "err" "view w2 = upd a (a_state_update (\<lambda>_. ?ack)) (view w)" using w1(3) by auto
    from view_stream_at [OF v2(2) assms(3)] have "live w2 (State_lock a)" by auto
    from unlock_eq [OF keeps_winv [OF k2] this assms(4)] obtain w3 where
      "mutex_unlock (State_lock a) w2 = Some w3" "keeps os H w2 w3" "view w3 = view w2" by auto
    with None w0 w1 w2 v2 k2 show ?thesis
      by (auto simp: stream_process_flags_def flags_post_def next_state_def keeps_def)
  next
    case (Some st)
    with fin obtain rd wr where v2: "\<not> err" "view w2 = upd a (\<lambda>s. wake rd wr (s\<lparr>a_state := st\<rparr>)) (view w)"
      "if has_flag flags FLAG_FIN then reliable os w1 \<longrightarrow> rd \<and> wr else \<not> rd \<and> \<not> wr"
      using w1(3) by (auto simp: upd_upd)
    have "heap w2 a \<noteq> None" using view_stream_at [OF v2(2) assms(3)] by auto
    from flags_finish [OF assms(2,4-6) this keeps_winv [OF k2], of flags] obtain w3 w4 rd' wr' where
      w4: "process_rst os a flags w2 = Some w3" "mutex_unlock (State_lock a) w3 = Some w4" "keeps os H w2 w4"
      "view w4 = upd a (\<lambda>s. wake rd' wr' (if has_flag flags FLAG_RST then s\<lparr>a_state := STATE_RESET\<rparr> else s)) (view w2)"
      "if has_flag flags FLAG_RST then reliable os w2 \<longrightarrow> rd' \<and> wr' else \<not> rd' \<and> \<not> wr'" by blast
    let ?st = "if has_flag flags FLAG_RST then STATE_RESET else st"
    have "view w4 = upd a (\<lambda>s. wake (rd \<or> rd') (wr \<or> wr') (s\<lparr>a_state := ?st\<rparr>)) (view w)"
      unfolding w4(4) v2(2) upd_upd by (rule upd_cong) (auto simp: wake_def)
    moreover have "keeps os H w w4" "if closing flags then reliable os w \<longrightarrow> (rd \<or> rd') \<and> (wr \<or> wr') else \<not> (rd \<or> rd') \<and> \<not> (wr \<or> wr')"
      using k2 w4(3,5) v2(3) w0(2) w1(2) by (auto simp: keeps_def closing_def split: if_splits)
    moreover have "next_state flags (st_state s) = Some ?st" using Some by (simp add: next_state_def)
    ultimately have "flags_post os H a flags (st_state s) w 0 w4"
      unfolding flags_post_def by (simp only: option.case) blast
    moreover have "stream_process_flags os a flags w = Some (0, w4)"
      using w0(1) w1(1) w2(1) v2(1) w4(1,2) by (simp add: stream_process_flags_def)
    ultimately show ?thesis by blast
  qed
qed

text \<open>The flags a frame carries and the state after sending it.\<close>

fun send_step :: "stream_state \<Rightarrow> uint16 \<times> stream_state" where
  "send_step STATE_INIT = (FLAG_SYN, STATE_SYN_SENT)"
| "send_step STATE_SYN_RECEIVED = (FLAG_ACK, STATE_ESTABLISHED)"
| "send_step st = (0, st)"

lemma stream_send_flags_spec:
  assumes "winv os H w" and "heap w a = Some s" and "State_lock a \<notin> H"
  shows "\<exists>w'. stream_send_flags a w = Some (fst (send_step (st_state s)), w') \<and> keeps os H w w' \<and>
    heap w' a = Some (s\<lparr>st_state := snd (send_step (st_state s))\<rparr>) \<and>
    view w' = upd a (a_state_update (\<lambda>_. snd (send_step (st_state s)))) (view w)"
proof -
  have m: "mutexes w (State_lock a) = Free" using winv_mutex [OF assms(1)] assms(2,3) by simp
  let ?st = "snd (send_step (st_state s))"
  let ?w = "put_stream a (s\<lparr>st_state := ?st\<rparr>) w"
  have "s\<lparr>st_state := st_state s\<rparr> = s" by simp
  then have "stream_send_flags a w = Some (fst (send_step (st_state s)), ?w)"
    using m assms(2)
    by (cases "st_state s") (auto simp: stream_send_flags_def set_state_def mutex_lock_free mutex_unlock_held
        fun_upd_idem put_stream_def)
  moreover have "keeps os H w ?w" "view ?w = upd a (a_state_update (\<lambda>_. ?st)) (view w)"
    using assms by (auto intro!: keeps_put_stream view_put_upd simp: winv_recv_buf view_stream_def)
  ultimately show ?thesis by simp
qed

section \<open>Frames\<close>

lemma bio_write_view:
  assumes "bio_ok b" and "n \<le> length d" and "n < 2 ^ 31"
  obtains (complete) b' al' where "bio_write b d n al = Some (int n, b', al')" "bio_ok b'"
      "succeeds al' = succeeds al" "bio_bytes b' = bio_bytes b @ take n d"
  | (failed) b' al' k where "bio_write b d n al = Some (- 1, b', al')" "bio_ok b'"
      "succeeds al' = succeeds al" "bio_bytes b' = bio_bytes b @ take k d" "k < n" "4096 dvd k" "\<not> never_fails al"
  using bio_write_correct [OF assms(1,2), of al] to_int_small [OF assms(3)] by (auto intro: that)

lemma session_send_buf_write_spec:
  assumes "winv os H w" and "Session_send_lock \<notin> H" and "n \<le> length d" and "n < 2 ^ 31"
  shows "\<exists>r w'. session_send_buf_write d n w = Some (r, w') \<and> keeps os H w w' \<and> heap w' = heap w \<and>
    (r = 0 \<and> view w' = put_out (take n d) (view w) \<or>
     r = - 1 \<and> \<not> reliable os w \<and> (\<exists>k<n. 4096 dvd k \<and> view w' = put_out (take k d) (view w)))"
proof -
  have m: "mutexes w Session_send_lock = Free" using winv_mutex [OF assms(1)] assms(2) by simp
  let ?ok = "\<lambda>b al. (put_sess ((sess w)\<lparr>ss_send_buf := b\<rparr>) w)\<lparr>mem := al\<rparr>"
  have st: "keeps os H w (?ok b al)" "view (?ok b al) = put_out xs (view w)"
    if "bio_ok b" "succeeds al = succeeds (mem w)" "bio_bytes b = bio_bytes (ss_send_buf (sess w)) @ xs" for b al xs
    using that assms(1) winv_bufs [OF assms(1)]
    by (auto simp: keeps_def view_sess put_out_def intro: winv_put_sess)
  have run: "session_send_buf_write d n w = Some (if r = - 1 then - 1 else 0, ?ok b al)"
    if "bio_write (ss_send_buf (sess w)) d n (mem w) = Some (r, b, al)" for r b al
    using m that
    by (auto simp: session_send_buf_write_def mutex_lock_free mutex_unlock_held fun_upd_idem put_sess_def Let_def)
  show ?thesis
  proof (rule bio_write_view [of "ss_send_buf (sess w)" n d "mem w"])
    show "bio_ok (ss_send_buf (sess w))" using winv_bufs [OF assms(1)] by simp
  next
    fix b' al' assume *: "bio_write (ss_send_buf (sess w)) d n (mem w) = Some (int n, b', al')" "bio_ok b'"
      "succeeds al' = succeeds (mem w)" "bio_bytes b' = bio_bytes (ss_send_buf (sess w)) @ take n d"
    show ?thesis using run [OF *(1)] st [OF *(2-4)]
      by (intro exI [of _ 0] exI [of _ "?ok b' al'"]) auto
  next
    fix b' al' k assume *: "bio_write (ss_send_buf (sess w)) d n (mem w) = Some (- 1, b', al')" "bio_ok b'"
      "succeeds al' = succeeds (mem w)" "bio_bytes b' = bio_bytes (ss_send_buf (sess w)) @ take k d"
      "k < n" "4096 dvd k" "\<not> never_fails (mem w)"
    show ?thesis using run [OF *(1)] st [OF *(2-4)] *(5-7)
      by (intro exI [of _ "- 1"] exI [of _ "?ok b' al'"]) (auto simp: reliable_def)
  qed (use assms in auto)
qed

text \<open>A header is written whole or not at all.\<close>

definition sends :: "'k os \<Rightarrow> mutex set \<Rightarrow> byte list \<Rightarrow> 'k world \<Rightarrow> int \<Rightarrow> 'k world \<Rightarrow> bool" where
  "sends os H bs w r w' \<longleftrightarrow> keeps os H w w' \<and> heap w' = heap w \<and>
     (r = 0 \<and> view w' = put_out bs (view w) \<or> r = - 1 \<and> view w' = view w \<and> \<not> reliable os w)"

lemma send_hdr_spec:
  assumes "winv os H w" and "Session_send_lock \<notin> H" and "length hdr = 12"
  shows "\<exists>r w'. session_send_buf_write hdr 12 w = Some (r, w') \<and> sends os H hdr w r w'"
proof -
  have "\<not> 4096 dvd k" if "k < 12" "0 < k" for k :: nat using that by (auto dest: dvd_imp_le)
  then have "k < 12 \<Longrightarrow> 4096 dvd k \<Longrightarrow> k = 0" for k :: nat by auto
  then show ?thesis using session_send_buf_write_spec [OF assms(1,2), of 12 hdr] assms(3)
    by (auto simp: sends_def)
qed

definition goes_away :: "'k os \<Rightarrow> mutex set \<Rightarrow> uint32 \<Rightarrow> 'k world \<Rightarrow> int \<Rightarrow> 'k world \<Rightarrow> bool" where
  "goes_away os H reason w r w' \<longleftrightarrow> keeps os H w w' \<and> heap w' = heap w \<and>
     (r = 0 \<and> view w' = put_out (frame_hdr TYPE_GO_AWAY 0 0 reason) ((view w)\<lparr>a_local_go_away := True\<rparr>) \<or>
      r = - 1 \<and> view w' = (view w)\<lparr>a_local_go_away := True\<rparr> \<and> \<not> reliable os w)"

lemma go_away_spec:
  assumes "winv os H w" and "Session_send_lock \<notin> H"
  shows "\<exists>r w'. session_go_away_for_reason os reason w = Some (r, w') \<and> goes_away os H reason w r w'"
proof -
  let ?w = "put_sess ((sess w)\<lparr>ss_local_go_away := True\<rparr>) w"
  have "winv os H ?w" using assms(1) winv_bufs [OF assms(1)] by (auto intro: winv_put_sess)
  moreover have "view ?w = (view w)\<lparr>a_local_go_away := True\<rparr>" by (rule view_sess)
  ultimately show ?thesis
    using send_hdr_spec [of os H ?w "frame_hdr TYPE_GO_AWAY 0 0 reason"] assms(2)
    by (auto simp: session_go_away_for_reason_def goes_away_def sends_def hdr_encode_frame keeps_def)
qed

lemma notify_accept_spec:
  assumes "winv os H w" and "os_live os" and "Session_send_lock \<notin> H"
  shows "\<exists>r w'. notify_accept os sid w = Some (r, w') \<and> keeps os H w w' \<and> heap w' = heap w \<and>
    (r = 0 \<and> view w' = view w \<or> r = - 1 \<and> \<not> reliable os w \<and>
      (\<exists>bs. view w' = put_out bs ((view w)\<lparr>a_local_go_away := True\<rparr>)))"
proof -
  obtain r k where
    io: "sys_write os (ss_private_fd (sess w)) (store32 (host_le os) sid) (kern w) = Some (r, k)" and
    kp: "- 1 \<le> r" "length (store32 (host_le os) sid) \<le> 4 \<longrightarrow> r = - 1 \<or> r = int (length (store32 (host_le os) sid))"
    "\<And>f. peer os f k = peer os f (kern w)" "\<And>f. avail os f k = (if peer os (ss_private_fd (sess w)) (kern w) = Some f \<and> 0 < r
      then avail os f (kern w) + nat r else avail os f (kern w))" 
    by (rule os_write [OF assms(2), of "ss_private_fd (sess w)" "store32 (host_le os) sid" "kern w"]) blast
  have r: "r = - 1 \<or> r = 4" using kp(2) by simp
  have "wired os (w\<lparr>kern := k\<rparr>)" using kp(3,4) by (intro wired_more [OF winv_wired [OF assms(1)]]) auto
  then have inv: "winv os H (w\<lparr>kern := k\<rparr>)" by (rule winv_kern [OF assms(1)])
  show ?thesis
  proof (cases "r = - 1")
    case False
    with r io inv show ?thesis by (auto simp: notify_accept_def c_write_def keeps_def)
  next
    case True
    have "store32 (host_le os) sid \<noteq> []" by (simp add: store32_def Let_def)
    then have nr: "\<not> reliable os w" using reliable_write [OF _ _ io] True by fastforce
    from go_away_spec [OF inv assms(3), of GO_AWAY_INTERNAL_ERR] obtain r' w' where
      w': "session_go_away_for_reason os GO_AWAY_INTERNAL_ERR (w\<lparr>kern := k\<rparr>) = Some (r', w')"
      "goes_away os H GO_AWAY_INTERNAL_ERR (w\<lparr>kern := k\<rparr>) r' w'" by auto
    then have "notify_accept os sid w = Some (- 1, w')" using True io by (simp add: notify_accept_def c_write_def)
    moreover have "\<exists>bs. view w' = put_out bs ((view w)\<lparr>a_local_go_away := True\<rparr>)"
      using w'(2) unfolding goes_away_def by (metis put_out_Nil view_upd(1))
    ultimately show ?thesis using w'(2) nr by (auto simp: goes_away_def keeps_def)
  qed
qed

lemma word_of_to_int: "(word_of_int (to_int n) :: uint32) = of_nat n"
proof -
  have "int n + 2 ^ 31 - (int n + 2 ^ 31) mod 2 ^ 32 = 2 ^ 32 * ((int n + 2 ^ 31) div 2 ^ 32)"
    by (simp add: minus_mod_eq_mult_div)
  then have "int n = to_int n + 2 ^ 32 * ((int n + 2 ^ 31) div 2 ^ 32)" by (simp add: to_int_def)
  then have "(of_int (int n) :: uint32) = of_int (to_int n + 2 ^ 32 * ((int n + 2 ^ 31) div 2 ^ 32))" by simp
  also have "\<dots> = of_int (to_int n) + of_int (2 ^ 32) * of_int ((int n + 2 ^ 31) div 2 ^ 32)"
    by (simp only: of_int_add of_int_mult)
  also have "(of_int (2 ^ 32) :: uint32) = 0" using word_exp_length_eq_0 [where 'a = 32] by simp
  finally show ?thesis by simp
qed

text \<open>What the receiver may grant, and the state after granting it.\<close>

definition window_delta :: "astream \<Rightarrow> uint32" where
  "window_delta s = MAX_STREAM_WINDOW_SIZE - of_nat (length (a_data s)) - a_recv_window s"

definition no_update :: "astream \<Rightarrow> bool" where
  "no_update s \<longleftrightarrow> window_delta s < MAX_STREAM_WINDOW_SIZE div 2 \<and> fst (send_step (a_state s)) = 0"

definition granted :: "astream \<Rightarrow> astream" where
  "granted s = (if no_update s then s else
     s\<lparr>a_state := snd (send_step (a_state s)), a_recv_window := a_recv_window s + window_delta s\<rparr>)"

definition window_frame :: "astream \<Rightarrow> byte list" where
  "window_frame s = (if no_update s then [] else
     frame_hdr TYPE_WINDOW_UPDATE (fst (send_step (a_state s))) (a_id s) (window_delta s))"

lemma send_step_0: "fst (send_step st) = 0 \<Longrightarrow> snd (send_step st) = st"
  by (cases st) (simp_all add: flag_defs)

lemma send_window_update_spec:
  assumes "winv os H w" and "heap w a = Some s"
    and "State_lock a \<notin> H" "Recv_lock a \<notin> H" "Session_send_lock \<notin> H"
  defines "t \<equiv> view_stream s"
  shows "\<exists>r w'. send_window_update os a w = Some (r, w') \<and> keeps os H w w' \<and>
    (r = 0 \<and> view w' = put_out (window_frame t) (upd a granted (view w)) \<or>
     r = - 1 \<and> view w' = upd a granted (view w) \<and> \<not> reliable os w)"
proof -
  let ?flags = "fst (send_step (st_state s))" and ?st = "snd (send_step (st_state s))"
  let ?s1 = "s\<lparr>st_state := ?st\<rparr>"
  from stream_send_flags_spec [OF assms(1-3)] obtain w1 where
    w1: "stream_send_flags a w = Some (?flags, w1)" "keeps os H w w1" "heap w1 a = Some ?s1"
      "view w1 = upd a (a_state_update (\<lambda>_. ?st)) (view w)" by blast
  have m: "mutexes w1 (Recv_lock a) = Free"
    using winv_mutex [OF keeps_winv [OF w1(2)]] w1(3) assms(4) by simp
  have pend: "word_of_int (bio_pending (st_recv_buf s)) = (of_nat (length (a_data t)) :: uint32)"
    using winv_recv_buf [OF assms(1,2)] by (simp add: bio_pending_correct word_of_to_int t_def)
  show ?thesis
  proof (cases "no_update t")
    case True
    then have "?flags = 0" "?st = st_state s" using send_step_0 [of "st_state s"] by (auto simp: no_update_def t_def)
    moreover from this have "view w1 = view w"
      unfolding w1(4) using assms(2) by (intro upd_id) (auto simp: view_stream_def)
    moreover have "upd a granted (view w) = view w"
      using True assms(2) by (intro upd_id) (auto simp: granted_def t_def)
    moreover have "send_window_update os a w = Some (0, w1)" using True w1(1,3) m pend \<open>?flags = 0\<close>
      by (simp add: send_window_update_def mutex_lock_free mutex_unlock_held fun_upd_idem no_update_def
          window_delta_def t_def)
    ultimately show ?thesis using True w1(2) by (auto simp: window_frame_def)
  next
    case False
    let ?s2 = "?s1\<lparr>st_recv_window := st_recv_window s + window_delta t\<rparr>"
    let ?w2 = "put_stream a ?s2 w1" and ?hdr = "frame_hdr TYPE_WINDOW_UPDATE ?flags (st_id s) (window_delta t)"
    have k2: "keeps os H w1 ?w2" using keeps_winv [OF w1(2)] w1(3) winv_recv_buf [OF keeps_winv [OF w1(2)] w1(3)]
      by (intro keeps_put_stream [OF _ w1(3)]) auto
    have "view ?w2 = upd a (a_recv_window_update (\<lambda>_. st_recv_window s + window_delta t)) (view w1)"
      by (intro view_put_upd [OF w1(3)]) (auto simp: view_stream_def)
    also have "\<dots> = upd a granted (view w)" unfolding w1(4) upd_upd
      using assms(2) False by (intro upd_cong) (auto simp: granted_def t_def view_stream_def)
    finally have v2: "view ?w2 = upd a granted (view w)" .
    from send_hdr_spec [OF keeps_winv [OF k2] assms(5), of ?hdr] obtain r w' where
      w': "session_send_buf_write ?hdr 12 ?w2 = Some (r, w')" "sends os H ?hdr ?w2 r w'" by auto
    have dl: "MAX_STREAM_WINDOW_SIZE - of_nat (length (a_data t)) - st_recv_window s = window_delta t"
      and nu: "\<not> (window_delta t < MAX_STREAM_WINDOW_SIZE div 2 \<and> ?flags = 0)"
      using False by (simp_all add: window_delta_def no_update_def t_def)
    have "send_window_update os a w = Some (if r \<noteq> 0 then - 1 else 0, w')"
      using w1(1,3) m w'(1) nu
      by (auto simp: send_window_update_def mutex_lock_free mutex_unlock_held fun_upd_idem put_mutexes Let_def
          pend dl hdr_encode_frame)
    moreover have "keeps os H w w'" using w1(2) k2 w'(2) by (auto simp: keeps_def sends_def)
    moreover have "\<not> reliable os ?w2 \<Longrightarrow> \<not> reliable os w" using w1(2) k2 by (auto simp: keeps_def)
    ultimately show ?thesis using w'(2) v2 False by (auto simp: sends_def window_frame_def t_def)
  qed
qed

section \<open>Descriptors of other streams\<close>

text \<open>A call that leaves the pairs in use alone, and a descriptor that is in none of them.\<close>

definition spared :: "'k os \<Rightarrow> 'k \<Rightarrow> 'k \<Rightarrow> int \<Rightarrow> bool" where
  "spared os k k' f \<longleftrightarrow> peer os f k' = peer os f k \<and> avail os f k' = avail os f k"

definition spares :: "'k os \<Rightarrow> 'k world \<Rightarrow> 'k \<Rightarrow> bool" where
  "spares os w k \<longleftrightarrow> (\<forall>x p. socks w x = Some p \<longrightarrow> spared os (kern w) k (fst p) \<and> spared os (kern w) k (snd p))"

definition outside :: "'k world \<Rightarrow> int \<Rightarrow> bool" where
  "outside w fd \<longleftrightarrow> (\<forall>x p. socks w x = Some p \<longrightarrow> fd \<noteq> fst p \<and> fd \<noteq> snd p)"

lemma spares_refl [simp]: "spares os w (kern w)"
  by (simp add: spares_def spared_def)

lemma wired_peer: "wired os w \<Longrightarrow> socks w x = Some p \<Longrightarrow>
    peer os (fst p) (kern w) = Some (snd p) \<and> peer os (snd p) (kern w) = Some (fst p)"
  unfolding wired_def paired_def by blast

lemma outside_unpaired: "wired os w \<Longrightarrow> peer os fd (kern w) = None \<Longrightarrow> outside w fd"
  unfolding outside_def using wired_peer [of os w] by (metis option.distinct(1))

lemma spares_quiet: "spares os w k \<Longrightarrow> quiet os k k' \<Longrightarrow> spares os w k'"
  by (simp add: spares_def spared_def quiet_def)

lemma spares_pair:
  assumes "os_live os" and "wired os w" and "sys_socketpair os (kern w) = (fds, k)"
  shows "spares os w k"
proof (cases fds)
  case None
  with assms show ?thesis by (auto simp: os_live_def pairs_ok_def intro: spares_quiet [OF spares_refl])
next
  case (Some p)
  obtain fd0 fd1 where p: "p = (fd0, fd1)" by (cases p)
  with Some assms have k: "peer os fd0 (kern w) = None" "peer os fd1 (kern w) = None"
    "\<And>f. f \<noteq> fd0 \<Longrightarrow> f \<noteq> fd1 \<Longrightarrow> peer os f k = peer os f (kern w) \<and> avail os f k = avail os f (kern w)"
    by (auto simp: os_live_def pairs_ok_def)
  have "outside w fd0" "outside w fd1" using outside_unpaired [OF assms(2)] k by auto
  with k(3) show ?thesis unfolding spares_def outside_def spared_def by metis
qed

lemma spares_close:
  assumes "os_live os" and "wired os w" and "spares os w k" and "outside w fd"
  shows "spares os w (sys_close os fd k)"
proof -
  have step: "spared os (kern w) (sys_close os fd k) f"
    if "spared os (kern w) k f" "f \<noteq> fd" "peer os f (kern w) \<noteq> Some fd" for f
    using assms(1) that by (auto simp: os_live_def closes_ok_def spared_def)
  show ?thesis unfolding spares_def
  proof (intro allI impI)
    fix x p assume p: "socks w x = Some p"
    from assms(3,4) p have "spared os (kern w) k (fst p)" "spared os (kern w) k (snd p)" "fd \<noteq> fst p" "fd \<noteq> snd p"
      unfolding spares_def outside_def by blast+
    then show "spared os (kern w) (sys_close os fd k) (fst p) \<and> spared os (kern w) (sys_close os fd k) (snd p)"
      using step wired_peer [OF assms(2) p] by auto
  qed
qed

lemma wired_spares:
  assumes "wired os w" and "spares os w k"
  shows "wired os (w\<lparr>kern := k\<rparr>)"
proof -
  have "paired os k p = paired os (kern w) p" "signalled os k p f = signalled os (kern w) p f" if "socks w x = Some p" for x p f
  proof -
    have "spared os (kern w) k (fst p)" "spared os (kern w) k (snd p)" using assms(2) that unfolding spares_def by blast+
    then show "paired os k p = paired os (kern w) p" "signalled os k p f = signalled os (kern w) p f"
      by (auto simp: paired_def signalled_def spared_def)
  qed
  then show ?thesis using wiredD [OF assms(1)] by (intro wiredI) simp_all
qed

lemma wired_new:
  assumes w: "wired os w" and k: "spares os w k" and a: "heap w a = None"
    and p: "paired os k (st_fd s, st_private_fd s)" and out: "outside w (st_fd s)" "outside w (st_private_fd s)"
    and flags: "\<not> st_readable s" "st_writeable s"
  shows "wired os ((put_stream a s w)\<lparr>kern := k\<rparr>)"
proof -
  let ?w = "(put_stream a s w)\<lparr>kern := k\<rparr>" and ?p = "(st_fd s, st_private_fd s)"
  have socks: "socks ?w = (socks w)(Some a \<mapsto> ?p)" by (auto simp: socks_def fun_eq_iff split: option.split)
  have sig: "signals ?w = (signals w)(a \<mapsto> (False, True))" using flags by (auto simp: signals_def fun_eq_iff)
  have wk: "wired os (w\<lparr>kern := k\<rparr>)" by (rule wired_spares [OF w k])
  have ap: "apart q ?p \<and> apart ?p q" if "socks w x = Some q" for x q
    using out that unfolding outside_def apart_def by (cases q) fastforce
  show ?thesis
  proof (rule wiredI; unfold socks sig)
    fix x q assume "((socks w)(Some a \<mapsto> ?p)) x = Some q"
    then show "paired os (kern ?w) q" using p wiredD(1) [OF wk, of x] by (auto split: if_splits)
  next
    fix x y q r assume "((socks w)(Some a \<mapsto> ?p)) x = Some q" "((socks w)(Some a \<mapsto> ?p)) y = Some r" "x \<noteq> y"
    then show "apart q r" using ap wiredD(2) [OF w, of x q y r] by (auto split: if_splits)
  next
    fix b q f assume "((socks w)(Some a \<mapsto> ?p)) (Some b) = Some q" "((signals w)(a \<mapsto> (False, True))) b = Some f"
    then show "signalled os (kern ?w) q f" using wiredD(3) [OF wk, of b q f] by (auto simp: signalled_def split: if_splits)
  qed
qed

lemma wired_free:
  assumes "wired os w" and "heap w' = (heap w)(a := None)" and "kern w' = kern w"
    and "ss_fd (sess w') = ss_fd (sess w)" "ss_private_fd (sess w') = ss_private_fd (sess w)"
  shows "wired os w'"
proof -
  have "socks w' = (socks w)(Some a := None)" using assms(2,4,5) by (auto simp: socks_def fun_eq_iff split: option.split)
  moreover have "signals w' = (signals w)(a := None)" using assms(2) by (auto simp: signals_def fun_eq_iff)
  ultimately show ?thesis using assms(3) wiredD [OF assms(1)]
    by (intro wiredI) (auto split: if_splits)
qed

lemma wired_apart:
  assumes "wired os w" and "heap w a = Some s"
  shows "x \<noteq> Some a \<Longrightarrow> socks w x = Some p \<Longrightarrow>
    st_fd s \<noteq> fst p \<and> st_fd s \<noteq> snd p \<and> st_private_fd s \<noteq> fst p \<and> st_private_fd s \<noteq> snd p"
proof -
  assume x: "x \<noteq> Some a" "socks w x = Some p"
  have "socks w (Some a) = Some (st_fd s, st_private_fd s)" using assms(2) by (simp add: socks_def)
  from wiredD(2) [OF assms(1) x(2) this x(1)] show ?thesis by (auto simp: apart_def)
qed

lemma wired_sess_read:
  assumes w: "wired os w" and k: "\<And>f. peer os f k = peer os f (kern w)" "\<And>f. f \<noteq> ss_fd (sess w) \<Longrightarrow> avail os f k = avail os f (kern w)"
  shows "wired os (w\<lparr>kern := k\<rparr>)"
proof -
  have "signalled os k p f" if p: "socks w (Some a) = Some p" and f: "signals w a = Some f" for a p f
  proof -
    have "socks w None = Some (ss_fd (sess w), ss_private_fd (sess w))" by (simp add: socks_def)
    then have "apart p (ss_fd (sess w), ss_private_fd (sess w))" using w p unfolding wired_def by blast
    then have "signalled os k p f = signalled os (kern w) p f" using k(2) by (auto simp: apart_def signalled_def)
    then show ?thesis using w p f unfolding wired_def by blast
  qed
  then show ?thesis using w k(1) unfolding wired_def by (simp add: paired_def)
qed

section \<open>Creation and release\<close>

definition new_stream :: "uint32 \<Rightarrow> stream_state \<Rightarrow> astream" where
  "new_stream sid st = \<lparr>a_state = st, a_id = sid, a_recv_window = MAX_STREAM_WINDOW_SIZE,
     a_send_window = MAX_STREAM_WINDOW_SIZE, a_data = [], a_readable = False, a_writeable = True\<rparr>"

definition add_stream :: "addr \<Rightarrow> astream \<Rightarrow> asession \<Rightarrow> asession" where
  "add_stream a s A = A\<lparr>a_table := (a_table A)(a_id s \<mapsto> a), a_streams := (a_streams A)(a \<mapsto> s)\<rparr>"

definition del_stream :: "addr \<Rightarrow> uint32 \<Rightarrow> asession \<Rightarrow> asession" where
  "del_stream a sid A = A\<lparr>a_table := (a_table A)(sid := None), a_streams := (a_streams A)(a := None)\<rparr>"

lemma stream_setup_fd_spec:
  assumes "heap w a = Some s"
  shows "\<exists>(r :: int) k p. stream_setup_fd os a w =
      Some (if r = 0 then (0, put_stream a (s\<lparr>st_send_padding := p\<rparr>) (w\<lparr>kern := k\<rparr>)) else (- 1, w\<lparr>kern := k\<rparr>)) \<and>
    (os_reliable os \<longrightarrow> r = 0 \<and> p \<noteq> 0) \<and> (os_live os \<longrightarrow> quiet os (kern w) k)"
proof -
  define c where "c fd opt k = sys_setsockopt os fd opt 256 k" for fd opt k
  let ?fd = "st_fd s" and ?pf = "st_private_fd s"
  define x1 where "x1 = c ?fd SO_RCVBUF (kern w)"
  define x2 where "x2 = (if fst x1 \<noteq> 0 then x1 else c ?fd SO_SNDBUF (snd x1))"
  define x3 where "x3 = (if fst x2 \<noteq> 0 then x2 else c ?pf SO_RCVBUF (snd x2))"
  define x4 where "x4 = (if fst x3 \<noteq> 0 then x3 else c ?pf SO_SNDBUF (snd x3))"
  define g where "g = sys_getsockopt os ?pf SO_RCVBUF (snd x4)"
  have ok: "os_reliable os \<Longrightarrow> fst x4 = 0 \<and> (\<exists>v. fst g = Some v \<and> 0 < v \<and> v < 2 ^ 31)"
    by (simp add: x4_def x3_def x2_def x1_def c_def g_def os_reliable_def)
  have q: "quiet os (kern w) (snd x4) \<and> quiet os (kern w) (snd g)" if "os_live os"
  proof -
    have o: "quiet os k (snd (c fd opt k))" "quiet os k (snd (sys_getsockopt os fd opt k))" for fd opt k
      using that by (auto simp: os_live_def options_ok_def c_def)
    have tr: "quiet os k k' \<Longrightarrow> quiet os k' k'' \<Longrightarrow> quiet os k k''" for k k' k'' by (simp add: quiet_def)
    have 1: "quiet os (kern w) (snd x1)" unfolding x1_def by (rule o)
    then have 2: "quiet os (kern w) (snd x2)" unfolding x2_def using tr [OF 1 o(1)] by simp
    then have 3: "quiet os (kern w) (snd x3)" unfolding x3_def using tr [OF 2 o(1)] by simp
    then have 4: "quiet os (kern w) (snd x4)" unfolding x4_def using tr [OF 3 o(1)] by simp
    then show ?thesis unfolding g_def using tr [OF 4 o(2)] by simp
  qed
  have nz: "(word_of_int v :: uint32) \<noteq> 0" if "0 < v" "v < 2 ^ 31" for v :: int
    using that by (simp add: word_of_int_eq_0_iff) (auto dest: zdvd_imp_le)
  have run: "stream_setup_fd os a w = (if fst x4 \<noteq> 0 then Some (- 1, w\<lparr>kern := snd x4\<rparr>) else case fst g of
      None \<Rightarrow> Some (- 1, w\<lparr>kern := snd g\<rparr>)
    | Some v \<Rightarrow> Some (0, put_stream a (s\<lparr>st_send_padding := word_of_int v\<rparr>) (w\<lparr>kern := snd g\<rparr>)))"
    using assms by (auto simp: stream_setup_fd_def c_setsockopt_def x4_def x3_def x2_def x1_def g_def c_def
        Let_def split_beta split: option.split)
  show ?thesis
  proof (cases "fst x4 \<noteq> 0 \<or> fst g = None")
    case True
    with ok have "\<not> os_reliable os" by auto
    with True run q show ?thesis by (intro exI [of _ 1] exI [of _ "if fst x4 \<noteq> 0 then snd x4 else snd g"]) auto
  next
    case False
    then obtain v where v: "fst g = Some v" "fst x4 = 0" by auto
    with ok nz have "os_reliable os \<Longrightarrow> (word_of_int v :: uint32) \<noteq> 0" by auto
    with v run q show ?thesis by (intro exI [of _ 0] exI [of _ "snd g"] exI [of _ "word_of_int v"]) auto
  qed
qed

lemma index_okI:
  assumes "rb_map (stream_key w) (ss_streams (sess w)) m" and "\<And>sid a. m sid = Some a \<longleftrightarrow> ids w a = Some sid"
  shows "index_ok w" "table w = m"
proof -
  have "a \<in> ran m \<Longrightarrow> heap w a \<noteq> None" for a using assms(2) by (auto simp: ran_def ids_def)
  then have "RB_FIND (stream_probe w sid) (ss_streams (sess w)) = Some (m sid)" for sid
    by (intro rbm.find_law [OF assms(1)] probe_cmp)
  then show t: "table w = m" by (simp add: table_def)
  show "index_ok w" using assms by (simp add: index_ok_def t ex_ids)
qed

definition init_mutexes :: "addr \<Rightarrow> 'k world \<Rightarrow> 'k world" where
  "init_mutexes a w = mutex_init (Recv_lock a) (mutex_init (Send_lock a) (mutex_init (State_lock a) w))"

text \<open>The stream enters the tree of the session under its id.\<close>

lemma insert_stream_eq:
  assumes inv: "winv os H w" and H: "Session_streams_lock \<notin> H" and fresh: "heap w a = None" and new: "table w (st_id s) = None"
  shows "\<exists>t. session_insert_stream a (put_stream a s w) = Some (put_sess ((sess w)\<lparr>ss_streams := t\<rparr>) (put_stream a s w)) \<and>
    rb_map (stream_key (put_stream a s w)) t ((table w)(st_id s \<mapsto> a))"
proof -
  let ?w = "put_stream a s w"
  have m: "mutexes w Session_streams_lock = Free" using winv_mutex [OF inv] H by simp
  have idx: "index_ok w" using inv by (simp add: winv_def)
  have ran: "b \<in> ran (table w) \<Longrightarrow> heap w b \<noteq> None \<and> b \<noteq> a" for b
    using table_ran [OF idx, of b] fresh by (cases "b = a") simp_all
  have "rb_map (stream_key w) (ss_streams (sess w)) (table w)" using idx unfolding index_ok_def by blast
  then have rep: "rb_map (stream_key ?w) (ss_streams (sess w)) (table w)"
    by (rule rbm.rep_cong) (use ran in \<open>auto simp: stream_key_def\<close>)
  have key: "stream_key ?w a = st_id s" by (simp add: stream_key_def)
  have "cmp_for (stream_key ?w) (st_id s) (stream_probe ?w (st_id s)) (ran (table w))"
    using ran by (intro probe_cmp) auto
  from rbm.insert_law [OF rep, of a, unfolded key, OF this] ran new obtain t where
    t: "RB_INSERT (stream_probe ?w (st_id s)) (ss_streams (sess w)) a = Some (None, t)"
    "rb_map (stream_key ?w) t ((table w)(st_id s \<mapsto> a))" by auto
  have "stream_probe (?w\<lparr>mutexes := f\<rparr>) = stream_probe ?w" for f by (simp add: probe_ids)
  then have "session_insert_stream a ?w = Some (put_sess ((sess w)\<lparr>ss_streams := t\<rparr>) ?w)"
    using m t(1) by (simp add: session_insert_stream_def mutex_lock_free mutex_unlock_held put_mutexes fun_upd_idem Let_def)
  with t(2) show ?thesis by blast
qed

lemma insert_stream_spec:
  assumes inv: "winv os H w" and H: "H \<subseteq> {Session_recv_lock}" and fresh: "heap w a = None" "a < brk w"
    and new: "table w (st_id s) = None" and buf: "bio_ok (st_recv_buf s)" and wd: "wired os (put_stream a s w)"
  shows "\<exists>w1. session_insert_stream a (put_stream a s w) = Some w1 \<and> winv os H (init_mutexes a w1) \<and>
    view (init_mutexes a w1) = add_stream a (view_stream s) (view w) \<and>
    heap (init_mutexes a w1) = (heap w)(a \<mapsto> s) \<and> mem (init_mutexes a w1) = mem w"
proof -
  let ?w = "put_stream a s w" and ?m = "(table w)(st_id s \<mapsto> a)"
  from insert_stream_eq [OF inv _ fresh(1) new] H obtain t where
    run: "session_insert_stream a ?w = Some (put_sess ((sess w)\<lparr>ss_streams := t\<rparr>) ?w)" and t: "rb_map (stream_key ?w) t ?m" by auto
  define w2 where "w2 = init_mutexes a (put_sess ((sess w)\<lparr>ss_streams := t\<rparr>) ?w)"
  have w2: "heap w2 = (heap w)(a \<mapsto> s)" "mem w2 = mem w" "brk w2 = brk w" "sess w2 = (sess w)\<lparr>ss_streams := t\<rparr>"
    "mutexes w2 = (mutexes w)(State_lock a := Free, Send_lock a := Free, Recv_lock a := Free)"
    by (simp_all add: w2_def init_mutexes_def mutex_init_def)
  have ids: "ids w2 = (ids w)(a \<mapsto> st_id s)" by (simp add: ids_def w2(1) fun_eq_iff)
  have kw: "stream_key w2 = stream_key ?w" by (simp add: stream_key_def w2(1) fun_eq_iff)
  have "?m sid = Some b \<longleftrightarrow> ids w2 b = Some sid" for sid b
  proof (cases "b = a")
    case True
    have "table w sid \<noteq> Some a" using fresh(1) by (simp add: winv_table [OF inv])
    with True show ?thesis by (auto simp: ids)
  next
    case False
    have "table w sid = Some b \<longleftrightarrow> ids w b = Some sid" by (simp add: winv_table [OF inv] ex_ids)
    with False new show ?thesis by (auto simp: ids)
  qed
  then have tab: "index_ok w2" "table w2 = ?m" using index_okI [of w2 ?m] t kw w2(4) by auto
  have "live w2 m \<Longrightarrow> live w m \<or> m \<in> {State_lock a, Send_lock a, Recv_lock a}" for m
    by (cases m) (auto simp: w2(1) split: if_splits)
  moreover have "live w m \<Longrightarrow> mutexes w m = (if m \<in> H then Held else Free)" for m by (rule winv_mutex [OF inv])
  moreover have "State_lock a \<notin> H \<and> Send_lock a \<notin> H \<and> Recv_lock a \<notin> H" using H by auto
  ultimately have "locks_ok H w2" unfolding locks_ok_def w2(5) by fastforce
  moreover have "store_ok w2" using inv buf fresh(2) by (auto simp: store_ok_def winv_def w2)
  moreover have "wired os w2 = wired os ?w"
    by (rule wired_cong) (auto simp: socks_def signals_def w2_def init_mutexes_def mutex_init_def split: option.split)
  ultimately have "winv os H w2" using tab wd by (simp add: winv_def)
  moreover have "view w2 = add_stream a (view_stream s) (view w)"
    by (simp add: view_def tab(2) w2 add_stream_def fun_eq_iff)
  ultimately show ?thesis using run w2 unfolding w2_def by blast
qed

text \<open>
  Creating a stream. The calls that allocate and the failures on the way leave a world that differs from the first
  one in the allocator, the kernel and the number of addresses used only.
\<close>

lemma c_malloc_eq: "c_malloc w = (succeeds (mem w) (calls (mem w)), w\<lparr>mem := (mem w)\<lparr>calls := Suc (calls (mem w))\<rparr>\<rparr>)"
  by (simp add: c_malloc_def malloc_def)

lemma bio_new_eq:
  "bio_new al = (if succeeds al (calls al) then Some \<lparr>bio_buffers = stailq_new, bio_offset = 0, bio_len = 0\<rparr> else None,
     al\<lparr>calls := Suc (calls al)\<rparr>)"
  by (simp add: bio_new_def malloc_def)

lemma empty_bio:
  defines "b \<equiv> \<lparr>bio_buffers = stailq_new, bio_offset = 0, bio_len = 0\<rparr>"
  shows "bio_ok b" and "bio_bytes b = []" and "\<exists>b'. bio_free b = Some b'"
proof -
  show "bio_ok b" "bio_bytes b = []"
    using bio_new_ok [of "\<lparr>calls = 0, succeeds = \<lambda>_. True\<rparr>" b] by (simp_all add: bio_new_eq b_def)
  then show "\<exists>b'. bio_free b = Some b'" using bio_reset_correct by (auto simp: bio_free_def)
qed

lemma idle_world:
  fixes al :: alloc
  assumes "winv os H w" and "brk w \<le> b" and "spares os w k"
  defines "w' \<equiv> w\<lparr>brk := b, mem := al, kern := k\<rparr>"
  shows "winv os H w'" and "view w' = (view w)\<lparr>a_brk := b\<rparr>" and "table w' = table w"
    and "succeeds al = succeeds (mem w) \<Longrightarrow> keeps os H w w'"
proof -
  have "wired os w' = wired os (w\<lparr>kern := k\<rparr>)" by (rule wired_cong) (simp_all add: w'_def socks_def signals_def split: option.split)
  then have "wired os w'" using wired_spares [OF winv_wired [OF assms(1)] assms(3)] by simp
  moreover have "live w' = live w" by (intro ext live_cong) (simp add: w'_def)
  moreover have "ids w' = ids w" by (simp add: w'_def ids_def fun_eq_iff)
  ultimately show i: "winv os H w'" "view w' = (view w)\<lparr>a_brk := b\<rparr>" "table w' = table w" using assms(1,2) index_cong [of w' w]
    by (auto simp: w'_def winv_def locks_ok_def store_ok_def view_def dest: less_le_trans)
  show "keeps os H w w'" if "succeeds al = succeeds (mem w)"
    using i(1) that by (auto simp: w'_def keeps_def reliable_def never_fails_def)
qed

lemma wired_new_world:
  assumes "wired os w" and "spares os w k" and "heap w a = None" and "outside w (st_fd s)" "outside w (st_private_fd s)"
    and "paired os k (st_fd s, st_private_fd s)" and "\<not> st_readable s" and "st_writeable s"
  shows "wired os (put_stream a s (w\<lparr>brk := b, mem := al, kern := k\<rparr>))"
proof -
  have "wired os ((put_stream a s w)\<lparr>kern := k\<rparr>)" using assms by (intro wired_new) auto
  moreover have "wired os (put_stream a s (w\<lparr>brk := b, mem := al, kern := k\<rparr>)) = wired os ((put_stream a s w)\<lparr>kern := k\<rparr>)"
    by (rule wired_cong) (auto simp: socks_def signals_def split: option.split)
  ultimately show ?thesis by simp
qed

definition creates :: "'k os \<Rightarrow> mutex set \<Rightarrow> uint32 \<Rightarrow> stream_state \<Rightarrow> 'k world \<Rightarrow> ptr \<Rightarrow> 'k world \<Rightarrow> bool" where
  "creates os H sid st w p w' \<longleftrightarrow> keeps os H w w' \<and>
     (case p of None \<Rightarrow> (\<exists>b. view w' = (view w)\<lparr>a_brk := b\<rparr>) \<and> \<not> reliable os w
      | Some a \<Rightarrow> heap w a = None \<and> a = brk w \<and> view w' = add_stream a (new_stream sid st) ((view w)\<lparr>a_brk := Suc a\<rparr>))"

lemma creates_none:
  assumes "winv os H w" and "brk w \<le> b" and "spares os w k" and "succeeds al = succeeds (mem w)" and "\<not> reliable os w"
  shows "creates os H sid st w None (w\<lparr>brk := b, mem := al, kern := k\<rparr>)"
  using idle_world(4) [OF assms(1-4)] idle_world(2) [OF assms(1-3)] assms(5) by (auto simp: creates_def)

lemma stream_new_refused:
  assumes inv: "winv os H w" and live: "os_live os"
    and no: "\<not> succeeds (mem w) (calls (mem w)) \<or> \<not> succeeds (mem w) (Suc (calls (mem w))) \<or> fst (sys_socketpair os (kern w)) = None"
  shows "\<exists>w'. stream_new os sid st w = Some (None, w') \<and> creates os H sid st w None w'"
proof -
  let ?m = "mem w" and ?n = "calls (mem w)" and ?k = "snd (sys_socketpair os (kern w))"
  have nr: "\<not> reliable os w" using no reliable_socketpair [of os w "kern w"] by (auto simp: reliable_def never_fails_def)
  have k: "spares os w ?k" by (rule spares_pair [OF live winv_wired [OF inv], of "fst (sys_socketpair os (kern w))"]) simp
  have fin: ?thesis if "stream_new os sid st w = Some (None, w\<lparr>brk := b, mem := ?m\<lparr>calls := n\<rparr>, kern := k'\<rparr>)" "brk w \<le> b" "spares os w k'" for b n k'
    using creates_none [OF inv that(2,3), of "?m\<lparr>calls := n\<rparr>"] that(1) nr by auto
  consider (first) "\<not> succeeds ?m ?n" | (second) "succeeds ?m ?n" "\<not> succeeds ?m (Suc ?n)"
    | (pair) "succeeds ?m ?n" "succeeds ?m (Suc ?n)" "fst (sys_socketpair os (kern w)) = None"
    using no by (cases "succeeds ?m ?n"; cases "succeeds ?m (Suc ?n)") auto
  then show ?thesis
  proof cases
    case first
    then show ?thesis by (intro fin [where b = "brk w" and n = "Suc ?n" and k' = "kern w"]) (simp_all add: stream_new_def c_malloc_eq)
  next
    case second
    then show ?thesis by (intro fin [where b = "Suc (brk w)" and n = "Suc (Suc ?n)" and k' = "kern w"]) (simp_all add: stream_new_def c_malloc_eq bio_new_eq)
  next
    case pair
    then show ?thesis using k empty_bio(3)
      by (intro fin [where b = "Suc (brk w)" and n = "Suc (Suc ?n)" and k' = ?k]) (auto simp: stream_new_def c_malloc_eq bio_new_eq Let_def case_prod_beta)
  qed
qed

text \<open>A stream that got its memory, its descriptors and its padding joins the session.\<close>

lemma new_joins:
  assumes inv: "winv os H w" and H: "H \<subseteq> {Session_recv_lock}" and new: "table w sid = None"
    and k: "spares os w k" and out: "outside w (st_fd s)" "outside w (st_private_fd s)" "paired os k (st_fd s, st_private_fd s)"
    and s: "st_id s = sid" "bio_ok (st_recv_buf s)" "view_stream s = new_stream sid st" "reliable os w \<Longrightarrow> st_send_padding s \<noteq> 0"
    and al: "succeeds al = succeeds (mem w)"
  shows "\<exists>w4. session_insert_stream (brk w) (put_stream (brk w) s (w\<lparr>brk := Suc (brk w), mem := al, kern := k\<rparr>)) = Some w4 \<and>
    creates os H sid st w (Some (brk w)) (init_mutexes (brk w) w4)"
proof -
  let ?a = "brk w" let ?w3 = "w\<lparr>brk := Suc ?a, mem := al, kern := k\<rparr>"
  have fresh: "heap w ?a = None" using inv by (cases "heap w ?a") (auto simp: winv_def store_ok_def)
  have "\<not> st_readable s" "st_writeable s"
    using arg_cong [OF s(3), of a_readable] arg_cong [OF s(3), of a_writeable] by (simp_all add: new_stream_def)
  then have wd: "wired os (put_stream ?a s ?w3)" using fresh out by (intro wired_new_world [OF winv_wired [OF inv] k]) auto
  have i3: "winv os H ?w3" "view ?w3 = (view w)\<lparr>a_brk := Suc ?a\<rparr>" "table ?w3 = table w"
    using idle_world [OF inv _ k, of "Suc ?a" al] by simp_all
  obtain w4 where w4: "session_insert_stream ?a (put_stream ?a s ?w3) = Some w4"
    "winv os H (init_mutexes ?a w4)" "view (init_mutexes ?a w4) = add_stream ?a (view_stream s) ((view w)\<lparr>a_brk := Suc ?a\<rparr>)"
    "heap (init_mutexes ?a w4) = (heap w)(?a \<mapsto> s)" "mem (init_mutexes ?a w4) = al"
    using insert_stream_spec [OF i3(1) H, of ?a s] i3(2,3) fresh new s(1,2) wd by auto
  have "keeps os H w (init_mutexes ?a w4)" using w4(2,4,5) s(4) al by (auto simp: keeps_def reliable_def never_fails_def)
  then have "creates os H sid st w (Some ?a) (init_mutexes ?a w4)" using w4(3) fresh s(3) by (auto simp: creates_def)
  with w4(1) show ?thesis by blast
qed

lemma stream_new_spec:
  assumes inv: "winv os H w" and H: "H \<subseteq> {Session_recv_lock}" and live: "os_live os" and new: "table w sid = None"
  shows "\<exists>p w'. stream_new os sid st w = Some (p, w') \<and> creates os H sid st w p w'"
proof (cases "\<not> succeeds (mem w) (calls (mem w)) \<or> \<not> succeeds (mem w) (Suc (calls (mem w))) \<or> fst (sys_socketpair os (kern w)) = None")
  case True
  from stream_new_refused [OF inv live this] show ?thesis by blast
next
  case False
  let ?a = "brk w" and ?buf = "\<lparr>bio_buffers = stailq_new, bio_offset = 0, bio_len = 0\<rparr>"
    and ?al = "(mem w)\<lparr>calls := Suc (Suc (calls (mem w)))\<rparr>"
  from False obtain fd0 fd1 k where sp: "sys_socketpair os (kern w) = (Some (fd0, fd1), k)"
    by (cases "sys_socketpair os (kern w)") auto
  let ?s = "\<lparr>st_state = st, st_id = sid, st_send_padding = 0,
    st_recv_window = MAX_STREAM_WINDOW_SIZE, st_send_window = MAX_STREAM_WINDOW_SIZE, st_recv_buf = ?buf,
    st_readable = False, st_writeable = True, st_fd = fd0, st_private_fd = fd1\<rparr>"
  let ?w = "w\<lparr>brk := Suc ?a, mem := ?al, kern := k\<rparr>"
  note wd = winv_wired [OF inv]
  from stream_setup_fd_spec [of "put_stream ?a ?s ?w" ?a ?s os] obtain r :: int and k' p where
    r: "stream_setup_fd os ?a (put_stream ?a ?s ?w) = Some (if r = 0
        then (0, put_stream ?a (?s\<lparr>st_send_padding := p\<rparr>) ((put_stream ?a ?s ?w)\<lparr>kern := k'\<rparr>))
        else (- 1, (put_stream ?a ?s ?w)\<lparr>kern := k'\<rparr>))" "os_reliable os \<longrightarrow> r = 0 \<and> p \<noteq> 0" "quiet os k k'"
    using live by auto
  have np: "peer os fd0 (kern w) = None" "peer os fd1 (kern w) = None" "paired os k (fd0, fd1)"
    using sp live unfolding os_live_def pairs_ok_def by blast+
  have out: "outside w fd0" "outside w fd1" using outside_unpaired [OF wd] np by auto
  have sp_k': "spares os w k'" by (rule spares_quiet [OF spares_pair [OF live wd sp] r(3)])
  show ?thesis
  proof (cases "r = 0")
    case no: False
    let ?k = "sys_close os fd1 (sys_close os fd0 k')"
    have "heap w ?a = None" using inv by (cases "heap w ?a") (auto simp: winv_def store_ok_def)
    then have "stream_new os sid st w = Some (None, w\<lparr>brk := Suc ?a, mem := ?al, kern := ?k\<rparr>)"
      using no False sp empty_bio(3) r(1)
      by (auto simp: stream_new_def Let_def c_malloc_eq bio_new_eq c_free_stream_def c_close_def put_stream_def fun_upd_idem)
    moreover have "spares os w ?k" using spares_close [OF live wd] sp_k' out by blast
    moreover have "\<not> reliable os w" using r(2) no by (auto simp: reliable_def)
    ultimately show ?thesis using creates_none [OF inv, of "Suc ?a" ?k ?al] by auto
  next
    case True
    let ?s3 = "?s\<lparr>st_send_padding := p\<rparr>" and ?w3 = "w\<lparr>brk := Suc ?a, mem := ?al, kern := k'\<rparr>"
    have "\<exists>w4. session_insert_stream ?a (put_stream ?a ?s3 ?w3) = Some w4 \<and> creates os H sid st w (Some ?a) (init_mutexes ?a w4)"
      using out np(3) r(2,3) empty_bio(1,2)
      by (intro new_joins [OF inv H new sp_k']) (auto simp: paired_def quiet_def reliable_def view_stream_def new_stream_def)
    moreover have "stream_setup_fd os ?a (put_stream ?a ?s ?w) = Some (0, put_stream ?a ?s3 ?w3)"
      unfolding r(1) using True by (simp add: put_stream_def)
    ultimately show ?thesis
      using False sp by (auto simp: stream_new_def Let_def c_malloc_eq bio_new_eq init_mutexes_def)
  qed
qed

lemma remove_stream_eq:
  assumes inv: "winv os H w" and H: "Session_streams_lock \<notin> H" and a: "heap w a = Some s"
  shows "\<exists>t. session_remove_stream a w = Some (put_sess ((sess w)\<lparr>ss_streams := t\<rparr>) w) \<and>
    rb_map (stream_key w) t ((table w)(st_id s := None))"
proof -
  have m: "mutexes w Session_streams_lock = Free" using winv_mutex [OF inv] H by simp
  have idx: "index_ok w" using inv by (simp add: winv_def)
  have t: "table w (st_id s) = Some a" using a by (simp add: winv_table [OF inv])
  have key: "stream_key w a = st_id s" using a by (simp add: stream_key_def)
  have "rb_map (stream_key w) (ss_streams (sess w)) (table w)" using idx unfolding index_ok_def by blast
  from rbm.remove_law [OF this, of a, unfolded key, OF t] obtain h where
    h: "RB_REMOVE (ss_streams (sess w)) a = Some h" "rb_map (stream_key w) h ((table w)(st_id s := None))" by blast
  have "stream_probe (w\<lparr>mutexes := f\<rparr>) = stream_probe w" for f by (simp add: probe_ids)
  then have "session_remove_stream a w = Some (put_sess ((sess w)\<lparr>ss_streams := h\<rparr>) w)"
    using m a h(1) find_table [OF idx, of "st_id s"] t
    by (simp add: session_remove_stream_def mutex_lock_free mutex_unlock_held put_mutexes fun_upd_idem)
  with h(2) show ?thesis by blast
qed

text \<open>The tree and the descriptors without a stream that is released.\<close>

lemma free_index:
  assumes inv: "winv os H w" and a: "heap w a = Some s" and t: "rb_map (stream_key w) t ((table w)(st_id s := None))"
    and w': "heap w' = (heap w)(a := None)" "ss_streams (sess w') = t"
  shows "index_ok w'" "table w' = (table w)(st_id s := None)"
proof -
  let ?m = "(table w)(st_id s := None)"
  have ids: "ids w' = (ids w)(a := None)" by (simp add: ids_def w' fun_eq_iff)
  have "stream_key w' b = stream_key w b" if b: "b \<in> ran ?m" for b
  proof -
    from b obtain sid where "table w sid = Some b" "sid \<noteq> st_id s" by (auto simp: ran_def split: if_splits)
    then have "b \<noteq> a" using a by (auto simp: winv_table [OF inv])
    then show ?thesis by (simp add: stream_key_def w')
  qed
  then have rep: "rb_map (stream_key w') (ss_streams (sess w')) ?m"
    using rbm.rep_cong [OF t, of "stream_key w'"] by (simp add: w')
  have "?m sid = Some b \<longleftrightarrow> ids w' b = Some sid" for sid b
  proof -
    have "table w sid = Some b \<longleftrightarrow> ids w b = Some sid" by (simp add: winv_table [OF inv] ex_ids)
    moreover have "ids w a = Some (st_id s)" using a by (simp add: ids_def)
    moreover have "table w (st_id s) = Some a" using a by (simp add: winv_table [OF inv])
    ultimately show ?thesis by (auto simp: ids)
  qed
  from index_okI [OF rep this] show "index_ok w'" "table w' = ?m" by auto
qed

lemma free_wired:
  assumes wd: "wired os w" and live: "os_live os" and a: "heap w a = Some s" and w': "heap w' = (heap w)(a := None)"
    "kern w' = sys_close os (st_private_fd s) (sys_close os (st_fd s) (kern w))"
    "ss_fd (sess w') = ss_fd (sess w)" "ss_private_fd (sess w') = ss_private_fd (sess w)"
  shows "wired os w'"
proof -
  let ?w = "w'\<lparr>kern := kern w\<rparr>"
  have wd': "wired os ?w" by (rule wired_free [OF wd, of _ a]) (simp_all add: w')
  have "socks ?w x = Some p \<Longrightarrow> x \<noteq> Some a \<and> socks w x = Some p" for x p
    by (auto simp: socks_def w' split: option.splits if_splits)
  then have "outside ?w (st_fd s)" "outside ?w (st_private_fd s)"
    using wired_apart [OF wd a] unfolding outside_def by blast+
  with spares_close [OF live wd'] spares_refl [of os ?w] have "spares os ?w (kern w')" by (simp add: w'(2))
  from wired_spares [OF wd' this] have "wired os (?w\<lparr>kern := kern w'\<rparr>)" .
  moreover have "wired os w' = wired os (?w\<lparr>kern := kern w'\<rparr>)"
    by (rule wired_cong) (simp_all add: socks_def signals_def split: option.split)
  ultimately show ?thesis by blast
qed

lemma stream_free_spec:
  assumes inv: "winv os H w" and H: "H \<subseteq> {Session_recv_lock}" and live: "os_live os" and a: "heap w a = Some s"
  shows "\<exists>w'. stream_free os a w = Some w' \<and> keeps os H w w' \<and> view w' = del_stream a (st_id s) (view w)"
proof -
  from remove_stream_eq [OF inv _ a] H obtain t where t: "session_remove_stream a w = Some (put_sess ((sess w)\<lparr>ss_streams := t\<rparr>) w)"
    "rb_map (stream_key w) t ((table w)(st_id s := None))" by auto
  from bio_reset_correct [OF winv_recv_buf [OF inv a]] obtain b where fr: "bio_free (st_recv_buf s) = Some b"
    by (auto simp: bio_free_def)
  have m: "mutexes w (State_lock a) = Free" "mutexes w (Send_lock a) = Free" "mutexes w (Recv_lock a) = Free"
    using winv_mutex [OF inv] a H by auto
  define w' where "w' = w\<lparr>sess := (sess w)\<lparr>ss_streams := t\<rparr>, mutexes := (mutexes w)(State_lock a := Uninitialised,
      Send_lock a := Uninitialised, Recv_lock a := Uninitialised),
    kern := sys_close os (st_private_fd s) (sys_close os (st_fd s) (kern w)), heap := (heap w)(a := None)\<rparr>"
  have run: "stream_free os a w = Some w'"
    using t(1) m a fr by (simp add: stream_free_def mutex_destroy_def c_close_def c_free_stream_def put_sess_def w'_def)
  have tab: "index_ok w'" "table w' = (table w)(st_id s := None)"
    by (rule free_index [OF inv a t(2)]; simp add: w'_def)+
  have "live w' m \<Longrightarrow> live w m \<and> m \<notin> {State_lock a, Send_lock a, Recv_lock a}" for m
    by (cases m) (auto simp: w'_def split: if_splits)
  then have "locks_ok H w'" using winv_mutex [OF inv] unfolding locks_ok_def by (auto simp: w'_def)
  moreover have "store_ok w'" using inv by (auto simp: store_ok_def winv_def w'_def)
  moreover have "wired os w'" by (rule free_wired [OF winv_wired [OF inv] live a]) (simp_all add: w'_def)
  ultimately have "keeps os H w w'" using tab(1) by (auto simp: keeps_def winv_def reliable_def w'_def)
  moreover have "view w' = del_stream a (st_id s) (view w)"
    by (simp add: view_def tab(2) del_stream_def fun_eq_iff) (simp add: w'_def)
  ultimately show ?thesis using run by blast
qed

end
