(* ===== verification/Protocol.thy ===== *)
theory Protocol
  imports Stream_Specs
begin

text \<open>
  The receive side of the protocol as a function on the abstract session: what a session
  whose system calls succeed makes of the bytes of its peer. There are no pointers, mutexes,
  descriptors or buffers here; \<^verbatim>\<open>session_process\<close> is proved to compute \<open>p_process\<close>.
\<close>

section \<open>Frames\<close>

text \<open>The fields of a header as they are on the wire.\<close>

abbreviation wire_flags :: "byte list \<Rightarrow> uint16" where "wire_flags \<equiv> hdr_flags False"
abbreviation wire_id :: "byte list \<Rightarrow> uint32" where "wire_id \<equiv> hdr_stream_id False"
abbreviation wire_length :: "byte list \<Rightarrow> uint32" where "wire_length \<equiv> hdr_length False"

definition p_go_away :: "uint32 \<Rightarrow> asession \<Rightarrow> asession" where
  "p_go_away reason A = put_out (frame_hdr TYPE_GO_AWAY 0 0 reason) (A\<lparr>a_local_go_away := True\<rparr>)"

text \<open>A frame with \<^verbatim>\<open>SYN\<close>: refused after a go away, an error for a known id, else a new stream.\<close>

definition p_incoming :: "asession \<Rightarrow> int \<times> asession" where
  "p_incoming A =
     (let sid = wire_id (a_hdr A) in
      if a_local_go_away A then (0, put_out (frame_hdr TYPE_WINDOW_UPDATE FLAG_RST sid 0) A)
      else if a_table A sid \<noteq> None then (- 1, p_go_away GO_AWAY_PROTO_ERR A)
      else (0, add_stream (a_brk A) (new_stream sid STATE_SYN_RECEIVED) (A\<lparr>a_brk := Suc (a_brk A)\<rparr>)))"

definition p_syn :: "asession \<Rightarrow> int \<times> asession" where
  "p_syn A = (if has_flag (wire_flags (a_hdr A)) FLAG_SYN then p_incoming A else (0, A))"

text \<open>The flags of a frame for the stream \<open>a\<close>; an illegal \<^verbatim>\<open>FIN\<close> ends the session.\<close>

definition p_flags :: "addr \<Rightarrow> asession \<Rightarrow> int \<times> asession" where
  "p_flags a A =
     (let flags = wire_flags (a_hdr A) in
      case a_streams A a of
        None \<Rightarrow> (0, A)
      | Some s \<Rightarrow>
          case next_state flags (a_state s) of
            None \<Rightarrow> (- 1, p_go_away GO_AWAY_PROTO_ERR (upd a (a_state_update (\<lambda>_. ack_state flags (a_state s))) A))
          | Some st \<Rightarrow> (0, upd a (\<lambda>s. wake (closing flags) (closing flags) (s\<lparr>a_state := st\<rparr>)) A))"

text \<open>Payload for a stream, as much as has arrived.\<close>

definition recv_bytes :: "byte list \<Rightarrow> astream \<Rightarrow> astream" where
  "recv_bytes xs s = s\<lparr>a_data := a_data s @ xs, a_recv_window := a_recv_window s - of_nat (length xs),
     a_readable := a_readable s \<or> xs \<noteq> []\<rparr>"

definition p_take :: "addr \<Rightarrow> asession \<Rightarrow> asession" where
  "p_take a A =
     (let k = min (unat (a_remain A)) (length (a_in A)) in
      (upd a (recv_bytes (take k (a_in A))) A)\<lparr>a_in := drop k (a_in A), a_remain := a_remain A - of_nat k\<rparr>)"

text \<open>
  Payload of a frame for no stream. The code drops it in chunks of up to 4096 bytes and
  counts every chunk as complete, so what is missing of the last one is never skipped.
\<close>

definition p_skip :: "asession \<Rightarrow> asession" where
  "p_skip A =
     (let n = unat (a_remain A) in
      A\<lparr>a_in := drop n (a_in A), a_remain := of_nat (n - 4096 * ((length (a_in A) + 4095) div 4096))\<rparr>)"

definition p_payload :: "ptr \<Rightarrow> asession \<Rightarrow> asession" where
  "p_payload stream A =
     (let A = (case stream of None \<Rightarrow> p_skip A | Some a \<Rightarrow> p_take a A) in
      if a_remain A = 0 then A\<lparr>a_new_frame := True\<rparr> else A)"

definition p_begin :: "asession \<Rightarrow> asession" where
  "p_begin A = A\<lparr>a_remain := wire_length (a_hdr A), a_new_frame := False\<rparr>"

definition p_data :: "asession \<Rightarrow> int \<times> asession" where
  "p_data A =
     (let sid = wire_id (a_hdr A); len = wire_length (a_hdr A) in
      if \<not> a_new_frame A then (0, p_payload (a_table A sid) A)
      else
        let (e, A) = p_syn A in
        if e \<noteq> 0 then (- 1, A)
        else case a_table A sid of
          None \<Rightarrow> (0, p_payload None (p_begin A))
        | Some a \<Rightarrow>
            let (e, A) = p_flags a A in
            if e \<noteq> 0 then (- 1, A)
            else if len = 0 then (0, A)
            else case a_streams A a of
              None \<Rightarrow> (0, A)
            | Some s \<Rightarrow>
                if len > a_recv_window s then (- 1, p_go_away GO_AWAY_PROTO_ERR A)
                else (0, p_payload (Some a) (p_begin A)))"

definition p_window_update :: "asession \<Rightarrow> int \<times> asession" where
  "p_window_update A =
     (let (e, A) = p_syn A in
      if e \<noteq> 0 then (- 1, A)
      else case a_table A (wire_id (a_hdr A)) of
        None \<Rightarrow> (0, A)
      | Some a \<Rightarrow>
          let (e, A) = p_flags a A; len = wire_length (a_hdr A) in
          if e \<noteq> 0 then (- 1, A)
          else if len = 0 then (0, A)
          else (0, upd a (\<lambda>s. s\<lparr>a_send_window := a_send_window s + len, a_writeable := True\<rparr>) A))"

definition p_ping :: "asession \<Rightarrow> int \<times> asession" where
  "p_ping A =
     (if has_flag (wire_flags (a_hdr A)) FLAG_SYN
      then (0, put_out (frame_hdr TYPE_PING FLAG_ACK 0 (wire_length (a_hdr A))) A) else (0, A))"

definition p_peer_go_away :: "asession \<Rightarrow> int \<times> asession" where
  "p_peer_go_away A =
     (if wire_length (a_hdr A) = GO_AWAY_NORMAL then (0, A\<lparr>a_remote_go_away := True\<rparr>) else (- 1, A))"

definition p_handle :: "asession \<Rightarrow> int \<times> asession" where
  "p_handle A =
     (let type = hdr_type (a_hdr A) in
      if type = TYPE_DATA then p_data A
      else if type = TYPE_WINDOW_UPDATE then p_window_update A
      else if type = TYPE_PING then p_ping A
      else if type = TYPE_GO_AWAY then p_peer_go_away A
      else (- 1, A))"

text \<open>
  The frame loop. Every turn consumes a byte, so a turn more than there are bytes is enough
  fuel; \<open>p_process\<close> supplies it.
\<close>

primrec p_loop :: "nat \<Rightarrow> asession \<Rightarrow> int \<times> asession" where
  "p_loop 0 A = (0, A)"
| "p_loop (Suc n) A =
     (if a_in A = [] \<or> a_new_frame A \<and> length (a_in A) < 12 then (0, A)
      else
        let A = (if a_new_frame A then A\<lparr>a_in := drop 12 (a_in A), a_hdr := take 12 (a_in A)\<rparr> else A) in
        if a_new_frame A \<and> hdr_version (a_hdr A) \<noteq> VERSION then (- 1, A)
        else let (r, A) = p_handle A in if r \<noteq> 0 then (- 1, A) else p_loop n A)"

definition p_process :: "asession \<Rightarrow> int \<times> asession" where
  "p_process A = p_loop (Suc (length (a_in A))) A"

section \<open>Header fields do not depend on the host\<close>

lemma hdr_host:
  assumes "length h = 12"
  shows "hdr_flags le h = wire_flags h" "hdr_stream_id le h = wire_id h" "hdr_length le h = wire_length h"
proof -
  from assms obtain a b c d e f g i j k l m where h: "h = [a, b, c, d, e, f, g, i, j, k, l, m]"
    by (auto simp: numeral_eq_Suc length_Suc_conv)
  show "hdr_flags le h = wire_flags h" "hdr_stream_id le h = wire_id h" "hdr_length le h = wire_length h"
    by (cases le; simp add: h hdr_flags_def hdr_stream_id_def hdr_length_def ntohs_def ntohl_def
        htons_def htonl_def load16_def load32_def)+
qed

end
