(* ===== verification/Session_Specs.thy ===== *)
theory Session_Specs
  imports Protocol
begin

text \<open>
  The receive path of \<^verbatim>\<open>mux.c\<close> against the protocol of theory \<open>Protocol\<close>: every handler
  returns on every input, whatever fails, keeps the state well formed and releases what it
  locks; when nothing fails its effect is the one of the protocol.
\<close>

section \<open>Moving payload\<close>

text \<open>
  When a system call or \<^verbatim>\<open>malloc\<close> fails in the middle of a frame, the stream has received a
  prefix of the payload: \<open>torn\<close> describes the streams then.
\<close>

definition torn :: "addr \<Rightarrow> byte list \<Rightarrow> asession \<Rightarrow> asession \<Rightarrow> bool" where
  "torn a payload A A' \<longleftrightarrow> a_table A' = a_table A \<and>
     (\<exists>k rd. a_streams A' = a_streams (upd a (\<lambda>s. (recv_bytes (take k payload) s)\<lparr>a_readable := rd\<rparr>) A))"

lemma goes_away_view:
  assumes "goes_away os H reason w r w'"
  shows "keeps os H w w'" "heap w' = heap w" "a_table (view w') = a_table (view w)"
    "a_streams (view w') = a_streams (view w)" "a_hdr (view w') = a_hdr (view w)"
    "a_in (view w') = a_in (view w)" "a_new_frame (view w') = a_new_frame (view w)"
    "a_remain (view w') = a_remain (view w)" "reliable os w \<Longrightarrow> view w' = p_go_away reason (view w)"
proof -
  from assms obtain bs where v: "view w' = put_out bs ((view w)\<lparr>a_local_go_away := True\<rparr>)"
    unfolding goes_away_def by (metis put_out_Nil)
  then show "a_table (view w') = a_table (view w)" "a_streams (view w') = a_streams (view w)"
    "a_hdr (view w') = a_hdr (view w)" "a_in (view w') = a_in (view w)"
    "a_new_frame (view w') = a_new_frame (view w)" "a_remain (view w') = a_remain (view w)"
    by (simp_all add: fun_eq_iff del: view_sel)
  show "reliable os w \<Longrightarrow> view w' = p_go_away reason (view w)" "keeps os H w w'" "heap w' = heap w"
    using assms by (auto simp: goes_away_def p_go_away_def)
qed

lemma peek_chunk:
  assumes "bio_ok b" and "bio_bytes b \<noteq> []" and "0 < sz" and "length (bio_bytes b) < 2 ^ 31"
  shows "bio_peek b sz = Some (int (length (take sz (bio_bytes b))), take sz (bio_bytes b))"
proof -
  have "min sz (length (bio_bytes b)) < 2 ^ 31" using assms(4) by simp
  then show ?thesis using bio_peek_correct [OF assms(1), of sz]
    by (simp add: to_int_small min.commute)
qed

text \<open>A chunk of payload that is moved to the stream: what was stored when \<^verbatim>\<open>malloc\<close> fails, and when it does not.\<close>

lemma deliver_chunk_refused:
  assumes inv: "winv os H w" and a: "heap w a = Some s" and H: "Recv_lock a \<notin> H" "Session_send_lock \<notin> H"
    and pk: "bio_peek (ss_recv_buf (sess w)) sz = Some (int (length xs), xs)" "0 < length xs" "length xs \<le> 4096"
    and wr: "bio_write (st_recv_buf s) xs (length xs) (mem w) = Some (- 1, b, al)" "bio_ok b"
      "succeeds al = succeeds (mem w)" "bio_bytes b = bio_bytes (st_recv_buf s) @ take k xs"
      "k < length xs" "4096 dvd k" "\<not> never_fails (mem w)"
  shows "\<exists>w'. deliver_chunk os a sz w = Some (None, w') \<and> keeps os H w w' \<and> \<not> reliable os w \<and> torn a xs (view w) (view w')"
proof -
  let ?w0 = "w\<lparr>mutexes := (mutexes w)(Recv_lock a := Held)\<rparr>" and ?H = "insert (Recv_lock a) H"
  let ?s = "s\<lparr>st_recv_buf := b\<rparr>" let ?w1 = "(put_stream a ?s ?w0)\<lparr>mem := al\<rparr>"
  have "k = 0" using wr(5,6) pk(3) by (auto dest: dvd_imp_le)
  have m: "mutexes w (Recv_lock a) = Free" using winv_mutex [OF inv] a H(1) by simp
  have "winv os ?H ?w0" using winv_mutexes_upd(1) [OF inv] by simp
  then have p1: "winv os ?H (put_stream a ?s ?w0)" using winv_put_stream [of os ?H ?w0 a s ?s] a wr(2) by simp
  have "view (put_stream a ?s ?w0) = upd a (\<lambda>s. s) (view ?w0)"
    using a wr(4) \<open>k = 0\<close> by (intro view_put_upd) (auto simp: view_stream_def)
  then have v1: "view (put_stream a ?s ?w0) = view w" using upd_id [of "view w" a "\<lambda>s. s"] by simp
  from go_away_spec [of os ?H ?w1 GO_AWAY_INTERNAL_ERR] p1 H(2) obtain r w2 where
    w2: "session_go_away_for_reason os GO_AWAY_INTERNAL_ERR ?w1 = Some (r, w2)"
    "goes_away os ?H GO_AWAY_INTERNAL_ERR ?w1 r w2" by auto
  note g = goes_away_view [OF w2(2)]
  from unlock_eq [OF keeps_winv [OF g(1)] _ H(1)] g(2) obtain w3 where
    w3: "mutex_unlock (Recv_lock a) w2 = Some w3" "keeps os H w2 w3" "view w3 = view w2" "sess w3 = sess w2" by auto
  have "deliver_chunk os a sz w = Some (None, w3)"
    using pk(1,2) m a wr(1) w2(1) w3(1) by (simp add: deliver_chunk_def mutex_lock_free Let_def)
  moreover have "\<not> reliable os w" using wr(7) by (simp add: reliable_def)
  moreover have "upd a (a_readable_update (\<lambda>_. st_readable s)) (view w) = view w"
    using a by (intro upd_id) (auto simp: view_stream_def)
  then have "torn a xs (view w) (view w3)"
    using g(3,4) v1 unfolding torn_def w3(3)
    by (auto simp: recv_bytes_def simp del: view_sel intro!: exI [of _ 0] exI [of _ "st_readable s"])
  ultimately show ?thesis using g(1) w3(2) by (auto simp: keeps_def)
qed

lemma deliver_chunk_stored:
  assumes inv: "winv os H w" and live: "os_live os" and a: "heap w a = Some s" and H: "Recv_lock a \<notin> H" "Session_send_lock \<notin> H"
    and pk: "bio_peek (ss_recv_buf (sess w)) sz = Some (int (length xs), xs)" "0 < length xs"
    and wr: "bio_write (st_recv_buf s) xs (length xs) (mem w) = Some (int (length xs), b, al)" "bio_ok b"
      "succeeds al = succeeds (mem w)" "bio_bytes b = bio_bytes (st_recv_buf s) @ take (length xs) xs"
  shows "\<exists>r w'. deliver_chunk os a sz w = Some (r, w') \<and> keeps os H w w' \<and>
    (r = Some (int (length xs)) \<and> view w' = upd a (recv_bytes xs) (view w) \<or>
     r = None \<and> \<not> reliable os w \<and> torn a xs (view w) (view w'))"
proof -
  let ?s = "s\<lparr>st_recv_buf := b, st_recv_window := st_recv_window s - word_of_int (int (length xs))\<rparr>"
  let ?g = "\<lambda>s. s\<lparr>a_data := a_data s @ xs, a_recv_window := a_recv_window s - of_nat (length xs)\<rparr>"
  let ?wm = "w\<lparr>mem := al\<rparr>" let ?w1 = "put_stream a ?s ?wm"
  have m: "mutexes w (Recv_lock a) = Free" using winv_mutex [OF inv] a H(1) by simp
  have am: "heap ?wm a = Some s" using a by simp
  have w1: "winv os H ?w1" using winv_put_stream [of os H ?wm a s ?s] inv a wr(2) by simp
  have r1: "reliable os ?w1 = reliable os w" using reliable_put_stream [OF am, of ?s os] wr(3) by simp
  have v1: "view ?w1 = upd a ?g (view w)" using wr(4) view_put_upd [OF am, of ?s ?g] by (simp add: view_stream_def)
  from wpD [OF stream_readable_notify_wp [OF w1 live, of a ?s, OF _ H(1)]] obtain e w2 where
    w2: "stream_readable_notify os a ?w1 = Some (e, w2)" "sets os H a (a_readable_update (\<lambda>_. True)) ?w1 (e, w2)" by auto
  have run: "deliver_chunk os a sz w = do {
      (e, w) \<leftarrow> stream_readable_notify os a ?w1;
      if e \<noteq> 0 then do { (_, w) \<leftarrow> session_go_away_for_reason os GO_AWAY_INTERNAL_ERR w; Some (None, w) }
      else Some (Some (int (length xs)), w) }"
    using pk m a wr(1) by (simp add: deliver_chunk_def mutex_lock_free mutex_unlock_held Let_def put_stream_def fun_upd_idem)
  show ?thesis
  proof (cases "e = 0")
    case True
    then have "view w2 = upd a (a_readable_update (\<lambda>_. True)) (upd a ?g (view w))" using setsD(2) [OF w2(2)] v1 by auto
    also have "\<dots> = upd a (recv_bytes xs) (view w)"
      unfolding upd_upd using pk(2) by (intro upd_cong) (auto simp: recv_bytes_def)
    finally have "view w2 = upd a (recv_bytes xs) (view w)" .
    moreover have "keeps os H w w2" using setsD(1) [OF w2(2)] r1 by (simp add: keeps_def)
    ultimately show ?thesis using run w2(1) True by simp
  next
    case False
    then have v2: "view w2 = upd a ?g (view w)" "\<not> reliable os w" using setsD(2) [OF w2(2)] v1 r1 by auto
    from go_away_spec [OF keeps_winv [OF setsD(1) [OF w2(2)]] H(2), of GO_AWAY_INTERNAL_ERR] obtain r w3 where
      w3: "session_go_away_for_reason os GO_AWAY_INTERNAL_ERR w2 = Some (r, w3)"
      "goes_away os H GO_AWAY_INTERNAL_ERR w2 r w3" by auto
    note g = goes_away_view [OF w3(2)]
    have "upd a ?g (view w) = upd a (\<lambda>t. (recv_bytes (take (length xs) xs) t)\<lparr>a_readable := st_readable s\<rparr>) (view w)"
      using a by (intro upd_cong) (auto simp: recv_bytes_def view_stream_def)
    then have "torn a xs (view w) (view w3)" unfolding torn_def g(3,4) v2(1)
      by (intro conjI exI [of _ "length xs"] exI [of _ "st_readable s"]) (simp_all only: upd_sel)
    moreover have "keeps os H w w3" using setsD(1) [OF w2(2)] r1 g(1) by (simp add: keeps_def)
    ultimately show ?thesis using run w2(1) w3(1) False v2(2) by simp
  qed
qed

lemma deliver_chunk_spec:
  assumes inv: "winv os H w" and live: "os_live os" and a: "heap w a = Some s"
    and H: "Recv_lock a \<notin> H" "Session_send_lock \<notin> H"
    and sz: "0 < sz" "sz \<le> 4096" and inp: "a_in (view w) \<noteq> []" "length (a_in (view w)) < 2 ^ 31"
  defines "xs \<equiv> take sz (a_in (view w))"
  shows "\<exists>r w'. deliver_chunk os a sz w = Some (r, w') \<and> keeps os H w w' \<and>
    (r = Some (int (length xs)) \<and> view w' = upd a (recv_bytes xs) (view w) \<or>
     r = None \<and> \<not> reliable os w \<and> torn a xs (view w) (view w'))"
proof -
  have xs: "0 < length xs" "length xs \<le> 4096" using sz inp by (auto simp: xs_def)
  have pk: "bio_peek (ss_recv_buf (sess w)) sz = Some (int (length xs), xs)"
    using peek_chunk [of "ss_recv_buf (sess w)" sz] winv_bufs [OF inv] sz inp by (simp add: xs_def)
  show ?thesis
  proof (rule bio_write_view [OF winv_recv_buf [OF inv a], of "length xs" xs "mem w"])
    show "length xs \<le> length xs" "length xs < 2 ^ 31" using xs by auto
  qed (use deliver_chunk_refused [OF inv a H pk xs] deliver_chunk_stored [OF inv live a H pk xs(1)] in blast)+
qed

lemma recv_bytes_append: "recv_bytes ys (recv_bytes xs s) = recv_bytes (xs @ ys) s"
  by (auto simp: recv_bytes_def algebra_simps)

lemma recv_bytes_Nil [simp]: "recv_bytes [] s = s"
  by (simp add: recv_bytes_def)

text \<open>One turn of the loop, and what is left to do after it.\<close>

definition p_chunk :: "addr \<Rightarrow> nat \<Rightarrow> asession \<Rightarrow> asession" where
  "p_chunk a n A = (upd a (recv_bytes (take n (a_in A))) A)\<lparr>a_in := drop n (a_in A), a_remain := a_remain A - of_nat n\<rparr>"

lemma unat_of_nat32: "n < 2 ^ 32 \<Longrightarrow> unat (of_nat n :: uint32) = n"
  by (simp add: unsigned_of_nat take_bit_nat_eq_self)

lemma unat_sub_of_nat: "n \<le> unat (x :: uint32) \<Longrightarrow> unat (x - of_nat n) = unat x - n"
proof -
  assume n: "n \<le> unat x"
  then have "n < 2 ^ 32" using unsigned_less [where w = x and 'a = nat] by simp
  then have "unat (of_nat n :: uint32) = n" by (rule unat_of_nat32)
  with n show ?thesis by (simp add: unat_sub word_le_nat_alt)
qed

lemma upd_over: "upd a f (A\<lparr>a_in := i, a_remain := r\<rparr>) = (upd a f A)\<lparr>a_in := i, a_remain := r\<rparr>"
  by (simp add: upd_def)

lemma p_take_chunk:
  assumes "n \<le> unat (a_remain A)" and "n \<le> length (a_in A)"
  shows "p_take a (p_chunk a n A) = p_take a A"
proof -
  let ?r = "unat (a_remain A)" and ?l = "length (a_in A)"
  have k: "min (?r - n) (?l - n) = min ?r ?l - n" by simp
  have s: "take n (a_in A) @ take (min ?r ?l - n) (drop n (a_in A)) = take (min ?r ?l) (a_in A)"
    using assms by (simp add: take_append_take_drop)
  have d: "drop (min ?r ?l - n) (drop n (a_in A)) = drop (min ?r ?l) (a_in A)" using assms by simp
  have w: "a_remain A - of_nat n - of_nat (min ?r ?l - n) = a_remain A - (of_nat (min ?r ?l) :: uint32)"
    using assms by (simp add: of_nat_diff)
  show ?thesis unfolding p_take_def p_chunk_def Let_def upd_over
    by (simp add: upd_upd recv_bytes_append unat_sub_of_nat [OF assms(1)] k s d w del: drop_drop)
qed

lemma torn_chunk:
  assumes "torn a (take (unat (a_remain A) - n) (drop n (a_in A))) (p_chunk a n A) A'"
    and "n \<le> unat (a_remain A)"
  shows "torn a (take (unat (a_remain A)) (a_in A)) A A'"
proof -
  from assms(1) obtain k rd where t: "a_table A' = a_table A" and
    st: "a_streams A' = a_streams (upd a (\<lambda>s. (recv_bytes (take k (take (unat (a_remain A) - n) (drop n (a_in A)))) s)
      \<lparr>a_readable := rd\<rparr>) (p_chunk a n A))" by (auto simp: torn_def p_chunk_def)
  let ?k = "min k (unat (a_remain A) - n)"
  have "take n (a_in A) @ take ?k (drop n (a_in A)) = take (n + ?k) (take (unat (a_remain A)) (a_in A))"
    using assms(2) by (simp add: take_append_take_drop min_def)
  then have "a_streams A' = a_streams (upd a (\<lambda>s. (recv_bytes (take (n + ?k) (take (unat (a_remain A)) (a_in A))) s)
      \<lparr>a_readable := rd\<rparr>) A)"
    unfolding st p_chunk_def upd_over
    by (auto simp: upd_upd recv_bytes_append fun_eq_iff min.commute)
  with t show ?thesis unfolding torn_def by blast
qed

lemma consume_view:
  assumes inv: "winv os H w" and n: "n < 2 ^ 31"
  shows "\<exists>x b. bio_consume (ss_recv_buf (sess w)) n = Some (x, b) \<and>
    keeps os H w (put_sess ((sess w)\<lparr>ss_recv_buf := b, ss_frame_remain := m\<rparr>) w) \<and>
    view (put_sess ((sess w)\<lparr>ss_recv_buf := b, ss_frame_remain := m\<rparr>) w) =
      (view w)\<lparr>a_in := drop n (a_in (view w)), a_remain := m\<rparr> \<and>
    heap (put_sess ((sess w)\<lparr>ss_recv_buf := b, ss_frame_remain := m\<rparr>) w) = heap w"
proof -
  from bio_consume_correct [of "ss_recv_buf (sess w)" n] winv_bufs [OF inv] obtain x b where
    b: "bio_consume (ss_recv_buf (sess w)) n = Some (x, b)" "bio_ok b"
    "bio_bytes b = drop n (bio_bytes (ss_recv_buf (sess w)))" by auto
  then have "winv os H (put_sess ((sess w)\<lparr>ss_recv_buf := b, ss_frame_remain := m\<rparr>) w)"
    using winv_bufs [OF inv] by (intro winv_put_sess [OF inv]) auto
  with b show ?thesis by (auto simp: keeps_def view_sess)
qed

lemma end_of_payload:
  assumes "winv os H w"
  defines "w' \<equiv> (if ss_frame_remain (sess w) = 0 then put_sess ((sess w)\<lparr>ss_new_frame := True\<rparr>) w else w)"
  shows "keeps os H w w'" "view w' = (if a_remain (view w) = 0 then (view w)\<lparr>a_new_frame := True\<rparr> else view w)"
  using assms(1) winv_bufs [OF assms(1)]
  by (auto simp: w'_def keeps_def view_sess intro: winv_put_sess)

lemma p_take_done:
  assumes "a_remain A = 0 \<or> a_in A = []"
  shows "p_take a A = A"
proof -
  have k: "min (unat (a_remain A)) (length (a_in A)) = 0" using assms by auto
  show ?thesis unfolding p_take_def Let_def k using upd_id [of A a "recv_bytes []"] by simp
qed

lemma pending_view:
  assumes "winv os H w" and "length (a_in (view w)) < 2 ^ 31"
  shows "bio_pending (ss_recv_buf (sess w)) = int (length (a_in (view w)))"
  using bio_pending_correct [of "ss_recv_buf (sess w)"] winv_bufs [OF assms(1)] assms(2) by (simp add: to_int_small)

lemma torn_more:
  assumes "torn a xs A B" and "xs = take n ys" and "n \<le> m"
  shows "torn a (take m ys) A B"
proof -
  from assms(1) obtain k rd where "a_table B = a_table A"
    "a_streams B = a_streams (upd a (\<lambda>s. (recv_bytes (take k xs) s)\<lparr>a_readable := rd\<rparr>) A)" by (auto simp: torn_def)
  moreover have "take k xs = take (min k n) (take m ys)" using assms(2,3) by (simp add: min_def)
  ultimately show ?thesis unfolding torn_def by auto
qed

lemma chunk_step:
  assumes inv: "winv os H w" and live: "os_live os" and s: "heap w a = Some s" and H: "Recv_lock a \<notin> H" "Session_send_lock \<notin> H"
    and len: "length (a_in (view w)) < 2 ^ 31" and more: "ss_frame_remain (sess w) \<noteq> 0" "a_in (view w) \<noteq> []"
  defines "n \<equiv> length (take (min (unat (ss_frame_remain (sess w))) 4096) (a_in (view w)))"
  shows "(\<exists>w'. session_handle_data_loop os (Some a) w = Some (- 1, w') \<and> keeps os H w w' \<and> \<not> reliable os w \<and>
      torn a (take (unat (a_remain (view w))) (a_in (view w))) (view w) (view w')) \<or>
    (\<exists>w'. session_handle_data_loop os (Some a) w = session_handle_data_loop os (Some a) w' \<and> keeps os H w w' \<and>
      heap w' a \<noteq> None \<and> view w' = p_chunk a n (view w))"
proof -
  let ?A = "view w" let ?sz = "min (unat (ss_frame_remain (sess w))) 4096"
  define xs where "xs = take ?sz (a_in ?A)"
  have sz: "0 < ?sz" "?sz \<le> 4096" using more(1) by (auto simp: unat_gt_0)
  have n: "n = length xs" "xs = take n (a_in ?A)" "n \<le> unat (ss_frame_remain (sess w))" "n < 2 ^ 31"
    using len unfolding n_def xs_def by (auto simp: min_def)
  from deliver_chunk_spec [OF inv live s H sz more(2) len] obtain r w1 where
    w1: "deliver_chunk os a ?sz w = Some (r, w1)" "keeps os H w w1" and
    cases: "r = Some (int n) \<and> view w1 = upd a (recv_bytes xs) ?A \<or>
      r = None \<and> \<not> reliable os w \<and> torn a xs ?A (view w1)" by (auto simp: n_def xs_def)
  have step: "session_handle_data_loop os (Some a) w = (case r of None \<Rightarrow> Some (- 1, w1)
    | Some r \<Rightarrow> do {
        (_, b) \<leftarrow> bio_consume (ss_recv_buf (sess w1)) (nat r);
        let w = put_sess ((sess w1)\<lparr>ss_recv_buf := b, ss_frame_remain := ss_frame_remain (sess w1) - word_of_int r\<rparr>) w1;
        session_handle_data_loop os (Some a) w })"
    using more pending_view [OF inv len] w1(1) by (subst session_handle_data_loop.simps) simp
  from cases show ?thesis
  proof (elim disjE conjE)
    assume r: "r = None" "\<not> reliable os w" and t: "torn a xs ?A (view w1)"
    have "torn a (take (unat (a_remain ?A)) (a_in ?A)) ?A (view w1)" using torn_more [OF t n(2,3)] by simp
    with r step w1(2) show ?thesis by simp
  next
    assume r: "r = Some (int n)" and v1: "view w1 = upd a (recv_bytes xs) ?A"
    let ?m = "ss_frame_remain (sess w1) - word_of_int (int n)"
    have rem: "ss_frame_remain (sess w1) = ss_frame_remain (sess w)" "a_in (view w1) = a_in ?A"
      using arg_cong [OF v1, of a_remain] arg_cong [OF v1, of a_in] by simp_all
    from consume_view [OF keeps_winv [OF w1(2)] n(4), where m = ?m] obtain x b w2 where
      b: "bio_consume (ss_recv_buf (sess w1)) n = Some (x, b)"
      and w2: "w2 = put_sess ((sess w1)\<lparr>ss_recv_buf := b, ss_frame_remain := ?m\<rparr>) w1" "keeps os H w1 w2"
      "view w2 = (view w1)\<lparr>a_in := drop n (a_in (view w1)), a_remain := ?m\<rparr>" "heap w2 = heap w1" by blast
    have "view w2 = p_chunk a n ?A" unfolding w2(3) using rem v1 n(2) by (simp add: p_chunk_def)
    moreover have "heap w2 a \<noteq> None" using view_stream_at [OF v1 s] w2(4) by auto
    moreover have "session_handle_data_loop os (Some a) w = session_handle_data_loop os (Some a) w2"
      using step r b by (simp add: w2(1))
    moreover have "keeps os H w w2" using w1(2) w2(2) by (simp add: keeps_def)
    ultimately show ?thesis by blast
  qed
qed

lemma data_loop_stream:
  assumes "winv os H w" and "os_live os" and "heap w a \<noteq> None" and "Recv_lock a \<notin> H" "Session_send_lock \<notin> H"
    and "length (a_in (view w)) < 2 ^ 31"
  shows "\<exists>r w'. session_handle_data_loop os (Some a) w = Some (r, w') \<and> keeps os H w w' \<and>
    (r = 0 \<and> view w' = p_payload (Some a) (view w) \<or>
     r = - 1 \<and> \<not> reliable os w \<and> torn a (take (unat (a_remain (view w))) (a_in (view w))) (view w) (view w'))"
  using assms(1,3,6)
proof (induction "unat (ss_frame_remain (sess w))" arbitrary: w rule: less_induct)
  case less
  let ?A = "view w"
  show ?case
  proof (cases "ss_frame_remain (sess w) \<noteq> 0 \<and> a_in ?A \<noteq> []")
    case False
    then have "p_take a ?A = ?A" by (intro p_take_done) auto
    with False show ?thesis using end_of_payload [OF less.prems(1)] pending_view [OF less.prems(1,3)]
      by (subst session_handle_data_loop.simps) (auto simp: p_payload_def)
  next
    case True
    define n where "n = length (take (min (unat (ss_frame_remain (sess w))) 4096) (a_in ?A))"
    have n: "0 < n" "n \<le> unat (a_remain ?A)" "n \<le> length (a_in ?A)" using True by (auto simp: n_def unat_gt_0)
    from less.prems(2) obtain s where "heap w a = Some s" by blast
    note turn = chunk_step [OF less.prems(1) assms(2) this assms(4,5) less.prems(3) conjunct1 [OF True] conjunct2 [OF True], folded n_def]
    from turn show ?thesis
    proof (elim disjE exE conjE)
      fix w2 assume run: "session_handle_data_loop os (Some a) w = session_handle_data_loop os (Some a) w2"
        and k2: "keeps os H w w2" and h2: "heap w2 a \<noteq> None" and v2: "view w2 = p_chunk a n ?A"
      have m: "unat (ss_frame_remain (sess w2)) = unat (a_remain ?A) - n"
        using arg_cong [OF v2, of a_remain] unat_sub_of_nat [OF n(2)] by (simp add: p_chunk_def)
      have "length (a_in (view w2)) < 2 ^ 31" using less.prems(3) unfolding v2 by (simp add: p_chunk_def)
      from less.hyps [of w2, OF _ keeps_winv [OF k2] h2 this] m n(1,2) obtain r' w' where
        w': "session_handle_data_loop os (Some a) w2 = Some (r', w')" "keeps os H w2 w'"
        "r' = 0 \<and> view w' = p_payload (Some a) (view w2) \<or>
         r' = - 1 \<and> \<not> reliable os w2 \<and> torn a (take (unat (a_remain (view w2))) (a_in (view w2))) (view w2) (view w')"
        by auto
      have "p_payload (Some a) (view w2) = p_payload (Some a) ?A"
        using p_take_chunk [of n ?A a] n unfolding v2 by (simp add: p_payload_def)
      moreover have "torn a (take (unat (a_remain (view w2))) (a_in (view w2))) (view w2) (view w') \<Longrightarrow>
        torn a (take (unat (a_remain ?A)) (a_in ?A)) ?A (view w')"
        using torn_chunk [of a ?A n "view w'"] n(2) m unfolding v2 by (simp add: p_chunk_def unat_sub_of_nat)
      ultimately show ?thesis using run w' k2 by (auto simp: keeps_def)
    qed auto
  qed
qed

lemma p_skip_done:
  assumes "a_remain A = 0 \<or> a_in A = []"
  shows "p_skip A = A"
  using assms by (auto simp: p_skip_def)

lemma skip_count:
  fixes n l :: nat
  assumes "0 < n" and "0 < l"
  shows "(n - min n 4096) - 4096 * ((l - min n 4096 + 4095) div 4096) = n - 4096 * ((l + 4095) div 4096)"
proof (cases "n \<le> 4096")
  case True
  have "1 \<le> (l + 4095) div 4096" using assms(2) by (simp add: Suc_leI div_greater_zero_iff)
  with True show ?thesis by simp
next
  case False
  show ?thesis
  proof (cases "l \<le> 4096")
    case True
    have "(l + 4095) div 4096 = 1" using True assms(2) by (intro div_nat_eqI) auto
    with True False show ?thesis by simp
  next
    case l: False
    have "(l - 4096 + 4095) div 4096 = (l + 4095 - 4096) div 4096" using l by simp
    also have "\<dots> = (l + 4095) div 4096 - 1" using l by (simp add: le_div_geq)
    finally show ?thesis using False l by simp
  qed
qed

lemma p_skip_chunk:
  assumes "a_remain A \<noteq> 0" and "a_in A \<noteq> []"
  defines "k \<equiv> min (unat (a_remain A)) 4096"
  shows "p_skip (A\<lparr>a_in := drop k (a_in A), a_remain := a_remain A - of_nat k\<rparr>) = p_skip A"
proof -
  have n: "0 < unat (a_remain A)" "k \<le> unat (a_remain A)" using assms by (auto simp: unat_gt_0)
  have "(unat (a_remain A) - k) - 4096 * ((length (a_in A) - k + 4095) div 4096) =
      unat (a_remain A) - 4096 * ((length (a_in A) + 4095) div 4096)"
    unfolding k_def using skip_count n(1) assms(2) by simp
  then show ?thesis using n(2) by (simp add: p_skip_def unat_sub_of_nat Let_def)
qed

lemma data_loop_none:
  assumes "winv os H w" and "length (a_in (view w)) < 2 ^ 31"
  shows "\<exists>w'. session_handle_data_loop os None w = Some (0, w') \<and> keeps os H w w' \<and>
    view w' = p_payload None (view w)"
  using assms
proof (induction "unat (ss_frame_remain (sess w))" arbitrary: w rule: less_induct)
  case less
  let ?A = "view w" and ?b = "ss_recv_buf (sess w)" and ?n = "unat (ss_frame_remain (sess w))"
  note pend = pending_view [OF less.prems(1,2)]
  show ?case
  proof (cases "ss_frame_remain (sess w) \<noteq> 0 \<and> bio_pending ?b \<noteq> 0")
    case False
    then have fin: "p_skip ?A = ?A" using pend by (intro p_skip_done) auto
    show ?thesis using False end_of_payload(1) [OF less.prems(1)] end_of_payload(2) [OF less.prems(1)] fin
      by (subst session_handle_data_loop.simps) (auto simp: p_payload_def)
  next
    case True
    define n where "n = min ?n 4096"
    have inp: "a_in ?A \<noteq> []" "a_remain ?A \<noteq> 0" using True pend by auto
    have n: "n \<le> ?n" "0 < n" "n < 2 ^ 31" using inp(2) by (auto simp: n_def unat_gt_0)
    let ?m = "ss_frame_remain (sess w) - word_of_int (int n)"
    from consume_view [OF less.prems(1) n(3), where m = ?m] obtain x b where
      b: "bio_consume ?b n = Some (x, b)"
      and w2: "keeps os H w (put_sess ((sess w)\<lparr>ss_recv_buf := b, ss_frame_remain := ?m\<rparr>) w)"
      "view (put_sess ((sess w)\<lparr>ss_recv_buf := b, ss_frame_remain := ?m\<rparr>) w) =
        ?A\<lparr>a_in := drop n (a_in ?A), a_remain := ?m\<rparr>" by blast
    define w2' where "w2' = put_sess ((sess w)\<lparr>ss_recv_buf := b, ss_frame_remain := ?m\<rparr>) w"
    have m: "unat (ss_frame_remain (sess w2')) = ?n - n"
      using unat_sub_of_nat [OF n(1)] by (simp add: w2'_def)
    have len: "length (a_in (view w2')) < 2 ^ 31" using less.prems(2) w2(2) by (simp add: w2'_def)
    have run: "session_handle_data_loop os None w = session_handle_data_loop os None w2'"
      using True b by (subst session_handle_data_loop.simps) (simp add: w2'_def n_def)
    from less.hyps [of w2', OF _ keeps_winv [OF w2(1), folded w2'_def] len] m n(1,2) obtain w' where
      w': "session_handle_data_loop os None w2' = Some (0, w')" "keeps os H w2' w'" "view w' = p_payload None (view w2')"
      by auto
    have "p_skip (view w2') = p_skip ?A"
      using p_skip_chunk [of ?A] inp w2(2) by (simp add: w2'_def n_def)
    then have "p_payload None (view w2') = p_payload None ?A" by (simp add: p_payload_def)
    with run w' w2(1) show ?thesis by (auto simp: keeps_def w2'_def)
  qed
qed

section \<open>Bounds\<close>

text \<open>What a stream has buffered and what it may still receive never exceed the maximal window.\<close>

definition buffers_bounded :: "asession \<Rightarrow> bool" where
  "buffers_bounded A \<longleftrightarrow> (\<forall>a s. a_streams A a = Some s \<longrightarrow> length (a_data s) + unat (a_recv_window s) \<le> 262144)"

text \<open>The rest of the frame in progress fits the window of its stream.\<close>

definition frame_fits :: "asession \<Rightarrow> bool" where
  "frame_fits A \<longleftrightarrow> a_new_frame A \<or>
     (\<forall>a s. a_table A (wire_id (a_hdr A)) = Some a \<longrightarrow> a_streams A a = Some s \<longrightarrow> a_remain A \<le> a_recv_window s)"

text \<open>Only a data frame can be in progress, and then some of it is missing.\<close>

definition frame_ok :: "asession \<Rightarrow> bool" where
  "frame_ok A \<longleftrightarrow> a_new_frame A \<or> hdr_type (a_hdr A) = TYPE_DATA \<and> a_remain A \<noteq> 0"

lemma recv_bytes_bound:
  assumes "length (a_data s) + unat (a_recv_window s) \<le> 262144" and "length xs \<le> unat (a_recv_window s)"
  shows "length (a_data (recv_bytes xs s)) + unat (a_recv_window (recv_bytes xs s)) \<le> 262144"
  using assms by (simp add: recv_bytes_def unat_sub_of_nat)

lemma bounded_upd:
  assumes "buffers_bounded A" and "\<And>s. a_streams A a = Some s \<Longrightarrow>
      length (a_data s) + unat (a_recv_window s) \<le> 262144 \<Longrightarrow> length (a_data (f s)) + unat (a_recv_window (f s)) \<le> 262144"
    and "a_streams A' = a_streams (upd a f A)"
  shows "buffers_bounded A'"
  unfolding buffers_bounded_def assms(3)
proof (intro allI impI)
  fix b s assume "a_streams (upd a f A) b = Some s"
  then show "length (a_data s) + unat (a_recv_window s) \<le> 262144"
    using assms(1,2) by (auto simp: buffers_bounded_def split: if_splits)
qed

lemma torn_bounded:
  assumes "torn a (take (unat (a_remain A)) (a_in A)) A A'" and "buffers_bounded A"
    and "\<And>s. a_streams A a = Some s \<Longrightarrow> a_remain A \<le> a_recv_window s"
  shows "buffers_bounded A'"
proof -
  from assms(1) obtain k rd where "a_streams A' = a_streams (upd a
    (\<lambda>s. (recv_bytes (take k (take (unat (a_remain A)) (a_in A))) s)\<lparr>a_readable := rd\<rparr>) A)" by (auto simp: torn_def)
  then show ?thesis
  proof (rule bounded_upd [OF assms(2), rotated])
    fix s assume s: "a_streams A a = Some s" "length (a_data s) + unat (a_recv_window s) \<le> 262144"
    have "length (take k (take (unat (a_remain A)) (a_in A))) \<le> unat (a_recv_window s)"
      using assms(3) [OF s(1)] by (simp add: word_le_nat_alt)
    from recv_bytes_bound [OF s(2) this] show "length (a_data ((recv_bytes (take k (take (unat (a_remain A)) (a_in A))) s)\<lparr>a_readable := rd\<rparr>)) +
      unat (a_recv_window ((recv_bytes (take k (take (unat (a_remain A)) (a_in A))) s)\<lparr>a_readable := rd\<rparr>)) \<le> 262144" by simp
  qed
qed

lemma p_take_sel:
  defines "k A \<equiv> min (unat (a_remain A)) (length (a_in A))"
  shows "a_in (p_take a A) = drop (k A) (a_in A)" "a_remain (p_take a A) = a_remain A - of_nat (k A)"
    "a_hdr (p_take a A) = a_hdr A" "a_new_frame (p_take a A) = a_new_frame A" "a_table (p_take a A) = a_table A"
    "a_streams (p_take a A) = a_streams (upd a (recv_bytes (take (k A) (a_in A))) A)"
  by (simp_all add: p_take_def k_def Let_def)

lemma p_skip_sel:
  "a_in (p_skip A) = drop (unat (a_remain A)) (a_in A)" "a_hdr (p_skip A) = a_hdr A"
  "a_new_frame (p_skip A) = a_new_frame A" "a_table (p_skip A) = a_table A" "a_streams (p_skip A) = a_streams A"
  by (simp_all add: p_skip_def Let_def)

lemma p_payload_sel:
  "a_hdr (p_payload stream A) = a_hdr A" "a_table (p_payload stream A) = a_table A"
  "a_streams (p_payload stream A) = (case stream of None \<Rightarrow> a_streams A | Some a \<Rightarrow> a_streams (p_take a A))"
  "a_in (p_payload stream A) = (case stream of None \<Rightarrow> a_in (p_skip A) | Some a \<Rightarrow> a_in (p_take a A))"
  "a_remain (p_payload stream A) = (case stream of None \<Rightarrow> a_remain (p_skip A) | Some a \<Rightarrow> a_remain (p_take a A))"
  "a_new_frame (p_payload stream A) \<longleftrightarrow> a_new_frame A \<or> a_remain (p_payload stream A) = 0"
  by (auto simp: p_payload_def p_take_sel p_skip_sel Let_def split: option.splits)

lemma payload_frame_ok:
  "hdr_type (a_hdr A) = TYPE_DATA \<Longrightarrow> frame_ok (p_payload stream A)"
  by (auto simp: frame_ok_def p_payload_sel)

lemma payload_progress:
  "\<exists>k. a_in (p_payload stream A) = drop k (a_in A) \<and> (a_remain A \<noteq> 0 \<longrightarrow> a_in A \<noteq> [] \<longrightarrow> 0 < k)"
proof (cases stream)
  case None
  then show ?thesis by (intro exI [of _ "unat (a_remain A)"]) (simp add: p_payload_sel p_skip_sel unat_gt_0)
next
  case (Some a)
  then show ?thesis
    by (intro exI [of _ "min (unat (a_remain A)) (length (a_in A))"]) (simp add: p_payload_sel p_take_sel unat_gt_0)
qed

lemma payload_bounds:
  assumes "buffers_bounded A" and "stream = a_table A (wire_id (a_hdr A))"
    and fits: "\<And>a s. stream = Some a \<Longrightarrow> a_streams A a = Some s \<Longrightarrow> a_remain A \<le> a_recv_window s"
  shows "buffers_bounded (p_payload stream A)" "frame_fits (p_payload stream A)"
proof -
  define k where "k = min (unat (a_remain A)) (length (a_in A))"
  have k: "length (take k (a_in A)) = k" "k \<le> unat (a_remain A)" "min (length (a_in A)) k = k"
    by (simp_all add: k_def)
  have le: "k \<le> unat (a_recv_window s)" "a_remain A - of_nat k \<le> a_recv_window s - of_nat k"
    if "stream = Some a" "a_streams A a = Some s" for a s
  proof -
    have "unat (a_remain A) \<le> unat (a_recv_window s)" using fits [OF that] by (simp add: word_le_nat_alt)
    then show "k \<le> unat (a_recv_window s)" using k(2) by simp
    with \<open>unat (a_remain A) \<le> unat (a_recv_window s)\<close> k(2)
    show "a_remain A - of_nat k \<le> a_recv_window s - of_nat k" by (simp add: word_le_nat_alt unat_sub_of_nat)
  qed
  show "buffers_bounded (p_payload stream A)"
  proof (cases stream)
    case None
    with assms(1) show ?thesis by (simp add: buffers_bounded_def p_payload_sel)
  next
    case (Some a)
    show ?thesis
      by (rule bounded_upd [OF assms(1), of a "recv_bytes (take k (a_in A))"])
        (use Some le(1) k(1) recv_bytes_bound in \<open>auto simp: p_payload_sel p_take_sel k_def\<close>)
  qed
  show "frame_fits (p_payload stream A)"
  proof (cases stream)
    case None
    with assms(2) show ?thesis by (simp add: frame_fits_def p_payload_sel)
  next
    case (Some a)
    with assms(2) le(2) [OF Some] show ?thesis
      by (auto simp: frame_fits_def p_payload_sel p_take_sel recv_bytes_def k_def [symmetric] k(3))
  qed
qed

section \<open>Steps that do not move payload\<close>

definition calm :: "asession \<Rightarrow> asession \<Rightarrow> bool" where
  "calm A A' \<longleftrightarrow> a_in A' = a_in A \<and> a_hdr A' = a_hdr A \<and> a_new_frame A' = a_new_frame A \<and>
     a_remain A' = a_remain A \<and> (buffers_bounded A \<longrightarrow> buffers_bounded A')"

lemma calm_refl [simp]: "calm A A"
  by (simp add: calm_def)

lemma calm_trans: "calm A B \<Longrightarrow> calm B C \<Longrightarrow> calm A C"
  by (simp add: calm_def)

lemma calm_streams:
  "a_in A' = a_in A \<Longrightarrow> a_hdr A' = a_hdr A \<Longrightarrow> a_new_frame A' = a_new_frame A \<Longrightarrow> a_remain A' = a_remain A \<Longrightarrow>
     a_streams A' = a_streams A \<Longrightarrow> calm A A'"
  by (simp add: calm_def buffers_bounded_def)

lemma calm_upd:
  assumes "\<And>s. a_data (f s) = a_data s \<and> a_recv_window (f s) = a_recv_window s"
  shows "calm A (upd a f A)"
  using bounded_upd [of A a f "upd a f A"] assms by (auto simp: calm_def)

lemma calm_go_away: "goes_away os H reason w r w' \<Longrightarrow> calm (view w) (view w')"
  by (rule calm_streams) (simp_all add: goes_away_view del: view_sel)

lemma calm_put_out: "calm A (put_out bs A)"
  by (rule calm_streams) simp_all

lemma calm_add:
  "calm A (add_stream a (new_stream sid st) (A\<lparr>a_brk := b\<rparr>))"
  by (auto simp: calm_def add_stream_def buffers_bounded_def new_stream_def MAX_STREAM_WINDOW_SIZE_def)

lemma calm_del: "calm A (del_stream a sid A)"
  by (auto simp: calm_def del_stream_def buffers_bounded_def)

section \<open>The handlers\<close>

text \<open>A \<^verbatim>\<open>SYN\<close> for an unused id: the stream is created and announced to the application, or everything is undone.\<close>

lemma incoming_stream_fresh:
  assumes inv: "winv os H w" and H: "H \<subseteq> {Session_recv_lock}" and live: "os_live os" and new: "ss_new_frame (sess w)"
    and up: "\<not> ss_local_go_away (sess w)" and none: "table w (wire_id (ss_hdr (sess w))) = None"
  shows "\<exists>r w'. incoming_stream os w = Some (r, w') \<and> keeps os H w w' \<and> (r = 0 \<or> r = - 1) \<and>
    calm (view w) (view w') \<and> (reliable os w \<longrightarrow> (r, view w') = p_incoming (view w))"
proof -
  let ?sid = "wire_id (ss_hdr (sess w))"
  have free: "Session_send_lock \<notin> H" "Session_streams_lock \<notin> H" using H by auto
  have sid: "hdr_stream_id (host_le os) (ss_hdr (sess w)) = ?sid" using winv_bufs [OF inv] by (intro hdr_host) simp
  from stream_new_spec [OF inv H live none, of STATE_SYN_RECEIVED] obtain p w1 where
    w1: "stream_new os ?sid STATE_SYN_RECEIVED w = Some (p, w1)" "creates os H ?sid STATE_SYN_RECEIVED w p w1" by blast
  have k1: "keeps os H w w1" using w1(2) by (simp add: creates_def)
  note found = new up none session_find_stream_eq [OF inv free(2), of ?sid] w1(1) sid
  show ?thesis
  proof (cases p)
    case None
    from go_away_spec [OF keeps_winv [OF k1] free(1), of GO_AWAY_INTERNAL_ERR] obtain r w' where
      w': "session_go_away_for_reason os GO_AWAY_INTERNAL_ERR w1 = Some (r, w')"
      "goes_away os H GO_AWAY_INTERNAL_ERR w1 r w'" by blast
    then have "incoming_stream os w = Some (- 1, w')" using found None by (simp add: incoming_stream_def)
    moreover from w1(2) None obtain b where "view w1 = (view w)\<lparr>a_brk := b\<rparr>" "\<not> reliable os w" by (auto simp: creates_def)
    moreover have "calm (view w) ((view w)\<lparr>a_brk := b\<rparr>)" by (rule calm_streams) simp_all
    ultimately show ?thesis using calm_go_away [OF w'(2)] goes_away_view(1) [OF w'(2)] k1
      by (auto simp: keeps_def intro: calm_trans)
  next
    case (Some a)
    have v1: "a = brk w" "view w1 = add_stream a (new_stream ?sid STATE_SYN_RECEIVED) ((view w)\<lparr>a_brk := Suc a\<rparr>)"
      using w1(2) Some by (auto simp: creates_def)
    from notify_accept_spec [OF keeps_winv [OF k1] live free(1), of ?sid] obtain r w2 where
      w2: "notify_accept os ?sid w1 = Some (r, w2)" "keeps os H w1 w2" "heap w2 = heap w1"
      "r = 0 \<and> view w2 = view w1 \<or> r = - 1 \<and> \<not> reliable os w1 \<and>
        (\<exists>bs. view w2 = put_out bs ((view w1)\<lparr>a_local_go_away := True\<rparr>))" by blast
    have c1: "calm (view w) (view w1)" unfolding v1(2) by (rule calm_add)
    show ?thesis
    proof (cases "r = 0")
      case True
      then have "incoming_stream os w = Some (0, w2)" using found Some w2(1) by (simp add: incoming_stream_def)
      then show ?thesis using True w2 k1 c1 v1 up none by (auto simp: keeps_def p_incoming_def Let_def)
    next
      case r: False
      from v1(2) have "a_streams (view w1) a = Some (new_stream ?sid STATE_SYN_RECEIVED)" by (simp add: add_stream_def)
      then obtain s where s: "heap w2 a = Some s" "st_id s = ?sid" using w2(3) by (auto simp: new_stream_def view_stream_def)
      from stream_free_spec [OF keeps_winv [OF w2(2)] H live s(1)] obtain w3 where
        w3: "stream_free os a w2 = Some w3" "keeps os H w2 w3" "view w3 = del_stream a ?sid (view w2)" using s(2) by auto
      have "incoming_stream os w = Some (0, w3)" using found Some w2(1) w3(1) r by (simp add: incoming_stream_def)
      moreover from w2(4) r obtain bs where "view w2 = put_out bs ((view w1)\<lparr>a_local_go_away := True\<rparr>)" by auto
      then have "calm (view w1) (view w2)" by (intro calm_streams) (simp_all add: fun_eq_iff del: view_sel)
      then have "calm (view w) (view w3)" using c1 calm_del unfolding w3(3) by (blast intro: calm_trans)
      ultimately show ?thesis using k1 w2(2,4) w3(2) r by (auto simp: keeps_def)
    qed
  qed
qed

lemma incoming_stream_spec:
  assumes inv: "winv os H w" and H: "H \<subseteq> {Session_recv_lock}" and live: "os_live os" and new: "ss_new_frame (sess w)"
  shows "\<exists>r w'. incoming_stream os w = Some (r, w') \<and> keeps os H w w' \<and> (r = 0 \<or> r = - 1) \<and>
    calm (view w) (view w') \<and> (reliable os w \<longrightarrow> (r, view w') = p_incoming (view w))"
proof -
  let ?sid = "wire_id (ss_hdr (sess w))"
  have free: "Session_send_lock \<notin> H" "Session_streams_lock \<notin> H" using H by auto
  have sid: "hdr_stream_id (host_le os) (ss_hdr (sess w)) = ?sid" using winv_bufs [OF inv] by (intro hdr_host) simp
  consider (away) "ss_local_go_away (sess w)" | (taken) b where "\<not> ss_local_go_away (sess w)" "table w ?sid = Some b"
    | (fresh) "\<not> ss_local_go_away (sess w)" "table w ?sid = None" by blast
  then show ?thesis
  proof cases
    case away
    from send_hdr_spec [OF inv free(1), of "frame_hdr TYPE_WINDOW_UPDATE FLAG_RST ?sid 0"] obtain r w' where
      w': "session_send_buf_write (frame_hdr TYPE_WINDOW_UPDATE FLAG_RST ?sid 0) 12 w = Some (r, w')"
      "sends os H (frame_hdr TYPE_WINDOW_UPDATE FLAG_RST ?sid 0) w r w'" by auto
    then have "incoming_stream os w = Some (r, w')" using away new
      by (auto simp: incoming_stream_def sid hdr_encode_frame sends_def)
    moreover have "calm (view w) (view w')" using w'(2) by (auto simp: sends_def calm_put_out)
    ultimately show ?thesis using w'(2) away by (auto simp: sends_def p_incoming_def Let_def)
  next
    case taken
    from go_away_spec [OF inv free(1), of GO_AWAY_PROTO_ERR] obtain r w' where
      w': "session_go_away_for_reason os GO_AWAY_PROTO_ERR w = Some (r, w')" "goes_away os H GO_AWAY_PROTO_ERR w r w'" by blast
    then have "incoming_stream os w = Some (- 1, w')" using taken new session_find_stream_eq [OF inv free(2), of ?sid]
      by (simp add: incoming_stream_def sid)
    then show ?thesis using goes_away_view [OF w'(2)] calm_go_away [OF w'(2)] taken by (simp add: p_incoming_def Let_def)
  next
    case fresh
    show ?thesis by (rule incoming_stream_fresh [OF inv H live new fresh])
  qed
qed

end
