(* ===== verification/Receive.thy ===== *)
theory Receive
  imports Session_Specs "HOL-Library.Sublist"
begin

text \<open>
  The frame handlers and \<^verbatim>\<open>session_process\<close>. Each handler is described twice: \<open>advances\<close> holds
  whatever fails (bounds, progress, the frame in progress), and when nothing fails the result
  and the new view are those of the protocol function.
\<close>

definition advances :: "asession \<Rightarrow> int \<Rightarrow> asession \<Rightarrow> bool" where
  "advances A r A' \<longleftrightarrow>
     (buffers_bounded A \<and> frame_fits A \<longrightarrow> buffers_bounded A' \<and> (r = 0 \<longrightarrow> frame_fits A')) \<and>
     (r = 0 \<longrightarrow> frame_ok A' \<and>
       (\<exists>k. a_in A' = drop k (a_in A) \<and> (\<not> a_new_frame A \<and> a_remain A \<noteq> 0 \<and> a_in A \<noteq> [] \<longrightarrow> 0 < k)))"

definition handled ::
  "'k os \<Rightarrow> mutex set \<Rightarrow> (asession \<Rightarrow> int \<times> asession) \<Rightarrow> 'k world \<Rightarrow> int \<Rightarrow> 'k world \<Rightarrow> bool" where
  "handled os H p w r w' \<longleftrightarrow> keeps os H w w' \<and> (r = 0 \<or> r = - 1) \<and> advances (view w) r (view w') \<and>
     (reliable os w \<longrightarrow> (r, view w') = p (view w))"

lemma calm_advances: "calm A A' \<Longrightarrow> a_new_frame A \<Longrightarrow> advances A r A'"
  by (auto simp: calm_def advances_def frame_ok_def frame_fits_def intro: exI [of _ 0])

lemma handledI:
  "keeps os H w w' \<Longrightarrow> r = 0 \<or> r = - 1 \<Longrightarrow> advances (view w) r (view w') \<Longrightarrow>
     (reliable os w \<Longrightarrow> (r, view w') = p (view w)) \<Longrightarrow> handled os H p w r w'"
  by (simp add: handled_def)

lemma wire_fields:
  assumes "winv os H w"
  shows "hdr_flags le (ss_hdr (sess w)) = wire_flags (ss_hdr (sess w))"
    "hdr_stream_id le (ss_hdr (sess w)) = wire_id (ss_hdr (sess w))"
    "hdr_length le (ss_hdr (sess w)) = wire_length (ss_hdr (sess w))"
  using winv_bufs [OF assms] by (auto intro: hdr_host)

section \<open>Shared steps\<close>

lemma syn_spec:
  assumes "winv os H w" and "H \<subseteq> {Session_recv_lock}" and "os_live os" and "ss_new_frame (sess w)"
  shows "\<exists>r w'. (if has_flag (wire_flags (ss_hdr (sess w))) FLAG_SYN then incoming_stream os w else Some (0, w)) = Some (r, w') \<and>
    keeps os H w w' \<and> (r = 0 \<or> r = - 1) \<and> calm (view w) (view w') \<and> (reliable os w \<longrightarrow> (r, view w') = p_syn (view w))"
  using incoming_stream_spec [OF assms] assms(1) by (auto simp: p_syn_def keeps_refl)

lemma flags_spec:
  assumes inv: "winv os H w" and H: "H \<subseteq> {Session_recv_lock}" and live: "os_live os" and a: "heap w a = Some s"
  defines "flags \<equiv> wire_flags (ss_hdr (sess w))"
  shows "\<exists>r w'. stream_process_flags os a flags w = Some (r, w') \<and> keeps os H w w' \<and> (r = 0 \<or> r = - 1) \<and>
    calm (view w) (view w') \<and> a_table (view w') = a_table (view w) \<and> heap w' a \<noteq> None \<and>
    (reliable os w \<longrightarrow> (r, if r = 0 then view w' else p_go_away GO_AWAY_PROTO_ERR (view w')) = p_flags a (view w))"
proof -
  have free: "State_lock a \<notin> H" "Send_lock a \<notin> H" "Recv_lock a \<notin> H" using H by auto
  from stream_process_flags_spec [OF inv live a free, of flags] obtain r w' where
    w': "stream_process_flags os a flags w = Some (r, w')" "flags_post os H a flags (st_state s) w r w'" by blast
  then have k: "keeps os H w w'" by (simp add: flags_post_def)
  show ?thesis
  proof (cases "next_state flags (st_state s)")
    case None
    with w'(2) have v: "r = - 1" "view w' = upd a (a_state_update (\<lambda>_. ack_state flags (st_state s))) (view w)"
      by (auto simp: flags_post_def)
    have "calm (view w) (view w')" unfolding v(2) by (rule calm_upd) simp
    moreover have "a_table (view w') = a_table (view w)" unfolding v(2) by simp
    moreover have "p_flags a (view w) = (- 1, p_go_away GO_AWAY_PROTO_ERR (view w'))"
      using a None by (simp add: p_flags_def Let_def flags_def v(2))
    ultimately show ?thesis using w'(1) k v(1) view_stream_at [OF v(2) a] by auto
  next
    case (Some st)
    with w'(2) obtain rd wr where v: "r = 0" "view w' = upd a (\<lambda>s. wake rd wr (s\<lparr>a_state := st\<rparr>)) (view w)"
      "if closing flags then reliable os w \<longrightarrow> rd \<and> wr else \<not> rd \<and> \<not> wr" by (auto simp: flags_post_def)
    have "calm (view w) (view w')" unfolding v(2) by (rule calm_upd) simp
    moreover have "a_table (view w') = a_table (view w)" unfolding v(2) by simp
    moreover have "reliable os w \<Longrightarrow> p_flags a (view w) = (0, view w')"
      using a Some v(3) by (cases "closing flags") (auto simp: p_flags_def Let_def flags_def v(2))
    ultimately show ?thesis using w'(1) k v(1) view_stream_at [OF v(2) a] by auto
  qed
qed

text \<open>The answer to a violation of the protocol, and to a failure of the system.\<close>

lemma go_away_step:
  assumes "winv os H w" and "H \<subseteq> {Session_recv_lock}"
  shows "\<exists>r w'. session_go_away_for_reason os reason w = Some (r, w') \<and> keeps os H w w' \<and> calm (view w) (view w') \<and>
    heap w' = heap w \<and> (reliable os w \<longrightarrow> view w' = p_go_away reason (view w))"
proof -
  have "Session_send_lock \<notin> H" using assms(2) by auto
  from go_away_spec [OF assms(1) this, of reason] obtain r w' where
    "session_go_away_for_reason os reason w = Some (r, w')" "goes_away os H reason w r w'" by blast
  with goes_away_view [OF this(2)] calm_go_away [OF this(2)] show ?thesis by blast
qed

section \<open>Window updates, pings and go away\<close>

text \<open>Adding to the send window and waking the writer; the failure ends the session.\<close>

definition grant_send :: "uint32 \<Rightarrow> astream \<Rightarrow> astream" where
  "grant_send n s = s\<lparr>a_send_window := a_send_window s + n, a_writeable := True\<rparr>"

lemma grant_send_spec:
  assumes inv: "winv os H w" and H: "H \<subseteq> {Session_recv_lock}" and live: "os_live os" and a: "heap w a \<noteq> None"
  shows "\<exists>r w'. grow_send_window os a n w = Some (r, w') \<and> keeps os H w w' \<and> (r = 0 \<or> r = - 1) \<and> calm (view w) (view w') \<and>
    (r = 0 \<longrightarrow> view w' = upd a (grant_send n) (view w)) \<and> (reliable os w \<longrightarrow> r = 0)"
proof -
  from a obtain s where s: "heap w a = Some s" by blast
  have free: "Send_lock a \<notin> H" using H by auto
  have m: "mutexes w (Send_lock a) = Free" using winv_mutex [OF inv] s free by simp
  let ?s = "s\<lparr>st_send_window := st_send_window s + n\<rparr>" let ?w = "put_stream a ?s w"
  let ?f = "\<lambda>s. s\<lparr>a_send_window := a_send_window s + n\<rparr>"
  have k1: "keeps os H w ?w" using inv s winv_recv_buf [OF inv s] by (intro keeps_put_stream) auto
  have v1: "view ?w = upd a ?f (view w)" using s by (intro view_put_upd) (auto simp: view_stream_def)
  from wpD [OF stream_writeable_notify_wp [OF keeps_winv [OF k1] live, of a ?s, OF _ free]] obtain e w2 where
    w2: "stream_writeable_notify os a ?w = Some (e, w2)" "sets os H a (a_writeable_update (\<lambda>_. True)) ?w (e, w2)" by auto
  note d = setsD [OF w2(2)]
  have pre: "mutex_lock (Send_lock a) w = Some (w\<lparr>mutexes := (mutexes w)(Send_lock a := Held)\<rparr>)"
    "mutex_unlock (Send_lock a) (put_stream a ?s (w\<lparr>mutexes := (mutexes w)(Send_lock a := Held)\<rparr>)) = Some ?w"
    using m by (simp_all add: mutex_lock_free mutex_unlock_held put_mutexes fun_upd_idem)
  show ?thesis
  proof (cases "e = 0")
    case True
    have "view w2 = upd a (grant_send n) (view w)"
      using d(2) True unfolding v1 upd_upd by (simp add: grant_send_def [abs_def])
    moreover from this have "calm (view w) (view w2)" by (simp only:) (rule calm_upd, simp add: grant_send_def)
    moreover have "keeps os H w w2" using k1 d(1) by (simp add: keeps_def)
    ultimately show ?thesis using pre s w2(1) True by (simp add: grow_send_window_def)
  next
    case False
    from go_away_step [OF keeps_winv [OF d(1)] H, of GO_AWAY_INTERNAL_ERR] obtain r w3 where
      w3: "session_go_away_for_reason os GO_AWAY_INTERNAL_ERR w2 = Some (r, w3)" "keeps os H w2 w3" "calm (view w2) (view w3)"
      by blast
    have "view w2 = upd a ?f (view w)" "\<not> reliable os ?w" using d(2) False v1 by auto
    moreover from this(1) have "calm (view w) (view w2)" by (simp only:) (rule calm_upd, simp)
    ultimately show ?thesis using pre s w2(1) w3 False k1 d(1)
      by (auto simp: grow_send_window_def keeps_def intro: calm_trans)
  qed
qed

text \<open>An update for a stream that exists: the flags are applied and then, unless they fail or the length is 0, the window grows.\<close>

lemma window_update_known:
  assumes inv: "winv os H w" and H: "H \<subseteq> {Session_recv_lock}" and live: "os_live os" and new: "ss_new_frame (sess w)"
    and w1: "(if has_flag (wire_flags (ss_hdr (sess w))) FLAG_SYN then incoming_stream os w else Some (0, w)) = Some (0, w1)"
      "keeps os H w w1" "calm (view w) (view w1)" "reliable os w \<longrightarrow> (0, view w1) = p_syn (view w)"
    and known: "table w1 (wire_id (ss_hdr (sess w))) = Some a"
  shows "\<exists>r w'. session_handle_window_update os w = Some (r, w') \<and> handled os H p_window_update w r w'"
proof -
  let ?h = "ss_hdr (sess w)" let ?len = "wire_length ?h"
  have free: "Session_streams_lock \<notin> H" using H by auto
  note i1 = keeps_winv [OF w1(2)]
  have h1: "ss_hdr (sess w1) = ?h" "ss_new_frame (sess w1)" using w1(3) new by (auto simp: calm_def)
  obtain s where a: "heap w1 a = Some s" using winv_table [OF i1] known by blast
  from flags_spec [OF i1 H live a, unfolded h1(1)] obtain r w2 where
    w2: "stream_process_flags os a (wire_flags ?h) w1 = Some (r, w2)" "keeps os H w1 w2" "r = 0 \<or> r = - 1"
    "calm (view w1) (view w2)" "heap w2 a \<noteq> None"
    "reliable os w1 \<longrightarrow> (r, if r = 0 then view w2 else p_go_away GO_AWAY_PROTO_ERR (view w2)) = p_flags a (view w1)" by blast
  note i2 = keeps_winv [OF w2(2)]
  have h2: "ss_hdr (sess w2) = ?h" using w2(4) h1 by (auto simp: calm_def)
  have c2: "calm (view w) (view w2)" "keeps os H w w2" using w1(2,3) w2(2,4) by (auto simp: keeps_def intro: calm_trans)
  have body: "session_handle_window_update os w = (if r \<noteq> 0 then do {
         (_, w) \<leftarrow> session_go_away_for_reason os GO_AWAY_PROTO_ERR w2;
         Some (- 1, w)
       }
       else if ?len = 0 then Some (0, w2)
       else grow_send_window os a ?len w2)"
    using w1(1) new session_find_stream_eq [OF i1 free, of "wire_id ?h"] known w2(1)
    by (simp add: session_handle_window_update_def wire_fields [OF inv, of "host_le os"] h1
      wire_fields [OF i1, of "host_le os", unfolded h1(1)] h2 wire_fields [OF i2, of "host_le os", unfolded h2])
  have spec: "p_window_update (view w) = (if r \<noteq> 0 then (- 1, p_go_away GO_AWAY_PROTO_ERR (view w2))
      else if ?len = 0 then (0, view w2) else (0, upd a (grant_send ?len) (view w2)))" if rel: "reliable os w"
  proof -
    have "p_syn (view w) = (0, view w1)" "p_flags a (view w1) =
        (r, if r = 0 then view w2 else p_go_away GO_AWAY_PROTO_ERR (view w2))"
      using rel w1(2,4) w2(6) by (auto simp: keeps_def)
    then show ?thesis using known h1(1) h2 by (auto simp: p_window_update_def Let_def p_go_away_def grant_send_def [abs_def])
  qed
  show ?thesis
  proof (cases "r = 0")
    case False
    from go_away_step [OF i2 H, of GO_AWAY_PROTO_ERR] obtain x w3 where
      w3: "session_go_away_for_reason os GO_AWAY_PROTO_ERR w2 = Some (x, w3)" "keeps os H w2 w3" "calm (view w2) (view w3)"
      "reliable os w2 \<longrightarrow> view w3 = p_go_away GO_AWAY_PROTO_ERR (view w2)" by blast
    have "handled os H p_window_update w (- 1) w3"
      using c2 w3 False new calm_trans [OF c2(1) w3(3)] spec by (auto intro!: handledI calm_advances simp: keeps_def)
    then show ?thesis using body False w3(1) by simp
  next
    case True
    from grant_send_spec [OF i2 H live w2(5), of ?len] obtain r3 w3 where
      run: "grow_send_window os a ?len w2 = Some (r3, w3)"
      and w3: "keeps os H w2 w3" "r3 = 0 \<or> r3 = - 1" "calm (view w2) (view w3)"
      "r3 = 0 \<longrightarrow> view w3 = upd a (grant_send ?len) (view w2)" "reliable os w2 \<longrightarrow> r3 = 0" by blast
    have "?len \<noteq> 0 \<Longrightarrow> handled os H p_window_update w r3 w3"
      using c2 w3 True new calm_trans [OF c2(1) w3(3)] spec by (auto intro!: handledI calm_advances simp: keeps_def)
    moreover have "?len = 0 \<Longrightarrow> handled os H p_window_update w 0 w2"
      using c2 True new spec by (auto intro!: handledI calm_advances)
    ultimately show ?thesis using body True run by (cases "?len = 0") auto
  qed
qed

lemma handle_window_update_spec:
  assumes inv: "winv os H w" and H: "H \<subseteq> {Session_recv_lock}" and live: "os_live os" and new: "ss_new_frame (sess w)"
  shows "\<exists>r w'. session_handle_window_update os w = Some (r, w') \<and> handled os H p_window_update w r w'"
proof -
  let ?h = "ss_hdr (sess w)" let ?sid = "wire_id ?h"
  have free: "Session_streams_lock \<notin> H" using H by auto
  note wire = wire_fields [OF inv, of "host_le os"]
  from syn_spec [OF inv H live new] obtain e w1 where
    w1: "(if has_flag (wire_flags ?h) FLAG_SYN then incoming_stream os w else Some (0, w)) = Some (e, w1)"
    "keeps os H w w1" "e = 0 \<or> e = - 1" "calm (view w) (view w1)" "reliable os w \<longrightarrow> (e, view w1) = p_syn (view w)" by blast
  have h1: "ss_hdr (sess w1) = ?h" "ss_new_frame (sess w1)" using w1(4) new by (auto simp: calm_def)
  consider (refused) "e \<noteq> 0" | (unknown) "e = 0" "table w1 ?sid = None" | (known) a where "e = 0" "table w1 ?sid = Some a" by blast
  then show ?thesis
  proof cases
    case refused
    then have "session_handle_window_update os w = Some (- 1, w1)"
      using w1(1) new by (simp add: session_handle_window_update_def wire)
    moreover have "handled os H p_window_update w (- 1) w1" using refused w1(2-5) calm_advances new
      by (auto intro!: handledI simp: p_window_update_def split: prod.splits)
    ultimately show ?thesis by blast
  next
    case unknown
    then have "session_handle_window_update os w = Some (0, w1)"
      using w1(1) new session_find_stream_eq [OF keeps_winv [OF w1(2)] free, of ?sid]
      by (simp add: session_handle_window_update_def wire h1 wire_fields [OF keeps_winv [OF w1(2)], of "host_le os", unfolded h1(1)])
    moreover have "handled os H p_window_update w 0 w1" using unknown w1(2-5) calm_advances new h1(1)
      by (auto intro!: handledI simp: p_window_update_def calm_def split: prod.splits)
    ultimately show ?thesis by blast
  next
    case known
    from w1(1,2,4,5) known show ?thesis by (intro window_update_known [OF inv H live new]) auto
  qed
qed

lemma handle_ping_spec:
  assumes inv: "winv os H w" and H: "H \<subseteq> {Session_recv_lock}" and new: "ss_new_frame (sess w)"
  shows "\<exists>r w'. session_handle_ping os w = Some (r, w') \<and> handled os H p_ping w r w'"
proof (cases "has_flag (wire_flags (ss_hdr (sess w))) FLAG_SYN")
  case False
  then have "session_handle_ping os w = Some (0, w)"
    using new by (simp add: session_handle_ping_def wire_fields [OF inv, of "host_le os"])
  moreover have "handled os H p_ping w 0 w" using False inv new
    by (auto intro!: handledI calm_advances simp: p_ping_def keeps_refl)
  ultimately show ?thesis by blast
next
  case True
  let ?hdr = "frame_hdr TYPE_PING FLAG_ACK 0 (wire_length (ss_hdr (sess w)))"
  have free: "Session_send_lock \<notin> H" using H by auto
  from send_hdr_spec [OF inv free, of ?hdr] obtain r w1 where
    w1: "session_send_buf_write ?hdr 12 w = Some (r, w1)" "sends os H ?hdr w r w1" by auto
  have k1: "keeps os H w w1" "calm (view w) (view w1)" using w1(2) by (auto simp: sends_def calm_put_out)
  have run: "session_handle_ping os w = (if r \<noteq> 0 then do {
      (_, w) \<leftarrow> session_go_away_for_reason os GO_AWAY_INTERNAL_ERR w1; Some (- 1, w) } else Some (0, w1))"
    using True new w1(1) by (simp add: session_handle_ping_def wire_fields [OF inv, of "host_le os"] hdr_encode_frame)
  show ?thesis
  proof (cases "r = 0")
    case r: True
    then have "handled os H p_ping w 0 w1" using k1 w1(2) True new
      by (auto intro!: handledI calm_advances simp: sends_def p_ping_def)
    with run r show ?thesis by simp
  next
    case False
    then have nr: "\<not> reliable os w" using w1(2) by (auto simp: sends_def)
    from go_away_step [OF keeps_winv [OF k1(1)] H, of GO_AWAY_INTERNAL_ERR] obtain x w2 where
      w2: "session_go_away_for_reason os GO_AWAY_INTERNAL_ERR w1 = Some (x, w2)" "keeps os H w1 w2" "calm (view w1) (view w2)"
      by blast
    have "handled os H p_ping w (- 1) w2" using calm_trans [OF k1(2) w2(3)] k1(1) w2(2) new nr
      by (auto intro!: handledI calm_advances simp: keeps_def)
    with run False w2(1) show ?thesis by simp
  qed
qed

lemma handle_go_away_spec:
  assumes inv: "winv os H w" and new: "ss_new_frame (sess w)"
  shows "\<exists>r w'. session_handle_go_away os w = Some (r, w') \<and> handled os H p_peer_go_away w r w'"
proof -
  let ?w = "put_sess ((sess w)\<lparr>ss_remote_go_away := True\<rparr>) w"
  have k: "keeps os H w ?w" using inv winv_bufs [OF inv] by (auto simp: keeps_def intro: winv_put_sess)
  have v: "view ?w = (view w)\<lparr>a_remote_go_away := True\<rparr>" by (rule view_sess)
  have c: "calm (view w) (view ?w)" unfolding v by (rule calm_streams) simp_all
  show ?thesis
  proof (cases "wire_length (ss_hdr (sess w)) = GO_AWAY_NORMAL")
    case True
    have "handled os H p_peer_go_away w 0 ?w" using True k c new
      by (auto intro!: handledI calm_advances simp: p_peer_go_away_def v)
    with True new show ?thesis by (simp add: session_handle_go_away_def wire_fields [OF inv, of "host_le os"])
  next
    case False
    have "handled os H p_peer_go_away w (- 1) w" using False inv new
      by (auto intro!: handledI calm_advances simp: p_peer_go_away_def keeps_refl)
    with False new show ?thesis
      by (auto simp: session_handle_go_away_def wire_fields [OF inv, of "host_le os"] Let_def)
  qed
qed

section \<open>Data frames\<close>

text \<open>The start of a data frame changes two fields of the session.\<close>

lemma start_frame:
  assumes "winv os H w" and "n = wire_length (ss_hdr (sess w))"
  defines "w' \<equiv> begin_frame n w"
  shows "keeps os H w w'" "view w' = p_begin (view w)" "heap w' = heap w"
proof -
  show "keeps os H w w'" using assms(1) winv_bufs [OF assms(1)] by (auto simp: w'_def begin_frame_def keeps_def intro: winv_put_sess)
  have "(sess w)\<lparr>ss_frame_remain := n, ss_new_frame := False\<rparr> = (sess w)\<lparr>ss_new_frame := False, ss_frame_remain := n\<rparr>"
    by simp
  then have "view w' = (view w)\<lparr>a_new_frame := False, a_remain := n\<rparr>"
    unfolding w'_def begin_frame_def by (simp only: view_sess)
  then show "view w' = p_begin (view w)" by (simp add: p_begin_def assms(2))
qed (simp add: w'_def begin_frame_def)

lemma p_begin_sel [simp]:
  "a_in (p_begin A) = a_in A" "a_hdr (p_begin A) = a_hdr A" "a_table (p_begin A) = a_table A"
  "a_streams (p_begin A) = a_streams A" "a_new_frame (p_begin A) = False" "a_remain (p_begin A) = wire_length (a_hdr A)"
  by (simp_all add: p_begin_def)

lemma bounded_begin [simp]: "buffers_bounded (p_begin A) = buffers_bounded A"
  by (simp add: buffers_bounded_def)

text \<open>The loop, for the stream the table holds for the frame in progress.\<close>

lemma payload_spec:
  assumes inv: "winv os H w" and H: "H \<subseteq> {Session_recv_lock}" and live: "os_live os"
    and data: "hdr_type (ss_hdr (sess w)) = TYPE_DATA" and len: "length (a_in (view w)) < 2 ^ 31"
  defines "stream \<equiv> table w (wire_id (ss_hdr (sess w)))"
  shows "\<exists>r w'. session_handle_data_loop os stream w = Some (r, w') \<and> keeps os H w w' \<and> (r = 0 \<or> r = - 1) \<and>
    (reliable os w \<longrightarrow> r = 0) \<and> (r = 0 \<longrightarrow> view w' = p_payload stream (view w) \<and> frame_ok (view w')) \<and>
    (buffers_bounded (view w) \<and> (\<forall>a s. stream = Some a \<longrightarrow> a_streams (view w) a = Some s \<longrightarrow> a_remain (view w) \<le> a_recv_window s) \<longrightarrow>
      buffers_bounded (view w') \<and> (r = 0 \<longrightarrow> frame_fits (view w')))"
proof (cases stream)
  case None
  from data_loop_none [OF inv len] obtain w' where
    "session_handle_data_loop os None w = Some (0, w')" "keeps os H w w'" "view w' = p_payload None (view w)" by blast
  then show ?thesis using None payload_bounds [of "view w" stream] payload_frame_ok [of "view w" stream] data
    by (auto simp: stream_def)
next
  case (Some a)
  have free: "Recv_lock a \<notin> H" "Session_send_lock \<notin> H" using H by auto
  from Some have "heap w a \<noteq> None" using winv_table [OF inv] by (auto simp: stream_def)
  from data_loop_stream [OF inv live this free len] obtain r w' where
    w': "session_handle_data_loop os (Some a) w = Some (r, w')" "keeps os H w w'" and
    cs: "r = 0 \<and> view w' = p_payload (Some a) (view w) \<or> r = - 1 \<and> \<not> reliable os w \<and>
      torn a (take (unat (a_remain (view w))) (a_in (view w))) (view w) (view w')" by blast
  from cs show ?thesis
  proof (elim disjE conjE)
    assume "r = 0" "view w' = p_payload (Some a) (view w)"
    then show ?thesis using w' Some payload_bounds [of "view w" stream] payload_frame_ok [of "view w" stream] data
      by (auto simp: stream_def)
  next
    assume "r = - 1" "\<not> reliable os w" "torn a (take (unat (a_remain (view w))) (a_in (view w))) (view w) (view w')"
    then show ?thesis using w' Some torn_bounded [of a "view w" "view w'"] by simp
  qed
qed

lemma payload_advances:
  assumes "frame_ok A'" and "A' = p_payload stream A0" and "a_in A0 = a_in A" and "\<not> a_new_frame A \<Longrightarrow> A0 = A"
    and "buffers_bounded A \<and> frame_fits A \<Longrightarrow> buffers_bounded A' \<and> frame_fits A'"
  shows "advances A 0 A'"
proof -
  from payload_progress [of stream A0] obtain k where
    "a_in A' = drop k (a_in A)" "a_remain A0 \<noteq> 0 \<longrightarrow> a_in A \<noteq> [] \<longrightarrow> 0 < k" using assms(2,3) by auto
  with assms show ?thesis by (auto simp: advances_def)
qed

lemma handle_data_continued:
  assumes inv: "winv os H w" and H: "H \<subseteq> {Session_recv_lock}" and live: "os_live os"
    and data: "hdr_type (ss_hdr (sess w)) = TYPE_DATA" and len: "length (a_in (view w)) < 2 ^ 31"
    and old: "\<not> ss_new_frame (sess w)"
  shows "\<exists>r w'. session_handle_data os w = Some (r, w') \<and> handled os H p_data w r w'"
proof -
  let ?st = "table w (wire_id (ss_hdr (sess w)))"
  have free: "Session_streams_lock \<notin> H" using H by auto
  from payload_spec [OF inv H live data len] obtain r w' where
    w': "session_handle_data_loop os ?st w = Some (r, w')" "keeps os H w w'" "r = 0 \<or> r = - 1" "reliable os w \<longrightarrow> r = 0"
    "r = 0 \<longrightarrow> view w' = p_payload ?st (view w) \<and> frame_ok (view w')"
    "buffers_bounded (view w) \<and> (\<forall>a s. ?st = Some a \<longrightarrow> a_streams (view w) a = Some s \<longrightarrow> a_remain (view w) \<le> a_recv_window s) \<longrightarrow>
      buffers_bounded (view w') \<and> (r = 0 \<longrightarrow> frame_fits (view w'))" by blast
  have b: "buffers_bounded (view w) \<and> frame_fits (view w) \<Longrightarrow> buffers_bounded (view w') \<and> (r = 0 \<longrightarrow> frame_fits (view w'))"
    using w'(6) old by (auto simp: frame_fits_def)
  have "advances (view w) r (view w')"
  proof (cases "r = 0")
    case True
    with w'(5) b show ?thesis by (auto intro: payload_advances)
  next
    case False
    with b show ?thesis by (auto simp: advances_def)
  qed
  then have "handled os H p_data w r w'" using w'(2-5) old by (auto intro!: handledI simp: p_data_def Let_def)
  moreover have "session_handle_data os w = Some (r, w')"
    using old w'(1) session_find_stream_eq [OF inv free]
    by (simp add: session_handle_data_def wire_fields [OF inv, of "host_le os"])
  ultimately show ?thesis by blast
qed

text \<open>A new frame after its \<^verbatim>\<open>SYN\<close> was dealt with: the flags, the window check, and the payload.\<close>

definition p_frame :: "asession \<Rightarrow> int \<times> asession" where
  "p_frame A = (let sid = wire_id (a_hdr A); len = wire_length (a_hdr A) in
     case a_table A sid of
       None \<Rightarrow> (0, p_payload None (p_begin A))
     | Some a \<Rightarrow>
         let (e, A) = p_flags a A in
         if e \<noteq> 0 then (- 1, A)
         else if len = 0 then (0, A)
         else case a_streams A a of
           None \<Rightarrow> (0, A)
         | Some s \<Rightarrow>
             if len > a_recv_window s then (- 1, p_go_away GO_AWAY_PROTO_ERR A)
             else (0, p_payload (Some a) (p_begin A)))"

lemma p_data_new:
  assumes "a_new_frame A" and "a_hdr (snd (p_syn A)) = a_hdr A"
  shows "p_data A = (if fst (p_syn A) \<noteq> 0 then (- 1, snd (p_syn A)) else p_frame (snd (p_syn A)))"
  using assms by (simp add: p_data_def p_frame_def Let_def split_beta)

definition begin_post :: "'k os \<Rightarrow> mutex set \<Rightarrow> ptr \<Rightarrow> 'k world \<Rightarrow> int option \<Rightarrow> 'k world \<Rightarrow> bool" where
  "begin_post os H stream w ret w' \<longleftrightarrow> keeps os H w w' \<and>
     (case ret of
        Some r \<Rightarrow> (r = 0 \<or> r = - 1) \<and> calm (view w) (view w') \<and> (reliable os w \<longrightarrow> p_frame (view w) = (r, view w'))
      | None \<Rightarrow> \<exists>A. calm (view w) A \<and> a_table A = a_table (view w) \<and> view w' = p_begin A \<and>
          (\<forall>a s. stream = Some a \<longrightarrow> a_streams A a = Some s \<longrightarrow> wire_length (a_hdr A) \<le> a_recv_window s) \<and>
          (reliable os w \<longrightarrow> p_frame (view w) = (0, p_payload stream (p_begin A))))"

lemma check_window_spec:
  assumes inv: "winv os H w" and H: "H \<subseteq> {Session_recv_lock}" and a: "heap w a = Some s"
    and len: "len = wire_length (ss_hdr (sess w))"
  shows "\<exists>ret w'. check_window os a len w = Some (ret, w') \<and> keeps os H w w' \<and>
    (if len > st_recv_window s then ret = Some (- 1) \<and> calm (view w) (view w') \<and>
       (reliable os w \<longrightarrow> view w' = p_go_away GO_AWAY_PROTO_ERR (view w))
     else ret = None \<and> view w' = p_begin (view w))"
proof (cases "len > st_recv_window s")
  case False
  have m: "mutexes w (Recv_lock a) = Free" using winv_mutex [OF inv] a H by auto
  show ?thesis using False m a start_frame(1) [OF inv len] start_frame(2) [OF inv len]
    by (simp add: check_window_def mutex_lock_free mutex_unlock_held fun_upd_idem)
next
  case True
  let ?H = "insert (Recv_lock a) H"
  have free: "Recv_lock a \<notin> H" "Session_send_lock \<notin> ?H" using H by auto
  from lock_eq [OF inv _ free(1)] a obtain w0 where
    w0: "mutex_lock (Recv_lock a) w = Some w0" "keeps os ?H w w0" "view w0 = view w" "heap w0 = heap w" by auto
  from go_away_spec [OF keeps_winv [OF w0(2)] free(2), of GO_AWAY_PROTO_ERR] obtain r w1 where
    w1: "session_go_away_for_reason os GO_AWAY_PROTO_ERR w0 = Some (r, w1)" "goes_away os ?H GO_AWAY_PROTO_ERR w0 r w1"
    by blast
  note g = goes_away_view [OF w1(2)]
  from unlock_eq [OF keeps_winv [OF g(1)] _ free(1)] g(2) w0(4) a obtain w2 where
    w2: "mutex_unlock (Recv_lock a) w1 = Some w2" "keeps os H w1 w2" "view w2 = view w1" by auto
  have "calm (view w) (view w2)" using calm_go_away [OF w1(2)] w0(3) w2(3) by simp
  moreover have "reliable os w \<longrightarrow> view w2 = p_go_away GO_AWAY_PROTO_ERR (view w)"
    using g(9) w0(2,3) w2(3) by (auto simp: keeps_def)
  ultimately show ?thesis using True w0 w1(1) w2(1,2) a g(1)
    by (auto simp: check_window_def keeps_def)
qed

text \<open>The window check of a frame with a payload, after its flags have been processed in \<open>w1\<close>.\<close>

lemma begin_checked:
  assumes H: "H \<subseteq> {Session_recv_lock}" and st: "table w (wire_id (ss_hdr (sess w))) = Some a"
    and w1: "keeps os H w w1" "calm (view w) (view w1)" "a_table (view w1) = a_table (view w)"
      "reliable os w \<Longrightarrow> p_flags a (view w) = (0, view w1)" "heap w1 a = Some s"
    and len: "wire_length (ss_hdr (sess w)) \<noteq> 0"
  shows "\<exists>ret w2. check_window os a (wire_length (ss_hdr (sess w))) w1 = Some (ret, w2) \<and> begin_post os H (Some a) w ret w2"
proof -
  let ?len = "wire_length (ss_hdr (sess w))"
  have h: "ss_hdr (sess w1) = ss_hdr (sess w)" using w1(2) by (simp add: calm_def)
  from check_window_spec [OF keeps_winv [OF w1(1)] H w1(5), of ?len] h obtain ret w2 where
    ret: "check_window os a ?len w1 = Some (ret, w2)" "keeps os H w1 w2"
    "if ?len > st_recv_window s then ret = Some (- 1) \<and> calm (view w1) (view w2) \<and>
       (reliable os w1 \<longrightarrow> view w2 = p_go_away GO_AWAY_PROTO_ERR (view w1))
     else ret = None \<and> view w2 = p_begin (view w1)" by auto
  have "begin_post os H (Some a) w ret w2"
  proof (cases "?len > st_recv_window s")
    case True
    with ret w1 st len show ?thesis
      by (auto simp: begin_post_def keeps_def p_frame_def Let_def intro: calm_trans)
  next
    case False
    with ret w1 st len h show ?thesis
      by (auto simp: begin_post_def keeps_def p_frame_def Let_def intro!: exI [of _ "view w1"])
  qed
  with ret(1) show ?thesis by blast
qed

lemma begin_data_frame_spec:
  assumes inv: "winv os H w" and H: "H \<subseteq> {Session_recv_lock}" and live: "os_live os"
  defines "stream \<equiv> table w (wire_id (ss_hdr (sess w)))"
  shows "\<exists>ret w'. begin_data_frame os stream w = Some (ret, w') \<and> begin_post os H stream w ret w'"
proof (cases stream)
  case None
  let ?w = "begin_frame (wire_length (ss_hdr (sess w))) w"
  have "begin_data_frame os stream w = Some (None, ?w)" using None
    by (simp add: begin_data_frame_def wire_fields [OF inv, of "host_le os"])
  moreover have "begin_post os H stream w None ?w"
    using start_frame(1) [OF inv refl] start_frame(2) [OF inv refl] None
    by (auto simp: begin_post_def p_frame_def Let_def stream_def intro!: exI [of _ "view w"])
  ultimately show ?thesis by blast
next
  case (Some a)
  let ?h = "ss_hdr (sess w)" let ?len = "wire_length ?h"
  from Some obtain s where a: "heap w a = Some s" using winv_table [OF inv] by (auto simp: stream_def)
  from flags_spec [OF inv H live a] obtain r w1 where
    w1: "stream_process_flags os a (wire_flags ?h) w = Some (r, w1)" "keeps os H w w1" "r = 0 \<or> r = - 1"
    "calm (view w) (view w1)" "a_table (view w1) = a_table (view w)" "heap w1 a \<noteq> None"
    "reliable os w \<longrightarrow> (r, if r = 0 then view w1 else p_go_away GO_AWAY_PROTO_ERR (view w1)) = p_flags a (view w)" by blast
  note wire = wire_fields [OF inv, of "host_le os"]
  have pf: "r = 0 \<Longrightarrow> reliable os w \<Longrightarrow> p_flags a (view w) = (0, view w1)" using w1(7) by auto
  consider "r \<noteq> 0" | "r = 0" "?len = 0" | "r = 0" "?len \<noteq> 0" by blast
  then show ?thesis
  proof cases
    case 1
    from go_away_step [OF keeps_winv [OF w1(2)] H, of GO_AWAY_PROTO_ERR] obtain x w2 where
      w2: "session_go_away_for_reason os GO_AWAY_PROTO_ERR w1 = Some (x, w2)" "keeps os H w1 w2" "calm (view w1) (view w2)"
      "reliable os w1 \<longrightarrow> view w2 = p_go_away GO_AWAY_PROTO_ERR (view w1)" by blast
    have "begin_data_frame os stream w = Some (Some (- 1), w2)" using Some w1(1) w2(1) 1
      by (simp add: begin_data_frame_def wire)
    moreover have "begin_post os H stream w (Some (- 1)) w2" using w1(2-7) w2(2-4) 1 Some
      by (auto simp: begin_post_def keeps_def p_frame_def Let_def stream_def split_beta intro: calm_trans dest!: sym [of _ "p_flags a (view w)"])
    ultimately show ?thesis by blast
  next
    case 2
    then have "begin_data_frame os stream w = Some (Some 0, w1)" using Some w1(1) by (simp add: begin_data_frame_def wire)
    moreover have "begin_post os H stream w (Some 0) w1" using 2 w1(2,4) Some pf
      by (auto simp: begin_post_def p_frame_def Let_def stream_def)
    ultimately show ?thesis by blast
  next
    case 3
    from w1(6) obtain s1 where "heap w1 a = Some s1" by blast
    from begin_checked [OF H _ w1(2,4,5) pf this] 3 Some show ?thesis
      using w1(1) by (auto simp: begin_data_frame_def wire stream_def)
  qed
qed

lemma new_frame_payload:
  assumes inv: "winv os H w" and H: "H \<subseteq> {Session_recv_lock}" and live: "os_live os"
    and data: "hdr_type (a_hdr A) = TYPE_DATA" and len: "length (a_in A) < 2 ^ 31" and v: "view w = p_begin A"
    and calm: "calm A0 A" and new: "a_new_frame A0"
    and fits: "\<And>a s. a_table A (wire_id (a_hdr A)) = Some a \<Longrightarrow> a_streams A a = Some s \<Longrightarrow> wire_length (a_hdr A) \<le> a_recv_window s"
  shows "\<exists>r w'. session_handle_data_loop os (a_table A (wire_id (a_hdr A))) w = Some (r, w') \<and> keeps os H w w' \<and>
    (r = 0 \<or> r = - 1) \<and> advances A0 r (view w') \<and>
    (reliable os w \<longrightarrow> (r, view w') = (0, p_payload (a_table A (wire_id (a_hdr A))) (p_begin A)))"
proof -
  let ?st = "a_table A (wire_id (a_hdr A))"
  have f: "ss_hdr (sess w) = a_hdr A" "table w = a_table A" "a_in (view w) = a_in A" "a_remain (view w) = wire_length (a_hdr A)"
    "a_streams (view w) = a_streams A"
    using arg_cong [OF v, of a_hdr] arg_cong [OF v, of a_table] arg_cong [OF v, of a_in] arg_cong [OF v, of a_remain]
      arg_cong [OF v, of a_streams] by simp_all
  from payload_spec [OF inv H live] data len f obtain r w' where
    w': "session_handle_data_loop os ?st w = Some (r, w')" "keeps os H w w'" "r = 0 \<or> r = - 1" "reliable os w \<longrightarrow> r = 0"
    "r = 0 \<longrightarrow> view w' = p_payload ?st (view w) \<and> frame_ok (view w')"
    "buffers_bounded (view w) \<and> (\<forall>a s. ?st = Some a \<longrightarrow> a_streams (view w) a = Some s \<longrightarrow> a_remain (view w) \<le> a_recv_window s) \<longrightarrow>
      buffers_bounded (view w') \<and> (r = 0 \<longrightarrow> frame_fits (view w'))" by (metis (no_types, lifting))
  have "buffers_bounded (view w) = buffers_bounded A" by (simp add: v)
  then have b: "buffers_bounded A0 \<Longrightarrow> buffers_bounded (view w') \<and> (r = 0 \<longrightarrow> frame_fits (view w'))"
    using w'(6) calm fits unfolding f(4,5) by (simp add: calm_def)
  have "advances A0 r (view w')"
  proof (cases "r = 0")
    case True
    have "advances A0 0 (view w')"
      by (rule payload_advances [of _ ?st "view w"]) (use True w'(5) b new calm v in \<open>auto simp: calm_def\<close>)
    with True show ?thesis by simp
  next
    case False
    with b show ?thesis by (auto simp: advances_def)
  qed
  with w'(1-5) v show ?thesis by (intro exI [of _ r] exI [of _ w']) auto
qed

text \<open>A new frame from the point where its stream has been looked up.\<close>

lemma new_frame_run:
  assumes inv: "winv os H w" and H: "H \<subseteq> {Session_recv_lock}" and live: "os_live os"
    and data: "hdr_type (ss_hdr (sess w)) = TYPE_DATA" and len: "length (a_in (view w)) < 2 ^ 31"
    and calm: "calm A0 (view w)" and new: "a_new_frame A0"
  defines "stream \<equiv> table w (wire_id (ss_hdr (sess w)))"
  shows "\<exists>ret w' r w''. begin_data_frame os stream w = Some (ret, w') \<and>
    (case ret of Some r \<Rightarrow> Some (r, w') | None \<Rightarrow> session_handle_data_loop os stream w') = Some (r, w'') \<and>
    keeps os H w w'' \<and> (r = 0 \<or> r = - 1) \<and> advances A0 r (view w'') \<and> (reliable os w \<longrightarrow> p_frame (view w) = (r, view w''))"
proof -
  from begin_data_frame_spec [OF inv H live] obtain ret w' where
    w': "begin_data_frame os stream w = Some (ret, w')" "begin_post os H stream w ret w'" unfolding stream_def by blast
  have k: "keeps os H w w'" using w'(2) by (simp add: begin_post_def)
  show ?thesis
  proof (cases ret)
    case (Some r)
    with w' calm_advances [OF calm_trans [OF calm] new] show ?thesis by (auto simp: begin_post_def)
  next
    case None
    with w'(2) obtain A where A: "calm (view w) A" "a_table A = a_table (view w)" "view w' = p_begin A"
      "\<And>a s. stream = Some a \<Longrightarrow> a_streams A a = Some s \<Longrightarrow> wire_length (a_hdr A) \<le> a_recv_window s"
      "reliable os w \<longrightarrow> p_frame (view w) = (0, p_payload stream (p_begin A))" by (auto simp: begin_post_def)
    have c: "calm A0 A" using calm A(1) by (rule calm_trans)
    have f: "a_hdr A = ss_hdr (sess w)" "a_in A = a_in (view w)" "a_table A (wire_id (a_hdr A)) = stream"
      using A(1,2) by (simp_all add: calm_def stream_def)
    have "\<exists>r w''. session_handle_data_loop os stream w' = Some (r, w'') \<and> keeps os H w' w'' \<and>
      (r = 0 \<or> r = - 1) \<and> advances A0 r (view w'') \<and>
      (reliable os w' \<longrightarrow> (r, view w'') = (0, p_payload stream (p_begin A)))"
      using new_frame_payload [OF keeps_winv [OF k] H live _ _ A(3) c] data len new f A(4) by simp
    with None w'(1) k A(5) show ?thesis by (fastforce simp: keeps_def)
  qed
qed

lemma handle_data_new:
  assumes inv: "winv os H w" and H: "H \<subseteq> {Session_recv_lock}" and live: "os_live os"
    and data: "hdr_type (ss_hdr (sess w)) = TYPE_DATA" and len: "length (a_in (view w)) < 2 ^ 31"
    and new: "ss_new_frame (sess w)"
  shows "\<exists>r w'. session_handle_data os w = Some (r, w') \<and> handled os H p_data w r w'"
proof -
  let ?h = "ss_hdr (sess w)"
  have free: "Session_streams_lock \<notin> H" using H by auto
  note wire = wire_fields [OF inv, of "host_le os"]
  from syn_spec [OF inv H live new] obtain e w1 where
    w1: "(if has_flag (wire_flags ?h) FLAG_SYN then incoming_stream os w else Some (0, w)) = Some (e, w1)"
    "keeps os H w w1" "e = 0 \<or> e = - 1" "calm (view w) (view w1)" "reliable os w \<longrightarrow> (e, view w1) = p_syn (view w)" by blast
  note i1 = keeps_winv [OF w1(2)]
  have h1: "ss_hdr (sess w1) = ?h" "ss_new_frame (sess w1)" "a_in (view w1) = a_in (view w)"
    using w1(4) new by (auto simp: calm_def)
  have pd: "p_data (view w) = (if e \<noteq> 0 then (- 1, view w1) else p_frame (view w1))" if "reliable os w"
  proof -
    have "p_syn (view w) = (e, view w1)" using that w1(5) by simp
    then show ?thesis using p_data_new [of "view w"] new h1(1) by simp
  qed
  show ?thesis
  proof (cases "e = 0")
    case False
    then have "session_handle_data os w = Some (- 1, w1)" using w1(1) new by (simp add: session_handle_data_def wire)
    moreover have "handled os H p_data w (- 1) w1" using False w1(2,4) new pd
      by (auto intro!: handledI calm_advances)
    ultimately show ?thesis by blast
  next
    case True
    let ?st = "table w1 (wire_id ?h)"
    have d: "hdr_type (ss_hdr (sess w1)) = TYPE_DATA" "length (a_in (view w1)) < 2 ^ 31" "a_new_frame (view w)"
      using data len new h1(1,3) by simp_all
    from new_frame_run [OF i1 H live d(1,2) w1(4) d(3)] obtain ret w2 r w' where
      w2: "begin_data_frame os ?st w1 = Some (ret, w2)"
      "(case ret of Some r \<Rightarrow> Some (r, w2) | None \<Rightarrow> session_handle_data_loop os ?st w2) = Some (r, w')"
      and w': "keeps os H w1 w'" "r = 0 \<or> r = - 1" "advances (view w) r (view w')"
      "reliable os w1 \<longrightarrow> p_frame (view w1) = (r, view w')" unfolding h1(1) by blast
    have "session_handle_data os w = Some (r, w')"
      using True w1(1) new session_find_stream_eq [OF i1 free, of "wire_id ?h"] w2 h1(2)
      by (simp add: session_handle_data_def wire wire_fields [OF i1, of "host_le os"] h1(1))
    moreover have "handled os H p_data w r w'" using w1(2) w' pd True by (auto intro!: handledI simp: keeps_def)
    ultimately show ?thesis by blast
  qed
qed

section \<open>The frame loop\<close>

lemma session_handle_spec:
  assumes inv: "winv os H w" and H: "H \<subseteq> {Session_recv_lock}" and live: "os_live os"
    and ok: "frame_ok (view w)" and len: "length (a_in (view w)) < 2 ^ 31"
  shows "\<exists>r w'. session_handle os w = Some (r, w') \<and> handled os H p_handle w r w'"
proof -
  let ?t = "hdr_type (ss_hdr (sess w))"
  have new: "?t \<noteq> TYPE_DATA \<Longrightarrow> ss_new_frame (sess w)" using ok by (auto simp: frame_ok_def)
  consider "?t = TYPE_DATA" | "?t = TYPE_WINDOW_UPDATE" | "?t = TYPE_PING" | "?t = TYPE_GO_AWAY"
    | "?t \<notin> {TYPE_DATA, TYPE_WINDOW_UPDATE, TYPE_PING, TYPE_GO_AWAY}" by blast
  then show ?thesis
  proof cases
    case 1
    then have "\<exists>r w'. session_handle_data os w = Some (r, w') \<and> handled os H p_data w r w'"
      using handle_data_new [OF inv H live] handle_data_continued [OF inv H live] len by blast
    with 1 show ?thesis by (auto simp: session_handle_def handled_def p_handle_def)
  next
    case 2
    with handle_window_update_spec [OF inv H live] new show ?thesis
      by (auto simp: session_handle_def handled_def p_handle_def type_defs)
  next
    case 3
    with handle_ping_spec [OF inv H] new show ?thesis
      by (auto simp: session_handle_def handled_def p_handle_def type_defs)
  next
    case 4
    with handle_go_away_spec [OF inv] new show ?thesis
      by (auto simp: session_handle_def handled_def p_handle_def type_defs)
  next
    case 5
    have "advances (view w) (- 1) (view w)" by (auto simp: advances_def)
    with 5 inv show ?thesis by (auto simp: session_handle_def handled_def p_handle_def keeps_refl)
  qed
qed

text \<open>Taking the header of the next frame off the receive buffer.\<close>

lemma read_header_spec:
  assumes inv: "winv os H w" and len: "12 \<le> length (a_in (view w))"
  shows "\<exists>b. bio_read (ss_recv_buf (sess w)) 12 = Some (12, take 12 (a_in (view w)), b) \<and>
    keeps os H w (put_sess ((sess w)\<lparr>ss_recv_buf := b, ss_hdr := take 12 (a_in (view w))\<rparr>) w) \<and>
    view (put_sess ((sess w)\<lparr>ss_recv_buf := b, ss_hdr := take 12 (a_in (view w))\<rparr>) w) =
      (view w)\<lparr>a_in := drop 12 (a_in (view w)), a_hdr := take 12 (a_in (view w))\<rparr>"
proof -
  from bio_read_correct [of "ss_recv_buf (sess w)" 12] winv_bufs [OF inv] obtain b where
    b: "bio_read (ss_recv_buf (sess w)) 12 = Some (to_int (min 12 (length (a_in (view w)))), take 12 (a_in (view w)), b)"
    "bio_ok b" "bio_bytes b = drop 12 (a_in (view w))" by auto
  have "winv os H (put_sess ((sess w)\<lparr>ss_recv_buf := b, ss_hdr := take 12 (a_in (view w))\<rparr>) w)"
    using b len winv_bufs [OF inv] by (intro winv_put_sess [OF inv]) auto
  with b len show ?thesis by (auto simp: keeps_def view_sess min_def to_int_small)
qed

text \<open>
  What a run of the loop guarantees: the bounds survive unless it gave up, and when it
  returns 0 it has used all input but the beginning of a header.
\<close>

definition drained :: "asession \<Rightarrow> int \<Rightarrow> asession \<Rightarrow> bool" where
  "drained A r A' \<longleftrightarrow>
     (buffers_bounded A \<and> frame_fits A \<longrightarrow> buffers_bounded A' \<and> (r = 0 \<longrightarrow> frame_fits A')) \<and>
     (r = 0 \<longrightarrow> frame_ok A' \<and> (a_in A' = [] \<or> a_new_frame A' \<and> length (a_in A') < 12) \<and> suffix (a_in A') (a_in A))"

definition processed ::
  "'k os \<Rightarrow> mutex set \<Rightarrow> (asession \<Rightarrow> int \<times> asession) \<Rightarrow> 'k world \<Rightarrow> int \<Rightarrow> 'k world \<Rightarrow> bool" where
  "processed os H p w r w' \<longleftrightarrow> keeps os H w w' \<and> (r = 0 \<or> r = - 1) \<and> drained (view w) r (view w') \<and>
     (reliable os w \<longrightarrow> (r, view w') = p (view w))"

lemma advances_progress:
  assumes "advances A 0 A'" and "frame_ok A" and "\<not> a_new_frame A" and "a_in A \<noteq> []"
  shows "length (a_in A') < length (a_in A)"
  using assms by (cases "a_in A") (auto simp: advances_def frame_ok_def)

lemma advances_drained:
  assumes "advances A 0 B" and "drained B r C"
  shows "drained A r C"
  using assms by (auto simp: advances_def drained_def intro: suffix_order.trans suffix_drop)

text \<open>One frame, header included if it is a new one, and the rest of the loop after it.\<close>

definition p_header :: "asession \<Rightarrow> asession" where
  "p_header A = (if a_new_frame A then A\<lparr>a_in := drop 12 (a_in A), a_hdr := take 12 (a_in A)\<rparr> else A)"

definition more_frames :: "asession \<Rightarrow> bool" where
  "more_frames A \<longleftrightarrow> a_in A \<noteq> [] \<and> (a_new_frame A \<longrightarrow> 12 \<le> length (a_in A))"

lemma p_header_drained: "drained (p_header A) r C \<Longrightarrow> drained A r C"
  by (auto simp: p_header_def drained_def buffers_bounded_def frame_fits_def intro: suffix_order.trans suffix_drop split: if_splits)

lemma header_step:
  assumes inv: "winv os H w" and len: "length (a_in (view w)) < 2 ^ 31" and more: "more_frames (view w)"
  shows "\<exists>w1. keeps os H w w1 \<and> view w1 = p_header (view w) \<and>
    session_process_loop os w =
      (if ss_new_frame (sess w) \<and> hdr_version (ss_hdr (sess w1)) \<noteq> VERSION then Some (- 1, w1)
       else do { (r, w) \<leftarrow> session_handle os w1; if r \<noteq> 0 then Some (- 1, w) else session_process_loop os w })"
proof (cases "ss_new_frame (sess w)")
  case False
  with more show ?thesis using pending_view [OF inv len] inv
    by (intro exI [of _ w], subst session_process_loop.simps, unfold session_exit_def)
      (simp add: keeps_refl p_header_def more_frames_def)
next
  case True
  with more have l: "12 \<le> length (a_in (view w))" by (simp add: more_frames_def)
  from read_header_spec [OF inv l] obtain b where b:
    "bio_read (ss_recv_buf (sess w)) 12 = Some (12, take 12 (a_in (view w)), b)"
    "keeps os H w (put_sess ((sess w)\<lparr>ss_recv_buf := b, ss_hdr := take 12 (a_in (view w))\<rparr>) w)"
    "view (put_sess ((sess w)\<lparr>ss_recv_buf := b, ss_hdr := take 12 (a_in (view w))\<rparr>) w) =
      (view w)\<lparr>a_in := drop 12 (a_in (view w)), a_hdr := take 12 (a_in (view w))\<rparr>" by blast
  let ?w1 = "put_sess ((sess w)\<lparr>ss_recv_buf := b, ss_hdr := take 12 (a_in (view w))\<rparr>) w"
  have "take 12 (a_in (view w)) @ drop (length (take 12 (a_in (view w)))) (ss_hdr (sess w)) = take 12 (a_in (view w))"
    using l winv_bufs [OF inv] by simp
  with True l b(1) pending_view [OF inv len] have "session_process_loop os w =
      (if hdr_version (ss_hdr (sess ?w1)) \<noteq> VERSION then Some (- 1, ?w1)
       else do { (r, w) \<leftarrow> session_handle os ?w1; if r \<noteq> 0 then Some (- 1, w) else session_process_loop os w })"
    by (subst session_process_loop.simps, unfold session_exit_def) auto
  with True b(2,3) show ?thesis by (intro exI [of _ ?w1]) (simp add: p_header_def)
qed

lemma p_loop_step:
  "p_loop (Suc n) A =
     (if \<not> more_frames A then (0, A)
      else if a_new_frame A \<and> hdr_version (a_hdr (p_header A)) \<noteq> VERSION then (- 1, p_header A)
      else let (r, A) = p_handle (p_header A) in if r \<noteq> 0 then (- 1, A) else p_loop n A)"
  by (auto simp: more_frames_def p_header_def)

declare p_loop.simps(2) [simp del]

text \<open>Every turn of the loop uses up input.\<close>

lemma turn_shrinks:
  assumes "advances (p_header A) 0 B" and "more_frames A" and "frame_ok A"
  shows "length (a_in B) < length (a_in A)"
proof (cases "a_new_frame A")
  case True
  then show ?thesis using assms(1,2) by (auto simp: advances_def p_header_def more_frames_def)
next
  case False
  then show ?thesis using advances_progress [of A B] assms by (simp add: p_header_def more_frames_def)
qed

text \<open>One turn of the frame loop: it ends the loop with -1, or uses up input and the loop goes on.\<close>

lemma process_turn:
  assumes H: "H \<subseteq> {Session_recv_lock}" and live: "os_live os" and inv: "winv os H w" and ok: "frame_ok (view w)"
    and len: "length (a_in (view w)) < 2 ^ 31" and more: "more_frames (view w)"
  shows "(\<exists>w'. session_process_loop os w = Some (- 1, w') \<and> processed os H (p_loop (Suc n)) w (- 1) w') \<or>
    (\<exists>w'. session_process_loop os w = session_process_loop os w' \<and> keeps os H w w' \<and>
      advances (p_header (view w)) 0 (view w') \<and> (reliable os w \<longrightarrow> p_loop (Suc n) (view w) = p_loop n (view w')))"
proof -
  from header_step [OF inv len more] obtain w1 where w1: "keeps os H w w1" "view w1 = p_header (view w)"
    "session_process_loop os w =
      (if ss_new_frame (sess w) \<and> hdr_version (ss_hdr (sess w1)) \<noteq> VERSION then Some (- 1, w1)
       else do { (r, w) \<leftarrow> session_handle os w1; if r \<noteq> 0 then Some (- 1, w) else session_process_loop os w })" by blast
  have hd: "ss_hdr (sess w1) = a_hdr (p_header (view w))" using arg_cong [OF w1(2), of a_hdr] by simp
  note loop = p_loop_step [of n "view w"]
  show ?thesis
  proof (cases "ss_new_frame (sess w) \<and> hdr_version (ss_hdr (sess w1)) \<noteq> VERSION")
    case True
    have "drained (view w) (- 1) (view w1)" by (rule p_header_drained) (simp add: drained_def w1(2))
    with True have "processed os H (p_loop (Suc n)) w (- 1) w1" using w1(1,2) hd more loop
      by (simp add: processed_def del: p_loop.simps)
    then show ?thesis using w1(3) True by auto
  next
    case good: False
    have "frame_ok (view w1)" "length (a_in (view w1)) \<le> length (a_in (view w))"
      using ok unfolding w1(2) by (auto simp: p_header_def frame_ok_def)
    with session_handle_spec [OF keeps_winv [OF w1(1)] H live] len obtain r w2 where
      w2: "session_handle os w1 = Some (r, w2)" "handled os H p_handle w1 r w2" by fastforce
    have k2: "keeps os H w w2" and adv: "advances (p_header (view w)) r (view w2)" and r: "r = 0 \<or> r = - 1"
      and ph: "reliable os w \<Longrightarrow> p_handle (p_header (view w)) = (r, view w2)"
      using w1(1,2) w2(2) by (auto simp: keeps_def handled_def)
    show ?thesis
    proof (cases "r = 0")
      case True
      then show ?thesis using w1(3) good w2(1) k2 adv ph hd more loop by auto
    next
      case False
      have "drained (view w) (- 1) (view w2)"
        by (rule p_header_drained) (use adv r False in \<open>auto simp: advances_def drained_def\<close>)
      then have "processed os H (p_loop (Suc n)) w (- 1) w2" using k2 more good r False ph hd loop
        by (auto simp: processed_def simp del: p_loop.simps)
      then show ?thesis using w1(3) good w2(1) r False by auto
    qed
  qed
qed

lemma session_process_loop_spec:
  assumes H: "H \<subseteq> {Session_recv_lock}" and live: "os_live os"
  shows "winv os H w \<Longrightarrow> frame_ok (view w) \<Longrightarrow> length (a_in (view w)) < 2 ^ 31 \<Longrightarrow> length (a_in (view w)) < n \<Longrightarrow>
    \<exists>r w'. session_process_loop os w = Some (r, w') \<and> processed os H (p_loop n) w r w'"
proof (induction n arbitrary: w)
  case 0
  then show ?case by simp
next
  case (Suc n)
  note inv = Suc.prems(1) and len = Suc.prems(3)
  show ?case
  proof (cases "more_frames (view w)")
    case False
    then have "session_process_loop os w = Some (0, w)" using pending_view [OF inv len]
      by (subst session_process_loop.simps) (auto simp: more_frames_def)
    moreover have "processed os H (p_loop (Suc n)) w 0 w" using False inv Suc.prems(2)
      by (auto simp: processed_def keeps_refl drained_def more_frames_def simp del: p_loop.simps)
        (simp_all add: p_loop_step more_frames_def)
    ultimately show ?thesis by blast
  next
    case True
    from process_turn [OF H live inv Suc.prems(2) len True, of n] show ?thesis
    proof (elim disjE exE conjE)
      fix w2 assume run: "session_process_loop os w = session_process_loop os w2" and k2: "keeps os H w w2"
        and adv: "advances (p_header (view w)) 0 (view w2)" and pl: "reliable os w \<longrightarrow> p_loop (Suc n) (view w) = p_loop n (view w2)"
      have short: "length (a_in (view w2)) < length (a_in (view w))" using turn_shrinks adv True Suc.prems(2) by blast
      have "frame_ok (view w2)" using adv by (simp add: advances_def)
      from Suc.IH [OF keeps_winv [OF k2] this] short Suc.prems(3,4) obtain r' w3 where
        w3: "session_process_loop os w2 = Some (r', w3)" "processed os H (p_loop n) w2 r' w3" by fastforce
      have "drained (view w) r' (view w3)"
        using p_header_drained advances_drained adv w3(2) unfolding processed_def by blast
      then have "processed os H (p_loop (Suc n)) w r' w3" using w3(2) k2 pl
        by (auto simp: processed_def keeps_def simp del: p_loop.simps)
      then show ?thesis using run w3(1) by auto
    qed auto
  qed
qed

section \<open>session_process\<close>

lemma session_process_spec:
  assumes inv: "winv os {} w" and live: "os_live os" and ok: "frame_ok (view w)" and len: "length (a_in (view w)) < 2 ^ 31"
  shows "\<exists>r w'. session_process os w = Some (r, w') \<and> processed os {} p_process w r w'"
proof -
  from lock_eq [OF inv, of Session_recv_lock] obtain w1 where
    w1: "mutex_lock Session_recv_lock w = Some w1" "keeps os {Session_recv_lock} w w1" "view w1 = view w"
    "heap w1 = heap w" "mem w1 = mem w" by auto
  have rel: "reliable os w1 = reliable os w" using w1(4,5) by (simp add: reliable_def)
  from session_process_loop_spec [OF _ live keeps_winv [OF w1(2)], of "Suc (length (a_in (view w)))"] w1(3) ok len obtain r w2 where
    w2: "session_process_loop os w1 = Some (r, w2)"
    "processed os {Session_recv_lock} (p_loop (Suc (length (a_in (view w))))) w1 r w2" by (auto simp del: view_sel p_loop.simps)
  have "winv os {Session_recv_lock} w2" using w2(2) by (simp add: processed_def keeps_def)
  from unlock_eq [OF this] obtain w3 where
    w3: "mutex_unlock Session_recv_lock w2 = Some w3" "keeps os {} w2 w3" "view w3 = view w2" by auto
  have "processed os {} p_process w r w3" using w2(2) w3(2,3) w1(2,3)
    by (simp add: processed_def p_process_def keeps_def del: p_loop.simps view_sel)
  then show ?thesis using w1(1) w2(1) w3(1) by (auto simp: session_process_def)
qed

end
