(* ===== verification/Api_Specs.thy ===== *)
theory Api_Specs
  imports Receive Api
begin

text \<open>
  What the calls of an application do to the abstract session: reading, writing, opening and
  accepting streams, starting a session, and moving bytes between it and the transport. All
  of them run with no mutex held and leave none held.
\<close>

section \<open>Reading\<close>

abbreviation read_closed :: "stream_state \<Rightarrow> bool" where
  "read_closed st \<equiv> st \<in> {STATE_LOCAL_CLOSE, STATE_REMOTE_CLOSE, STATE_CLOSED}"

lemma read_state_check_eq:
  assumes "winv os H w" and "heap w a = Some s" and "State_lock a \<notin> H" "Recv_lock a \<notin> H"
  shows "read_state_check a w =
    Some (if read_closed (st_state s) then (if bio_pending (st_recv_buf s) = 0 then Some 0 else None)
          else if st_state s = STATE_RESET then Some (- 1) else None, w)"
proof -
  have m: "mutexes w (State_lock a) = Free" "mutexes w (Recv_lock a) = Free"
    using winv_mutex [OF assms(1)] assms(2-4) by auto
  have f: "(mutexes w)(State_lock a := Held, Recv_lock a := Free, State_lock a := Free) = mutexes w"
    using m by (auto simp: fun_eq_iff)
  show ?thesis
    using m assms(2) f
    by (auto simp: read_state_check_def mutex_lock_free mutex_unlock_held fun_upd_idem)
qed

text \<open>Taking \<open>n\<close> bytes off the buffer of a stream, and granting the peer what it freed.\<close>

definition take_data :: "nat \<Rightarrow> astream \<Rightarrow> astream" where
  "take_data n s = s\<lparr>a_data := drop n (a_data s), a_readable := a_readable s \<and> drop n (a_data s) \<noteq> []\<rparr>"

definition p_read :: "addr \<Rightarrow> nat \<Rightarrow> asession \<Rightarrow> asession" where
  "p_read a n A = (case a_streams A a of
      None \<Rightarrow> A
    | Some s \<Rightarrow> put_out (window_frame (take_data n s)) (upd a (\<lambda>s. granted (take_data n s)) A))"

lemma granted_window:
  assumes "length (a_data s) + unat (a_recv_window s) \<le> 262144"
  shows "length (a_data (granted s)) + unat (a_recv_window (granted s)) \<le> 262144"
    "a_recv_window s \<le> a_recv_window (granted s)" "a_data (granted s) = a_data s"
proof -
  let ?d = "of_nat (length (a_data s)) :: uint32"
  have M: "unat MAX_STREAM_WINDOW_SIZE = 262144" by (simp add: MAX_STREAM_WINDOW_SIZE_def)
  have d: "unat ?d = length (a_data s)" using assms by (intro unat_of_nat32) simp
  have 1: "unat (MAX_STREAM_WINDOW_SIZE - ?d) = 262144 - length (a_data s)"
    using assms d M by (simp add: unat_sub word_le_nat_alt)
  have "a_recv_window s + window_delta s = MAX_STREAM_WINDOW_SIZE - ?d" by (simp add: window_delta_def)
  with 1 assms show "length (a_data (granted s)) + unat (a_recv_window (granted s)) \<le> 262144"
    "a_recv_window s \<le> a_recv_window (granted s)" "a_data (granted s) = a_data s"
    by (auto simp: granted_def word_le_nat_alt)
qed

lemma take_data_bound:
  "length (a_data s) + unat (a_recv_window s) \<le> 262144 \<Longrightarrow>
     length (a_data (take_data n s)) + unat (a_recv_window (take_data n s)) \<le> 262144"
  by (simp add: take_data_def)

text \<open>The signal is taken back when the last byte has been read.\<close>

lemma read_signal:
  assumes inv: "winv os {} w" and live: "os_live os" and a: "heap w a = Some s"
    and b: "bio_ok b" "bio_bytes b = drop n (bio_bytes (st_recv_buf s))"
  defines "w1 \<equiv> put_stream a (s\<lparr>st_recv_buf := b\<rparr>) w"
  shows "\<exists>e w2. (if bio_bytes b = [] then stream_readable_waiting os a w1 else Some (0, w1)) = Some (e, w2) \<and> keeps os {} w w2 \<and>
    (e = 0 \<and> view w2 = upd a (take_data n) (view w) \<or>
     e = - 1 \<and> view w2 = upd a (a_data_update (drop n)) (view w) \<and> \<not> reliable os w)"
proof -
  have k1: "keeps os {} w w1" unfolding w1_def using inv a b(1) by (intro keeps_put_stream) auto
  have v1: "view w1 = upd a (a_data_update (drop n)) (view w)"
    unfolding w1_def using a b(2) by (intro view_put_upd) (auto simp: view_stream_def)
  show ?thesis
  proof (cases "bio_bytes b = []")
    case False
    have "upd a (a_data_update (drop n)) (view w) = upd a (take_data n) (view w)"
      using a False b(2) by (intro upd_cong) (auto simp: take_data_def view_stream_def)
    with False k1 v1 show ?thesis by auto
  next
    case True
    from wpD [OF stream_readable_waiting_wp [OF keeps_winv [OF k1] live, of a "s\<lparr>st_recv_buf := b\<rparr>"]] obtain e w2 where
      w2: "stream_readable_waiting os a w1 = Some (e, w2)" "sets os {} a (a_readable_update (\<lambda>_. False)) w1 (e, w2)"
      by (auto simp: w1_def)
    have "upd a (\<lambda>s. (a_data_update (drop n) s)\<lparr>a_readable := False\<rparr>) (view w) = upd a (take_data n) (view w)"
      using a True b(2) by (intro upd_cong) (auto simp: take_data_def view_stream_def)
    with setsD [OF w2(2)] v1 w2(1) True k1 show ?thesis by (auto simp: upd_upd keeps_def)
  qed
qed

lemma read_data_spec:
  assumes inv: "winv os {} w" and live: "os_live os" and a: "heap w a = Some s"
    and n: "0 < n" and ne: "bio_bytes (st_recv_buf s) \<noteq> []" and len: "length (bio_bytes (st_recv_buf s)) < 2 ^ 31"
  defines "xs \<equiv> bio_bytes (st_recv_buf s)"
  shows "\<exists>r w'. read_data os a n w = Some (r, take n xs, w') \<and> keeps os {} w w' \<and>
    (r = int (min n (length xs)) \<and>
       (\<exists>bs. view w' = put_out bs (upd a (\<lambda>s. granted (take_data n s)) (view w))) \<or>
     r = - 1 \<and> \<not> reliable os w \<and> view w' = upd a (a_data_update (drop n)) (view w)) \<and>
    (reliable os w \<longrightarrow> view w' = p_read a n (view w))"
proof -
  have m: "mutexes w (Recv_lock a) = Free" using winv_mutex [OF inv] a by auto
  from bio_read_correct [OF winv_recv_buf [OF inv a], of n] obtain b where
    b: "bio_read (st_recv_buf s) n = Some (to_int (min n (length xs)), take n xs, b)" "bio_ok b" "bio_bytes b = drop n xs"
    by (auto simp: xs_def)
  have r: "to_int (min n (length xs)) = int (min n (length xs))" using len by (intro to_int_small) (simp add: xs_def)
  have pos: "0 < int (min n (length xs))" using n ne by (simp add: xs_def)
  have pend: "bio_pending b = 0 \<longleftrightarrow> bio_bytes b = []"
    using bio_pending_correct [OF b(2)] b(3) len by (simp add: to_int_small xs_def)
  let ?w1 = "put_stream a (s\<lparr>st_recv_buf := b\<rparr>) w"
  have run: "read_data os a n w = do {
      (e, w) \<leftarrow> (if bio_bytes b = [] then stream_readable_waiting os a ?w1 else Some (0, ?w1));
      if e \<noteq> 0 then Some (- 1, take n xs, w)
      else do { (_, w) \<leftarrow> send_window_update os a w; Some (int (min n (length xs)), take n xs, w) } }"
    using m a b(1) r pos pend
    by (simp add: read_data_def mutex_lock_free mutex_unlock_held put_mutexes fun_upd_idem del: drop_eq_Nil)
  from read_signal [OF inv live a b(2), of n] b(3) obtain e w2 where
    w2: "(if bio_bytes b = [] then stream_readable_waiting os a ?w1 else Some (0, ?w1)) = Some (e, w2)" "keeps os {} w w2"
    "e = 0 \<and> view w2 = upd a (take_data n) (view w) \<or>
     e = - 1 \<and> view w2 = upd a (a_data_update (drop n)) (view w) \<and> \<not> reliable os w" unfolding xs_def by blast
  show ?thesis
  proof (cases "e = 0")
    case False
    with run w2 show ?thesis by auto
  next
    case True
    then have v2: "view w2 = upd a (take_data n) (view w)" using w2(3) by auto
    from view_stream_at [OF v2 a] obtain s2 where s2: "heap w2 a = Some s2" "view_stream s2 = take_data n (view_stream s)" by blast
    from send_window_update_spec [OF keeps_winv [OF w2(2)] s2(1)] obtain r' w3 where
      w3: "send_window_update os a w2 = Some (r', w3)" "keeps os {} w2 w3"
      "r' = 0 \<and> view w3 = put_out (window_frame (view_stream s2)) (upd a granted (view w2)) \<or>
        r' = - 1 \<and> view w3 = upd a granted (view w2) \<and> \<not> reliable os w2" by auto
    have u: "upd a granted (view w2) = upd a (\<lambda>s. granted (take_data n s)) (view w)" unfolding v2 upd_upd ..
    have "\<exists>bs. view w3 = put_out bs (upd a (\<lambda>s. granted (take_data n s)) (view w))"
      using w3(3) unfolding u by (metis put_out_Nil)
    moreover have "reliable os w \<Longrightarrow> view w3 = p_read a n (view w)"
      using w3(3) w2(2) a s2(2) unfolding u by (auto simp: p_read_def keeps_def)
    moreover have "read_data os a n w = Some (int (min n (length xs)), take n xs, w3)" using run w2(1) w3(1) True by simp
    moreover have "keeps os {} w w3" using w2(2) w3(2) by (simp add: keeps_def)
    ultimately show ?thesis by blast
  qed
qed

text \<open>
  \<^verbatim>\<open>stream_read\<close> on a stream with data. The bytes returned are the oldest ones, in order, and
  they are gone from the buffer; only a failing system call makes the result -1.
\<close>

lemma pending_eq_0: "bio_ok b \<Longrightarrow> length (bio_bytes b) < 2 ^ 31 \<Longrightarrow> bio_pending b = 0 \<longleftrightarrow> bio_bytes b = []"
  by (simp add: bio_pending_correct to_int_small)

lemma stream_read_unfold:
  assumes "winv os {} w" and "heap w a = Some s" and len: "length (bio_bytes (st_recv_buf s)) < 2 ^ 31"
  shows "stream_read os env a n w =
    (if read_closed (st_state s) \<and> bio_bytes (st_recv_buf s) = [] then Some (0, [], w)
     else if st_state s = STATE_RESET then Some (- 1, [], w)
     else if bio_bytes (st_recv_buf s) \<noteq> [] then read_data os a n w
     else if \<not> would_block os (st_fd s) w then Some (- 1, [], w\<lparr>errno := EAGAIN\<rparr>)
     else do {
       (r, isset, w) \<leftarrow> c_select os env (st_fd s) For_Reading w;
       if r \<noteq> 1 then Some (- 1, [], w) else do { _ \<leftarrow> c_assert isset; stream_read os env a n w }
     })"
proof -
  have m: "mutexes w (Recv_lock a) = Free" using winv_mutex [OF assms(1)] assms(2) by auto
  have pend: "bio_pending (st_recv_buf s) = 0 \<longleftrightarrow> bio_bytes (st_recv_buf s) = []"
    by (rule pending_eq_0 [OF winv_recv_buf [OF assms(1,2)] len])
  show ?thesis using m pend assms(2)
    by (subst stream_read.simps)
      (auto simp: read_state_check_eq [OF assms(1,2)] mutex_lock_free mutex_unlock_held fun_upd_idem)
qed

lemma bounded_data: "buffers_bounded (view w) \<Longrightarrow> heap w a = Some s \<Longrightarrow> length (bio_bytes (st_recv_buf s)) < 2 ^ 31"
  unfolding buffers_bounded_def by (force simp: view_stream_def)

definition read_post :: "'k os \<Rightarrow> addr \<Rightarrow> nat \<Rightarrow> byte list \<Rightarrow> 'k world \<Rightarrow> int \<Rightarrow> 'k world \<Rightarrow> bool" where
  "read_post os a n xs w r w' \<longleftrightarrow> keeps os {} w w' \<and>
     (r = int (min n (length xs)) \<and>
        (\<exists>bs. view w' = put_out bs (upd a (\<lambda>s. granted (take_data n s)) (view w))) \<or>
      r = - 1 \<and> \<not> reliable os w \<and> view w' = upd a (a_data_update (drop n)) (view w)) \<and>
     (reliable os w \<longrightarrow> view w' = p_read a n (view w))"

lemma stream_read_data:
  assumes "winv os {} w" and "os_live os" and "heap w a = Some s" and "buffers_bounded (view w)"
    and "st_state s \<noteq> STATE_RESET" and "0 < n" and "bio_bytes (st_recv_buf s) \<noteq> []"
  shows "\<exists>r w'. stream_read os env a n w = Some (r, take n (bio_bytes (st_recv_buf s)), w') \<and>
    read_post os a n (bio_bytes (st_recv_buf s)) w r w'"
  using read_data_spec [OF assms(1-3,6,7) bounded_data [OF assms(4,3)]] assms(5,7)
  by (simp add: stream_read_unfold [OF assms(1,3) bounded_data [OF assms(4,3)]] read_post_def)

lemma upd_keeps_bounds:
  assumes "\<And>s. length (a_data s) + unat (a_recv_window s) \<le> 262144 \<Longrightarrow>
      length (a_data (f s)) + unat (a_recv_window (f s)) \<le> 262144 \<and> a_recv_window s \<le> a_recv_window (f s)"
    and "buffers_bounded A"
  shows "buffers_bounded (upd a f A)" "frame_fits A \<Longrightarrow> frame_fits (upd a f A)"
  using assms unfolding buffers_bounded_def frame_fits_def
  by (auto split: if_splits intro: order_trans)

lemma put_out_bounds [simp]:
  "buffers_bounded (put_out bs A) = buffers_bounded A" "frame_fits (put_out bs A) = frame_fits A"
  "frame_ok (put_out bs A) = frame_ok A"
  by (simp_all add: buffers_bounded_def frame_fits_def frame_ok_def)

text \<open>What every call of an application keeps of the receive side.\<close>

definition sound :: "asession \<Rightarrow> bool" where
  "sound A \<longleftrightarrow> buffers_bounded A \<and> frame_fits A \<and> frame_ok A"

lemma sound_put_out [simp]: "sound (put_out bs A) = sound A"
  by (simp add: sound_def)

lemma sound_upd:
  assumes "\<And>s. length (a_data s) + unat (a_recv_window s) \<le> 262144 \<Longrightarrow>
      length (a_data (f s)) + unat (a_recv_window (f s)) \<le> 262144 \<and> a_recv_window s \<le> a_recv_window (f s)"
    and "sound A"
  shows "sound (upd a f A)"
  using upd_keeps_bounds [OF assms(1), of A a] assms(2) by (simp add: sound_def frame_ok_def)

lemma sound_read:
  assumes "read_post os a n xs w r w'" and "sound (view w)"
  shows "sound (view w')"
proof -
  have "sound (upd a (\<lambda>s. granted (take_data n s)) (view w))"
  proof (rule sound_upd [OF _ assms(2)])
    fix s :: astream assume b: "length (a_data s) + unat (a_recv_window s) \<le> 262144"
    have "a_recv_window (take_data n s) = a_recv_window s" by (simp add: take_data_def)
    then show "length (a_data (granted (take_data n s))) + unat (a_recv_window (granted (take_data n s))) \<le> 262144 \<and>
        a_recv_window s \<le> a_recv_window (granted (take_data n s))"
      using granted_window(1,2) [OF take_data_bound [OF b, of n]] by simp
  qed
  moreover have "sound (upd a (a_data_update (drop n)) (view w))"
    by (rule sound_upd [OF _ assms(2)]) auto
  ultimately show ?thesis using assms(1) by (auto simp: read_post_def)
qed

section \<open>Writing\<close>

abbreviation write_closed :: "stream_state \<Rightarrow> bool" where
  "write_closed st \<equiv> st \<in> {STATE_LOCAL_CLOSE, STATE_CLOSED, STATE_RESET}"

lemma stream_write_unfold:
  assumes "winv os {} w" and "heap w a = Some s"
  shows "stream_write os env a data n w =
    (if write_closed (st_state s) then Some (0, w)
     else if st_send_window s \<noteq> 0 then write_data os a (st_send_window s) data n w
     else if \<not> would_block os (st_fd s) w then Some (- 1, w\<lparr>errno := EAGAIN\<rparr>)
     else do {
       (r, isset, w) \<leftarrow> c_select os env (st_fd s) For_Writing w;
       if r \<le> 0 then Some (- 1, w) else do { _ \<leftarrow> c_assert isset; stream_write os env a data n w }
     })"
proof -
  have m: "mutexes w (State_lock a) = Free" "mutexes w (Send_lock a) = Free"
    using winv_mutex [OF assms(1)] assms(2) by auto
  show ?thesis using m assms(2)
    by (subst stream_write.simps)
      (auto simp: write_state_check_def mutex_lock_free mutex_unlock_held fun_upd_idem)
qed

text \<open>
  The frame a write sends, cut to the send window, and the stream after it: the window is
  smaller by the payload, and at 0 the stream is not writeable.
\<close>

definition write_len :: "nat \<Rightarrow> astream \<Rightarrow> uint32" where
  "write_len n s = of_nat (min (unat (a_send_window s)) n)"

definition data_frame :: "byte list \<Rightarrow> nat \<Rightarrow> astream \<Rightarrow> byte list" where
  "data_frame data n s = frame_hdr TYPE_DATA (fst (send_step (a_state s))) (a_id s) (write_len n s) @
     take (unat (write_len n s)) data"

definition sent :: "nat \<Rightarrow> astream \<Rightarrow> astream" where
  "sent n s = s\<lparr>a_state := snd (send_step (a_state s)), a_send_window := a_send_window s - write_len n s,
     a_writeable := a_writeable s \<and> a_send_window s \<noteq> write_len n s\<rparr>"

definition p_write :: "addr \<Rightarrow> byte list \<Rightarrow> nat \<Rightarrow> asession \<Rightarrow> asession" where
  "p_write a data n A = (case a_streams A a of None \<Rightarrow> A | Some s \<Rightarrow> put_out (data_frame data n s) (upd a (sent n) A))"

lemma unat_write_len: "unat (write_len n s) = min (unat (a_send_window s)) n"
  unfolding write_len_def using unsigned_less [where w = "a_send_window s" and 'a = nat]
  by (intro unat_of_nat32) auto

lemma write_len_le: "write_len n s \<le> a_send_window s"
  by (simp add: word_le_nat_alt unat_write_len)

text \<open>
  What a write may leave when something fails: an incomplete frame and a stream whose flags
  were spent, with the result -1; or all of it done and the session told to go away.
\<close>

definition write_post :: "'k os \<Rightarrow> addr \<Rightarrow> byte list \<Rightarrow> nat \<Rightarrow> astream \<Rightarrow> 'k world \<Rightarrow> int \<Rightarrow> 'k world \<Rightarrow> bool" where
  "write_post os a data n s w r w' \<longleftrightarrow> keeps os {} w w' \<and>
     (r = int (min (unat (a_send_window s)) n) \<and>
        (view w' = p_write a data n (view w) \<or>
         \<not> reliable os w \<and> (\<exists>wr bs. view w' = put_out (data_frame data n s @ bs)
            (upd a (\<lambda>s. (sent n s)\<lparr>a_writeable := wr\<rparr>) ((view w)\<lparr>a_local_go_away := True\<rparr>))) ) \<or>
      r = - 1 \<and> \<not> reliable os w \<and>
        (\<exists>k < length (data_frame data n s). view w' = put_out (take k (data_frame data n s))
          (upd a (a_state_update (\<lambda>_. snd (send_step (a_state s)))) (view w))))"

lemma sint_small: "unat (x :: uint32) < 2 ^ 31 \<Longrightarrow> sint x = int (unat x)"
proof -
  assume "unat x < 2 ^ 31"
  then have "int (unat x) < int (2 ^ 31)" by (simp only: of_nat_less_iff)
  then have "uint x < 2 ^ 31" by simp
  moreover have "- (2 ^ 31) \<le> uint x" by (rule order_trans [of _ 0]) simp_all
  ultimately have "signed_take_bit 31 (uint x) = uint x" by (intro signed_take_bit_int_eq_self)
  then show "sint x = int (unat x)" by (simp add: sint_uint)
qed

lemma put_out_put_out [simp]: "put_out bs (put_out cs A) = put_out (cs @ bs) A"
  by (simp add: put_out_def)

lemma upd_put_out: "upd a f (put_out bs A) = put_out bs (upd a f A)"
  by (simp add: upd_def put_out_def)

text \<open>The end of a write: the window is charged, and a stream without window waits.\<close>

lemma write_signal:
  assumes live: "os_live os" and a: "heap w a = Some s" and k4: "keeps os {} w w4" and h4: "heap w4 a \<noteq> None"
    and v4: "view w4 = put_out (data_frame data n (view_stream s))
      (upd a (\<lambda>t. (sent n t)\<lparr>a_writeable := st_writeable s\<rparr>) (view w))"
  shows "\<exists>e w5. (if st_send_window s - write_len n (view_stream s) = 0 then stream_writeable_waiting os a w4 else Some (0, w4)) =
      Some (e, w5) \<and> keeps os {} w w5 \<and>
    (e = 0 \<and> view w5 = p_write a data n (view w) \<or> e = - 1 \<and> view w5 = view w4 \<and> \<not> reliable os w)"
proof -
  let ?win = "st_send_window s - write_len n (view_stream s)"
  have pw: "p_write a data n (view w) = put_out (data_frame data n (view_stream s)) (upd a (sent n) (view w))"
    using a by (simp add: p_write_def)
  show ?thesis
  proof (cases "?win = 0")
    case False
    have "upd a (\<lambda>t. (sent n t)\<lparr>a_writeable := st_writeable s\<rparr>) (view w) = upd a (sent n) (view w)"
      using a False by (intro upd_cong) (auto simp: sent_def view_stream_def)
    with False k4 v4 pw show ?thesis by auto
  next
    case True
    from h4 obtain t where "heap w4 a = Some t" by blast
    from wpD [OF stream_writeable_waiting_wp [OF keeps_winv [OF k4] live this]] obtain e w5 where
      w5: "stream_writeable_waiting os a w4 = Some (e, w5)" "sets os {} a (a_writeable_update (\<lambda>_. False)) w4 (e, w5)" by auto
    have "upd a (a_writeable_update (\<lambda>_. False)) (view w4) = p_write a data n (view w)"
      unfolding v4 pw upd_put_out upd_upd using a True
      by (intro arg_cong [of _ _ "put_out _"] upd_cong) (auto simp: sent_def)
    with setsD [OF w5(2)] w5(1) True k4 show ?thesis by (auto simp: keeps_def)
  qed
qed

lemma write_finish_spec:
  assumes inv: "winv os {} w" and live: "os_live os" and a: "heap w a = Some s"
    and len: "unat (write_len n (view_stream s)) < 2 ^ 31"
    and k3: "keeps os {} w w3" and h3: "heap w3 a = Some (s\<lparr>st_state := snd (send_step (st_state s))\<rparr>)"
    and v3: "view w3 = put_out (data_frame data n (view_stream s))
      (upd a (a_state_update (\<lambda>_. snd (send_step (st_state s)))) (view w))"
  shows "\<exists>r w'. write_finish os a (write_len n (view_stream s)) w3 = Some (r, w') \<and>
    write_post os a data n (view_stream s) w r w'"
proof -
  let ?len = "write_len n (view_stream s)" and ?fr = "data_frame data n (view_stream s)"
  let ?win = "st_send_window s - ?len"
  let ?s = "s\<lparr>st_state := snd (send_step (st_state s)), st_send_window := ?win\<rparr>" let ?w4 = "put_stream a ?s w3"
  have m: "mutexes w3 (Send_lock a) = Free" using winv_mutex [OF keeps_winv [OF k3]] h3 by auto
  have "keeps os {} w3 ?w4" using winv_recv_buf [OF inv a]
    by (intro keeps_put_stream [OF keeps_winv [OF k3] h3]) auto
  with k3 have k4: "keeps os {} w ?w4" by (simp add: keeps_def)
  have "view ?w4 = upd a (a_send_window_update (\<lambda>_. ?win)) (view w3)"
    by (intro view_put_upd [OF h3]) (auto simp: view_stream_def)
  also have "\<dots> = put_out ?fr (upd a (\<lambda>t. (sent n t)\<lparr>a_writeable := st_writeable s\<rparr>) (view w))"
    unfolding v3 upd_put_out upd_upd using a by (intro arg_cong [of _ _ "put_out _"] upd_cong) (auto simp: sent_def view_stream_def)
  finally have v4: "view ?w4 = put_out ?fr (upd a (\<lambda>t. (sent n t)\<lparr>a_writeable := st_writeable s\<rparr>) (view w))" .
  have run: "write_finish os a ?len w3 = do {
      (e, w) \<leftarrow> (if ?win = 0 then stream_writeable_waiting os a ?w4 else Some (0, ?w4));
      w \<leftarrow> (if e \<noteq> 0 then do { (_, w) \<leftarrow> session_go_away_for_reason os GO_AWAY_INTERNAL_ERR w; Some w } else Some w);
      Some (sint ?len, w) }"
    using m h3 by (simp add: write_finish_def mutex_lock_free mutex_unlock_held put_mutexes fun_upd_idem)
  from write_signal [OF live a k4 _ v4] obtain e w5 where
    w5: "(if ?win = 0 then stream_writeable_waiting os a ?w4 else Some (0, ?w4)) = Some (e, w5)" "keeps os {} w w5"
    "e = 0 \<and> view w5 = p_write a data n (view w) \<or> e = - 1 \<and> view w5 = view ?w4 \<and> \<not> reliable os w" by auto
  have ret: "sint ?len = int (min (unat (st_send_window s)) n)" using sint_small [OF len] by (simp add: unat_write_len)
  show ?thesis
  proof (cases "e = 0")
    case True
    then have "write_post os a data n (view_stream s) w (sint ?len) w5" using w5(2,3) ret by (auto simp: write_post_def)
    with run w5(1) True show ?thesis by simp
  next
    case False
    from go_away_spec [OF keeps_winv [OF w5(2)], of GO_AWAY_INTERNAL_ERR] obtain x w6 where
      w6: "session_go_away_for_reason os GO_AWAY_INTERNAL_ERR w5 = Some (x, w6)" "goes_away os {} GO_AWAY_INTERNAL_ERR w5 x w6" by auto
    then obtain bs where "view w6 = put_out bs ((view w5)\<lparr>a_local_go_away := True\<rparr>)" unfolding goes_away_def by (metis put_out_Nil)
    then have "view w6 = put_out (?fr @ bs) (upd a (\<lambda>s'. (sent n s')\<lparr>a_writeable := st_writeable s\<rparr>) ((view w)\<lparr>a_local_go_away := True\<rparr>))"
      using w5(3) False by (simp add: v4 put_out_def upd_def del: view_sel)
    moreover have "keeps os {} w w6" using w5(2) w6(2) by (simp add: keeps_def goes_away_def)
    ultimately have "write_post os a data n (view_stream s) w (sint ?len) w6" using ret w5(3) False unfolding write_post_def by auto
    with run w5(1) w6(1) False show ?thesis by simp
  qed
qed

lemma write_data_spec:
  assumes inv: "winv os {} w" and live: "os_live os" and a: "heap w a = Some s"
    and n: "n \<le> length data" "n < 2 ^ 31"
  shows "\<exists>r w'. write_data os a (st_send_window s) data n w = Some (r, w') \<and>
    write_post os a data n (view_stream s) w r w'"
proof -
  let ?t = "view_stream s" let ?len = "write_len n ?t" and ?flags = "fst (send_step (st_state s))"
  let ?st = "a_state_update (\<lambda>_. snd (send_step (st_state s)))"
  have len: "unat ?len = min (unat (st_send_window s)) n" by (simp add: unat_write_len)
  then have small: "unat ?len < 2 ^ 31" "unat ?len \<le> length data" using n by auto
  from stream_send_flags_spec [OF inv a] obtain w1 where
    w1: "stream_send_flags a w = Some (?flags, w1)" "keeps os {} w w1"
      "heap w1 a = Some (s\<lparr>st_state := snd (send_step (st_state s))\<rparr>)" "view w1 = upd a ?st (view w)" by auto
  let ?hdr = "frame_hdr TYPE_DATA ?flags (st_id s) ?len"
  from send_hdr_spec [OF keeps_winv [OF w1(2)], of ?hdr] obtain r2 w2 where
    w2: "session_send_buf_write ?hdr 12 w1 = Some (r2, w2)" "sends os {} ?hdr w1 r2 w2" by auto
  have k2: "keeps os {} w w2" "heap w2 = heap w1" using w1(2) w2(2) by (auto simp: sends_def keeps_def)
  from session_send_buf_write_spec [OF keeps_winv [OF k2(1)] _ small(2,1)] obtain r3 w3 where
    w3: "session_send_buf_write data (unat ?len) w2 = Some (r3, w3)" "keeps os {} w2 w3" "heap w3 = heap w2"
    "r3 = 0 \<and> view w3 = put_out (take (unat ?len) data) (view w2) \<or>
      r3 = - 1 \<and> \<not> reliable os w2 \<and> (\<exists>k<unat ?len. 4096 dvd k \<and> view w3 = put_out (take k data) (view w2))" by auto
  have fr: "data_frame data n ?t = ?hdr @ take (unat ?len) data" by (simp add: data_frame_def)
  have k3: "keeps os {} w w3" using k2(1) w3(2) by (simp add: keeps_def)
  have h3: "heap w3 a = Some (s\<lparr>st_state := snd (send_step (st_state s))\<rparr>)" using w3(3) k2(2) w1(3) by simp
  have run: "write_data os a (st_send_window s) data n w = (if r2 = - 1 then Some (- 1, w2) else if r3 = - 1 then Some (- 1, w3)
      else write_finish os a ?len w3)"
    using w1(1,3) w2(1) w3(1) by (simp add: write_data_def write_finish_def write_len_def hdr_encode_frame Let_def)
  consider (no_hdr) "r2 = - 1" | (no_data) "r2 = 0" "r3 = - 1" | (all) "r2 = 0" "r3 = 0"
    using w2(2) w3(4) by (auto simp: sends_def)
  then show ?thesis
  proof cases
    case no_hdr
    then have "view w2 = put_out (take 0 (data_frame data n ?t)) (upd a ?st (view w))" "\<not> reliable os w"
      using w2(2) w1(2,4) by (auto simp: sends_def keeps_def)
    then have "write_post os a data n ?t w (- 1) w2" using k2(1) unfolding write_post_def fr
      by (auto intro!: exI [of _ 0])
    with run no_hdr show ?thesis by simp
  next
    case no_data
    then obtain k where k: "k < unat ?len" "view w3 = put_out (take k data) (view w2)" "\<not> reliable os w2" using w3(4) by auto
    have "view w2 = put_out ?hdr (upd a ?st (view w))" using w2(2) no_data w1(4) by (auto simp: sends_def)
    with k have "view w3 = put_out (take (12 + k) (data_frame data n ?t)) (upd a ?st (view w))"
      unfolding fr by (simp add: min_def)
    moreover have "\<not> reliable os w" using k(3) k2(1) by (auto simp: keeps_def)
    ultimately have "write_post os a data n ?t w (- 1) w3" using k3 k(1) small unfolding write_post_def fr
      by (auto intro!: exI [of _ "12 + k"])
    with run no_data show ?thesis by simp
  next
    case all
    have v3: "view w3 = put_out (data_frame data n ?t) (upd a ?st (view w))"
      using w3(4) w2(2) all w1(4) unfolding fr by (auto simp: sends_def)
    from write_finish_spec [OF inv live a small(1) k3 h3 v3] run all show ?thesis by (simp add: len [symmetric])
  qed
qed

lemma stream_write_data:
  assumes "winv os {} w" and "os_live os" and "heap w a = Some s" and "\<not> write_closed (st_state s)"
    and "st_send_window s \<noteq> 0" and "n \<le> length data" and "n < 2 ^ 31"
  shows "\<exists>r w'. stream_write os env a data n w = Some (r, w') \<and> write_post os a data n (view_stream s) w r w'"
  using write_data_spec [OF assms(1-3,6,7)] assms(4,5) by (simp add: stream_write_unfold [OF assms(1,3)])

lemma sound_flags [simp]:
  "sound (A\<lparr>a_local_go_away := b\<rparr>) = sound A" "sound (A\<lparr>a_remote_go_away := b\<rparr>) = sound A"
  "sound (A\<lparr>a_next_id := i\<rparr>) = sound A" "sound (A\<lparr>a_brk := n\<rparr>) = sound A" "sound (A\<lparr>a_out := bs\<rparr>) = sound A"
  "sound (A\<lparr>a_in := bs\<rparr>) = sound A"
  by (simp_all add: sound_def buffers_bounded_def frame_fits_def frame_ok_def)

lemma sound_write:
  assumes "write_post os a data n s w r w'" and "sound (view w)"
  shows "sound (view w')"
proof -
  have "sound (upd a f A)" if "\<And>s. a_data (f s) = a_data s \<and> a_recv_window (f s) = a_recv_window s" "sound A" for f A
    by (rule sound_upd [OF _ that(2)]) (simp add: that(1))
  then show ?thesis using assms by (auto simp: write_post_def p_write_def sent_def split: option.split)
qed

section \<open>The transport side\<close>

lemma session_recv_buf_write_spec:
  assumes inv: "winv os {} w" and n: "n \<le> length data" "n < 2 ^ 31"
  shows "\<exists>r w' k. session_recv_buf_write data n w = Some (r, w') \<and> keeps os {} w w' \<and>
    view w' = (view w)\<lparr>a_in := a_in (view w) @ take k data\<rparr> \<and>
    (r = int n \<and> k = n \<or> r = - 1 \<and> k < n \<and> \<not> reliable os w)"
proof -
  have m: "mutexes w Session_recv_lock = Free" using winv_mutex [OF inv] by simp
  let ?ok = "\<lambda>b al. (put_sess ((sess w)\<lparr>ss_recv_buf := b\<rparr>) w)\<lparr>mem := al\<rparr>"
  have st: "keeps os {} w (?ok b al)" "view (?ok b al) = (view w)\<lparr>a_in := a_in (view w) @ xs\<rparr>"
    if "bio_ok b" "succeeds al = succeeds (mem w)" "bio_bytes b = bio_bytes (ss_recv_buf (sess w)) @ xs" for b al xs
    using that inv winv_bufs [OF inv] by (auto simp: keeps_def view_sess intro: winv_put_sess)
  have run: "session_recv_buf_write data n w = Some (if r = - 1 then - 1 else int n, ?ok b al)"
    if "bio_write (ss_recv_buf (sess w)) data n (mem w) = Some (r, b, al)" for r b al
    using m that to_int_small [OF n(2)]
    by (auto simp: session_recv_buf_write_def mutex_lock_free mutex_unlock_held fun_upd_idem put_sess_def Let_def)
  show ?thesis
  proof (rule bio_write_view [of "ss_recv_buf (sess w)" n data "mem w"])
    fix b al assume *: "bio_write (ss_recv_buf (sess w)) data n (mem w) = Some (int n, b, al)" "bio_ok b"
      "succeeds al = succeeds (mem w)" "bio_bytes b = bio_bytes (ss_recv_buf (sess w)) @ take n data"
    show ?thesis using run [OF *(1)] st [OF *(2-4)]
      by (intro exI [of _ "int n"] exI [of _ "?ok b al"] exI [of _ n]) auto
  next
    fix b al k assume *: "bio_write (ss_recv_buf (sess w)) data n (mem w) = Some (- 1, b, al)" "bio_ok b"
      "succeeds al = succeeds (mem w)" "bio_bytes b = bio_bytes (ss_recv_buf (sess w)) @ take k data"
      "k < n" "\<not> never_fails (mem w)"
    show ?thesis using run [OF *(1)] st [OF *(2-4)] *(5-6)
      by (intro exI [of _ "- 1"] exI [of _ "?ok b al"] exI [of _ k]) (auto simp: reliable_def)
  qed (use n winv_bufs [OF inv] in auto)
qed

lemma session_send_buf_spec:
  assumes inv: "winv os {} w" and len: "length (a_out (view w)) < 2 ^ 31"
  shows "session_send_buf_pending w = Some (int (length (a_out (view w))), w)"
    "session_send_buf_peek n w = Some (int (min n (length (a_out (view w)))), take n (a_out (view w)), w)"
    "\<exists>w'. session_send_buf_consume n w = Some (int (min n (length (a_out (view w)))), w') \<and> keeps os {} w w' \<and>
      view w' = (view w)\<lparr>a_out := drop n (a_out (view w))\<rparr>"
proof -
  have m: "mutexes w Session_send_lock = Free" using winv_mutex [OF inv] by simp
  have b: "bio_ok (ss_send_buf (sess w))" using winv_bufs [OF inv] by simp
  have i: "to_int (min n (length (a_out (view w)))) = int (min n (length (a_out (view w))))"
    using len by (intro to_int_small) simp
  note locks = mutex_lock_free mutex_unlock_held put_mutexes fun_upd_idem
  show "session_send_buf_pending w = Some (int (length (a_out (view w))), w)"
    using m bio_pending_correct [OF b] to_int_small len by (simp add: session_send_buf_pending_def locks)
  show "session_send_buf_peek n w = Some (int (min n (length (a_out (view w)))), take n (a_out (view w)), w)"
    using m bio_peek_correct [OF b, of n] i by (simp add: session_send_buf_peek_def locks)
  from bio_consume_correct [OF b, of n] obtain b' where
    b': "bio_consume (ss_send_buf (sess w)) n = Some (to_int (min n (length (a_out (view w)))), b')" "bio_ok b'"
    "bio_bytes b' = drop n (a_out (view w))" by auto
  have "winv os {} (put_sess ((sess w)\<lparr>ss_send_buf := b'\<rparr>) w)"
    using b' winv_bufs [OF inv] by (intro winv_put_sess [OF inv]) auto
  with m b' i show "\<exists>w'. session_send_buf_consume n w = Some (int (min n (length (a_out (view w)))), w') \<and> keeps os {} w w' \<and>
      view w' = (view w)\<lparr>a_out := drop n (a_out (view w))\<rparr>"
    by (auto simp: session_send_buf_consume_def locks keeps_def view_sess)
qed

section \<open>Starting a session\<close>

definition start_view :: "bool \<Rightarrow> addr \<Rightarrow> asession" where
  "start_view client b = \<lparr>a_table = Map.empty, a_streams = Map.empty, a_in = [], a_out = [], a_hdr = replicate 12 0,
     a_new_frame = True, a_remain = 0, a_remote_go_away = False, a_local_go_away = False,
     a_next_id = (if client then 1 else 2), a_brk = b\<rparr>"

lemma sound_start: "sound (start_view client b)"
  by (simp add: sound_def start_view_def buffers_bounded_def frame_fits_def frame_ok_def)

lemma bio_new_reliable: "never_fails al \<Longrightarrow> \<exists>b al'. bio_new al = (Some b, al') \<and> never_fails al'"
  by (simp add: bio_new_def malloc_never_fails)

lemma bio_free_ok: "bio_ok b \<Longrightarrow> \<exists>b'. bio_free b = Some b'"
  using bio_reset_correct by (auto simp: bio_free_def)

lemma fresh_winv:
  assumes "heap w = Map.empty" and "ss_streams (sess w) = RB_INIT h"
    and "bio_ok (ss_recv_buf (sess w))" "bio_ok (ss_send_buf (sess w))" "length (ss_hdr (sess w)) = 12"
    and "\<And>m. m \<in> {Session_recv_lock, Session_send_lock, Session_streams_lock} \<Longrightarrow> mutexes w m = Free"
    and "paired os (kern w) (ss_fd (sess w), ss_private_fd (sess w))"
  shows "winv os {} w" "table w = Map.empty"
proof -
  have "wired os w" by (rule wiredI) (use assms(1,7) in \<open>auto simp: socks_def split: option.splits\<close>)
  moreover
  have rep: "rb_map (stream_key w) (ss_streams (sess w)) Map.empty" unfolding assms(2) by (rule rb_map_INIT)
  have "Map.empty sid = Some a \<longleftrightarrow> ids w a = Some sid" for sid a using assms(1) by (simp add: ids_def)
  from index_okI [OF rep this] have "index_ok w" "table w = Map.empty" by auto
  moreover have "mutexes w m = Free" if "live w m" for m using that assms(1,6) by (cases m) auto
  ultimately show "winv os {} w" "table w = Map.empty" using assms by (auto simp: winv_def locks_ok_def store_ok_def)
qed

lemma session_init_spec:
  assumes fresh: "heap w = Map.empty" and live: "os_live os"
  shows "\<exists>r w'. session_init os client w = Some (r, w') \<and>
    (r = 0 \<and> winv os {} w' \<and> view w' = start_view client (brk w) \<and> (reliable os w \<longrightarrow> reliable os w') \<or>
     r = - 1 \<and> \<not> reliable os w)"
proof -
  obtain rb al1 where rb: "bio_new (mem w) = (rb, al1)" by fastforce
  obtain sb al2 where sb: "bio_new al1 = (sb, al2)" by fastforce
  obtain fds k where fds: "sys_socketpair os (kern w) = (fds, k)" by fastforce
  have rel: "reliable os w \<Longrightarrow> rb \<noteq> None \<and> sb \<noteq> None \<and> fds \<noteq> None \<and> never_fails al2"
  proof -
    assume r: "reliable os w"
    then have "never_fails (mem w)" by (simp add: reliable_def)
    from bio_new_reliable [OF this] rb have 1: "rb \<noteq> None" "never_fails al1" by auto
    from bio_new_reliable [OF 1(2)] sb have "sb \<noteq> None" "never_fails al2" by auto
    with 1 r fds reliable_socketpair [OF r, of "kern w"] show ?thesis by auto
  qed
  consider (none) "rb = None" | (one) r where "rb = Some r" "sb = None" | (no_fd) r s where "rb = Some r" "sb = Some s" "fds = None"
    | (ok) r s fd0 fd1 where "rb = Some r" "sb = Some s" "fds = Some (fd0, fd1)"
    by (cases rb; cases sb; cases fds) auto
  then show ?thesis
  proof cases
    case none
    with rb rel show ?thesis by (auto simp: session_init_def)
  next
    case one
    with rb sb rel bio_free_ok bio_new_ok show ?thesis by (fastforce simp: session_init_def)
  next
    case no_fd
    with rb sb have "bio_ok r" "bio_ok s" using bio_new_ok by blast+
    then obtain r' s' where "bio_free r = Some r'" "bio_free s = Some s'" using bio_free_ok by metis
    with no_fd rb sb fds rel show ?thesis by (auto simp: session_init_def)
  next
    case ok
    with rb sb have b: "bio_ok r" "bio_bytes r = []" "bio_ok s" "bio_bytes s = []" using bio_new_ok by blast+
    define w' where "w' = w\<lparr>mem := al2, kern := k,
      sess := (sess w)\<lparr>ss_recv_buf := r, ss_send_buf := s, ss_remote_go_away := False, ss_local_go_away := False,
        ss_next_id := (if client then 1 else 2), ss_streams := RB_INIT (ss_streams (sess w)), ss_hdr := replicate 12 0,
        ss_new_frame := True, ss_fd := fd0, ss_private_fd := fd1, ss_frame_remain := 0\<rparr>,
      mutexes := (mutexes w)(Session_recv_lock := Free, Session_send_lock := Free, Session_streams_lock := Free)\<rparr>"
    have run: "session_init os client w = Some (0, w')" using ok rb sb fds
      by (simp add: session_init_def w'_def put_sess_def mutex_init_def)
    have pr: "paired os k (fd0, fd1)" using fds ok(3) live unfolding os_live_def pairs_ok_def by blast
    have "winv os {} w'" "table w' = Map.empty"
      by (rule fresh_winv [of _ "ss_streams (sess w)"]; use fresh b pr in \<open>auto simp: w'_def\<close>)+
    moreover from this(2) have "view w' = start_view client (brk w)"
      using fresh b by (simp add: view_def start_view_def) (simp add: w'_def)
    moreover have "reliable os w \<Longrightarrow> reliable os w'" using rel fresh by (auto simp: reliable_def w'_def)
    ultimately show ?thesis using run by blast
  qed
qed

section \<open>Opening and accepting\<close>

text \<open>
  A session that opens a stream takes the next id of its parity and announces the stream with
  a \<^verbatim>\<open>SYN\<close> that grants nothing.
\<close>

definition p_open :: "asession \<Rightarrow> asession" where
  "p_open A = (let s = new_stream (a_next_id A) STATE_INIT in
     put_out (frame_hdr TYPE_WINDOW_UPDATE FLAG_SYN (a_next_id A) 0)
       (add_stream (a_brk A) (s\<lparr>a_state := STATE_SYN_SENT\<rparr>) (A\<lparr>a_next_id := a_next_id A + 2, a_brk := Suc (a_brk A)\<rparr>)))"

lemma upd_add_stream: "upd a f (add_stream a s A) = add_stream a (f s) A" if "a_id (f s) = a_id s"
  using that by (simp add: upd_def add_stream_def)

lemma granted_new:
  "granted (new_stream sid STATE_INIT) = (new_stream sid STATE_INIT)\<lparr>a_state := STATE_SYN_SENT\<rparr>"
  "window_frame (new_stream sid STATE_INIT) = frame_hdr TYPE_WINDOW_UPDATE FLAG_SYN sid 0"
  by (simp_all add: granted_def window_frame_def no_update_def window_delta_def new_stream_def flag_defs)

text \<open>Undoing the creation of a stream whose announcement could not be queued.\<close>

lemma open_undone:
  assumes live: "os_live os" and w: "winv os {} w" and w2: "winv os {} w2" and new: "table w sid = None" and a: "a = brk w"
    and v2: "view w2 = add_stream a ((new_stream sid STATE_INIT)\<lparr>a_state := st\<rparr>) A"
    and A: "a_streams A = a_streams (view w)" "a_table A = a_table (view w)"
  shows "\<exists>w3. stream_free os a w2 = Some w3 \<and> keeps os {} w2 w3 \<and> view w3 = A"
proof -
  let ?t = "(new_stream sid STATE_INIT)\<lparr>a_state := st\<rparr>"
  have "a_streams (view w2) a = Some ?t" unfolding v2 by (simp add: add_stream_def)
  then obtain s where s: "heap w2 a = Some s" "view_stream s = ?t" by auto
  then have id: "st_id s = sid" using view_stream_sel(2) [of s] by (simp add: new_stream_def)
  from stream_free_spec [OF w2 _ live s(1)] obtain w3 where
    w3: "stream_free os a w2 = Some w3" "keeps os {} w2 w3" "view w3 = del_stream a sid (view w2)" unfolding id by auto
  have "heap w a = None" using w a by (cases "heap w a") (auto simp: winv_def store_ok_def)
  with new A have "a_streams A a = None" "a_table A sid = None" by simp_all
  then have "view w3 = A" unfolding w3(3) v2
    by (simp add: del_stream_def add_stream_def new_stream_def fun_upd_idem)
  with w3(1,2) show ?thesis by blast
qed

lemma session_open_spec:
  assumes inv: "winv os {} w" and live: "os_live os" and up: "\<not> ss_remote_go_away (sess w)" and id: "ss_next_id (sess w) < 0xFFFFFFFF"
    and new: "table w (ss_next_id (sess w)) = None"
  shows "\<exists>r p w'. session_open os [] w = Some (r, p, w') \<and> keeps os {} w w' \<and>
    (r = 0 \<and> p = Some (brk w) \<and> view w' = p_open (view w) \<or>
     r = - 1 \<and> \<not> reliable os w \<and> (\<exists>b. view w' = (view w)\<lparr>a_next_id := a_next_id (view w) + 2, a_brk := b\<rparr>))"
proof -
  let ?sid = "ss_next_id (sess w)" let ?w0 = "put_sess ((sess w)\<lparr>ss_next_id := ?sid + 2\<rparr>) w"
  have k0: "keeps os {} w ?w0" using inv winv_bufs [OF inv] by (auto simp: keeps_def intro: winv_put_sess)
  have v0: "view ?w0 = (view w)\<lparr>a_next_id := ?sid + 2\<rparr>" by (rule view_sess)
  have "table ?w0 ?sid = None" using arg_cong [OF v0, of a_table] new by simp
  from stream_new_spec [OF keeps_winv [OF k0] _ live this, of STATE_INIT] obtain p w1 where
    w1: "stream_new os ?sid STATE_INIT ?w0 = Some (p, w1)" "keeps os {} ?w0 w1"
    "case p of None \<Rightarrow> (\<exists>b. view w1 = (view ?w0)\<lparr>a_brk := b\<rparr>) \<and> \<not> reliable os ?w0
     | Some a \<Rightarrow> heap ?w0 a = None \<and> a = brk ?w0 \<and>
         view w1 = add_stream a (new_stream ?sid STATE_INIT) ((view ?w0)\<lparr>a_brk := Suc a\<rparr>)" unfolding creates_def by blast
  have k1: "keeps os {} w w1" using k0 w1(2) by (simp add: keeps_def)
  have run: "session_open os [] w = (case p of None \<Rightarrow> Some (- 1, None, w1) | Some a \<Rightarrow> do {
      (e, w) \<leftarrow> send_window_update os a w1;
      if e \<noteq> 0 then do { w \<leftarrow> stream_free os a w; Some (- 1, Some a, w) } else Some (0, Some a, w) })"
    using up id w1(1) by (simp add: session_open_def linorder_not_less [symmetric])
  show ?thesis
  proof (cases p)
    case None
    with w1(3) v0 have "\<exists>b. view w1 = (view w)\<lparr>a_next_id := a_next_id (view w) + 2, a_brk := b\<rparr>" "\<not> reliable os w" by auto
    with run None k1 show ?thesis by auto
  next
    case (Some a)
    let ?A = "(view w)\<lparr>a_next_id := ?sid + 2, a_brk := Suc (brk w)\<rparr>" and ?t = "new_stream ?sid STATE_INIT"
    have v1: "a = brk w" "view w1 = add_stream a ?t ?A" using w1(3) Some v0 by auto
    have "a_streams (view w1) a = Some ?t" unfolding v1(2) by (simp add: add_stream_def)
    then obtain s where s: "heap w1 a = Some s" "view_stream s = ?t" by auto
    from send_window_update_spec [OF keeps_winv [OF k1] s(1)] obtain e w2 where
      w2: "send_window_update os a w1 = Some (e, w2)" "keeps os {} w1 w2"
      "e = 0 \<and> view w2 = put_out (window_frame ?t) (upd a granted (view w1)) \<or>
       e = - 1 \<and> view w2 = upd a granted (view w1) \<and> \<not> reliable os w1" unfolding s(2) by auto
    have u: "upd a granted (view w1) = add_stream a (?t\<lparr>a_state := STATE_SYN_SENT\<rparr>) ?A"
      unfolding v1(2) by (simp add: upd_add_stream granted_new)
    have k2: "keeps os {} w w2" using k1 w2(2) by (simp add: keeps_def)
    show ?thesis
    proof (cases "e = 0")
      case True
      with w2(3) u v1(1) have "view w2 = p_open (view w)" by (simp add: p_open_def Let_def granted_new)
      with run Some w2(1) True k2 v1(1) show ?thesis by simp
    next
      case False
      then have v2: "view w2 = add_stream a (?t\<lparr>a_state := STATE_SYN_SENT\<rparr>) ?A" "\<not> reliable os w" using w2(3) u k1 by (auto simp: keeps_def)
      from open_undone [OF live inv keeps_winv [OF k2] new v1(1) v2(1)] obtain w3 where
        w3: "stream_free os a w2 = Some w3" "keeps os {} w2 w3" "view w3 = ?A" by auto
      then have "\<exists>b. view w3 = (view w)\<lparr>a_next_id := a_next_id (view w) + 2, a_brk := b\<rparr>" by auto
      with v2(2) show ?thesis using run Some w2(1) False w3(1,2) k2 by (auto simp: keeps_def)
    qed
  qed
qed

lemma session_open_refused:
  "ss_remote_go_away (sess w) \<Longrightarrow> session_open os cur w = Some (- 1, None, w)"
  "ss_next_id (sess w) = 0xFFFFFFFF \<Longrightarrow> session_open os cur w = Some (- 1, None, w)"
  by (simp_all add: session_open_def put_sess_def)

text \<open>
  An id that is in the table already, because the peer announced a stream with it, stops the
  program: the insertion asserts that there is no such node.
\<close>

lemma insert_stream_duplicate:
  assumes idx: "index_ok w" and m: "mutexes w Session_streams_lock = Free" and fresh: "heap w a = None"
    and dup: "table w (st_id s) \<noteq> None"
  shows "session_insert_stream a (put_stream a s w) = None"
proof -
  let ?w = "put_stream a s w"
  have ran: "b \<in> ran (table w) \<Longrightarrow> heap w b \<noteq> None \<and> b \<noteq> a" for b
    using table_ran [OF idx, of b] fresh by (cases "b = a") simp_all
  have "rb_map (stream_key w) (ss_streams (sess w)) (table w)" using idx unfolding index_ok_def by blast
  then have rep: "rb_map (stream_key ?w) (ss_streams (sess w)) (table w)"
    by (rule rbm.rep_cong) (use ran in \<open>auto simp: stream_key_def\<close>)
  have key: "stream_key ?w a = st_id s" by (simp add: stream_key_def)
  have "cmp_for (stream_key ?w) (st_id s) (stream_probe ?w (st_id s)) (ran (table w))"
    using ran by (intro probe_cmp) auto
  from rbm.insert_law [OF rep, of a, unfolded key, OF this] ran obtain t where
    t: "RB_INSERT (stream_probe ?w (st_id s)) (ss_streams (sess w)) a = Some (table w (st_id s), t)" by auto
  have "stream_probe (?w\<lparr>mutexes := f\<rparr>) = stream_probe ?w" for f by (simp add: probe_ids)
  then show ?thesis using m t dup by (auto simp: session_insert_stream_def mutex_lock_free Let_def)
qed

lemma stream_new_duplicate:
  assumes inv: "winv os {} w" and rel: "reliable os w" and dup: "table w sid \<noteq> None"
  shows "stream_new os sid st w = None"
proof -
  let ?a = "brk w"
  have fresh: "heap w ?a = None" using inv by (cases "heap w ?a") (auto simp: winv_def store_ok_def)
  have nf: "never_fails (mem w)" using rel by (simp add: reliable_def)
  obtain al1 where m1: "c_malloc w = (True, w\<lparr>mem := al1\<rparr>)" "never_fails al1"
    using nf by (auto simp: c_malloc_def malloc_never_fails)
  obtain b al2 where m2: "bio_new al1 = (Some b, al2)" using bio_new_reliable [OF m1(2)] by blast
  obtain fd0 fd1 k where sp: "sys_socketpair os (kern w) = (Some (fd0, fd1), k)"
    using reliable_socketpair [OF rel, of "kern w"] by (cases "sys_socketpair os (kern w)") auto
  define s where "s = \<lparr>st_state = st, st_id = sid, st_send_padding = 0,
      st_recv_window = MAX_STREAM_WINDOW_SIZE, st_send_window = MAX_STREAM_WINDOW_SIZE, st_recv_buf = b,
      st_readable = False, st_writeable = True, st_fd = fd0, st_private_fd = fd1\<rparr>"
  let ?w = "w\<lparr>brk := Suc ?a, mem := al2, kern := k\<rparr>"
  have "heap (put_stream ?a s ?w) ?a = Some s" by simp
  from stream_setup_fd_spec [OF this, of os] rel obtain k' p where
    su: "stream_setup_fd os ?a (put_stream ?a s ?w) = Some (0, put_stream ?a (s\<lparr>st_send_padding := p\<rparr>) ((put_stream ?a s ?w)\<lparr>kern := k'\<rparr>))"
    by (auto simp: reliable_def)
  let ?s3 = "s\<lparr>st_send_padding := p\<rparr>" and ?w3 = "w\<lparr>brk := Suc ?a, mem := al2, kern := k'\<rparr>"
  have pp: "put_stream ?a ?s3 ((put_stream ?a s ?w)\<lparr>kern := k'\<rparr>) = put_stream ?a ?s3 ?w3" by (simp add: put_stream_def)
  have ids: "ids ?w3 = ids w" by (simp add: ids_def fun_eq_iff)
  have "session_insert_stream ?a (put_stream ?a ?s3 ?w3) = None"
    using index_cong [of ?w3 w] ids inv dup fresh winv_mutex [OF inv, of Session_streams_lock]
    by (intro insert_stream_duplicate) (auto simp: winv_def s_def)
  then show ?thesis using m1 m2 sp su [unfolded pp] by (simp add: stream_new_def Let_def s_def)
qed

lemma session_open_duplicate:
  assumes inv: "winv os {} w" and rel: "reliable os w" and up: "\<not> ss_remote_go_away (sess w)"
    and id: "ss_next_id (sess w) < 0xFFFFFFFF" and dup: "table w (ss_next_id (sess w)) \<noteq> None"
  shows "session_open os [] w = None"
proof -
  let ?w0 = "put_sess ((sess w)\<lparr>ss_next_id := ss_next_id (sess w) + 2\<rparr>) w"
  have "winv os {} ?w0" using inv winv_bufs [OF inv] by (auto intro: winv_put_sess)
  moreover have "table ?w0 = table w" by (rule index_cong(1)) (simp_all add: ids_put)
  ultimately have "stream_new os (ss_next_id (sess w)) STATE_INIT ?w0 = None" using rel dup by (intro stream_new_duplicate) auto
  then show ?thesis using up id by (simp add: session_open_def linorder_not_less [symmetric])
qed

text \<open>
  Accepting: the id that \<^verbatim>\<open>notify_accept\<close> wrote is read back, and the stream is answered
  with an \<^verbatim>\<open>ACK\<close> by the window update it is due.
\<close>

definition p_accept :: "addr \<Rightarrow> asession \<Rightarrow> asession" where
  "p_accept a A = (case a_streams A a of None \<Rightarrow> A | Some s \<Rightarrow> put_out (window_frame s) (upd a granted A))"

lemma session_read_winv:
  assumes inv: "winv os H w" and live: "os_live os" and io: "sys_read os (ss_fd (sess w)) n (kern w) = Some (res, k)"
  shows "winv os H (w\<lparr>kern := k\<rparr>)"
proof -
  have "reads_ok os" using live by (simp add: os_live_def)
  note r = this [unfolded reads_ok_def, THEN spec, of "ss_fd (sess w)", THEN spec, of n, THEN spec, of "kern w",
      THEN conjunct2, THEN spec, of res, THEN spec, of k, THEN mp, OF io]
  have "wired os (w\<lparr>kern := k\<rparr>)" using r by (intro wired_sess_read [OF winv_wired [OF inv]]) auto
  then show ?thesis by (rule winv_kern [OF inv])
qed

lemma session_accept_spec:
  assumes inv: "winv os {} w" and live: "os_live os" and io: "sys_read os (ss_fd (sess w)) 4 (kern w) = Some (Some (store32 (host_le os) sid), k)"
    and a: "table w sid = Some a"
  shows "\<exists>r w'. session_accept os w = Some (r, Some a, w') \<and> keeps os {} w w' \<and>
    (r = 0 \<and> view w' = p_accept a (view w) \<or> r = - 1 \<and> \<not> reliable os w \<and> view w' = upd a granted (view w))"
proof -
  let ?w1 = "w\<lparr>kern := k\<rparr>"
  have inv1: "winv os {} ?w1" by (rule session_read_winv [OF inv live io])
  have "table ?w1 = table w" by (rule index_cong(1)) simp_all
  then have find: "session_find_stream sid ?w1 = Some (Some a, ?w1)" using session_find_stream_eq [OF inv1, of sid] a by simp
  from a winv_table [OF inv] obtain s where s: "heap w a = Some s" by auto
  from send_window_update_spec [OF inv1, of a s] s obtain r w2 where
    w2: "send_window_update os a ?w1 = Some (r, w2)" "keeps os {} ?w1 w2"
    "r = 0 \<and> view w2 = put_out (window_frame (view_stream s)) (upd a granted (view w)) \<or>
     r = - 1 \<and> view w2 = upd a granted (view w) \<and> \<not> reliable os w" by auto
  have "session_accept os w = Some (if r \<noteq> 0 then - 1 else 0, Some a, w2)"
    using io find w2(1) by (simp add: session_accept_def c_read_def load_store32)
  with w2(2,3) s show ?thesis by (auto simp: p_accept_def keeps_def)
qed

lemma session_accept_failed:
  assumes inv: "winv os {} w" and live: "os_live os" and io: "sys_read os (ss_fd (sess w)) 4 (kern w) = Some (None, k)"
  shows "\<exists>w'. session_accept os w = Some (- 1, None, w') \<and> keeps os {} w w' \<and>
    (\<exists>bs. view w' = put_out bs ((view w)\<lparr>a_local_go_away := True\<rparr>))"
proof -
  from go_away_spec [OF session_read_winv [OF inv live io], of GO_AWAY_INTERNAL_ERR] obtain r w' where
    w': "session_go_away_for_reason os GO_AWAY_INTERNAL_ERR (w\<lparr>kern := k\<rparr>) = Some (r, w')"
    "goes_away os {} GO_AWAY_INTERNAL_ERR (w\<lparr>kern := k\<rparr>) r w'" by auto
  then have "\<exists>bs. view w' = put_out bs ((view w)\<lparr>a_local_go_away := True\<rparr>)"
    unfolding goes_away_def by (metis put_out_Nil view_upd(1))
  with w' io show ?thesis by (auto simp: session_accept_def c_read_def goes_away_def keeps_def)
qed

lemma sound_grant: "sound A \<Longrightarrow> sound (upd a granted A)"
  by (rule sound_upd) (auto dest: granted_window(1,2))

lemma sound_add:
  assumes "sound A" and "a_new_frame A \<or> wire_id (a_hdr A) \<noteq> sid" and "a_streams A a = None"
    and "\<And>i b. a_table A i = Some b \<Longrightarrow> a_streams A b \<noteq> None"
  shows "sound (add_stream a ((new_stream sid st)\<lparr>a_state := st'\<rparr>) A)"
  using assms(1-3) assms(4) [of _ a]
  by (auto simp: sound_def add_stream_def new_stream_def buffers_bounded_def frame_fits_def frame_ok_def MAX_STREAM_WINDOW_SIZE_def)

lemma sound_open:
  assumes "winv os {} w" and "sound (view w)" and "ss_new_frame (sess w) \<or> wire_id (ss_hdr (sess w)) \<noteq> ss_next_id (sess w)"
  shows "sound (p_open (view w))"
proof -
  have "heap w (brk w) = None" using assms(1) by (cases "heap w (brk w)") (auto simp: winv_def store_ok_def)
  moreover have "table w i = Some b \<Longrightarrow> heap w b \<noteq> None" for i b using winv_table [OF assms(1)] by auto
  ultimately show ?thesis unfolding p_open_def Let_def sound_put_out using assms(2,3)
    by (intro sound_add) auto
qed

end
