(* ===== verification/System.thy ===== *)
theory System
  imports Api_Specs
begin

text \<open>
  A session over its whole life. The calls an application makes are the steps of a transition
  system that starts in \<^verbatim>\<open>session_init\<close>; the invariant of the components is shown to hold in
  every reachable state, and from it that no input of the peer makes a call abort.

  A session is given up when \<^verbatim>\<open>session_process\<close> returns -1, so that outcome is no step; the
  other calls may fail and go on. The descriptors are in the non-blocking mode the event loop
  uses, so no call waits.
\<close>

datatype call =
  Feed "byte list" | Process | Drain nat | Open | Accept | Read addr nat | Write addr "byte list" | Go_Away

text \<open>
  What the application has to respect: the receive buffer holds less than 2 GiB, streams are
  live, a read asks for something, and a new stream's id is free. The last guard excludes the
  ids a peer used that are not its own, which \<^verbatim>\<open>session_open\<close> asserts never to meet.
\<close>

inductive step :: "'k os \<Rightarrow> 'k world \<Rightarrow> call \<Rightarrow> 'k world \<Rightarrow> bool" for os where
  feed: "length (a_in (view w)) + length data < 2 ^ 31 \<Longrightarrow>
    session_recv_buf_write data (length data) w = Some (r, w') \<Longrightarrow> step os w (Feed data) w'"
| process: "session_process os w = Some (0, w') \<Longrightarrow> step os w Process w'"
| drain: "length (a_out (view w)) < 2 ^ 31 \<Longrightarrow> session_send_buf_consume n w = Some (r, w') \<Longrightarrow> step os w (Drain n) w'"
| open_stream: "table w (ss_next_id (sess w)) = None \<Longrightarrow>
    ss_new_frame (sess w) \<or> wire_id (ss_hdr (sess w)) \<noteq> ss_next_id (sess w) \<Longrightarrow>
    session_open os [] w = Some (r, p, w') \<Longrightarrow> step os w Open w'"
| accept: "sys_read os (ss_fd (sess w)) 4 (kern w) = Some (None, k) \<or>
      table w sid \<noteq> None \<and> sys_read os (ss_fd (sess w)) 4 (kern w) = Some (Some (store32 (host_le os) sid), k) \<Longrightarrow>
    session_accept os w = Some (r, p, w') \<Longrightarrow> step os w Accept w'"
| read_call: "heap w a = Some s \<Longrightarrow> \<not> would_block os (st_fd s) w \<Longrightarrow> 0 < n \<Longrightarrow>
    stream_read os env a n w = Some (r, buf, w') \<Longrightarrow> step os w (Read a n) w'"
| write_call: "heap w a = Some s \<Longrightarrow> \<not> would_block os (st_fd s) w \<Longrightarrow> length data < 2 ^ 31 \<Longrightarrow>
    stream_write os env a data (length data) w = Some (r, w') \<Longrightarrow> step os w (Write a data) w'"
| go_away: "session_go_away os w = Some (r, w') \<Longrightarrow> step os w Go_Away w'"

inductive reachable :: "'k os \<Rightarrow> 'k world \<Rightarrow> bool" for os where
  start: "heap w = Map.empty \<Longrightarrow> session_init os client w = Some (0, w') \<Longrightarrow> reachable os w'"
| more: "reachable os w \<Longrightarrow> step os w c w' \<Longrightarrow> reachable os w'"

definition healthy :: "'k os \<Rightarrow> 'k world \<Rightarrow> bool" where
  "healthy os w \<longleftrightarrow> winv os {} w \<and> sound (view w) \<and> length (a_in (view w)) < 2 ^ 31"

lemma healthyD:
  assumes "healthy os w"
  shows "winv os {} w" "sound (view w)" "length (a_in (view w)) < 2 ^ 31" "buffers_bounded (view w)" "frame_ok (view w)"
  using assms unfolding healthy_def sound_def by auto

lemma healthyI:
  "keeps os {} w w' \<Longrightarrow> sound (view w') \<Longrightarrow> length (a_in (view w')) < 2 ^ 31 \<Longrightarrow> healthy os w'"
  unfolding healthy_def by (simp add: keeps_def)

lemma init_healthy: "heap w = Map.empty \<Longrightarrow> os_live os \<Longrightarrow> session_init os client w = Some (0, w') \<Longrightarrow> healthy os w'"
  using session_init_spec [of w os client] sound_start
  by (auto simp: healthy_def start_view_def simp del: view_sel)

lemma process_healthy:
  assumes "healthy os w" and "os_live os" and "session_process os w = Some (0, w')"
  shows "healthy os w'"
proof -
  note h = healthyD [OF assms(1)]
  from session_process_spec [OF h(1) assms(2) h(5,3)] assms(3) have "processed os {} p_process w 0 w'" by auto
  then have k: "keeps os {} w w'" and d: "drained (view w) 0 (view w')" by (auto simp: processed_def)
  from d h(2) have "sound (view w')" by (auto simp: drained_def sound_def)
  moreover have "length (a_in (view w')) \<le> length (a_in (view w))" using d suffix_length_le by (auto simp: drained_def)
  ultimately show ?thesis using healthyI [OF k] h(3) by linarith
qed

lemma read_healthy:
  assumes "healthy os w" and "os_live os" and a: "heap w a = Some s" and nb: "\<not> would_block os (st_fd s) w" and n: "0 < n"
  shows "\<exists>r buf w'. stream_read os env a n w = Some (r, buf, w') \<and> healthy os w'"
proof -
  note h = healthyD [OF assms(1)]
  note unf = stream_read_unfold [OF h(1) a bounded_data [OF h(4) a], of env n]
  show ?thesis
  proof (cases "st_state s \<noteq> STATE_RESET \<and> bio_bytes (st_recv_buf s) \<noteq> []")
    case True
    from stream_read_data [OF h(1) assms(2) a h(4) _ n, of env] True obtain r w' where
      w': "stream_read os env a n w = Some (r, take n (bio_bytes (st_recv_buf s)), w')"
        "read_post os a n (bio_bytes (st_recv_buf s)) w r w'" by auto
    from w'(2) have "keeps os {} w w'" "a_in (view w') = a_in (view w)" by (auto simp: read_post_def simp del: view_sel)
    with sound_read [OF w'(2) h(2)] h(3) have "healthy os w'" by (intro healthyI) auto
    with w'(1) show ?thesis by blast
  next
    case False
    have "healthy os (w\<lparr>errno := EAGAIN\<rparr>)" using h(1-3) by (simp add: healthy_def)
    with False unf nb assms(1) show ?thesis by (cases "st_state s = STATE_RESET") auto
  qed
qed

lemma write_healthy:
  assumes "healthy os w" and "os_live os" and a: "heap w a = Some s" and nb: "\<not> would_block os (st_fd s) w" and n: "length data < 2 ^ 31"
  shows "\<exists>r w'. stream_write os env a data (length data) w = Some (r, w') \<and> healthy os w'"
proof -
  note h = healthyD [OF assms(1)]
  note unf = stream_write_unfold [OF h(1) a, of env data "length data"]
  show ?thesis
  proof (cases "\<not> write_closed (st_state s) \<and> st_send_window s \<noteq> 0")
    case True
    from stream_write_data [OF h(1) assms(2) a, of "length data" data env] True n obtain r w' where
      w': "stream_write os env a data (length data) w = Some (r, w')" "write_post os a data (length data) (view_stream s) w r w'" by auto
    from w'(2) have "keeps os {} w w'" "a_in (view w') = a_in (view w)"
      by (auto simp: write_post_def p_write_def simp del: view_sel split: option.split)
    with sound_write [OF w'(2) h(2)] h(3) have "healthy os w'" by (intro healthyI) auto
    with w'(1) show ?thesis by blast
  next
    case False
    have "healthy os (w\<lparr>errno := EAGAIN\<rparr>)" using h(1-3) by (simp add: healthy_def)
    with False unf nb assms(1) show ?thesis by auto
  qed
qed

lemma below_max: "(x :: uint32) \<noteq> 0xFFFFFFFF \<Longrightarrow> x < 0xFFFFFFFF"
proof -
  assume "x \<noteq> 0xFFFFFFFF"
  moreover have "(- 1 :: uint32) = 0xFFFFFFFF" by simp
  ultimately have "x \<noteq> - 1" "(- 1 :: uint32) = 0xFFFFFFFF" by auto
  then show "x < 0xFFFFFFFF" using word_order.not_eq_extremum [of x] by (simp only: simp_thms)
qed

lemma open_healthy:
  assumes "healthy os w" and "os_live os" and "table w (ss_next_id (sess w)) = None"
    and "ss_new_frame (sess w) \<or> wire_id (ss_hdr (sess w)) \<noteq> ss_next_id (sess w)"
  shows "\<exists>r p w'. session_open os [] w = Some (r, p, w') \<and> healthy os w'"
proof -
  note h = healthyD [OF assms(1)]
  show ?thesis
  proof (cases "ss_remote_go_away (sess w) \<or> ss_next_id (sess w) = 0xFFFFFFFF")
    case True
    with assms(1) show ?thesis using session_open_refused [of w os "[]"] by auto
  next
    case False
    then have "ss_next_id (sess w) < 0xFFFFFFFF" using below_max by simp
    from session_open_spec [OF h(1) assms(2) _ this assms(3)] False obtain r p w' where
      w': "session_open os [] w = Some (r, p, w')" "keeps os {} w w'" "view w' = p_open (view w) \<or>
      (\<exists>b. view w' = (view w)\<lparr>a_next_id := a_next_id (view w) + 2, a_brk := b\<rparr>)" by blast
    have "sound (view w')" using w'(3) sound_open [OF h(1,2) assms(4)] h(2) by auto
    moreover have "a_in (view w') = a_in (view w)" using w'(3) by (auto simp: p_open_def add_stream_def Let_def simp del: view_sel)
    ultimately show ?thesis using healthyI [OF w'(2)] w'(1) h(3) by auto
  qed
qed

lemma feed_healthy:
  assumes "healthy os w" and "length (a_in (view w)) + length data < 2 ^ 31"
  shows "\<exists>r w'. session_recv_buf_write data (length data) w = Some (r, w') \<and> healthy os w'"
proof -
  note h = healthyD [OF assms(1)]
  from session_recv_buf_write_spec [OF h(1), of "length data" data] assms(2) obtain r w' k where
    w': "session_recv_buf_write data (length data) w = Some (r, w')" "keeps os {} w w'"
    "view w' = (view w)\<lparr>a_in := a_in (view w) @ take k data\<rparr>" by auto
  have "length (a_in (view w')) < 2 ^ 31" unfolding w'(3) using assms(2) by (auto simp: min_def)
  with w' h(2) healthyI [OF w'(2)] show ?thesis by auto
qed

lemma drain_healthy:
  assumes "healthy os w" and "length (a_out (view w)) < 2 ^ 31"
  shows "\<exists>r w'. session_send_buf_consume n w = Some (r, w') \<and> healthy os w'"
proof -
  note h = healthyD [OF assms(1)]
  from session_send_buf_spec(3) [OF h(1) assms(2), of n] obtain r w' where
    w': "session_send_buf_consume n w = Some (r, w')" "keeps os {} w w'"
    "view w' = (view w)\<lparr>a_out := drop n (a_out (view w))\<rparr>" by blast
  have "a_in (view w') = a_in (view w)" unfolding w'(3) by simp
  with w' h(2,3) healthyI [OF w'(2)] show ?thesis by auto
qed

lemma go_away_healthy:
  assumes "healthy os w"
  shows "\<exists>r w'. session_go_away os w = Some (r, w') \<and> healthy os w'"
proof -
  note h = healthyD [OF assms]
  from go_away_spec [OF h(1), of GO_AWAY_NORMAL] obtain r w' where
    w': "session_go_away_for_reason os GO_AWAY_NORMAL w = Some (r, w')" "goes_away os {} GO_AWAY_NORMAL w r w'" by auto
  then have "keeps os {} w w'" "sound (view w')" "a_in (view w') = a_in (view w)"
    using h(2) by (auto simp: goes_away_def simp del: view_sel)
  with w'(1) h(3) show ?thesis using healthyI [of os w w'] by (auto simp: session_go_away_def)
qed

lemma accept_healthy:
  assumes "healthy os w" and "os_live os" and "sys_read os (ss_fd (sess w)) 4 (kern w) = Some (None, k) \<or>
      table w sid \<noteq> None \<and> sys_read os (ss_fd (sess w)) 4 (kern w) = Some (Some (store32 (host_le os) sid), k)"
  shows "\<exists>r p w'. session_accept os w = Some (r, p, w') \<and> healthy os w'"
  using assms(3)
proof
  note h = healthyD [OF assms(1)]
  assume "sys_read os (ss_fd (sess w)) 4 (kern w) = Some (None, k)"
  from session_accept_failed [OF h(1) assms(2) this] obtain w' bs where
    w': "session_accept os w = Some (- 1, None, w')" "keeps os {} w w'" "view w' = put_out bs ((view w)\<lparr>a_local_go_away := True\<rparr>)" by blast
  have "a_in (view w') = a_in (view w)" unfolding w'(3) by simp
  with w' h(2,3) healthyI [OF w'(2)] show ?thesis by auto
next
  note h = healthyD [OF assms(1)]
  assume *: "table w sid \<noteq> None \<and> sys_read os (ss_fd (sess w)) 4 (kern w) = Some (Some (store32 (host_le os) sid), k)"
  then obtain a where "table w sid = Some a" by blast
  from session_accept_spec [OF h(1) assms(2) _ this] * obtain r w' where
    w': "session_accept os w = Some (r, Some a, w')" "keeps os {} w w'"
    "view w' = p_accept a (view w) \<or> view w' = upd a granted (view w)" by blast
  then have "sound (view w')" "a_in (view w') = a_in (view w)"
    using sound_grant [OF h(2)] h(2) by (auto simp: p_accept_def simp del: view_sel split: option.split)
  with w'(1) h(3) healthyI [OF w'(2)] show ?thesis by auto
qed

section \<open>The invariant of every run\<close>

inductive_cases stepE: "step os w c w'"

lemma step_healthy:
  assumes "step os w c w'" and "os_live os" and "healthy os w"
  shows "healthy os w'"
  using assms(1)
proof cases
  case feed
  with feed_healthy [OF assms(3)] show ?thesis by fastforce
next
  case process
  with process_healthy [OF assms(3,2)] show ?thesis by blast
next
  case drain
  with drain_healthy [OF assms(3)] show ?thesis by (metis option.inject prod.inject)
next
  case open_stream
  with open_healthy [OF assms(3,2)] show ?thesis by (metis option.inject prod.inject)
next
  case accept
  with accept_healthy [OF assms(3,2)] show ?thesis by (metis option.inject prod.inject)
next
  case read_call
  with read_healthy [OF assms(3,2)] show ?thesis by (metis option.inject prod.inject)
next
  case write_call
  with write_healthy [OF assms(3,2)] show ?thesis by (metis option.inject prod.inject)
next
  case go_away
  with go_away_healthy [OF assms(3)] show ?thesis by auto
qed

lemma reachable_healthy:
  assumes "reachable os w" and "os_live os"
  shows "healthy os w"
  using assms(1)
proof induction
  case start
  then show ?case using init_healthy assms(2) by blast
next
  case more
  with step_healthy assms(2) show ?case by blast
qed

end
