(* ===== verification/Delivery.thy ===== *)
theory Delivery
  imports System
begin

text \<open>
  What single frames do to a session that waits for one, and the way of the bytes of a write
  through both sessions to a read at the other end.
\<close>

section \<open>One frame\<close>

lemma p_loop_empty: "a_in A = [] \<Longrightarrow> p_loop n A = (0, A)"
  by (cases n) (simp_all add: p_loop_step more_frames_def)

lemma frame_hdr_nonempty [simp]: "frame_hdr type flags sid len \<noteq> []"
  by (simp add: frame_hdr_def)

lemma p_loop_frame:
  assumes "a_new_frame A" and "a_in A = frame_hdr type flags sid len @ xs"
  shows "p_loop (Suc n) A =
    (let (r, A) = p_handle (A\<lparr>a_in := xs, a_hdr := frame_hdr type flags sid len\<rparr>) in if r \<noteq> 0 then (- 1, A) else p_loop n A)"
  using assms by (simp add: p_loop_step more_frames_def p_header_def)

lemma p_process_frame:
  assumes "a_new_frame A" and "a_in A = frame_hdr type flags sid len @ xs"
    and "p_handle (A\<lparr>a_in := xs, a_hdr := frame_hdr type flags sid len\<rparr>) = (r, B)" and "r \<noteq> 0 \<or> a_in B = []"
  shows "p_process A = (if r = 0 then 0 else - 1, B)"
proof -
  have "p_process A = p_loop (Suc (Suc (11 + length xs))) A" using assms(2) by (simp add: p_process_def)
  then show ?thesis using assms p_loop_frame [OF assms(1,2), of "Suc (11 + length xs)"] by (auto simp: p_loop_empty)
qed

lemma no_flags [simp]: "\<not> has_flag 0 f"
  by (simp add: has_flag_def)

lemma next_state_no_flags [simp]: "next_state 0 st = Some st"
  by (simp add: next_state_def ack_state_def)

lemma p_flags_none:
  assumes "wire_flags (a_hdr A) = 0"
  shows "p_flags a A = (0, A)"
proof -
  have "upd a (\<lambda>s. s\<lparr>a_state := a_state t\<rparr>) A = A" if "a_streams A a = Some t" for t
    using that by (intro upd_id) auto
  then show ?thesis using assms by (auto simp: p_flags_def closing_def split: option.split)
qed

text \<open>A data frame without flags that fits the window is delivered whole.\<close>

definition after_data :: "addr \<Rightarrow> byte list \<Rightarrow> byte list \<Rightarrow> asession \<Rightarrow> asession" where
  "after_data b hdr xs A = (upd b (recv_bytes xs) A)\<lparr>a_in := [], a_hdr := hdr, a_remain := 0, a_new_frame := True\<rparr>"

lemma p_process_data:
  assumes new: "a_new_frame A" and inp: "a_in A = frame_hdr TYPE_DATA 0 sid (of_nat (length xs)) @ xs"
    and tab: "a_table A sid = Some b" and st: "a_streams A b = Some s"
    and len: "xs \<noteq> []" "length xs \<le> unat (a_recv_window s)"
  shows "p_process A = (0, after_data b (frame_hdr TYPE_DATA 0 sid (of_nat (length xs))) xs A)"
proof -
  let ?len = "of_nat (length xs) :: uint32" let ?h = "frame_hdr TYPE_DATA 0 sid ?len" let ?A = "A\<lparr>a_in := xs, a_hdr := ?h\<rparr>"
  have u: "unat ?len = length xs" using len(2) unsigned_less [where w = "a_recv_window s" and 'a = nat]
    by (intro unat_of_nat32) simp
  have nz: "?len \<noteq> 0" using u len(1) by (metis length_0_conv unat_0)
  have le: "\<not> ?len > a_recv_window s" using len(2) u by (simp add: word_less_nat_alt)
  have "p_handle ?A = (0, p_payload (Some b) (p_begin ?A))"
    using new tab st nz le p_flags_none [of ?A b] by (simp add: p_handle_def p_data_def p_syn_def)
  also have "p_payload (Some b) (p_begin ?A) = after_data b ?h xs A"
    by (simp add: p_payload_def p_take_def p_begin_def u after_data_def upd_def)
  finally have "p_handle ?A = (0, after_data b ?h xs A)" .
  from p_process_frame [OF new inp this] show ?thesis by (simp add: after_data_def)
qed

text \<open>A frame that does not fit is refused: nothing is delivered and the session goes away.\<close>

lemma p_process_too_long:
  assumes new: "a_new_frame A" and inp: "a_in A = frame_hdr TYPE_DATA 0 sid len @ xs"
    and tab: "a_table A sid = Some b" and st: "a_streams A b = Some s" and len: "a_recv_window s < len"
  shows "p_process A = (- 1, p_go_away GO_AWAY_PROTO_ERR (A\<lparr>a_in := xs, a_hdr := frame_hdr TYPE_DATA 0 sid len\<rparr>))"
proof -
  let ?A = "A\<lparr>a_in := xs, a_hdr := frame_hdr TYPE_DATA 0 sid len\<rparr>"
  have "len \<noteq> 0" using len by auto
  then have "p_handle ?A = (- 1, p_go_away GO_AWAY_PROTO_ERR ?A)"
    using new tab st len p_flags_none [of ?A b] by (simp add: p_handle_def p_data_def p_syn_def)
  from p_process_frame [OF new inp this] show ?thesis by simp
qed

text \<open>The announcement of a new stream.\<close>

lemma has_syn [simp]: "has_flag FLAG_SYN FLAG_SYN" "\<not> has_flag FLAG_SYN FLAG_ACK" "\<not> has_flag FLAG_SYN FLAG_FIN"
  "\<not> has_flag FLAG_SYN FLAG_RST"
  by (simp_all add: has_flag_def flag_defs)

lemma p_process_syn:
  assumes new: "a_new_frame A" and inp: "a_in A = frame_hdr TYPE_WINDOW_UPDATE FLAG_SYN sid 0"
    and up: "\<not> a_local_go_away A" and tab: "a_table A sid = None"
  shows "p_process A = (0, add_stream (a_brk A) (new_stream sid STATE_SYN_RECEIVED)
    (A\<lparr>a_in := [], a_hdr := frame_hdr TYPE_WINDOW_UPDATE FLAG_SYN sid 0, a_brk := Suc (a_brk A)\<rparr>))"
proof -
  let ?h = "frame_hdr TYPE_WINDOW_UPDATE FLAG_SYN sid 0" let ?A = "A\<lparr>a_in := [], a_hdr := ?h\<rparr>"
  let ?B = "add_stream (a_brk A) (new_stream sid STATE_SYN_RECEIVED) (?A\<lparr>a_brk := Suc (a_brk A)\<rparr>)"
  have s: "p_syn ?A = (0, ?B)" using up tab by (simp add: p_syn_def p_incoming_def)
  have b: "a_table ?B sid = Some (a_brk A)" "a_streams ?B (a_brk A) = Some (new_stream sid STATE_SYN_RECEIVED)" "a_hdr ?B = ?h"
    by (simp_all add: add_stream_def new_stream_def)
  have "upd (a_brk A) (\<lambda>s. s\<lparr>a_state := STATE_SYN_RECEIVED\<rparr>) ?B = ?B"
    by (rule upd_id) (simp add: add_stream_def new_stream_def)
  then have "p_flags (a_brk A) ?B = (0, ?B)"
    using b by (simp add: p_flags_def closing_def next_state_def ack_state_def new_stream_def)
  then have "p_handle ?A = (0, ?B)"
    using s b by (simp add: p_handle_def p_window_update_def type_defs)
  from p_process_frame [OF new _ this] inp show ?thesis by (simp add: add_stream_def)
qed

text \<open>
  Payload for an unknown stream that arrives in part: the code counts the whole chunk as
  dropped, so it takes what is still to come of the payload for the next header.
\<close>

lemma p_process_skip:
  assumes new: "a_new_frame A" and inp: "a_in A = frame_hdr TYPE_DATA 0 sid len @ xs"
    and tab: "a_table A sid = None" and len: "xs \<noteq> []" "length xs < unat len" "unat len \<le> 4096"
  shows "p_process A = (0, A\<lparr>a_in := [], a_hdr := frame_hdr TYPE_DATA 0 sid len, a_remain := 0, a_new_frame := True\<rparr>)"
proof -
  let ?A = "A\<lparr>a_in := xs, a_hdr := frame_hdr TYPE_DATA 0 sid len\<rparr>"
  have k: "(length xs + 4095) div 4096 = 1" using len by (cases xs) auto
  have "p_handle ?A = (0, p_payload None (p_begin ?A))"
    using new tab by (simp add: p_handle_def p_data_def p_syn_def)
  also have "p_payload None (p_begin ?A) =
    A\<lparr>a_in := [], a_hdr := frame_hdr TYPE_DATA 0 sid len, a_remain := 0, a_new_frame := True\<rparr>"
    using len k by (simp add: p_payload_def p_skip_def p_begin_def)
  finally show ?thesis using p_process_frame [OF new inp, of 0] by simp
qed

section \<open>From a write to a read\<close>

text \<open>The frame of a write in the state where no flag is due.\<close>

lemma data_frame_plain:
  assumes "fst (send_step (a_state s)) = 0" and "n \<le> length data"
  defines "xs \<equiv> take (min (unat (a_send_window s)) n) data"
  shows "data_frame data n s = frame_hdr TYPE_DATA 0 (a_id s) (of_nat (length xs)) @ xs"
proof -
  have "length xs = min (unat (a_send_window s)) n" using assms(2) by (simp add: xs_def)
  then show ?thesis using assms(1) by (simp add: data_frame_def write_len_def unat_write_len xs_def [symmetric])
    (simp add: xs_def unat_write_len flip: write_len_def)
qed

lemma write_arrives:
  assumes inv: "winv os {} w" and rel: "reliable os w" and ok: "frame_ok (view w)" and new: "ss_new_frame (sess w)"
    and inp: "a_in (view w) = frame_hdr TYPE_DATA 0 sid (of_nat (length xs)) @ xs" "length (a_in (view w)) < 2 ^ 31"
    and tab: "table w sid = Some b" and st: "heap w b = Some s"
    and len: "xs \<noteq> []" "length xs \<le> unat (st_recv_window s)"
  shows "\<exists>w'. session_process os w = Some (0, w') \<and> winv os {} w' \<and> reliable os w' \<and>
    view w' = after_data b (frame_hdr TYPE_DATA 0 sid (of_nat (length xs))) xs (view w)"
proof -
  have live: "os_live os" using rel by (simp add: reliable_def os_reliable_def)
  have "p_process (view w) = (0, after_data b (frame_hdr TYPE_DATA 0 sid (of_nat (length xs))) xs (view w))"
    by (rule p_process_data [of _ _ _ _ "view_stream s"]) (use new inp tab st len in \<open>auto simp: view_stream_def\<close>)
  then show ?thesis using session_process_spec [OF inv live ok inp(2)] rel by (auto simp: processed_def keeps_def)
qed

lemma write_then_peek:
  assumes w: "winv os {} w" "reliable os w" "heap w a = Some s" "a_out (view w) = []"
      "st_state s \<in> {STATE_SYN_SENT, STATE_ESTABLISHED, STATE_REMOTE_CLOSE}"
    and n: "n \<le> length data" "n < 2 ^ 30"
  defines "k \<equiv> min (unat (st_send_window s)) n"
  assumes k: "0 < k"
  shows "\<exists>w'. stream_write os env a data n w = Some (int k, w') \<and>
    session_send_buf_peek (12 + k) w' = Some (int (12 + k), frame_hdr TYPE_DATA 0 (st_id s) (of_nat k) @ take k data, w')"
proof -
  have live: "os_live os" using w(2) by (simp add: reliable_def os_reliable_def)
  have lx: "length (take k data) = k" using n(1) by (simp add: k_def)
  let ?bs = "frame_hdr TYPE_DATA 0 (st_id s) (of_nat k) @ take k data"
  have "fst (send_step (st_state s)) = 0" using w(5) by auto
  then have fr: "data_frame data n (view_stream s) = ?bs" using data_frame_plain [of "view_stream s" n data] n(1) lx k_def by simp
  have "st_send_window s \<noteq> 0" "n < 2 ^ 31" using k n(2) by (auto simp: k_def)
  from stream_write_data [OF w(1) live w(3) _ this(1) n(1) this(2), of env] w(2,5) obtain w' where
    w': "stream_write os env a data n w = Some (int k, w')" "keeps os {} w w'" "view w' = p_write a data n (view w)"
    by (auto simp: write_post_def k_def)
  have "a_out (view w') = ?bs" unfolding w'(3) using w(3,4) fr by (simp add: p_write_def)
  moreover have "length ?bs = 12 + k" "k < 2 ^ 30" using lx n(2) by (simp_all add: k_def)
  ultimately show ?thesis using session_send_buf_spec(2) [OF keeps_winv [OF w'(2)], of "12 + k"] w'(1)
    by (simp del: view_sel)
qed

lemma receive_then_read:
  assumes w: "healthy os w" "reliable os w" "ss_new_frame (sess w)" "a_in (view w) = []"
      "table w sid = Some b" "heap w b = Some t" "bio_bytes (st_recv_buf t) = []" "st_state t \<noteq> STATE_RESET"
    and xs: "xs \<noteq> []" "length xs < 2 ^ 30" "length xs \<le> unat (st_recv_window t)"
  defines "k \<equiv> length xs" and "bs \<equiv> frame_hdr TYPE_DATA 0 sid (of_nat (length xs)) @ xs"
  shows "\<exists>w1 w2 w3. session_recv_buf_write bs (12 + k) w = Some (int (12 + k), w1) \<and>
    session_process os w1 = Some (0, w2) \<and> stream_read os env b k w2 = Some (int k, xs, w3)"
proof -
  have live: "os_live os" using w(2) by (simp add: reliable_def os_reliable_def)
  note h = healthyD [OF w(1)]
  have lb: "length bs = 12 + k" "12 + k < 2 ^ 31" using xs(2) by (simp_all add: bs_def k_def)
  from session_recv_buf_write_spec [OF h(1), of "12 + k" bs] w(2,4) lb obtain w1 where
    w1: "session_recv_buf_write bs (12 + k) w = Some (int (12 + k), w1)" "keeps os {} w w1" "view w1 = (view w)\<lparr>a_in := bs\<rparr>" by auto
  have i1: "winv os {} w1" "reliable os w1" using w1(2) w(2) by (simp_all add: keeps_def)
  have f: "a_table (view w1) sid = Some b" "a_new_frame (view w1)" "a_in (view w1) = bs" "sound (view w1)"
    "a_streams (view w1) b = Some (view_stream t)" unfolding w1(3) using w(3,5,6) h(2) by simp_all
  have h1: "healthy os w1" using i1(1) f(3,4) lb by (simp add: healthy_def)
  obtain t1 where t1: "heap w1 b = Some t1" "view_stream t1 = view_stream t" using f(5) by auto
  have "st_recv_window t1 = st_recv_window t" using arg_cong [OF t1(2), of a_recv_window] by simp
  then have "\<exists>w'. session_process os w1 = Some (0, w') \<and> winv os {} w' \<and> reliable os w' \<and>
    view w' = after_data b (frame_hdr TYPE_DATA 0 sid (of_nat (length xs))) xs (view w1)"
    using f t1(1) xs lb healthyD(5) [OF h1] by (intro write_arrives [OF i1, where s = t1]) (auto simp: bs_def k_def)
  then obtain w2 where w2: "session_process os w1 = Some (0, w2)" "winv os {} w2" "reliable os w2"
    "view w2 = after_data b (frame_hdr TYPE_DATA 0 sid (of_nat (length xs))) xs (view w1)" by blast
  note bd = healthyD(4) [OF process_healthy [OF h1 live w2(1)]]
  have "a_streams (view w2) b = Some (recv_bytes xs (view_stream t))" unfolding w2(4) after_data_def using t1 by simp
  then obtain t2 where t2: "heap w2 b = Some t2" "view_stream t2 = recv_bytes xs (view_stream t)" by auto
  have d: "bio_bytes (st_recv_buf t2) = xs" "st_state t2 = st_state t"
    using arg_cong [OF t2(2), of a_data] arg_cong [OF t2(2), of a_state] w(7) by (simp_all add: recv_bytes_def)
  from stream_read_data [OF w2(2) live t2(1) bd, of k env] d xs w(8) w2(3) obtain w3 where
    "stream_read os env b k w2 = Some (int k, xs, w3)" by (auto simp: read_post_def k_def)
  with w1(1) w2(1) show ?thesis by blast
qed

end
