(* ===== verification/Simulation.thy ===== *)
theory Simulation
  imports Delivery
begin

text \<open>
  A kernel that satisfies what the theorems assume of the system calls: socket pairs as two
  queues of bytes. Descriptors \<open>2 n\<close> and \<open>2 n + 1\<close> are the ends of pair \<open>n\<close>; numbers are not
  reused, so \<^verbatim>\<open>close\<close> has nothing to do. A read of an empty socket blocks; the status flags say
  non-blocking and cannot be changed. The theory also
  builds the sessions the concrete instances of the theorems start from.
\<close>

record sim =
  pairs :: nat
  queue :: "int \<Rightarrow> byte list"

definition sim_peer :: "int \<Rightarrow> sim \<Rightarrow> int option" where
  "sim_peer fd k = (if 0 \<le> fd \<and> fd < 2 * int (pairs k) then Some (if even fd then fd + 1 else fd - 1) else None)"

definition sim_read :: "int \<Rightarrow> nat \<Rightarrow> sim \<Rightarrow> (byte list option \<times> sim) option" where
  "sim_read fd n k =
     (if n = 0 then Some (Some [], k)
      else if queue k fd = [] then None
      else Some (Some (take n (queue k fd)), k\<lparr>queue := (queue k)(fd := drop n (queue k fd))\<rparr>))"

definition sim_write :: "int \<Rightarrow> byte list \<Rightarrow> sim \<Rightarrow> (int \<times> sim) option" where
  "sim_write fd d k = Some (int (length d),
     case sim_peer fd k of None \<Rightarrow> k | Some p \<Rightarrow> k\<lparr>queue := (queue k)(p := queue k p @ d)\<rparr>)"

definition sim_socketpair :: "sim \<Rightarrow> (int \<times> int) option \<times> sim" where
  "sim_socketpair k = (Some (2 * int (pairs k), 2 * int (pairs k) + 1), k\<lparr>pairs := Suc (pairs k)\<rparr>)"

definition sim_select :: "int \<Rightarrow> direction \<Rightarrow> sim \<Rightarrow> (int \<times> bool \<times> sim) option" where
  "sim_select fd dir k = (if dir = For_Reading \<and> queue k fd = [] then None else Some (1, True, k))"

definition sim_os :: "sim os" where
  "sim_os = \<lparr>host_le = True, O_NONBLOCK = 2048, sys_read = sim_read, sys_write = sim_write,
     sys_socketpair = sim_socketpair, sys_setsockopt = (\<lambda>fd opt v k. (0, k)),
     sys_getsockopt = (\<lambda>fd opt k. (Some 2304, k)), sys_getfl = (\<lambda>fd k. 2048), sys_setfl = (\<lambda>fd v k. (- 1, k)),
     sys_select = sim_select, sys_close = (\<lambda>fd k. k), uninit = (\<lambda>n k. replicate n 0),
     avail = (\<lambda>fd k. length (queue k fd)), peer = sim_peer\<rparr>"

lemma sim_reads: "reads_ok sim_os"
  by (auto simp: reads_ok_def sim_os_def sim_read_def sim_peer_def)

lemma sim_writes: "writes_ok sim_os"
  by (auto simp: writes_ok_def sim_os_def sim_write_def sim_peer_def)

lemma sim_pairs: "pairs_ok sim_os"
  by (auto simp: pairs_ok_def sim_os_def sim_socketpair_def sim_peer_def paired_def)

lemma sim_live: "os_live sim_os"
  using sim_reads sim_writes sim_pairs
  by (simp add: os_live_def) (simp add: closes_ok_def options_ok_def sim_os_def)

lemma sim_reliable: "os_reliable sim_os"
  using sim_live unfolding os_reliable_def
  by (simp add: sim_os_def sim_read_def sim_write_def sim_socketpair_def)

section \<open>Sessions\<close>

definition al0 :: alloc where
  "al0 = \<lparr>calls = 0, succeeds = \<lambda>_. True\<rparr>"

definition bio0 :: bio where
  "bio0 = \<lparr>bio_buffers = stailq_new, bio_offset = 0, bio_len = 0\<rparr>"

lemma never_fails_al0 [simp]: "never_fails al0"
  by (simp add: al0_def never_fails_def)

lemma bio0_new: "bio_new al0 = (Some bio0, al0\<lparr>calls := 1\<rparr>)"
  by (simp add: bio_new_def malloc_def al0_def bio0_def)

lemma bio0_ok [simp]: "bio_ok bio0" "bio_bytes bio0 = []"
  using bio_new_ok [OF bio0_new] by simp_all

text \<open>Memory before \<^verbatim>\<open>session_init\<close>: no stream, no mutex.\<close>

definition blank :: "sim world" where
  "blank = \<lparr>sess = \<lparr>ss_remote_go_away = False, ss_local_go_away = False, ss_next_id = 0, ss_new_frame = False,
      ss_frame_remain = 0, ss_recv_buf = bio0, ss_send_buf = bio0, ss_streams = \<lparr>rbh_root = None, rbe = \<lambda>_. \<lparr>rbe_left = None, rbe_right = None, rbe_parent = None, rbe_color = RB_BLACK\<rparr>\<rparr>,
      ss_hdr = [], ss_fd = 0, ss_private_fd = 0\<rparr>,
    heap = Map.empty, brk = 0, mutexes = (\<lambda>_. Uninitialised), mem = al0, errno = 0,
    kern = \<lparr>pairs = 0, queue = \<lambda>_. []\<rparr>\<rparr>"

lemma blank_reliable: "heap blank = Map.empty" "reliable sim_os blank"
  using sim_reliable by (simp_all add: blank_def reliable_def)

definition started :: "bool \<Rightarrow> sim world" where
  "started client = snd (the (session_init sim_os client blank))"

lemma started_ok:
  "session_init sim_os client blank = Some (0, started client)" "winv sim_os {} (started client)"
  "view (started client) = start_view client 0" "reliable sim_os (started client)" "healthy sim_os (started client)"
proof -
  obtain w' where w': "session_init sim_os client blank = Some (0, w')" "winv sim_os {} w'"
    "view w' = start_view client (brk blank)" "reliable sim_os w'"
    using session_init_spec [OF blank_reliable(1) sim_live, of client] blank_reliable(2) by auto
  then show "session_init sim_os client blank = Some (0, started client)" "winv sim_os {} (started client)"
    "view (started client) = start_view client 0" "reliable sim_os (started client)"
    by (simp_all add: started_def blank_def)
  then show "healthy sim_os (started client)" using init_healthy [OF blank_reliable(1) sim_live] by blast
qed

lemma started_reachable: "reachable sim_os (started client)"
  using reachable.start [OF blank_reliable(1) started_ok(1)] .

text \<open>A session with input from its peer, and one that has opened a stream.\<close>

definition fed :: "byte list \<Rightarrow> sim world \<Rightarrow> sim world" where
  "fed bs w = snd (the (session_recv_buf_write bs (length bs) w))"

lemma fed_ok:
  assumes "winv sim_os {} w" and "reliable sim_os w" and "length bs < 2 ^ 31"
  shows "session_recv_buf_write bs (length bs) w = Some (int (length bs), fed bs w)" "winv sim_os {} (fed bs w)"
    "view (fed bs w) = (view w)\<lparr>a_in := a_in (view w) @ bs\<rparr>" "reliable sim_os (fed bs w)"
proof -
  obtain w' where "session_recv_buf_write bs (length bs) w = Some (int (length bs), w')" "keeps sim_os {} w w'"
    "view w' = (view w)\<lparr>a_in := a_in (view w) @ bs\<rparr>"
    using session_recv_buf_write_spec [OF assms(1), of "length bs" bs] assms(2,3) by auto
  then show "session_recv_buf_write bs (length bs) w = Some (int (length bs), fed bs w)" "winv sim_os {} (fed bs w)"
    "view (fed bs w) = (view w)\<lparr>a_in := a_in (view w) @ bs\<rparr>" "reliable sim_os (fed bs w)"
    using assms(2) by (simp_all add: fed_def keeps_def)
qed

definition opened :: "sim world" where
  "opened = snd (snd (the (session_open sim_os [] (started True))))"

lemma opened_ok:
  "session_open sim_os [] (started True) = Some (0, Some 0, opened)" "winv sim_os {} opened" "reliable sim_os opened"
  "view opened = p_open (start_view True 0)"
proof -
  let ?w = "started True"
  have f: "a_remote_go_away (view ?w) = False" "a_next_id (view ?w) = 1" "a_table (view ?w) = Map.empty" "a_brk (view ?w) = 0"
    unfolding started_ok(3) by (simp_all add: start_view_def)
  obtain w' where "session_open sim_os [] ?w = Some (0, Some 0, w')" "keeps sim_os {} ?w w'" "view w' = p_open (view ?w)"
    using session_open_spec [OF started_ok(2) sim_live, of True] f started_ok(4) by auto
  then show "session_open sim_os [] (started True) = Some (0, Some 0, opened)" "winv sim_os {} opened" "reliable sim_os opened"
    "view opened = p_open (start_view True 0)"
    using started_ok(3,4) by (simp_all add: opened_def keeps_def)
qed

lemma opened_stream: "\<exists>s. heap opened 0 = Some s \<and> view_stream s = (new_stream 1 STATE_INIT)\<lparr>a_state := STATE_SYN_SENT\<rparr>"
proof -
  have "a_streams (view opened) 0 = Some ((new_stream 1 STATE_INIT)\<lparr>a_state := STATE_SYN_SENT\<rparr>)"
    unfolding opened_ok(4) by (simp add: p_open_def start_view_def add_stream_def Let_def)
  then show ?thesis by auto
qed

lemma opened_reachable: "reachable sim_os opened"
proof -
  have "a_table (view (started True)) = Map.empty" "a_new_frame (view (started True))"
    unfolding started_ok(3) by (simp_all add: start_view_def)
  then have "step sim_os (started True) Open opened" using opened_ok(1) by (intro step.open_stream) auto
  with started_reachable show ?thesis by (rule reachable.more)
qed

text \<open>The peer of that session: it has met the stream, and then received three bytes on it.\<close>

definition run :: "sim world \<Rightarrow> sim world" where
  "run w = snd (the (session_process sim_os w))"

lemma run_ok:
  assumes "winv sim_os {} w" and "reliable sim_os w" and "frame_ok (view w)" and "length (a_in (view w)) < 2 ^ 31"
    and "p_process (view w) = (0, A)"
  shows "session_process sim_os w = Some (0, run w)" "winv sim_os {} (run w)" "reliable sim_os (run w)" "view (run w) = A"
  using session_process_spec [OF assms(1) sim_live assms(3,4)] assms(2,5)
  by (auto simp: processed_def run_def keeps_def)

definition syn_frame :: "byte list" where
  "syn_frame = frame_hdr TYPE_WINDOW_UPDATE FLAG_SYN 1 0"

definition met :: "sim world" where
  "met = run (fed syn_frame (started False))"

definition met_view :: asession where
  "met_view = add_stream 0 (new_stream 1 STATE_SYN_RECEIVED) ((start_view False 0)\<lparr>a_hdr := syn_frame, a_brk := 1\<rparr>)"

lemma length_syn [simp]: "length syn_frame = 12"
  by (simp add: syn_frame_def)

lemma met_ok:
  "session_process sim_os (fed syn_frame (started False)) = Some (0, met)"
  "winv sim_os {} met" "reliable sim_os met" "view met = met_view"
proof -
  have "length syn_frame < 2 ^ 31" by simp
  note f = fed_ok [OF started_ok(2,4) this, of False]
  have v: "view (fed syn_frame (started False)) = (start_view False 0)\<lparr>a_in := syn_frame\<rparr>"
    using f(3) unfolding started_ok(3) by (simp add: start_view_def)
  have "p_process ((start_view False 0)\<lparr>a_in := syn_frame\<rparr>) = (0, met_view)"
    using p_process_syn [of "(start_view False 0)\<lparr>a_in := syn_frame\<rparr>" 1]
    by (simp add: syn_frame_def met_view_def start_view_def)
  then show "session_process sim_os (fed syn_frame (started False)) = Some (0, met)"
    "winv sim_os {} met" "reliable sim_os met" "view met = met_view"
    using run_ok [OF f(2,4), of met_view] unfolding v met_def by (auto simp: frame_ok_def start_view_def)
qed

definition note_frame :: "byte list" where
  "note_frame = frame_hdr TYPE_DATA 0 1 3 @ [7, 8, 9]"

definition noted :: "sim world" where
  "noted = run (fed note_frame met)"

lemma noted_ok:
  "session_process sim_os (fed note_frame met) = Some (0, noted)" "winv sim_os {} noted" "reliable sim_os noted"
  "view noted = after_data 0 (frame_hdr TYPE_DATA 0 1 3) [7, 8, 9] met_view"
proof -
  have l: "length note_frame = 15" by (simp add: note_frame_def)
  then have "length note_frame < 2 ^ 31" by simp
  note f = fed_ok [OF met_ok(2,3) this]
  have v: "view (fed note_frame met) = met_view\<lparr>a_in := note_frame\<rparr>"
    using f(3) unfolding met_ok(4) by (simp add: met_view_def start_view_def add_stream_def)
  have 3: "(of_nat (length [7 :: byte, 8, 9]) :: uint32) = 3" by simp
  have "p_process (met_view\<lparr>a_in := note_frame\<rparr>) =
      (0, after_data 0 (frame_hdr TYPE_DATA 0 1 3) [7, 8, 9] (met_view\<lparr>a_in := note_frame\<rparr>))"
    using p_process_data [of "met_view\<lparr>a_in := note_frame\<rparr>" 1 "[7, 8, 9]" 0 "new_stream 1 STATE_SYN_RECEIVED", unfolded 3]
    by (simp add: note_frame_def met_view_def start_view_def add_stream_def new_stream_def MAX_STREAM_WINDOW_SIZE_def)
  also have "after_data 0 (frame_hdr TYPE_DATA 0 1 3) [7, 8, 9] (met_view\<lparr>a_in := note_frame\<rparr>) =
      after_data 0 (frame_hdr TYPE_DATA 0 1 3) [7, 8, 9] met_view" by (simp add: after_data_def upd_def)
  finally show "session_process sim_os (fed note_frame met) = Some (0, noted)" "winv sim_os {} noted" "reliable sim_os noted"
    "view noted = after_data 0 (frame_hdr TYPE_DATA 0 1 3) [7, 8, 9] met_view"
    using run_ok [OF f(2,4)] l unfolding v noted_def
    by (auto simp: frame_ok_def met_view_def start_view_def add_stream_def)
qed

lemma noted_stream:
  "\<exists>s. heap noted 0 = Some s \<and> view_stream s = recv_bytes [7, 8, 9] (new_stream 1 STATE_SYN_RECEIVED)"
proof -
  have "a_streams (view noted) 0 = Some (recv_bytes [7, 8, 9] (new_stream 1 STATE_SYN_RECEIVED))"
    unfolding noted_ok(4) by (simp add: after_data_def met_view_def start_view_def add_stream_def)
  then show ?thesis by auto
qed

lemma noted_bounded: "sound (view noted)"
  unfolding noted_ok(4)
  by (simp add: sound_def buffers_bounded_def frame_fits_def frame_ok_def after_data_def met_view_def start_view_def
      add_stream_def recv_bytes_def new_stream_def MAX_STREAM_WINDOW_SIZE_def)

end
