(* ===== verification/Writers.thy ===== *)
theory Writers
  imports Simulation
begin

text \<open>
  Several threads in \<^verbatim>\<open>stream_write\<close> at the same time. A call is cut at the points where it holds no
  mutex; between two steps of a thread any other thread may take steps. The steps are the
  operations of the sequential model, and a call that is not disturbed is proved to be that
  model. The two operations of \<^verbatim>\<open>session_go_away_for_reason\<close> are one step.
\<close>

section \<open>A call as a sequence of steps\<close>

text \<open>Where a writer is: before the test of the state, before the test of the window, in
  \<^verbatim>\<open>select\<close>, before the flags are taken, before header and data are appended, before the window is
  charged, before the stream is marked as waiting, or back with a result.\<close>

datatype write_pc =
  W_State | W_Window | W_Select int | W_Flags uint32 | W_Header uint32 uint16 | W_Data uint32 | W_Charge uint32
| W_Wait uint32 | W_Go_Away uint32 | W_Done int

record writer =
  wr_stream :: addr
  wr_data :: "byte list"
  wr_n :: nat
  wr_pc :: write_pc

text \<open>A thread whose \<^verbatim>\<open>select\<close> does not return yet stays where it is.\<close>

definition select_turn :: "'k os \<Rightarrow> int \<Rightarrow> 'k world \<Rightarrow> (write_pc \<times> 'k world) option" where
  "select_turn os fd w =
     (case sys_select os fd For_Writing (kern w) of
        None \<Rightarrow> Some (W_Select fd, w)
      | Some (r, isset, k) \<Rightarrow>
          let w = w\<lparr>kern := k\<rparr> in
          if r \<le> 0 then Some (W_Done (- 1), w) else do { _ \<leftarrow> c_assert isset; Some (W_State, w) })"

definition window_turn :: "'k os \<Rightarrow> addr \<Rightarrow> 'k world \<Rightarrow> (write_pc \<times> 'k world) option" where
  "window_turn os a w = do {
     w \<leftarrow> mutex_lock (Send_lock a) w;
     s \<leftarrow> heap w a;
     w \<leftarrow> mutex_unlock (Send_lock a) w;
     if st_send_window s = 0 then
       (if \<not> would_block os (st_fd s) w then Some (W_Done (- 1), w\<lparr>errno := EAGAIN\<rparr>) else Some (W_Select (st_fd s), w))
     else Some (W_Flags (st_send_window s), w)
   }"

definition header_turn :: "'k os \<Rightarrow> addr \<Rightarrow> uint32 \<Rightarrow> uint16 \<Rightarrow> 'k world \<Rightarrow> (write_pc \<times> 'k world) option" where
  "header_turn os a len flags w = do {
     s \<leftarrow> heap w a;
     (r, w) \<leftarrow> session_send_buf_write (hdr_encode (host_le os) TYPE_DATA flags (st_id s) len) 12 w;
     Some (if r = - 1 then W_Done (- 1) else W_Data len, w)
   }"

definition data_turn :: "byte list \<Rightarrow> uint32 \<Rightarrow> 'k world \<Rightarrow> (write_pc \<times> 'k world) option" where
  "data_turn data len w = do {
     (r, w) \<leftarrow> session_send_buf_write data (unat len) w;
     Some (if r = - 1 then W_Done (- 1) else W_Charge len, w)
   }"

definition charge_turn :: "addr \<Rightarrow> uint32 \<Rightarrow> 'k world \<Rightarrow> (write_pc \<times> 'k world) option" where
  "charge_turn a len w = do {
     w \<leftarrow> mutex_lock (Send_lock a) w;
     s \<leftarrow> heap w a;
     let window = st_send_window s - len;
     let w = put_stream a (s\<lparr>st_send_window := window\<rparr>) w;
     w \<leftarrow> mutex_unlock (Send_lock a) w;
     Some (if window = 0 then W_Wait len else W_Done (sint len), w)
   }"

definition write_turn :: "'k os \<Rightarrow> writer \<Rightarrow> 'k world \<Rightarrow> (write_pc \<times> 'k world) option" where
  "write_turn os x w =
     (let a = wr_stream x in
      case wr_pc x of
        W_State \<Rightarrow> do { (closed, w) \<leftarrow> write_state_check a w; Some (if closed then W_Done 0 else W_Window, w) }
      | W_Window \<Rightarrow> window_turn os a w
      | W_Select fd \<Rightarrow> select_turn os fd w
      | W_Flags window \<Rightarrow> do {
          (flags, w) \<leftarrow> stream_send_flags a w;
          Some (W_Header (of_nat (min (unat window) (wr_n x))) flags, w)
        }
      | W_Header len flags \<Rightarrow> header_turn os a len flags w
      | W_Data len \<Rightarrow> data_turn (wr_data x) len w
      | W_Charge len \<Rightarrow> charge_turn a len w
      | W_Wait len \<Rightarrow> do {
          (e, w) \<leftarrow> stream_writeable_waiting os a w;
          Some (if e \<noteq> 0 then W_Go_Away len else W_Done (sint len), w)
        }
      | W_Go_Away len \<Rightarrow> do {
          (_, w) \<leftarrow> session_go_away_for_reason os GO_AWAY_INTERNAL_ERR w;
          Some (W_Done (sint len), w)
        }
      | W_Done r \<Rightarrow> Some (W_Done r, w))"

text \<open>A schedule is a list of thread numbers.\<close>

primrec run_writers :: "'k os \<Rightarrow> nat list \<Rightarrow> writer list \<Rightarrow> 'k world \<Rightarrow> (writer list \<times> 'k world) option" where
  "run_writers os [] xs w = Some (xs, w)"
| "run_writers os (t # ts) xs w =
     (if t < length xs then do {
        (pc, w) \<leftarrow> write_turn os (xs ! t) w;
        run_writers os ts (xs[t := (xs ! t)\<lparr>wr_pc := pc\<rparr>]) w
      }
      else run_writers os ts xs w)"

section \<open>An undisturbed writer is the sequential call\<close>

text \<open>\<open>goes os x w pc w'\<close>: the writer, alone, gets from \<open>x\<close> to \<open>pc\<close>.\<close>

definition goes :: "'k os \<Rightarrow> writer \<Rightarrow> 'k world \<Rightarrow> write_pc \<Rightarrow> 'k world \<Rightarrow> bool" where
  "goes os x w pc w' \<longleftrightarrow> (\<exists>k. run_writers os (replicate k 0) [x] w = Some ([x\<lparr>wr_pc := pc\<rparr>], w'))"

lemma goes_refl: "wr_pc x = pc \<Longrightarrow> goes os x w pc w"
  unfolding goes_def by (intro exI [of _ 0]) auto

lemma goes_turn:
  assumes "write_turn os x w = Some (pc, w1)" and "goes os (x\<lparr>wr_pc := pc\<rparr>) w1 pc' w'"
  shows "goes os x w pc' w'"
proof -
  from assms(2) obtain k where "run_writers os (replicate k 0) [x\<lparr>wr_pc := pc\<rparr>] w1 = Some ([x\<lparr>wr_pc := pc'\<rparr>], w')"
    by (auto simp: goes_def)
  then show ?thesis using assms(1) unfolding goes_def by (intro exI [of _ "Suc k"]) simp
qed

lemma goes_done: "write_turn os x w = Some (pc, w') \<Longrightarrow> goes os x w pc w'"
  by (rule goes_turn) (auto intro: goes_refl)

lemma write_finish_goes:
  assumes "write_finish os a len w = Some (r, w')"
  shows "goes os \<lparr>wr_stream = a, wr_data = data, wr_n = n, wr_pc = W_Charge len\<rparr> w (W_Done r) w'"
proof -
  from assms obtain w1 s w2 where w2: "mutex_lock (Send_lock a) w = Some w1" "heap w1 a = Some s"
    "mutex_unlock (Send_lock a) (put_stream a (s\<lparr>st_send_window := st_send_window s - len\<rparr>) w1) = Some w2"
    by (auto simp: write_finish_def bind_eq_Some_iff Let_def)
  have turn: "charge_turn a len w = Some (if st_send_window s - len = 0 then W_Wait len else W_Done (sint len), w2)"
    using w2 by (simp add: charge_turn_def)
  show ?thesis
  proof (cases "st_send_window s - len = 0")
    case False
    then show ?thesis using assms w2 turn by (intro goes_done) (auto simp: write_turn_def write_finish_def)
  next
    case True
    with assms w2 obtain e w3 where e: "stream_writeable_waiting os a w2 = Some (e, w3)" "r = sint len"
      "if e \<noteq> 0 then \<exists>x. session_go_away_for_reason os GO_AWAY_INTERNAL_ERR w3 = Some (x, w') else w' = w3"
      by (auto simp: write_finish_def bind_eq_Some_iff split: if_splits)
    show ?thesis
    proof (rule goes_turn)
      show "write_turn os \<lparr>wr_stream = a, wr_data = data, wr_n = n, wr_pc = W_Charge len\<rparr> w = Some (W_Wait len, w2)"
        using turn True by (simp add: write_turn_def)
      have wait: "write_turn os \<lparr>wr_stream = a, wr_data = data, wr_n = n, wr_pc = W_Wait len\<rparr> w2 =
          Some (if e \<noteq> 0 then W_Go_Away len else W_Done (sint len), w3)"
        using e(1) by (simp add: write_turn_def)
      have "goes os \<lparr>wr_stream = a, wr_data = data, wr_n = n, wr_pc = W_Wait len\<rparr> w2 (W_Done r) w'"
      proof (cases "e = 0")
        case True
        with wait e(2,3) show ?thesis by (intro goes_done) simp
      next
        case False
        with e(2,3) have "goes os \<lparr>wr_stream = a, wr_data = data, wr_n = n, wr_pc = W_Go_Away len\<rparr> w3 (W_Done r) w'"
          by (intro goes_done) (auto simp: write_turn_def)
        with False show ?thesis by (intro goes_turn [OF wait]) simp
      qed
      then show "goes os (\<lparr>wr_stream = a, wr_data = data, wr_n = n, wr_pc = W_Charge len\<rparr>\<lparr>wr_pc := W_Wait len\<rparr>) w2
          (W_Done r) w'" by simp
    qed
  qed
qed

lemma write_data_goes:
  assumes "write_data os a window data n w = Some (r, w')"
  shows "goes os \<lparr>wr_stream = a, wr_data = data, wr_n = n, wr_pc = W_Flags window\<rparr> w (W_Done r) w'"
proof -
  let ?len = "of_nat (min (unat window) n) :: uint32"
  from assms obtain flags w1 s r2 w2 where w2: "stream_send_flags a w = Some (flags, w1)" "heap w1 a = Some s"
    "session_send_buf_write (hdr_encode (host_le os) TYPE_DATA flags (st_id s) ?len) 12 w1 = Some (r2, w2)"
    "if r2 = - 1 then r = - 1 \<and> w' = w2 else
      \<exists>r3 w3. session_send_buf_write data (unat ?len) w2 = Some (r3, w3) \<and>
        (if r3 = - 1 then r = - 1 \<and> w' = w3 else write_finish os a ?len w3 = Some (r, w'))"
    by (auto simp: write_data_def bind_eq_Some_iff Let_def split: if_splits)
  have f: "write_turn os \<lparr>wr_stream = a, wr_data = data, wr_n = n, wr_pc = W_Flags window\<rparr> w = Some (W_Header ?len flags, w1)"
    using w2(1) by (simp add: write_turn_def)
  have h: "write_turn os \<lparr>wr_stream = a, wr_data = data, wr_n = n, wr_pc = W_Header ?len flags\<rparr> w1 =
      Some (if r2 = - 1 then W_Done (- 1) else W_Data ?len, w2)"
    using w2(2,3) by (simp add: write_turn_def header_turn_def)
  have "goes os \<lparr>wr_stream = a, wr_data = data, wr_n = n, wr_pc = W_Header ?len flags\<rparr> w1 (W_Done r) w'"
  proof (cases "r2 = - 1")
    case True
    with h w2(4) show ?thesis by (intro goes_done) simp
  next
    case False
    with w2(4) obtain r3 w3 where w3: "session_send_buf_write data (unat ?len) w2 = Some (r3, w3)"
      "if r3 = - 1 then r = - 1 \<and> w' = w3 else write_finish os a ?len w3 = Some (r, w')" by auto
    have d: "write_turn os \<lparr>wr_stream = a, wr_data = data, wr_n = n, wr_pc = W_Data ?len\<rparr> w2 =
        Some (if r3 = - 1 then W_Done (- 1) else W_Charge ?len, w3)"
      using w3(1) by (simp add: write_turn_def data_turn_def)
    have "goes os \<lparr>wr_stream = a, wr_data = data, wr_n = n, wr_pc = W_Data ?len\<rparr> w2 (W_Done r) w'"
    proof (cases "r3 = - 1")
      case True
      with d w3(2) show ?thesis by (intro goes_done) simp
    next
      case False
      with d w3(2) write_finish_goes [of os a ?len w3 r w' data n] show ?thesis by (intro goes_turn [OF d]) simp
    qed
    with h False show ?thesis by (intro goes_turn [OF h]) simp
  qed
  then show ?thesis by (intro goes_turn [OF f]) simp
qed

text \<open>The window is 0 and the call blocks: the step through \<^verbatim>\<open>select\<close>, with \<open>f\<close> the call it repeats.\<close>

lemma write_select_goes:
  assumes run: "c_select os id fd For_Writing w \<bind> (\<lambda>(r, isset, w). if r \<le> 0 then Some (- 1, w)
      else c_assert isset \<bind> (\<lambda>_. f w)) = Some y"
    and again: "\<And>w y. f w = Some y \<Longrightarrow>
      goes os \<lparr>wr_stream = a, wr_data = data, wr_n = n, wr_pc = W_State\<rparr> w (W_Done (fst y)) (snd y)"
  shows "goes os \<lparr>wr_stream = a, wr_data = data, wr_n = n, wr_pc = W_Select fd\<rparr> w (W_Done (fst y)) (snd y)"
proof -
  from run obtain t where "sys_select os fd For_Writing (kern w) = Some t" by (auto simp: c_select_def bind_eq_Some_iff)
  then obtain r isset k where k: "sys_select os fd For_Writing (kern w) = Some (r, isset, k)" by (cases t) auto
  with run have k2: "if r \<le> 0 then y = (- 1, w\<lparr>kern := k\<rparr>) else isset \<and> f (w\<lparr>kern := k\<rparr>) = Some y"
    by (cases isset) (auto simp: c_select_def c_assert_def split: if_splits)
  then have t: "write_turn os \<lparr>wr_stream = a, wr_data = data, wr_n = n, wr_pc = W_Select fd\<rparr> w =
      Some (if r \<le> 0 then W_Done (- 1) else W_State, w\<lparr>kern := k\<rparr>)"
    using k by (auto simp: write_turn_def select_turn_def)
  show ?thesis
  proof (cases "r \<le> 0")
    case True
    with k2 t show ?thesis by (intro goes_done) simp
  next
    case False
    with k2 again [of "w\<lparr>kern := k\<rparr>" y] show ?thesis by (intro goes_turn [OF t]) simp
  qed
qed

lemma write_body_goes:
  assumes body: "write_state_check a w \<bind> (\<lambda>(closed, w). if closed then Some (0, w) else
      mutex_lock (Send_lock a) w \<bind> (\<lambda>w. heap w a \<bind> (\<lambda>s. mutex_unlock (Send_lock a) w \<bind> (\<lambda>w.
        if st_send_window s = 0 then if \<not> would_block os (st_fd s) w then Some (- 1, w\<lparr>errno := EAGAIN\<rparr>)
          else c_select os id (st_fd s) For_Writing w \<bind> (\<lambda>(r, isset, w). if r \<le> 0 then Some (- 1, w)
            else c_assert isset \<bind> (\<lambda>_. f w))
        else write_data os a (st_send_window s) data n w)))) = Some y"
    and again: "\<And>w y. f w = Some y \<Longrightarrow>
      goes os \<lparr>wr_stream = a, wr_data = data, wr_n = n, wr_pc = W_State\<rparr> w (W_Done (fst y)) (snd y)"
  shows "goes os \<lparr>wr_stream = a, wr_data = data, wr_n = n, wr_pc = W_State\<rparr> w (W_Done (fst y)) (snd y)"
proof -
  from body obtain closed w1 where c: "write_state_check a w = Some (closed, w1)" by (auto simp: bind_eq_Some_iff)
  have t1: "write_turn os \<lparr>wr_stream = a, wr_data = data, wr_n = n, wr_pc = W_State\<rparr> w =
      Some (if closed then W_Done 0 else W_Window, w1)"
    using c by (simp add: write_turn_def)
  show ?thesis
  proof (cases closed)
    case True
    with body c t1 show ?thesis by (intro goes_done) auto
  next
    case False
    with body c obtain w2 s w3 where w3: "mutex_lock (Send_lock a) w1 = Some w2" "heap w2 a = Some s"
      "mutex_unlock (Send_lock a) w2 = Some w3"
      "(if st_send_window s = 0 then if \<not> would_block os (st_fd s) w3 then Some (- 1, w3\<lparr>errno := EAGAIN\<rparr>)
        else c_select os id (st_fd s) For_Writing w3 \<bind> (\<lambda>(r, isset, w). if r \<le> 0 then Some (- 1, w)
          else c_assert isset \<bind> (\<lambda>_. f w))
       else write_data os a (st_send_window s) data n w3) = Some y"
      by (auto simp: bind_eq_Some_iff)
    have t2: "write_turn os \<lparr>wr_stream = a, wr_data = data, wr_n = n, wr_pc = W_Window\<rparr> w1 = Some (
        if st_send_window s = 0 then if \<not> would_block os (st_fd s) w3 then (W_Done (- 1), w3\<lparr>errno := EAGAIN\<rparr>)
          else (W_Select (st_fd s), w3) else (W_Flags (st_send_window s), w3))"
      using w3(1-3) by (simp add: write_turn_def window_turn_def)
    consider (send) "st_send_window s \<noteq> 0" | (refuse) "st_send_window s = 0" "\<not> would_block os (st_fd s) w3"
      | (block) "st_send_window s = 0" "would_block os (st_fd s) w3" by blast
    then have "goes os \<lparr>wr_stream = a, wr_data = data, wr_n = n, wr_pc = W_Window\<rparr> w1 (W_Done (fst y)) (snd y)"
    proof cases
      case send
      with t2 have t: "write_turn os \<lparr>wr_stream = a, wr_data = data, wr_n = n, wr_pc = W_Window\<rparr> w1 =
          Some (W_Flags (st_send_window s), w3)" by simp
      from send w3(4) write_data_goes [of os a "st_send_window s" data n w3 "fst y" "snd y"] show ?thesis
        by (intro goes_turn [OF t]) simp
    next
      case refuse
      with w3(4) have "y = (- 1, w3\<lparr>errno := EAGAIN\<rparr>)" by simp
      with refuse t2 show ?thesis by (intro goes_done) simp
    next
      case block
      with t2 have t: "write_turn os \<lparr>wr_stream = a, wr_data = data, wr_n = n, wr_pc = W_Window\<rparr> w1 =
          Some (W_Select (st_fd s), w3)" by simp
      from block w3(4) have "c_select os id (st_fd s) For_Writing w3 \<bind> (\<lambda>(r, isset, w). if r \<le> 0 then Some (- 1, w)
          else c_assert isset \<bind> (\<lambda>_. f w)) = Some y" by simp
      from write_select_goes [OF this again] show ?thesis by (intro goes_turn [OF t]) simp
    qed
    with False show ?thesis by (intro goes_turn [OF t1]) simp
  qed
qed

lemma stream_write_goes:
  fixes os :: "'a os"
  assumes "stream_write os id a data n w = Some (r, w')"
  shows "goes os \<lparr>wr_stream = a, wr_data = data, wr_n = n, wr_pc = W_State\<rparr> w (W_Done r) w'"
proof -
  let ?P = "\<lambda>(os :: 'a os) (env :: 'a world \<Rightarrow> 'a world) a data n w y. env = id \<longrightarrow>
    goes os \<lparr>wr_stream = a, wr_data = data, wr_n = n, wr_pc = W_State\<rparr> w (W_Done (fst y)) (snd y)"
  have "?P os id a data n w (r, w')"
  proof (rule stream_write.raw_induct [where P = ?P, OF _ assms], rule impI, goal_cases)
    case (1 f os env a data n w y)
    show ?case by (rule write_body_goes [where f = "f os env a data n"]) (use 1 in auto)
  qed
  then show ?thesis by simp
qed

text \<open>The steps compose to the call: a writer that no other thread disturbs returns what \<^verbatim>\<open>stream_write\<close> returns and leaves
  the same state.\<close>

theorem lone_writer_is_stream_write:
  assumes "stream_write os id a data n w = Some (r, w')"
  shows "\<exists>k. run_writers os (replicate k 0) [\<lparr>wr_stream = a, wr_data = data, wr_n = n, wr_pc = W_State\<rparr>] w =
    Some ([\<lparr>wr_stream = a, wr_data = data, wr_n = n, wr_pc = W_Done r\<rparr>], w')"
  using stream_write_goes [OF assms] by (simp add: goes_def)

theorem lone_writer_is_stream_write_witness:
  "\<exists>r w' k. stream_write sim_os id 0 [1, 2, 3] 3 opened = Some (r, w') \<and>
    run_writers sim_os (replicate k 0) [\<lparr>wr_stream = 0, wr_data = [1, 2, 3], wr_n = 3, wr_pc = W_State\<rparr>] opened =
      Some ([\<lparr>wr_stream = 0, wr_data = [1, 2, 3], wr_n = 3, wr_pc = W_Done r\<rparr>], w')"
proof -
  obtain s where s: "heap opened 0 = Some s" "view_stream s = (new_stream 1 STATE_INIT)\<lparr>a_state := STATE_SYN_SENT\<rparr>"
    using opened_stream by blast
  have d: "st_send_window s = 262144" "st_state s = STATE_SYN_SENT"
    using arg_cong [OF s(2), of a_send_window] arg_cong [OF s(2), of a_state] by (simp_all add: new_stream_def MAX_STREAM_WINDOW_SIZE_def)
  obtain r w' where "stream_write sim_os id 0 [1, 2, 3] 3 opened = Some (r, w')"
    using stream_write_data [OF opened_ok(2) sim_live s(1), of 3 "[1, 2, 3]" id] d by auto
  with lone_writer_is_stream_write [OF this] show ?thesis by blast
qed

section \<open>One step\<close>

text \<open>
  A writer that passes as many bytes as it says, fewer than \<open>2 ^ 31\<close>, and is about to send at most
  as many. \<open>selects_ok\<close> is the documented behaviour of \<^verbatim>\<open>select\<close> on one descriptor: a positive result means that this
  descriptor is in the set, and no socket is read or written.
\<close>

definition writer_ok :: "writer \<Rightarrow> bool" where
  "writer_ok x \<longleftrightarrow> wr_n x \<le> length (wr_data x) \<and> wr_n x < 2 ^ 31 \<and>
     (case wr_pc x of
        W_Header len flags \<Rightarrow> unat len \<le> wr_n x | W_Data len \<Rightarrow> unat len \<le> wr_n x | W_Charge len \<Rightarrow> unat len \<le> wr_n x
      | W_Wait len \<Rightarrow> unat len \<le> wr_n x | W_Go_Away len \<Rightarrow> unat len \<le> wr_n x | _ \<Rightarrow> True)"

definition selects_ok :: "'k os \<Rightarrow> bool" where
  "selects_ok os \<longleftrightarrow> (\<forall>fd dir k r isset k'. sys_select os fd dir k = Some (r, isset, k') \<longrightarrow> quiet os k k' \<and> (0 < r \<longrightarrow> isset))"

text \<open>What a writer has taken from the window of its stream.\<close>

fun charged :: "write_pc \<Rightarrow> uint32" where
  "charged (W_Wait len) = len"
| "charged (W_Go_Away len) = len"
| "charged (W_Done r) = (if r < 0 then 0 else word_of_int r)"
| "charged _ = 0"

definition window_at :: "asession \<Rightarrow> addr \<Rightarrow> uint32 option" where
  "window_at A a = map_option a_send_window (a_streams A a)"

lemma window_at_simps [simp]:
  "window_at (put_out bs A) = window_at A" "window_at (A\<lparr>a_local_go_away := g\<rparr>) = window_at A"
  "(\<And>t. a_send_window (f t) = a_send_window t) \<Longrightarrow> window_at (upd a f A) = window_at A"
  by (auto simp: window_at_def fun_eq_iff option.map_comp comp_def)

text \<open>What each step promises.\<close>

definition turned :: "'k os \<Rightarrow> writer \<Rightarrow> 'k world \<Rightarrow> write_pc \<Rightarrow> 'k world \<Rightarrow> bool" where
  "turned os x w pc w' \<longleftrightarrow> keeps os {} w w' \<and> writer_ok (x\<lparr>wr_pc := pc\<rparr>) \<and>
     (\<forall>b. window_at (view w) b = map_option (\<lambda>v. v + (if b = wr_stream x then charged pc - charged (wr_pc x) else 0))
        (window_at (view w') b))"

lemma turned_same:
  assumes "keeps os {} w w'" and "writer_ok (x\<lparr>wr_pc := pc\<rparr>)" and "charged pc = charged (wr_pc x)"
    and "window_at (view w') = window_at (view w)"
  shows "turned os x w pc w'"
  using assms by (simp add: turned_def option.map_ident)

lemma turn_state:
  assumes "winv os {} w" and "heap w (wr_stream x) = Some s" and "wr_pc x = W_State"
  shows "write_turn os x w = Some (if write_closed (st_state s) then W_Done 0 else W_Window, w)"
proof -
  have "mutexes w (State_lock (wr_stream x)) = Free" using winv_mutex [OF assms(1)] assms(2) by auto
  then show ?thesis using assms(2,3)
    by (auto simp: write_turn_def write_state_check_def mutex_lock_free mutex_unlock_held fun_upd_idem)
qed

lemma turn_window:
  assumes "winv os {} w" and "heap w (wr_stream x) = Some s" and "wr_pc x = W_Window"
  shows "write_turn os x w = Some (if st_send_window s = 0
    then if \<not> would_block os (st_fd s) w then (W_Done (- 1), w\<lparr>errno := EAGAIN\<rparr>) else (W_Select (st_fd s), w)
    else (W_Flags (st_send_window s), w))"
proof -
  have "mutexes w (Send_lock (wr_stream x)) = Free" using winv_mutex [OF assms(1)] assms(2) by auto
  then show ?thesis using assms(2,3)
    by (auto simp: write_turn_def window_turn_def mutex_lock_free mutex_unlock_held fun_upd_idem)
qed

lemma turn_flags:
  assumes "winv os {} w" and "heap w (wr_stream x) = Some s" and "wr_pc x = W_Flags window"
  shows "\<exists>w'. write_turn os x w = Some (W_Header (of_nat (min (unat window) (wr_n x))) (fst (send_step (st_state s))), w') \<and>
    keeps os {} w w' \<and> view w' = upd (wr_stream x) (a_state_update (\<lambda>_. snd (send_step (st_state s)))) (view w)"
  using stream_send_flags_spec [OF assms(1,2)] assms(3) by (auto simp: write_turn_def)

lemma turn_header:
  assumes "winv os {} w" and "heap w (wr_stream x) = Some s" and "wr_pc x = W_Header len flags"
  shows "\<exists>pc w'. write_turn os x w = Some (pc, w') \<and> keeps os {} w w' \<and>
    (pc = W_Data len \<and> view w' = put_out (frame_hdr TYPE_DATA flags (st_id s) len) (view w) \<or>
     pc = W_Done (- 1) \<and> view w' = view w \<and> \<not> reliable os w)"
  using send_hdr_spec [OF assms(1), of "frame_hdr TYPE_DATA flags (st_id s) len"] assms(2,3)
  by (auto simp: write_turn_def header_turn_def hdr_encode_frame sends_def)

lemma turn_data:
  assumes "winv os {} w" and "wr_pc x = W_Data len" and "writer_ok x"
  shows "\<exists>pc w'. write_turn os x w = Some (pc, w') \<and> keeps os {} w w' \<and>
    (pc = W_Charge len \<and> view w' = put_out (take (unat len) (wr_data x)) (view w) \<or>
     pc = W_Done (- 1) \<and> (\<exists>k. view w' = put_out (take k (wr_data x)) (view w)) \<and> \<not> reliable os w)"
  using session_send_buf_write_spec [OF assms(1), of "unat len" "wr_data x"] assms(2,3)
  by (fastforce simp: write_turn_def data_turn_def writer_ok_def)

lemma turn_charge:
  assumes "winv os {} w" and "heap w (wr_stream x) = Some s" and "wr_pc x = W_Charge len"
  shows "\<exists>w'. write_turn os x w = Some (if st_send_window s = len then W_Wait len else W_Done (sint len), w') \<and>
    keeps os {} w w' \<and> view w' = upd (wr_stream x) (\<lambda>t. t\<lparr>a_send_window := a_send_window t - len\<rparr>) (view w)"
proof -
  let ?w = "put_stream (wr_stream x) (s\<lparr>st_send_window := st_send_window s - len\<rparr>) w"
  have "mutexes w (Send_lock (wr_stream x)) = Free" using winv_mutex [OF assms(1)] assms(2) by auto
  then have "write_turn os x w = Some (if st_send_window s = len then W_Wait len else W_Done (sint len), ?w)"
    using assms(2,3)
    by (auto simp: write_turn_def charge_turn_def mutex_lock_free mutex_unlock_held put_mutexes fun_upd_idem)
  moreover have "keeps os {} w ?w" using winv_recv_buf [OF assms(1,2)] by (intro keeps_put_stream [OF assms(1,2)]) auto
  moreover have "view ?w = upd (wr_stream x) (\<lambda>t. t\<lparr>a_send_window := a_send_window t - len\<rparr>) (view w)"
    by (rule view_put_upd [OF assms(2)]) (simp_all add: view_stream_def)
  ultimately show ?thesis by blast
qed

text \<open>Every step returns, keeps the invariant, and takes from the window what it counts as taken.\<close>

lemma charged_sint:
  assumes "unat len < 2 ^ 31"
  shows "charged (W_Done (sint len)) = len"
proof -
  have "0 \<le> sint len" unfolding sint_small [OF assms] by simp
  then show ?thesis by simp
qed

lemma select_turn_ok:
  assumes "winv os {} w" and "selects_ok os" and "wr_pc x = W_Select fd" and "writer_ok x"
  shows "\<exists>pc w'. write_turn os x w = Some (pc, w') \<and> turned os x w pc w'"
proof (cases "sys_select os fd For_Writing (kern w)")
  case None
  then show ?thesis using assms
    by (auto simp: write_turn_def select_turn_def keeps_refl writer_ok_def intro!: turned_same)
next
  case (Some t)
  then obtain r isset k where k: "sys_select os fd For_Writing (kern w) = Some (r, isset, k)" by (cases t) auto
  with assms(2) have q: "quiet os (kern w) k" "0 < r \<Longrightarrow> isset" unfolding selects_ok_def by blast+
  from q(1) have "wired os (w\<lparr>kern := k\<rparr>) = wired os w" by (intro wired_cong) simp_all
  then have "keeps os {} w (w\<lparr>kern := k\<rparr>)" using assms(1) winv_wired [OF assms(1)] by (simp add: keeps_def winv_kern)
  then have "turned os x w (if r \<le> 0 then W_Done (- 1) else W_State) (w\<lparr>kern := k\<rparr>)"
    using assms(3,4) by (intro turned_same) (auto simp: writer_ok_def)
  moreover have "write_turn os x w = Some (if r \<le> 0 then W_Done (- 1) else W_State, w\<lparr>kern := k\<rparr>)"
    using k q(2) assms(3) by (auto simp: write_turn_def select_turn_def)
  ultimately show ?thesis by blast
qed

lemma wait_turn_ok:
  assumes "winv os {} w" and "os_live os" and "heap w (wr_stream x) = Some s" and "wr_pc x = W_Wait len" and "writer_ok x"
  shows "\<exists>pc w'. write_turn os x w = Some (pc, w') \<and> turned os x w pc w'"
proof -
  from wpD [OF stream_writeable_waiting_wp [OF assms(1-3)]] obtain e w' where
    w': "stream_writeable_waiting os (wr_stream x) w = Some (e, w')"
      "sets os {} (wr_stream x) (a_writeable_update (\<lambda>_. False)) w (e, w')" by auto
  have "window_at (view w') = window_at (view w)" using setsD(2) [OF w'(2)] by auto
  moreover have "charged (W_Done (sint len)) = len" using assms(4,5) by (intro charged_sint) (simp add: writer_ok_def)
  ultimately have "turned os x w (if e \<noteq> 0 then W_Go_Away len else W_Done (sint len)) w'"
    using setsD(1) [OF w'(2)] assms(4,5) by (intro turned_same) (auto simp: writer_ok_def)
  with w'(1) assms(4) show ?thesis by (simp add: write_turn_def)
qed

lemma go_away_turn_ok:
  assumes "winv os {} w" and "wr_pc x = W_Go_Away len" and "writer_ok x"
  shows "\<exists>pc w'. write_turn os x w = Some (pc, w') \<and> turned os x w pc w'"
proof -
  from go_away_spec [OF assms(1)] obtain r w' where
    w': "session_go_away_for_reason os GO_AWAY_INTERNAL_ERR w = Some (r, w')" "goes_away os {} GO_AWAY_INTERNAL_ERR w r w'" by blast
  have "window_at (view w') = window_at (view w)" using w'(2) by (auto simp: goes_away_def)
  moreover have "charged (W_Done (sint len)) = len" using assms(2,3) by (intro charged_sint) (simp add: writer_ok_def)
  ultimately have "turned os x w (W_Done (sint len)) w'"
    using w'(2) assms(2,3) by (intro turned_same) (auto simp: writer_ok_def goes_away_def)
  with w'(1) assms(2) show ?thesis by (simp add: write_turn_def)
qed

lemma charge_turn_ok:
  assumes "winv os {} w" and "heap w (wr_stream x) = Some s" and "wr_pc x = W_Charge len" and "writer_ok x"
  shows "\<exists>pc w'. write_turn os x w = Some (pc, w') \<and> turned os x w pc w'"
proof -
  let ?pc = "if st_send_window s = len then W_Wait len else W_Done (sint len)"
  from turn_charge [OF assms(1-3)] obtain w' where w': "write_turn os x w = Some (?pc, w')" "keeps os {} w w'"
    "view w' = upd (wr_stream x) (\<lambda>t. t\<lparr>a_send_window := a_send_window t - len\<rparr>) (view w)" by blast
  have "charged ?pc = len" using charged_sint [of len] assms(3,4) by (auto simp: writer_ok_def)
  then have "turned os x w ?pc w'" using w'(2,3) assms(3,4)
    by (auto simp: turned_def writer_ok_def window_at_def option.map_comp comp_def option.map_ident simp del: view_sel charged.simps(3) split: if_splits)
  with w'(1) show ?thesis by blast
qed

lemma write_turn_ok:
  assumes "winv os {} w" and "os_live os" and "selects_ok os" and "heap w (wr_stream x) = Some s" and "writer_ok x"
  shows "\<exists>pc w'. write_turn os x w = Some (pc, w') \<and> turned os x w pc w'"
proof (cases "wr_pc x")
  case W_State
  then show ?thesis using turn_state [OF assms(1,4)] assms(1,5)
    by (auto simp: keeps_refl writer_ok_def intro!: turned_same)
next
  case W_Window
  then show ?thesis using turn_window [OF assms(1,4)] assms(1,5)
    by (auto simp: keeps_def writer_ok_def intro!: turned_same)
next
  case (W_Flags window)
  have "unat (of_nat (min (unat window) (wr_n x)) :: uint32) \<le> wr_n x"
    by (rule order_trans [OF _ min.cobounded2 [of "unat window"]]) (simp add: unat_of_nat mod_less_eq_dividend del: min.bounded_iff)
  with turn_flags [OF assms(1,4) W_Flags] W_Flags assms(5) show ?thesis
    by (fastforce simp: writer_ok_def intro!: turned_same)
next
  case (W_Header len flags)
  from turn_header [OF assms(1,4) W_Header] show ?thesis using W_Header assms(5)
    by (fastforce simp: writer_ok_def intro!: turned_same)
next
  case (W_Data len)
  from turn_data [OF assms(1) W_Data assms(5)] show ?thesis using W_Data assms(5)
    by (fastforce simp: writer_ok_def intro!: turned_same)
next
  case (W_Done r)
  then show ?thesis using assms(1,5) by (auto simp: write_turn_def keeps_refl writer_ok_def intro!: turned_same)
qed (use assms select_turn_ok wait_turn_ok go_away_turn_ok charge_turn_ok in blast)+

section \<open>Any schedule\<close>

text \<open>What the writers of a stream have taken from its window.\<close>

definition taken :: "addr \<Rightarrow> writer list \<Rightarrow> uint32" where
  "taken a xs = (\<Sum>x\<leftarrow>xs. if wr_stream x = a then charged (wr_pc x) else 0)"

lemma taken_update:
  assumes "t < length xs" and "wr_stream y = wr_stream (xs ! t)"
  shows "taken a (xs[t := y]) =
    taken a xs + (if a = wr_stream (xs ! t) then charged (wr_pc y) - charged (wr_pc (xs ! t)) else 0)"
proof -
  have "taken a (xs[t := y]) = taken a (take t xs) + taken a [y] + taken a (drop (Suc t) xs)"
    using assms(1) by (simp add: taken_def upd_conv_take_nth_drop)
  moreover have "taken a xs = taken a (take t xs) + taken a [xs ! t] + taken a (drop (Suc t) xs)"
    using assms(1) by (subst (1) id_take_nth_drop [of t xs]) (simp_all add: taken_def)
  ultimately show ?thesis using assms(2) by (simp add: taken_def)
qed

lemma run_writers_ok:
  assumes "winv os {} w" and live: "os_live os" and sel: "selects_ok os"
    and "\<forall>x\<in>set xs. writer_ok x \<and> window_at (view w) (wr_stream x) \<noteq> None"
  shows "\<exists>xs' w'. run_writers os ts xs w = Some (xs', w') \<and> winv os {} w' \<and>
    (\<forall>b. window_at (view w) b = map_option (\<lambda>v. v + (taken b xs' - taken b xs)) (window_at (view w') b))"
  using assms(1,4)
proof (induction ts arbitrary: xs w)
  case Nil
  then show ?case by (simp add: option.map_ident)
next
  case (Cons t ts)
  show ?case
  proof (cases "t < length xs")
    case False
    with Cons show ?thesis by simp
  next
    case True
    let ?x = "xs ! t"
    have x: "writer_ok ?x" "window_at (view w) (wr_stream ?x) \<noteq> None" using Cons.prems(2) True by simp_all
    then obtain s where "heap w (wr_stream ?x) = Some s" by (auto simp: window_at_def)
    from write_turn_ok [OF Cons.prems(1) live sel this x(1)] obtain pc w1 where
      w1: "write_turn os ?x w = Some (pc, w1)" "turned os ?x w pc w1" by blast
    let ?xs = "xs[t := ?x\<lparr>wr_pc := pc\<rparr>]"
    have b: "window_at (view w) b = map_option (\<lambda>v. v + (taken b ?xs - taken b xs)) (window_at (view w1) b)" for b
      using w1(2) True by (simp add: turned_def taken_update)
    then have "window_at (view w1) b = None \<longleftrightarrow> window_at (view w) b = None" for b by (metis option.map_disc_iff)
    then have "\<forall>x\<in>set ?xs. writer_ok x \<and> window_at (view w1) (wr_stream x) \<noteq> None"
      using Cons.prems(2) x w1(2) by (auto simp: turned_def dest!: subsetD [OF set_update_subset_insert])
    moreover have "winv os {} w1" using w1(2) by (simp add: turned_def keeps_def)
    ultimately obtain xs' w' where w': "run_writers os ts ?xs w1 = Some (xs', w')" "winv os {} w'"
      "\<And>b. window_at (view w1) b = map_option (\<lambda>v. v + (taken b xs' - taken b ?xs)) (window_at (view w') b)"
      using Cons.IH by blast
    have "window_at (view w) b = map_option (\<lambda>v. v + (taken b xs' - taken b xs)) (window_at (view w') b)" for b
      unfolding b w'(3) by (simp add: option.map_comp comp_def algebra_simps)
    with w1(1) w'(1,2) True show ?thesis by simp
  qed
qed

text \<open>C10: Any number of threads may be in \<^verbatim>\<open>stream_write\<close>, on any streams and in any order of their steps: no step is
  stuck, the invariant holds at the end, and the window of every stream is smaller by exactly what its
  writers took, modulo \<open>2 ^ 32\<close>: no charge is lost.\<close>

theorem writers_lose_no_charge:
  assumes "os_live os" and "selects_ok os" and "reachable os w"
    and "\<forall>x\<in>set xs. heap w (wr_stream x) \<noteq> None \<and> wr_n x \<le> length (wr_data x) \<and> wr_n x < 2 ^ 31 \<and> wr_pc x = W_State"
  shows "\<exists>xs' w'. run_writers os ts xs w = Some (xs', w') \<and> winv os {} w' \<and>
    (\<forall>a s. heap w a = Some s \<longrightarrow> (\<exists>s'. heap w' a = Some s' \<and> st_send_window s = st_send_window s' + taken a xs'))"
proof -
  have "\<forall>x\<in>set xs. writer_ok x \<and> window_at (view w) (wr_stream x) \<noteq> None"
    using assms(4) by (auto simp: writer_ok_def window_at_def)
  from run_writers_ok [OF healthyD(1) [OF reachable_healthy [OF assms(3,1)]] assms(1,2) this, of ts] obtain xs' w' where
    w': "run_writers os ts xs w = Some (xs', w')" "winv os {} w'"
    "\<And>b. window_at (view w) b = map_option (\<lambda>v. v + (taken b xs' - taken b xs)) (window_at (view w') b)" by blast
  have 0: "taken a xs = 0" for a using assms(4) by (induction xs) (auto simp: taken_def)
  have "\<exists>s'. heap w' a = Some s' \<and> st_send_window s = st_send_window s' + taken a xs'" if "heap w a = Some s" for a s
    using w'(3) [of a] that unfolding 0 by (cases "heap w' a") (auto simp: window_at_def)
  with w'(1,2) show ?thesis by blast
qed

lemma sim_selects: "selects_ok sim_os"
  by (auto simp: selects_ok_def sim_os_def sim_select_def)

definition writer_of :: "byte list \<Rightarrow> writer" where
  "writer_of data = \<lparr>wr_stream = 0, wr_data = data, wr_n = length data, wr_pc = W_State\<rparr>"

theorem writers_lose_no_charge_witness:
  "\<exists>xs' w'. run_writers sim_os [0, 1, 1, 0, 0, 1] [writer_of [1, 2], writer_of [3]] opened = Some (xs', w') \<and>
    winv sim_os {} w' \<and> (\<exists>s s'. heap opened 0 = Some s \<and> heap w' 0 = Some s' \<and>
      st_send_window s = st_send_window s' + taken 0 xs')"
proof -
  obtain s where s: "heap opened 0 = Some s" using opened_stream by blast
  then have "\<forall>x\<in>set [writer_of [1, 2], writer_of [3]]. heap opened (wr_stream x) \<noteq> None \<and>
      wr_n x \<le> length (wr_data x) \<and> wr_n x < 2 ^ 31 \<and> wr_pc x = W_State" by (simp add: writer_of_def)
  from writers_lose_no_charge [OF sim_live sim_selects opened_reachable this, of "[0, 1, 1, 0, 0, 1]"] s show ?thesis by blast
qed

section \<open>What the locks do not protect\<close>

lemma run_writers_append:
  "run_writers os (ts @ us) xs w = do { (xs, w) \<leftarrow> run_writers os ts xs w; run_writers os us xs w }"
proof (induction ts arbitrary: xs w)
  case (Cons t ts)
  then show ?case by (cases "write_turn os (xs ! t) w") auto
qed simp

text \<open>A thread up to the point where it knows its window, up to its header, its payload, its charge.\<close>

lemma looks:
  assumes "winv os {} w" and "t < length xs" and "wr_pc (xs ! t) = W_State" and "heap w (wr_stream (xs ! t)) = Some s"
    and "\<not> write_closed (st_state s)" and "st_send_window s \<noteq> 0"
  shows "run_writers os [t, t] xs w = Some (xs[t := (xs ! t)\<lparr>wr_pc := W_Flags (st_send_window s)\<rparr>], w)"
proof -
  have "write_turn os ((xs ! t)\<lparr>wr_pc := W_Window\<rparr>) w = Some (W_Flags (st_send_window s), w)"
    using turn_window [of os w "(xs ! t)\<lparr>wr_pc := W_Window\<rparr>" s] assms by simp
  then show ?thesis using turn_state [of os w "xs ! t" s] assms by simp
qed

lemma puts_header:
  assumes "winv os {} w" and "reliable os w" and "t < length xs" and "wr_pc (xs ! t) = W_Flags (st_send_window s)"
    and "heap w (wr_stream (xs ! t)) = Some s'" and "a_id (view_stream s') = st_id s"
  shows "\<exists>w'. run_writers os [t, t] xs w = Some (xs[t := (xs ! t)\<lparr>wr_pc := W_Data (write_len (wr_n (xs ! t)) (view_stream s))\<rparr>], w') \<and>
    keeps os {} w w' \<and>
    view w' = put_out (frame_hdr TYPE_DATA (fst (send_step (st_state s'))) (st_id s) (write_len (wr_n (xs ! t)) (view_stream s)))
      (upd (wr_stream (xs ! t)) (a_state_update (\<lambda>_. snd (send_step (st_state s')))) (view w))"
proof -
  let ?x = "xs ! t" let ?len = "write_len (wr_n ?x) (view_stream s)" and ?fl = "fst (send_step (st_state s'))"
  let ?hdr = "frame_hdr TYPE_DATA ?fl (st_id s) ?len"
  from turn_flags [OF assms(1,5,4)] obtain w1 where w1: "write_turn os ?x w = Some (W_Header ?len ?fl, w1)" "keeps os {} w w1"
    "view w1 = upd (wr_stream ?x) (a_state_update (\<lambda>_. snd (send_step (st_state s')))) (view w)"
    by (auto simp: write_len_def)
  have "a_streams (view w1) (wr_stream ?x) = Some ((view_stream s')\<lparr>a_state := snd (send_step (st_state s'))\<rparr>)"
    unfolding w1(3) using assms(5) by simp
  then obtain s1 where s1: "heap w1 (wr_stream ?x) = Some s1" "st_id s1 = st_id s"
    using assms(6) by (metis (no_types, lifting) view_heap astream.select_convs astream.surjective astream.update_convs(1) view_stream_sel(2))
  from turn_header [OF keeps_winv [OF w1(2)], of "?x\<lparr>wr_pc := W_Header ?len ?fl\<rparr>" s1 ?len ?fl] s1 keeps_reliable [OF w1(2) assms(2)]
  obtain w2 where w2: "write_turn os (?x\<lparr>wr_pc := W_Header ?len ?fl\<rparr>) w1 = Some (W_Data ?len, w2)" "keeps os {} w1 w2"
    "view w2 = put_out ?hdr (view w1)" by auto
  have "run_writers os [t, t] xs w = Some (xs[t := ?x\<lparr>wr_pc := W_Data ?len\<rparr>], w2)" using assms(3) w1(1) w2(1) by simp
  then show ?thesis using keeps_trans [OF w1(2) w2(2)] w2(3) unfolding w1(3) by blast
qed

lemma puts_payload:
  assumes "winv os {} w" and "reliable os w" and "t < length xs" and "wr_pc (xs ! t) = W_Data len" and "writer_ok (xs ! t)"
  shows "\<exists>w'. run_writers os [t] xs w = Some (xs[t := (xs ! t)\<lparr>wr_pc := W_Charge len\<rparr>], w') \<and> keeps os {} w w' \<and>
    view w' = put_out (take (unat len) (wr_data (xs ! t))) (view w)"
  using turn_data [OF assms(1,4,5)] assms(2,3) by auto

lemma takes_window:
  assumes "winv os {} w" and "t < length xs" and "wr_pc (xs ! t) = W_Charge len" and "heap w (wr_stream (xs ! t)) = Some s"
  shows "\<exists>w'. run_writers os [t] xs w =
      Some (xs[t := (xs ! t)\<lparr>wr_pc := if st_send_window s = len then W_Wait len else W_Done (sint len)\<rparr>], w') \<and> keeps os {} w w' \<and>
    view w' = upd (wr_stream (xs ! t)) (\<lambda>t. t\<lparr>a_send_window := a_send_window t - len\<rparr>) (view w)"
  using turn_charge [OF assms(1,4,3)] assms(2) by auto

lemma same_stream:
  assumes "a_streams (view w) a = Some (view_stream s)"
  shows "\<exists>s'. heap w a = Some s' \<and> view_stream s' = view_stream s \<and> st_state s' = st_state s \<and>
    st_send_window s' = st_send_window s \<and> st_id s' = st_id s"
  using view_heap [OF assms] by (metis view_stream_sel(1,2,4))

text \<open>C11: Header and payload of a frame are appended by two calls that lock the send buffer one after the other. When a
  thread writes on another stream in between, the output holds both headers before both
  payloads, and the peer takes the second header for payload of the first frame.\<close>

theorem writers_interleave_frames:
  assumes inv: "winv os {} w" and rel: "reliable os w" and s: "heap w a = Some s" and t: "heap w b = Some t" and "a \<noteq> b"
    and "\<not> write_closed (st_state s)" "st_send_window s \<noteq> 0" "m \<le> length d" "m < 2 ^ 31"
    and "\<not> write_closed (st_state t)" "st_send_window t \<noteq> 0" "n \<le> length e" "n < 2 ^ 31"
  shows "\<exists>xs' w'. run_writers os [0, 0, 0, 0, 1, 1, 1, 1, 0, 1]
      [\<lparr>wr_stream = a, wr_data = d, wr_n = m, wr_pc = W_State\<rparr>, \<lparr>wr_stream = b, wr_data = e, wr_n = n, wr_pc = W_State\<rparr>] w = Some (xs', w') \<and>
    a_out (view w') = a_out (view w) @ take 12 (data_frame d m (view_stream s)) @ take 12 (data_frame e n (view_stream t)) @
      drop 12 (data_frame d m (view_stream s)) @ drop 12 (data_frame e n (view_stream t))"
proof -
  let ?x = "\<lambda>pc. \<lparr>wr_stream = a, wr_data = d, wr_n = m, wr_pc = pc\<rparr>" and ?y = "\<lambda>pc. \<lparr>wr_stream = b, wr_data = e, wr_n = n, wr_pc = pc\<rparr>"
  let ?k = "write_len m (view_stream s)" and ?l = "write_len n (view_stream t)"
  have kl: "unat ?k \<le> m" "unat ?l \<le> n" by (simp_all add: unat_write_len)
  have 0: "run_writers os [0, 0] [?x W_State, ?y W_State] w = Some ([?x (W_Flags (st_send_window s)), ?y W_State], w)"
    using looks [OF inv, of 0 "[?x W_State, ?y W_State]" s] assms by simp
  obtain w1 where w1: "run_writers os [0, 0] [?x (W_Flags (st_send_window s)), ?y W_State] w = Some ([?x (W_Data ?k), ?y W_State], w1)"
    "keeps os {} w w1" "view w1 = put_out (take 12 (data_frame d m (view_stream s))) (upd a (a_state_update (\<lambda>_. snd (send_step (st_state s)))) (view w))"
    using puts_header [OF inv rel, of 0 "[?x (W_Flags (st_send_window s)), ?y W_State]" s s] s by (auto simp: data_frame_def)
  have "a_streams (view w1) b = Some (view_stream t)" unfolding w1(3) using t \<open>a \<noteq> b\<close> by simp
  from same_stream [OF this] obtain t1 where t1: "heap w1 b = Some t1" "view_stream t1 = view_stream t" "st_state t1 = st_state t"
    "st_send_window t1 = st_send_window t" "st_id t1 = st_id t" by blast
  note inv1 = keeps_winv [OF w1(2)] and rel1 = keeps_reliable [OF w1(2) rel]
  have 1: "run_writers os [1, 1] [?x (W_Data ?k), ?y W_State] w1 = Some ([?x (W_Data ?k), ?y (W_Flags (st_send_window t))], w1)"
    using looks [OF inv1, of 1 "[?x (W_Data ?k), ?y W_State]" t1] t1 assms by simp
  obtain w2 where w2: "run_writers os [1, 1] [?x (W_Data ?k), ?y (W_Flags (st_send_window t))] w1 = Some ([?x (W_Data ?k), ?y (W_Data ?l)], w2)"
    "keeps os {} w1 w2" "a_out (view w2) = a_out (view w1) @ take 12 (data_frame e n (view_stream t))"
    using puts_header [OF inv1 rel1, of 1 "[?x (W_Data ?k), ?y (W_Flags (st_send_window t))]" t t1] t1
    by (auto simp: data_frame_def simp del: view_sel)
  note inv2 = keeps_winv [OF w2(2)] and rel2 = keeps_reliable [OF w2(2) rel1]
  obtain w3 where w3: "run_writers os [0] [?x (W_Data ?k), ?y (W_Data ?l)] w2 = Some ([?x (W_Charge ?k), ?y (W_Data ?l)], w3)"
    "keeps os {} w2 w3" "a_out (view w3) = a_out (view w2) @ drop 12 (data_frame d m (view_stream s))"
    using puts_payload [OF inv2 rel2, of 0 "[?x (W_Data ?k), ?y (W_Data ?l)]" ?k] kl assms
    by (auto simp: data_frame_def writer_ok_def simp del: view_sel run_writers.simps)
  obtain w4 where w4: "run_writers os [1] [?x (W_Charge ?k), ?y (W_Data ?l)] w3 = Some ([?x (W_Charge ?k), ?y (W_Charge ?l)], w4)"
    "a_out (view w4) = a_out (view w3) @ drop 12 (data_frame e n (view_stream t))"
    using puts_payload [OF keeps_winv [OF w3(2)] keeps_reliable [OF w3(2) rel2], of 1 "[?x (W_Charge ?k), ?y (W_Data ?l)]" ?l] kl assms
    by (auto simp: data_frame_def writer_ok_def simp del: view_sel run_writers.simps)
  have "run_writers os ([0, 0] @ [0, 0] @ [1, 1] @ [1, 1] @ [0] @ [1]) [?x W_State, ?y W_State] w = Some ([?x (W_Charge ?k), ?y (W_Charge ?l)], w4)"
    unfolding run_writers_append 0 using w1(1) 1 w2(1) w3(1) w4(1) by (simp del: run_writers.simps)
  then show ?thesis using w4(2) w3(3) w2(3) w1(3) by (simp del: run_writers.simps view_sel)
qed

text \<open>A session with two open streams.\<close>

definition opened2 :: "sim world" where
  "opened2 = snd (snd (the (session_open sim_os [] opened)))"

lemma opened2_ok:
  "winv sim_os {} opened2" "reliable sim_os opened2" "view opened2 = p_open (p_open (start_view True 0))"
proof -
  have v: "a_remote_go_away (view opened) = False" "a_next_id (view opened) = 3" "a_table (view opened) = [1 \<mapsto> 0]" "a_brk (view opened) = 1"
    unfolding opened_ok(4) by (simp_all add: p_open_def start_view_def add_stream_def new_stream_def Let_def)
  obtain w' where "session_open sim_os [] opened = Some (0, Some 1, w')" "keeps sim_os {} opened w'" "view w' = p_open (view opened)"
    using session_open_spec [OF opened_ok(2) sim_live] v opened_ok(3) by auto
  then show "winv sim_os {} opened2" "reliable sim_os opened2" "view opened2 = p_open (p_open (start_view True 0))"
    using opened_ok(3,4) by (simp_all add: opened2_def keeps_def)
qed

lemma opened2_streams:
  "\<exists>s t. heap opened2 0 = Some s \<and> heap opened2 1 = Some t \<and> \<not> write_closed (st_state s) \<and> \<not> write_closed (st_state t) \<and>
    st_send_window s \<noteq> 0 \<and> st_send_window t \<noteq> 0"
proof -
  have "a_streams (view opened2) 0 = Some ((new_stream 1 STATE_INIT)\<lparr>a_state := STATE_SYN_SENT\<rparr>)"
    "a_streams (view opened2) 1 = Some ((new_stream 3 STATE_INIT)\<lparr>a_state := STATE_SYN_SENT\<rparr>)"
    unfolding opened2_ok(3) by (simp_all add: p_open_def start_view_def add_stream_def Let_def)
  then obtain s t where s: "heap opened2 0 = Some s" "view_stream s = (new_stream 1 STATE_INIT)\<lparr>a_state := STATE_SYN_SENT\<rparr>"
    and t: "heap opened2 1 = Some t" "view_stream t = (new_stream 3 STATE_INIT)\<lparr>a_state := STATE_SYN_SENT\<rparr>" by auto
  show ?thesis using s(1) t(1) arg_cong [OF s(2), of a_state] arg_cong [OF t(2), of a_state]
      arg_cong [OF s(2), of a_send_window] arg_cong [OF t(2), of a_send_window]
    by (simp add: new_stream_def MAX_STREAM_WINDOW_SIZE_def)
qed

theorem writers_interleave_frames_witness:
  "\<exists>s t xs' w'. heap opened2 0 = Some s \<and> heap opened2 1 = Some t \<and> run_writers sim_os [0, 0, 0, 0, 1, 1, 1, 1, 0, 1]
      [\<lparr>wr_stream = 0, wr_data = [1, 2], wr_n = 2, wr_pc = W_State\<rparr>, \<lparr>wr_stream = 1, wr_data = [3], wr_n = 1, wr_pc = W_State\<rparr>]
      opened2 = Some (xs', w') \<and>
    a_out (view w') = a_out (view opened2) @ take 12 (data_frame [1, 2] 2 (view_stream s)) @ take 12 (data_frame [3] 1 (view_stream t)) @
      drop 12 (data_frame [1, 2] 2 (view_stream s)) @ drop 12 (data_frame [3] 1 (view_stream t))"
proof -
  obtain s t where st: "heap opened2 0 = Some s" "heap opened2 1 = Some t" "\<not> write_closed (st_state s)" "\<not> write_closed (st_state t)"
    "st_send_window s \<noteq> 0" "st_send_window t \<noteq> 0" using opened2_streams by blast
  show ?thesis using writers_interleave_frames [OF opened2_ok(1,2) st(1,2), of 2 "[1, 2]" 1 "[3]"] st
    by (simp del: run_writers.simps view_sel)
qed

text \<open>A frame sent with a window that was read before: the steps from the flags to the charge.\<close>

lemma sends_frame:
  assumes inv: "winv os {} w" and rel: "reliable os w" and "t < length xs" and pc: "wr_pc (xs ! t) = W_Flags (st_send_window s)"
    and h: "heap w (wr_stream (xs ! t)) = Some s'" and id: "st_id s' = st_id s" and ok: "writer_ok (xs ! t)"
  shows "\<exists>pc w' s''. run_writers os [t, t, t, t] xs w = Some (xs[t := (xs ! t)\<lparr>wr_pc := pc\<rparr>], w') \<and> keeps os {} w w' \<and>
    heap w' (wr_stream (xs ! t)) = Some s'' \<and> st_id s'' = st_id s \<and>
    st_send_window s'' = st_send_window s' - write_len (wr_n (xs ! t)) (view_stream s) \<and>
    length (a_out (view w')) = length (a_out (view w)) + 12 + unat (write_len (wr_n (xs ! t)) (view_stream s))"
proof -
  let ?x = "xs ! t" let ?a = "wr_stream ?x" and ?k = "write_len (wr_n ?x) (view_stream s)"
  let ?xs = "\<lambda>pc. xs[t := ?x\<lparr>wr_pc := pc\<rparr>]"
  have k: "unat ?k \<le> wr_n ?x" by (simp add: unat_write_len)
  from puts_header [OF inv rel assms(3) pc h] id obtain w1 where
    w1: "run_writers os [t, t] xs w = Some (?xs (W_Data ?k), w1)" "keeps os {} w w1"
    "view w1 = put_out (frame_hdr TYPE_DATA (fst (send_step (st_state s'))) (st_id s) ?k)
      (upd ?a (a_state_update (\<lambda>_. snd (send_step (st_state s')))) (view w))" by auto
  have ok1: "writer_ok (?xs (W_Data ?k) ! t)" using ok k assms(3) by (simp add: writer_ok_def)
  from puts_payload [OF keeps_winv [OF w1(2)] keeps_reliable [OF w1(2) rel], of t "?xs (W_Data ?k)" ?k] ok1 assms(3) obtain w2 where
    w2: "run_writers os [t] (?xs (W_Data ?k)) w1 = Some (?xs (W_Charge ?k), w2)" "keeps os {} w1 w2"
    "view w2 = put_out (take (unat ?k) (wr_data ?x)) (view w1)" by auto
  have "a_streams (view w2) ?a = Some ((view_stream s')\<lparr>a_state := snd (send_step (st_state s'))\<rparr>)"
    unfolding w2(3) w1(3) using h by simp
  then obtain s2 where s2: "heap w2 ?a = Some s2" "view_stream s2 = (view_stream s')\<lparr>a_state := snd (send_step (st_state s'))\<rparr>"
    using view_heap by blast
  from takes_window [OF keeps_winv [OF w2(2)], of t "?xs (W_Charge ?k)" ?k s2] s2(1) assms(3) obtain pc w3 where
    w3: "run_writers os [t] (?xs (W_Charge ?k)) w2 = Some (?xs pc, w3)" "keeps os {} w2 w3"
    "view w3 = upd ?a (\<lambda>t. t\<lparr>a_send_window := a_send_window t - ?k\<rparr>) (view w2)" by auto
  have "a_streams (view w3) ?a = Some ((view_stream s2)\<lparr>a_send_window := a_send_window (view_stream s2) - ?k\<rparr>)"
    unfolding w3(3) using s2(1) by simp
  then obtain s3 where s3: "heap w3 ?a = Some s3" "view_stream s3 = (view_stream s2)\<lparr>a_send_window := a_send_window (view_stream s2) - ?k\<rparr>"
    using view_heap by blast
  have f: "st_id s3 = st_id s" "st_send_window s3 = st_send_window s' - ?k"
    using arg_cong [OF s3(2), of a_id] arg_cong [OF s3(2), of a_send_window] arg_cong [OF s2(2), of a_id]
      arg_cong [OF s2(2), of a_send_window] id by simp_all
  have "run_writers os ([t, t] @ [t] @ [t]) xs w = Some (?xs pc, w3)"
    unfolding run_writers_append w1(1) using w2(1) w3(1) by (simp del: run_writers.simps)
  moreover have "length (a_out (view w3)) = length (a_out (view w)) + 12 + unat ?k"
    unfolding w3(3) w2(3) w1(3) using ok k by (simp add: writer_ok_def del: view_sel)
  ultimately show ?thesis using keeps_trans [OF w1(2) keeps_trans [OF w2(2) w3(2)]] s3(1) f
    by (intro exI [of _ pc] exI [of _ w3] exI [of _ s3]) (simp del: run_writers.simps view_sel)
qed

lemma unat_neg: "(v :: uint32) \<noteq> 0 \<Longrightarrow> unat (- v) = 2 ^ 32 - unat v"
proof -
  assume "v \<noteq> 0"
  then have "uint v \<noteq> 0" by (simp add: uint_0_iff)
  moreover have "uint v < 2 ^ 32" using uint_bounded [of v] by simp
  ultimately have "uint (- v) = 2 ^ 32 - uint v" by (simp add: uint_word_ariths zmod_zminus1_eq_if)
  then have "int (unat (- v) + unat v) = int (2 ^ 32)" by simp
  then have "unat (- v) + unat v = 2 ^ 32" by (simp only: of_nat_eq_iff)
  then show ?thesis by simp
qed

text \<open>C12: The window is read under \<^verbatim>\<open>send_lock\<close> and charged under it later, but the lock is not held in between.
  Two threads that write on one stream and both read the window \<open>n\<close> send \<open>2 * n\<close> bytes together, and the window
  wraps around to almost \<open>2 ^ 32\<close>.\<close>

theorem writers_overrun_window:
  assumes inv: "winv os {} w" and rel: "reliable os w" and s: "heap w a = Some s"
    and st: "\<not> write_closed (st_state s)" and n: "unat (st_send_window s) = n" "0 < n" "n < 2 ^ 31" "length d = n" "length e = n"
  shows "\<exists>xs' w' s'. run_writers os [0, 0, 1, 1, 0, 0, 0, 0, 1, 1, 1, 1]
      [\<lparr>wr_stream = a, wr_data = d, wr_n = n, wr_pc = W_State\<rparr>, \<lparr>wr_stream = a, wr_data = e, wr_n = n, wr_pc = W_State\<rparr>] w = Some (xs', w') \<and>
    length (a_out (view w')) = length (a_out (view w)) + 2 * (12 + n) \<and>
    heap w' a = Some s' \<and> unat (st_send_window s') = 2 ^ 32 - n"
proof -
  let ?x = "\<lambda>pc. \<lparr>wr_stream = a, wr_data = d, wr_n = n, wr_pc = pc\<rparr>" and ?y = "\<lambda>pc. \<lparr>wr_stream = a, wr_data = e, wr_n = n, wr_pc = pc\<rparr>"
  let ?v = "st_send_window s"
  have v: "?v \<noteq> 0" "write_len n (view_stream s) = ?v" using n by (auto simp: write_len_def)
  have 0: "run_writers os [0, 0] [?x W_State, ?y W_State] w = Some ([?x (W_Flags ?v), ?y W_State], w)"
    using looks [OF inv, of 0 "[?x W_State, ?y W_State]" s] s st v by simp
  have 1: "run_writers os [1, 1] [?x (W_Flags ?v), ?y W_State] w = Some ([?x (W_Flags ?v), ?y (W_Flags ?v)], w)"
    using looks [OF inv, of 1 "[?x (W_Flags ?v), ?y W_State]" s] s st v by simp
  obtain pc w1 s1 where w1: "run_writers os [0, 0, 0, 0] [?x (W_Flags ?v), ?y (W_Flags ?v)] w = Some ([?x pc, ?y (W_Flags ?v)], w1)"
    "keeps os {} w w1" "heap w1 a = Some s1" "st_id s1 = st_id s" "st_send_window s1 = 0"
    "length (a_out (view w1)) = length (a_out (view w)) + 12 + n"
    using sends_frame [OF inv rel, of 0 "[?x (W_Flags ?v), ?y (W_Flags ?v)]" s s] s v n
    by (auto simp: writer_ok_def simp del: run_writers.simps view_sel)
  obtain pc' w2 s2 where w2: "run_writers os [1, 1, 1, 1] [?x pc, ?y (W_Flags ?v)] w1 = Some ([?x pc, ?y pc'], w2)"
    "heap w2 a = Some s2" "st_send_window s2 = - ?v" "length (a_out (view w2)) = length (a_out (view w1)) + 12 + n"
    using sends_frame [OF keeps_winv [OF w1(2)] keeps_reliable [OF w1(2) rel], of 1 "[?x pc, ?y (W_Flags ?v)]" s s1] w1(3-5) v n
    by (auto simp: writer_ok_def simp del: run_writers.simps view_sel)
  have "run_writers os ([0, 0] @ [1, 1] @ [0, 0, 0, 0] @ [1, 1, 1, 1]) [?x W_State, ?y W_State] w = Some ([?x pc, ?y pc'], w2)"
    unfolding run_writers_append 0 using 1 w1(1) w2(1) by (simp del: run_writers.simps)
  moreover have "unat (- ?v) = 2 ^ 32 - n" using v n by (simp add: unat_neg)
  ultimately show ?thesis using w1(6) w2(2-4) by (simp del: run_writers.simps view_sel)
qed

theorem writers_overrun_window_witness:
  "\<exists>xs' w' s'. run_writers sim_os [0, 0, 1, 1, 0, 0, 0, 0, 1, 1, 1, 1]
      [\<lparr>wr_stream = 0, wr_data = replicate 262144 1, wr_n = 262144, wr_pc = W_State\<rparr>,
       \<lparr>wr_stream = 0, wr_data = replicate 262144 2, wr_n = 262144, wr_pc = W_State\<rparr>] opened = Some (xs', w') \<and>
    length (a_out (view w')) = length (a_out (view opened)) + 2 * (12 + 262144) \<and>
    heap w' 0 = Some s' \<and> unat (st_send_window s') = 2 ^ 32 - 262144"
proof -
  obtain s where s: "heap opened 0 = Some s" "view_stream s = (new_stream 1 STATE_INIT)\<lparr>a_state := STATE_SYN_SENT\<rparr>"
    using opened_stream by blast
  have d: "st_send_window s = 262144" "st_state s = STATE_SYN_SENT"
    using arg_cong [OF s(2), of a_send_window] arg_cong [OF s(2), of a_state] by (simp_all add: new_stream_def MAX_STREAM_WINDOW_SIZE_def)
  show ?thesis
    by (rule writers_overrun_window [OF opened_ok(2,3) s(1)]) (simp_all add: d)
qed

end
