(* ===== verification/Readers.thy ===== *)
theory Readers
  imports Writers
begin

text \<open>
  Readers of streams and the thread that receives, at the same time. A reader makes calls of \<^verbatim>\<open>stream_read\<close> one
  after the other; the receiving thread is in the loop of \<^verbatim>\<open>session_handle_data\<close> that moves the payload of a frame
  to its stream. As in \<^verbatim>\<open>Writers\<close>, the code is cut where a thread holds no mutex of a stream, and between
  two steps of a thread any other thread may take steps. The receiver holds \<^verbatim>\<open>recv_lock\<close> of the session all the time, as
  \<^verbatim>\<open>session_process\<close> does. \<^verbatim>\<open>session_go_away_for_reason\<close> belongs to the step that calls it.
\<close>

section \<open>Calls as sequences of steps\<close>

text \<open>Where a reader is: between two calls, before the test of the state, before the test for data, in \<^verbatim>\<open>select\<close>,
  before the data is taken, before the descriptor is marked as not readable, and in the three parts of
  \<^verbatim>\<open>send_window_update\<close>. The number is the result of the call once it is known, and the size of the buffer before.\<close>

datatype read_pc =
  R_Idle | R_State nat | R_Pending nat | R_Select int nat | R_Read nat | R_Wait int | R_Flags int | R_Window int uint16
| R_Send int "byte list"

text \<open>\<open>rd_sizes\<close> are the sizes of the calls still to make, \<open>rd_got\<close> what the calls have stored in the buffers of the caller, and
  \<open>rd_results\<close> what they have returned.\<close>

record reader =
  rd_stream :: addr
  rd_sizes :: "nat list"
  rd_pc :: read_pc
  rd_got :: "byte list"
  rd_results :: "int list"

definition returns :: "int \<Rightarrow> reader \<Rightarrow> reader" where
  "returns r x = x\<lparr>rd_pc := R_Idle, rd_results := rd_results x @ [r]\<rparr>"

definition pending_turn :: "'k os \<Rightarrow> nat \<Rightarrow> reader \<Rightarrow> 'k world \<Rightarrow> (reader \<times> 'k world) option" where
  "pending_turn os n x w = do {
     let a = rd_stream x;
     w \<leftarrow> mutex_lock (Recv_lock a) w;
     s \<leftarrow> heap w a;
     let r = bio_pending (st_recv_buf s);
     w \<leftarrow> mutex_unlock (Recv_lock a) w;
     if r = 0 then
       (if \<not> would_block os (st_fd s) w then Some (returns (- 1) x, w\<lparr>errno := EAGAIN\<rparr>)
        else Some (x\<lparr>rd_pc := R_Select (st_fd s) n\<rparr>, w))
     else Some (x\<lparr>rd_pc := R_Read n\<rparr>, w)
   }"

definition read_select_turn :: "'k os \<Rightarrow> int \<Rightarrow> nat \<Rightarrow> reader \<Rightarrow> 'k world \<Rightarrow> (reader \<times> 'k world) option" where
  "read_select_turn os fd n x w =
     (case sys_select os fd For_Reading (kern w) of
        None \<Rightarrow> Some (x, w)
      | Some (r, isset, k) \<Rightarrow>
          let w = w\<lparr>kern := k\<rparr> in
          if r \<noteq> 1 then Some (returns (- 1) x, w) else do { _ \<leftarrow> c_assert isset; Some (x\<lparr>rd_pc := R_State n\<rparr>, w) })"

definition fetch_turn :: "nat \<Rightarrow> reader \<Rightarrow> 'k world \<Rightarrow> (reader \<times> 'k world) option" where
  "fetch_turn n x w = do {
     let a = rd_stream x;
     w \<leftarrow> mutex_lock (Recv_lock a) w;
     s \<leftarrow> heap w a;
     (r, buf, b) \<leftarrow> bio_read (st_recv_buf s) n;
     _ \<leftarrow> c_assert (r > 0);
     let pending = bio_pending b;
     let w = put_stream a (s\<lparr>st_recv_buf := b\<rparr>) w;
     w \<leftarrow> mutex_unlock (Recv_lock a) w;
     Some (x\<lparr>rd_pc := (if pending = 0 then R_Wait r else R_Flags r), rd_got := rd_got x @ buf\<rparr>, w)
   }"

definition grant_turn :: "'k os \<Rightarrow> int \<Rightarrow> uint16 \<Rightarrow> reader \<Rightarrow> 'k world \<Rightarrow> (reader \<times> 'k world) option" where
  "grant_turn os r flags x w = do {
     let a = rd_stream x;
     w \<leftarrow> mutex_lock (Recv_lock a) w;
     s \<leftarrow> heap w a;
     let max_win = MAX_STREAM_WINDOW_SIZE;
     let pend = word_of_int (bio_pending (st_recv_buf s));
     let delta = (max_win - pend) - st_recv_window s;
     if delta < max_win div 2 \<and> flags = 0 then do {
       w \<leftarrow> mutex_unlock (Recv_lock a) w;
       Some (returns r x, w)
     }
     else do {
       let w = put_stream a (s\<lparr>st_recv_window := st_recv_window s + delta\<rparr>) w;
       w \<leftarrow> mutex_unlock (Recv_lock a) w;
       let hdr = hdr_encode (host_le os) TYPE_WINDOW_UPDATE flags (st_id s) delta;
       Some (x\<lparr>rd_pc := R_Send r hdr\<rparr>, w)
     }
   }"

definition read_turn :: "'k os \<Rightarrow> reader \<Rightarrow> 'k world \<Rightarrow> (reader \<times> 'k world) option" where
  "read_turn os x w =
     (let a = rd_stream x in
      case rd_pc x of
        R_Idle \<Rightarrow> Some (case rd_sizes x of [] \<Rightarrow> x | n # ns \<Rightarrow> x\<lparr>rd_sizes := ns, rd_pc := R_State n\<rparr>, w)
      | R_State n \<Rightarrow> do {
          (ret, w) \<leftarrow> read_state_check a w;
          Some (case ret of None \<Rightarrow> x\<lparr>rd_pc := R_Pending n\<rparr> | Some r \<Rightarrow> returns r x, w)
        }
      | R_Pending n \<Rightarrow> pending_turn os n x w
      | R_Select fd n \<Rightarrow> read_select_turn os fd n x w
      | R_Read n \<Rightarrow> fetch_turn n x w
      | R_Wait r \<Rightarrow> do {
          (e, w) \<leftarrow> stream_readable_waiting os a w;
          Some (if e \<noteq> 0 then returns (- 1) x else x\<lparr>rd_pc := R_Flags r\<rparr>, w)
        }
      | R_Flags r \<Rightarrow> do { (flags, w) \<leftarrow> stream_send_flags a w; Some (x\<lparr>rd_pc := R_Window r flags\<rparr>, w) }
      | R_Window r flags \<Rightarrow> grant_turn os r flags x w
      | R_Send r hdr \<Rightarrow> do { (_, w) \<leftarrow> session_send_buf_write hdr 12 w; Some (returns r x, w) })"

text \<open>The receiver: before a turn of the loop, after a chunk is stored and before the reader is notified, or
  done with the loop.\<close>

datatype recv_pc = V_Chunk | V_Notify int | V_Done int

record receiver =
  rv_stream :: addr
  rv_pc :: recv_pc

definition chunk_turn :: "'k os \<Rightarrow> addr \<Rightarrow> 'k world \<Rightarrow> (recv_pc \<times> 'k world) option" where
  "chunk_turn os a w =
     (if ss_frame_remain (sess w) \<noteq> 0 \<and> bio_pending (ss_recv_buf (sess w)) \<noteq> 0 then do {
        let sz = min (unat (ss_frame_remain (sess w))) 4096;
        (r, buf) \<leftarrow> bio_peek (ss_recv_buf (sess w)) sz;
        _ \<leftarrow> c_assert (r > 0);
        w \<leftarrow> mutex_lock (Recv_lock a) w;
        s \<leftarrow> heap w a;
        (r, b, al) \<leftarrow> bio_write (st_recv_buf s) buf (nat r) (mem w);
        let w = (put_stream a (s\<lparr>st_recv_buf := b\<rparr>) w)\<lparr>mem := al\<rparr>;
        if r = - 1 then do {
          (_, w) \<leftarrow> session_go_away_for_reason os GO_AWAY_INTERNAL_ERR w;
          w \<leftarrow> mutex_unlock (Recv_lock a) w;
          Some (V_Done (- 1), w)
        }
        else do {
          let w = put_stream a (s\<lparr>st_recv_buf := b, st_recv_window := st_recv_window s - word_of_int r\<rparr>) w;
          w \<leftarrow> mutex_unlock (Recv_lock a) w;
          Some (V_Notify r, w)
        }
      }
      else Some (V_Done 0, if ss_frame_remain (sess w) = 0 then put_sess ((sess w)\<lparr>ss_new_frame := True\<rparr>) w else w))"

definition notify_turn :: "'k os \<Rightarrow> addr \<Rightarrow> int \<Rightarrow> 'k world \<Rightarrow> (recv_pc \<times> 'k world) option" where
  "notify_turn os a r w = do {
     (e, w) \<leftarrow> stream_readable_notify os a w;
     if e \<noteq> 0 then do {
       (_, w) \<leftarrow> session_go_away_for_reason os GO_AWAY_INTERNAL_ERR w;
       Some (V_Done (- 1), w)
     }
     else do {
       (_, b) \<leftarrow> bio_consume (ss_recv_buf (sess w)) (nat r);
       let w = put_sess ((sess w)\<lparr>ss_recv_buf := b, ss_frame_remain := ss_frame_remain (sess w) - word_of_int r\<rparr>) w;
       Some (V_Chunk, w)
     }
   }"

definition recv_turn :: "'k os \<Rightarrow> receiver \<Rightarrow> 'k world \<Rightarrow> (recv_pc \<times> 'k world) option" where
  "recv_turn os v w =
     (case rv_pc v of
        V_Chunk \<Rightarrow> chunk_turn os (rv_stream v) w
      | V_Notify r \<Rightarrow> notify_turn os (rv_stream v) r w
      | V_Done r \<Rightarrow> Some (V_Done r, w))"

text \<open>A schedule is a list of numbers: 0 is the receiver, \<open>Suc i\<close> the reader \<open>i\<close>.\<close>

primrec run_readers :: "'k os \<Rightarrow> nat list \<Rightarrow> receiver \<Rightarrow> reader list \<Rightarrow> 'k world \<Rightarrow> (receiver \<times> reader list \<times> 'k world) option" where
  "run_readers os [] v xs w = Some (v, xs, w)"
| "run_readers os (t # ts) v xs w =
     (case t of
        0 \<Rightarrow> do { (pc, w) \<leftarrow> recv_turn os v w; run_readers os ts (v\<lparr>rv_pc := pc\<rparr>) xs w }
      | Suc i \<Rightarrow>
          if i < length xs then do { (x, w) \<leftarrow> read_turn os (xs ! i) w; run_readers os ts v (xs[i := x]) w }
          else run_readers os ts v xs w)"

lemma run_readers_append:
  "run_readers os (ts @ us) v xs w = do { (v, xs, w) \<leftarrow> run_readers os ts v xs w; run_readers os us v xs w }"
  by (induction ts arbitrary: v xs w) (simp_all add: case_prod_beta' split: nat.split)


lemma run_readers_then:
  "run_readers os ts v xs w = Some (v', xs', w') \<Longrightarrow> run_readers os (ts @ us) v xs w = run_readers os us v' xs' w'"
  by (simp add: run_readers_append)

section \<open>What a step of a reader does\<close>

text \<open>The data buffered for a stream, and the streams for which the steps keep the bound of flow control.\<close>

definition data_at :: "asession \<Rightarrow> addr \<Rightarrow> byte list" where
  "data_at A a = (case a_streams A a of None \<Rightarrow> [] | Some s \<Rightarrow> a_data s)"

definition fits :: "astream \<Rightarrow> bool" where
  "fits s \<longleftrightarrow> length (a_data s) + unat (a_recv_window s) \<le> 262144"

definition widens :: "(astream \<Rightarrow> astream) \<Rightarrow> bool" where
  "widens f \<longleftrightarrow> (\<forall>s. fits s \<longrightarrow> fits (f s) \<and> a_recv_window s \<le> a_recv_window (f s))"

lemma widens_simps [simp]:
  "widens (\<lambda>s. s)" "widens (a_readable_update g)" "widens (a_state_update g')" "widens (a_data_update (drop n))"
  by (auto simp: widens_def fits_def)

lemma data_at_simps [simp]:
  "data_at (put_out bs A) = data_at A" "data_at (A\<lparr>a_local_go_away := g\<rparr>) = data_at A"
  "data_at (A\<lparr>a_in := i, a_remain := r\<rparr>) = data_at A" "data_at (A\<lparr>a_new_frame := b\<rparr>) = data_at A"
  "data_at (upd a f A) c = (if c = a then (case a_streams A a of None \<Rightarrow> [] | Some s \<Rightarrow> a_data (f s)) else data_at A c)"
  by (auto simp: data_at_def fun_eq_iff split: option.split)

text \<open>A reader that asks for something in every call. It takes data only after it has seen some, and nobody else
  takes it meanwhile.\<close>

definition reader_ok :: "asession \<Rightarrow> reader \<Rightarrow> bool" where
  "reader_ok A x \<longleftrightarrow> a_streams A (rd_stream x) \<noteq> None \<and> (\<forall>n\<in>set (rd_sizes x). 0 < n) \<and>
     (case rd_pc x of
        R_State n \<Rightarrow> 0 < n | R_Pending n \<Rightarrow> 0 < n | R_Select fd n \<Rightarrow> 0 < n
      | R_Read n \<Rightarrow> 0 < n \<and> data_at A (rd_stream x) \<noteq> [] | R_Send r hdr \<Rightarrow> length hdr = 12 | _ \<Rightarrow> True)"

definition reads :: "'k os \<Rightarrow> mutex set \<Rightarrow> reader \<Rightarrow> 'k world \<Rightarrow> reader \<Rightarrow> 'k world \<Rightarrow> bool" where
  "reads os H x w x' w' \<longleftrightarrow> keeps os H w w' \<and> rd_stream x' = rd_stream x \<and> reader_ok (view w') x' \<and>
     (\<exists>f bs. view w' = put_out bs (upd (rd_stream x) f (view w)) \<and> widens f) \<and>
     rd_got x' @ data_at (view w') (rd_stream x) = rd_got x @ data_at (view w) (rd_stream x)"

lemma readsI:
  assumes "keeps os H w w'" and "rd_stream x' = rd_stream x" and "view w' = put_out bs (upd (rd_stream x) f (view w))" and "widens f"
    and "rd_got x' @ data_at (view w') (rd_stream x) = rd_got x @ data_at (view w) (rd_stream x)" and "reader_ok (view w') x'"
  shows "reads os H x w x' w'"
  using assms unfolding reads_def by blast

lemma reads_same:
  assumes "keeps os H w w'" and "view w' = view w" and "rd_stream x' = rd_stream x" and "rd_got x' = rd_got x" and "reader_ok (view w) x'"
  shows "reads os H x w x' w'"
  using assms upd_id [of "view w" "rd_stream x" "\<lambda>s. s"] by (intro readsI [where bs = "[]" and f = "\<lambda>s. s"]) simp_all

lemma returns_sel [simp]:
  "rd_stream (returns r x) = rd_stream x" "rd_got (returns r x) = rd_got x" "rd_pc (returns r x) = R_Idle" "rd_sizes (returns r x) = rd_sizes x"
  by (simp_all add: returns_def)

lemma reader_idle: "reader_ok A x \<Longrightarrow> reader_ok A (returns r x)"
  by (auto simp: reader_ok_def split: read_pc.splits)

lemma data_at_view: "heap w a = Some s \<Longrightarrow> data_at (view w) a = bio_bytes (st_recv_buf s)"
  by (simp add: data_at_def)

lemma state_turn_ok:
  assumes "winv os H w" and "H \<subseteq> {Session_recv_lock}" and "reader_ok (view w) x" and "rd_pc x = R_State n"
  shows "\<exists>x'. read_turn os x w = Some (x', w) \<and> reads os H x w x' w"
proof -
  from assms(3) obtain s where s: "heap w (rd_stream x) = Some s" by (auto simp: reader_ok_def)
  have H: "State_lock (rd_stream x) \<notin> H" "Recv_lock (rd_stream x) \<notin> H" using assms(2) by auto
  from read_state_check_eq [OF assms(1) s H] obtain ret where "read_state_check (rd_stream x) w = Some (ret, w)" by blast
  then have "read_turn os x w = Some (case ret of None \<Rightarrow> x\<lparr>rd_pc := R_Pending n\<rparr> | Some r \<Rightarrow> returns r x, w)"
    using assms(4) by (simp add: read_turn_def)
  moreover have "reads os H x w (x\<lparr>rd_pc := R_Pending n\<rparr>) w" "reads os H x w (returns r x) w" for r
    using assms keeps_refl [OF assms(1)] reader_idle [OF assms(3)] by (auto intro!: reads_same simp: reader_ok_def)
  ultimately show ?thesis by (cases ret) auto
qed

lemma pending_turn_ok:
  assumes "winv os H w" and "H \<subseteq> {Session_recv_lock}" and "buffers_bounded (view w)" and "reader_ok (view w) x" and "rd_pc x = R_Pending n"
  shows "\<exists>x' w'. read_turn os x w = Some (x', w') \<and> reads os H x w x' w'"
proof -
  from assms(4) obtain s where s: "heap w (rd_stream x) = Some s" by (auto simp: reader_ok_def)
  have "mutexes w (Recv_lock (rd_stream x)) = Free" using winv_mutex [OF assms(1), of "Recv_lock (rd_stream x)"] s assms(2) by auto
  then have turn: "read_turn os x w = Some (if bio_pending (st_recv_buf s) = 0
      then if \<not> would_block os (st_fd s) w then (returns (- 1) x, w\<lparr>errno := EAGAIN\<rparr>) else (x\<lparr>rd_pc := R_Select (st_fd s) n\<rparr>, w)
      else (x\<lparr>rd_pc := R_Read n\<rparr>, w))"
    using s assms(5) by (auto simp: read_turn_def pending_turn_def mutex_lock_free mutex_unlock_held fun_upd_idem)
  have "bio_pending (st_recv_buf s) = 0 \<longleftrightarrow> bio_bytes (st_recv_buf s) = []"
    by (rule pending_eq_0 [OF winv_recv_buf [OF assms(1) s] bounded_data [OF assms(3) s]])
  then have "bio_pending (st_recv_buf s) \<noteq> 0 \<Longrightarrow> reads os H x w (x\<lparr>rd_pc := R_Read n\<rparr>) w"
    "reads os H x w (x\<lparr>rd_pc := R_Select (st_fd s) n\<rparr>) w" "reads os H x w (returns (- 1) x) (w\<lparr>errno := EAGAIN\<rparr>)"
    using assms(4,5) keeps_refl [OF assms(1)] reader_idle [OF assms(4)] assms(1) s
    by (auto intro!: reads_same simp: reader_ok_def data_at_view keeps_def)
  with turn show ?thesis by auto
qed

lemma read_select_turn_ok:
  assumes "winv os H w" and "selects_ok os" and "reader_ok (view w) x" and "rd_pc x = R_Select fd n"
  shows "\<exists>x' w'. read_turn os x w = Some (x', w') \<and> reads os H x w x' w'"
proof (cases "sys_select os fd For_Reading (kern w)")
  case None
  then show ?thesis using assms keeps_refl [OF assms(1)]
    by (auto simp: read_turn_def read_select_turn_def intro!: reads_same)
next
  case (Some t)
  then obtain r isset k where k: "sys_select os fd For_Reading (kern w) = Some (r, isset, k)" by (cases t) auto
  with assms(2) have q: "quiet os (kern w) k" "0 < r \<Longrightarrow> isset" unfolding selects_ok_def by blast+
  from q(1) have "wired os (w\<lparr>kern := k\<rparr>) = wired os w" by (intro wired_cong) simp_all
  then have k1: "keeps os H w (w\<lparr>kern := k\<rparr>)" using assms(1) winv_wired [OF assms(1)] by (simp add: keeps_def winv_kern)
  have "reads os H x w (if r \<noteq> 1 then returns (- 1) x else x\<lparr>rd_pc := R_State n\<rparr>) (w\<lparr>kern := k\<rparr>)"
    using k1 assms(3,4) reader_idle [OF assms(3)] by (auto intro!: reads_same simp: reader_ok_def)
  moreover have "read_turn os x w = Some (if r \<noteq> 1 then returns (- 1) x else x\<lparr>rd_pc := R_State n\<rparr>, w\<lparr>kern := k\<rparr>)"
    using k q(2) assms(4) by (auto simp: read_turn_def read_select_turn_def)
  ultimately show ?thesis by blast
qed

text \<open>Taking data: the oldest bytes, or a failed assertion when there are none.\<close>

lemma fetch_turn_eq:
  assumes "winv os H w" and "H \<subseteq> {Session_recv_lock}" and s: "heap w (rd_stream x) = Some s" and len: "length (bio_bytes (st_recv_buf s)) < 2 ^ 31"
    and pc: "rd_pc x = R_Read n"
  defines "xs \<equiv> bio_bytes (st_recv_buf s)"
  shows "0 < n \<Longrightarrow> xs \<noteq> [] \<Longrightarrow> \<exists>b. bio_ok b \<and> bio_bytes b = drop n xs \<and> read_turn os x w =
      Some (x\<lparr>rd_pc := (if drop n xs = [] then R_Wait (int (min n (length xs))) else R_Flags (int (min n (length xs)))), rd_got := rd_got x @ take n xs\<rparr>,
        put_stream (rd_stream x) (s\<lparr>st_recv_buf := b\<rparr>) w)"
    and "xs = [] \<Longrightarrow> read_turn os x w = None"
proof -
  have m: "mutexes w (Recv_lock (rd_stream x)) = Free" using winv_mutex [OF assms(1), of "Recv_lock (rd_stream x)"] s assms(2) by auto
  from bio_read_correct [OF winv_recv_buf [OF assms(1) s], of n] obtain b where
    b: "bio_read (st_recv_buf s) n = Some (to_int (min n (length xs)), take n xs, b)" "bio_ok b" "bio_bytes b = drop n xs"
    by (auto simp: xs_def)
  have r: "to_int (min n (length xs)) = int (min n (length xs))" using len by (intro to_int_small) (simp add: xs_def)
  have pend: "bio_pending b = 0 \<longleftrightarrow> drop n xs = []"
    using bio_pending_correct [OF b(2)] b(3) len by (simp add: to_int_small xs_def)
  show "\<exists>b. bio_ok b \<and> bio_bytes b = drop n xs \<and> read_turn os x w =
      Some (x\<lparr>rd_pc := (if drop n xs = [] then R_Wait (int (min n (length xs))) else R_Flags (int (min n (length xs)))), rd_got := rd_got x @ take n xs\<rparr>,
        put_stream (rd_stream x) (s\<lparr>st_recv_buf := b\<rparr>) w)" if "0 < n" "xs \<noteq> []"
    using m s b r pend pc that
    by (intro exI [of _ b])
      (simp add: read_turn_def fetch_turn_def Let_def mutex_lock_free mutex_unlock_held put_mutexes fun_upd_idem del: drop_eq_Nil)
  show "read_turn os x w = None" if "xs = []"
    using m s b r pc that by (simp add: read_turn_def fetch_turn_def mutex_lock_free c_assert_def)
qed

lemma fetch_turn_ok:
  assumes "winv os H w" and "H \<subseteq> {Session_recv_lock}" and "buffers_bounded (view w)" and "reader_ok (view w) x" and "rd_pc x = R_Read n"
  shows "\<exists>x' w'. read_turn os x w = Some (x', w') \<and> reads os H x w x' w'"
proof -
  from assms(4) obtain s where s: "heap w (rd_stream x) = Some s" by (auto simp: reader_ok_def)
  let ?a = "rd_stream x" and ?xs = "bio_bytes (st_recv_buf s)"
  have n: "0 < n" "?xs \<noteq> []" using assms(4,5) s by (auto simp: reader_ok_def data_at_view)
  from fetch_turn_eq(1) [OF assms(1,2) s bounded_data [OF assms(3) s] assms(5) n] obtain b where
    b: "bio_ok b" "bio_bytes b = drop n ?xs" "read_turn os x w =
      Some (x\<lparr>rd_pc := (if drop n ?xs = [] then R_Wait (int (min n (length ?xs))) else R_Flags (int (min n (length ?xs)))), rd_got := rd_got x @ take n ?xs\<rparr>,
        put_stream ?a (s\<lparr>st_recv_buf := b\<rparr>) w)" by blast
  let ?w = "put_stream ?a (s\<lparr>st_recv_buf := b\<rparr>) w"
  have k: "keeps os H w ?w" using assms(1) s b(1) by (intro keeps_put_stream) auto
  have v: "view ?w = upd ?a (a_data_update (drop n)) (view w)"
    using s b(2) by (intro view_put_upd) (auto simp: view_stream_def)
  have "reads os H x w (x\<lparr>rd_pc := (if drop n ?xs = [] then R_Wait (int (min n (length ?xs))) else R_Flags (int (min n (length ?xs)))),
      rd_got := rd_got x @ take n ?xs\<rparr>) ?w"
  proof (rule readsI [where bs = "[]" and f = "a_data_update (drop n)"])
    have "a_streams (view w) ?a = Some (view_stream s)" using s by simp
    then show "rd_got (x\<lparr>rd_pc := (if drop n ?xs = [] then R_Wait (int (min n (length ?xs))) else R_Flags (int (min n (length ?xs)))),
        rd_got := rd_got x @ take n ?xs\<rparr>) @ data_at (view ?w) ?a = rd_got x @ data_at (view w) ?a"
      by (simp add: v data_at_def del: view_sel)
  qed (use k v assms(4) in \<open>auto simp: reader_ok_def simp del: view_sel\<close>)
  with b(3) show ?thesis by blast
qed

lemma wait_read_turn_ok:
  assumes "winv os H w" and "os_live os" and "H \<subseteq> {Session_recv_lock}" and "reader_ok (view w) x" and "rd_pc x = R_Wait r"
  shows "\<exists>x' w'. read_turn os x w = Some (x', w') \<and> reads os H x w x' w'"
proof -
  from assms(4) obtain s where s: "heap w (rd_stream x) = Some s" by (auto simp: reader_ok_def)
  have "Recv_lock (rd_stream x) \<notin> H" using assms(3) by auto
  from wpD [OF stream_readable_waiting_wp [OF assms(1,2) s this]] obtain e w' where
    w': "stream_readable_waiting os (rd_stream x) w = Some (e, w')" "sets os H (rd_stream x) (a_readable_update (\<lambda>_. False)) w (e, w')" by auto
  have "e = 0 \<Longrightarrow> reads os H x w (x\<lparr>rd_pc := R_Flags r\<rparr>) w'"
    using setsD [OF w'(2)] assms(4) s
    by (intro readsI [where bs = "[]" and f = "a_readable_update (\<lambda>_. False)"]) (auto simp: reader_ok_def data_at_def simp del: view_sel)
  moreover have "e \<noteq> 0 \<Longrightarrow> reads os H x w (returns (- 1) x) w'"
    using setsD [OF w'(2)] reader_idle [OF assms(4)] by (auto intro!: reads_same)
  moreover have "read_turn os x w = Some (if e \<noteq> 0 then returns (- 1) x else x\<lparr>rd_pc := R_Flags r\<rparr>, w')"
    using w'(1) assms(5) by (simp add: read_turn_def)
  ultimately show ?thesis by auto
qed

lemma flags_turn_ok:
  assumes "winv os H w" and "H \<subseteq> {Session_recv_lock}" and "reader_ok (view w) x" and "rd_pc x = R_Flags r"
  shows "\<exists>x' w'. read_turn os x w = Some (x', w') \<and> reads os H x w x' w'"
proof -
  from assms(3) obtain s where s: "heap w (rd_stream x) = Some s" by (auto simp: reader_ok_def)
  have "State_lock (rd_stream x) \<notin> H" using assms(2) by auto
  from stream_send_flags_spec [OF assms(1) s this] obtain w' where
    w': "stream_send_flags (rd_stream x) w = Some (fst (send_step (st_state s)), w')" "keeps os H w w'"
    "view w' = upd (rd_stream x) (a_state_update (\<lambda>_. snd (send_step (st_state s)))) (view w)" by blast
  have "reads os H x w (x\<lparr>rd_pc := R_Window r (fst (send_step (st_state s)))\<rparr>) w'"
    using w'(2,3) assms(3) s
    by (intro readsI [where bs = "[]" and f = "a_state_update (\<lambda>_. snd (send_step (st_state s)))"])
      (auto simp: reader_ok_def data_at_def simp del: view_sel)
  with w'(1) assms(4) show ?thesis by (simp add: read_turn_def)
qed

text \<open>Growing the receive window to what the buffer leaves of the maximum.\<close>

definition opens :: "astream \<Rightarrow> astream" where
  "opens s = s\<lparr>a_recv_window := a_recv_window s + window_delta s\<rparr>"

lemma widens_opens [simp]: "widens opens"
proof -
  have "fits (opens s) \<and> a_recv_window s \<le> a_recv_window (opens s)" if s: "fits s" for s
  proof -
    let ?d = "of_nat (length (a_data s)) :: uint32"
    have d: "unat ?d = length (a_data s)" using s by (intro unat_of_nat32) (simp add: fits_def)
    have "unat (MAX_STREAM_WINDOW_SIZE - ?d) = 262144 - length (a_data s)"
      using s d by (simp add: fits_def unat_sub word_le_nat_alt MAX_STREAM_WINDOW_SIZE_def)
    moreover have "a_recv_window (opens s) = MAX_STREAM_WINDOW_SIZE - ?d" by (simp add: opens_def window_delta_def)
    ultimately show ?thesis using s by (auto simp: fits_def opens_def word_le_nat_alt)
  qed
  then show ?thesis by (simp add: widens_def)
qed

lemma grant_turn_ok:
  assumes "winv os H w" and "H \<subseteq> {Session_recv_lock}" and "reader_ok (view w) x" and "rd_pc x = R_Window r flags"
  shows "\<exists>x' w'. read_turn os x w = Some (x', w') \<and> reads os H x w x' w'"
proof -
  from assms(3) obtain s where s: "heap w (rd_stream x) = Some s" by (auto simp: reader_ok_def)
  let ?a = "rd_stream x" and ?d = "window_delta (view_stream s)"
  have m: "mutexes w (Recv_lock ?a) = Free" using winv_mutex [OF assms(1), of "Recv_lock ?a"] s assms(2) by auto
  have pend: "MAX_STREAM_WINDOW_SIZE - word_of_int (bio_pending (st_recv_buf s)) - st_recv_window s = ?d"
    using winv_recv_buf [OF assms(1) s] by (simp add: bio_pending_correct word_of_to_int window_delta_def)
  let ?w = "put_stream ?a (s\<lparr>st_recv_window := st_recv_window s + ?d\<rparr>) w"
  let ?x = "x\<lparr>rd_pc := R_Send r (hdr_encode (host_le os) TYPE_WINDOW_UPDATE flags (st_id s) ?d)\<rparr>"
  have turn: "read_turn os x w = Some (if ?d < MAX_STREAM_WINDOW_SIZE div 2 \<and> flags = 0 then (returns r x, w) else (?x, ?w))"
    using m s assms(4)
    by (auto simp: read_turn_def grant_turn_def Let_def pend mutex_lock_free mutex_unlock_held put_mutexes fun_upd_idem)
  have v: "view ?w = upd ?a opens (view w)" using s by (intro view_put_upd) (auto simp: view_stream_def opens_def)
  have k: "keeps os H w ?w" using assms(1) s winv_recv_buf [OF assms(1) s] by (intro keeps_put_stream) auto
  have "reads os H x w ?x ?w" using k assms(3) s
    by (intro readsI [where bs = "[]" and f = opens]) (auto simp: v reader_ok_def data_at_def opens_def hdr_encode_frame simp del: view_sel)
  moreover have "reads os H x w (returns r x) w" using keeps_refl [OF assms(1)] reader_idle [OF assms(3)] by (auto intro!: reads_same)
  ultimately show ?thesis using turn by auto
qed

lemma send_turn_ok:
  assumes "winv os H w" and "H \<subseteq> {Session_recv_lock}" and "reader_ok (view w) x" and "rd_pc x = R_Send r hdr"
  shows "\<exists>x' w'. read_turn os x w = Some (x', w') \<and> reads os H x w x' w'"
proof -
  have "Session_send_lock \<notin> H" "length hdr = 12" using assms by (auto simp: reader_ok_def)
  from send_hdr_spec [OF assms(1) this] obtain e w' where
    w': "session_send_buf_write hdr 12 w = Some (e, w')" "sends os H hdr w e w'" by blast
  then obtain bs where v: "view w' = put_out bs (view w)" unfolding sends_def by (metis put_out_Nil)
  have "reads os H x w (returns r x) w'"
    using w'(2) reader_idle [OF assms(3)] upd_id [of "view w" "rd_stream x" "\<lambda>s. s"]
    by (intro readsI [where bs = bs and f = "\<lambda>s. s"]) (auto simp: v sends_def reader_ok_def simp del: view_sel)
  then show ?thesis using w'(1) assms(4) by (simp add: read_turn_def)
qed

lemma read_turn_ok:
  assumes "winv os H w" and "H \<subseteq> {Session_recv_lock}" and "os_live os" and "selects_ok os"
    and "buffers_bounded (view w)" and "reader_ok (view w) x"
  shows "\<exists>x' w'. read_turn os x w = Some (x', w') \<and> reads os H x w x' w'"
proof (cases "rd_pc x")
  case R_Idle
  then show ?thesis using assms(6) keeps_refl [OF assms(1)]
    by (cases "rd_sizes x") (auto simp: read_turn_def reader_ok_def intro!: reads_same)
next
  case (R_State n)
  from state_turn_ok [OF assms(1,2,6) R_State] show ?thesis by blast
next
  case (R_Pending n)
  show ?thesis by (rule pending_turn_ok [OF assms(1,2,5,6) R_Pending])
next
  case (R_Select fd n)
  show ?thesis by (rule read_select_turn_ok [OF assms(1,4,6) R_Select])
next
  case (R_Read n)
  show ?thesis by (rule fetch_turn_ok [OF assms(1,2,5,6) R_Read])
next
  case (R_Wait r)
  show ?thesis by (rule wait_read_turn_ok [OF assms(1,3,2,6) R_Wait])
next
  case (R_Flags r)
  show ?thesis by (rule flags_turn_ok [OF assms(1,2,6) R_Flags])
next
  case (R_Window r flags)
  show ?thesis by (rule grant_turn_ok [OF assms(1,2,6) R_Window])
next
  case (R_Send r hdr)
  show ?thesis by (rule send_turn_ok [OF assms(1,2,6) R_Send])
qed

section \<open>What a step of the receiver does\<close>

text \<open>A chunk is stored in the stream before it is taken off the input. \<open>settle\<close> is the session with the chunk that is
  on its way taken off.\<close>

definition settle :: "recv_pc \<Rightarrow> asession \<Rightarrow> asession" where
  "settle pc A = (case pc of
      V_Notify r \<Rightarrow> A\<lparr>a_in := drop (nat r) (a_in A), a_remain := a_remain A - word_of_int r\<rparr>
    | _ \<Rightarrow> A)"

definition busy :: "receiver \<Rightarrow> asession \<Rightarrow> bool" where
  "busy v A \<longleftrightarrow> \<not> a_new_frame A \<and> a_table A (wire_id (a_hdr A)) = Some (rv_stream v) \<and> a_streams A (rv_stream v) \<noteq> None"

definition receiver_ok :: "receiver \<Rightarrow> asession \<Rightarrow> bool" where
  "receiver_ok v A \<longleftrightarrow>
     (case rv_pc v of
        V_Chunk \<Rightarrow> busy v A
      | V_Notify r \<Rightarrow> busy v A \<and> 0 < r \<and> nat r \<le> length (a_in A) \<and> nat r \<le> unat (a_remain A)
      | V_Done r \<Rightarrow> r = 0 \<longrightarrow> a_remain A = 0 \<or> a_in A = []) \<and>
     (rv_pc v \<noteq> V_Done (- 1) \<longrightarrow> length (a_in A) < 2 ^ 31 \<and> frame_fits (settle (rv_pc v) A))"

text \<open>The step moves \<open>ys\<close> from the input to the stream.\<close>

definition moves :: "receiver \<Rightarrow> asession \<Rightarrow> recv_pc \<Rightarrow> asession \<Rightarrow> byte list \<Rightarrow> bool" where
  "moves v A pc B ys \<longleftrightarrow>
     (\<exists>zs. a_in (settle (rv_pc v) A) = ys @ zs \<and>
        (pc \<noteq> V_Done (- 1) \<longrightarrow> a_in (settle pc B) = zs \<and> a_remain (settle pc B) = a_remain (settle (rv_pc v) A) - of_nat (length ys))) \<and>
     length ys \<le> unat (a_remain (settle (rv_pc v) A)) \<and> (rv_pc v = V_Done (- 1) \<longrightarrow> pc = V_Done (- 1) \<and> ys = [])"

definition delivers :: "'k os \<Rightarrow> mutex set \<Rightarrow> receiver \<Rightarrow> 'k world \<Rightarrow> recv_pc \<Rightarrow> 'k world \<Rightarrow> bool" where
  "delivers os H v w pc w' \<longleftrightarrow> keeps os H w w' \<and> receiver_ok (v\<lparr>rv_pc := pc\<rparr>) (view w') \<and> buffers_bounded (view w') \<and>
     (\<forall>b. a_streams (view w') b = None \<longleftrightarrow> a_streams (view w) b = None) \<and>
     (\<exists>ys. moves v (view w) pc (view w') ys \<and>
        (\<forall>b. data_at (view w') b = data_at (view w) b @ (if b = rv_stream v then ys else [])))"

lemma deliversI:
  assumes "keeps os H w w'" and "receiver_ok (v\<lparr>rv_pc := pc\<rparr>) (view w')" and "buffers_bounded (view w')"
    and "moves v (view w) pc (view w') ys" and "a_streams (view w') = a_streams (upd (rv_stream v) f (view w))"
    and "\<And>s. a_streams (view w) (rv_stream v) = Some s \<Longrightarrow> a_data (f s) = a_data s @ ys" and "a_streams (view w) (rv_stream v) \<noteq> None \<or> ys = []"
  shows "delivers os H v w pc w'"
proof -
  have "data_at (view w') b = data_at (view w) b @ (if b = rv_stream v then ys else [])" for b
    using assms(5-7) by (auto simp: data_at_def split: option.splits)
  moreover have "a_streams (view w') b = None \<longleftrightarrow> a_streams (view w) b = None" for b
    unfolding assms(5) by auto
  ultimately show ?thesis unfolding delivers_def using assms(1-4) by blast
qed

lemma movesI:
  assumes "a_in (settle (rv_pc v) A) = ys @ zs" and "length ys \<le> unat (a_remain (settle (rv_pc v) A))" and "rv_pc v \<noteq> V_Done (- 1)"
    and "pc \<noteq> V_Done (- 1) \<Longrightarrow> a_in (settle pc B) = zs \<and> a_remain (settle pc B) = a_remain (settle (rv_pc v) A) - of_nat (length ys)"
  shows "moves v A pc B ys"
  using assms unfolding moves_def by blast

lemma take_drop_append [simp]: "take k xs @ drop k xs @ zs = xs @ zs"
  by (metis append_assoc append_take_drop_id)

lemma frame_fits_chunk:
  assumes "\<not> a_new_frame A" and "frame_fits A" and "a_table A (wire_id (a_hdr A)) = Some a" and "a_streams A a = Some s"
  shows "a_remain A \<le> a_recv_window s"
  using assms by (auto simp: frame_fits_def)

lemma chunk_done_ok:
  assumes "winv os H w" and "receiver_ok v (view w)" and "buffers_bounded (view w)" and pc: "rv_pc v = V_Chunk"
    and e: "ss_frame_remain (sess w) = 0 \<or> a_in (view w) = []"
  shows "\<exists>w'. recv_turn os v w = Some (V_Done 0, w') \<and> delivers os H v w (V_Done 0) w'"
proof -
  let ?w = "if ss_frame_remain (sess w) = 0 then put_sess ((sess w)\<lparr>ss_new_frame := True\<rparr>) w else w"
  have len: "length (a_in (view w)) < 2 ^ 31" and b: "busy v (view w)" and ff: "frame_fits (view w)"
    using assms(2) pc by (auto simp: receiver_ok_def settle_def)
  have e': "a_remain (view w) = ss_frame_remain (sess w)" by simp
  have "bio_pending (ss_recv_buf (sess w)) = 0 \<longleftrightarrow> a_in (view w) = []" using pending_view [OF assms(1) len] by simp
  then have "recv_turn os v w = Some (V_Done 0, ?w)" using e pc by (auto simp: recv_turn_def chunk_turn_def)
  moreover note eop = end_of_payload [OF assms(1)]
  have "delivers os H v w (V_Done 0) ?w"
  proof (rule deliversI [where ys = "[]" and f = "\<lambda>s. s", OF eop(1)])
    show "receiver_ok (v\<lparr>rv_pc := V_Done 0\<rparr>) (view ?w)" unfolding eop(2) using len ff e e'
      by (auto simp: receiver_ok_def settle_def frame_fits_def simp del: view_sel)
    show "buffers_bounded (view ?w)" unfolding eop(2) using assms(3) by (simp add: buffers_bounded_def del: view_sel)
    show "a_streams (view ?w) = a_streams (upd (rv_stream v) (\<lambda>s. s) (view w))" unfolding eop(2)
      using upd_id [of "view w" "rv_stream v" "\<lambda>s. s"] by (simp del: view_sel)
    show "moves v (view w) (V_Done 0) (view ?w) []" unfolding eop(2)
      using pc by (intro movesI [where zs = "a_in (view w)"]) (simp_all add: settle_def del: view_sel)
  qed simp_all
  ultimately show ?thesis by blast
qed

text \<open>A chunk: the step is the beginning of \<^verbatim>\<open>deliver_chunk\<close> of the sequential model.\<close>

lemma chunk_refused:
  assumes "ss_frame_remain (sess w) \<noteq> 0" and "bio_pending (ss_recv_buf (sess w)) \<noteq> 0" and "mutexes w (Recv_lock a) = Free" and "heap w a = Some s"
    and "bio_peek (ss_recv_buf (sess w)) (min (unat (ss_frame_remain (sess w))) 4096) = Some (int (length xs), xs)" and "0 < length xs"
    and "bio_write (st_recv_buf s) xs (length xs) (mem w) = Some (- 1, b, al)"
    and "deliver_chunk os a (min (unat (ss_frame_remain (sess w))) 4096) w = Some (r, w')"
  shows "chunk_turn os a w = Some (V_Done (- 1), w')"
  using assms by (auto simp: chunk_turn_def deliver_chunk_def mutex_lock_free Let_def bind_eq_Some_iff)

lemma chunk_stored:
  assumes "winv os H w" and "Recv_lock a \<notin> H" and "ss_frame_remain (sess w) \<noteq> 0" and "bio_pending (ss_recv_buf (sess w)) \<noteq> 0" and "heap w a = Some s"
    and "bio_peek (ss_recv_buf (sess w)) (min (unat (ss_frame_remain (sess w))) 4096) = Some (int (length xs), xs)" and "0 < length xs"
    and "bio_write (st_recv_buf s) xs (length xs) (mem w) = Some (int (length xs), b, al)"
  shows "chunk_turn os a w = Some (V_Notify (int (length xs)),
    put_stream a (s\<lparr>st_recv_buf := b, st_recv_window := st_recv_window s - of_nat (length xs)\<rparr>) (w\<lparr>mem := al\<rparr>))"
proof -
  have "mutexes w (Recv_lock a) = Free" using winv_mutex [OF assms(1), of "Recv_lock a"] assms(2,5) by simp
  then show ?thesis using assms(3-8)
    by (auto simp: chunk_turn_def mutex_lock_free mutex_unlock_held Let_def put_stream_def fun_upd_idem)
qed

text \<open>Storing a chunk keeps the bounds: what the window allows is stored, and the window shrinks with it.\<close>

definition stores :: "byte list \<Rightarrow> astream \<Rightarrow> astream" where
  "stores xs s = s\<lparr>a_data := a_data s @ xs, a_recv_window := a_recv_window s - of_nat (length xs)\<rparr>"

lemma frame_fits_stores:
  assumes "frame_fits A" and "a_table A (wire_id (a_hdr A)) = Some a" and "\<not> a_new_frame A" and "length xs \<le> unat (a_remain A)"
  shows "frame_fits (settle (V_Notify (int (length xs))) (upd a (stores xs) A))"
proof -
  have "a_remain A - of_nat (length xs) \<le> a_recv_window (stores xs s)" if s: "a_streams A a = Some s" for s
  proof -
    have "a_remain A \<le> a_recv_window s" by (rule frame_fits_chunk [OF assms(3,1,2) s])
    then have "unat (a_remain A) \<le> unat (a_recv_window s)" by (simp add: word_le_nat_alt)
    then show ?thesis using assms(4) by (simp add: stores_def word_le_nat_alt unat_sub_of_nat)
  qed
  then show ?thesis using assms(2) by (auto simp: frame_fits_def settle_def)
qed

lemma stored_delivers:
  assumes inv: "winv os H w" and ok: "receiver_ok v (view w)" and bd: "buffers_bounded (view w)" and pc: "rv_pc v = V_Chunk"
    and s: "heap w (rv_stream v) = Some s" and split: "a_in (view w) = xs @ zs"
    and xs: "0 < length xs" "length xs \<le> unat (a_remain (view w))" "length xs \<le> length (a_in (view w))"
    and b: "bio_ok b" "bio_bytes b = bio_bytes (st_recv_buf s) @ xs" and al: "succeeds al = succeeds (mem w)"
  shows "delivers os H v w (V_Notify (int (length xs)))
    (put_stream (rv_stream v) (s\<lparr>st_recv_buf := b, st_recv_window := st_recv_window s - of_nat (length xs)\<rparr>) (w\<lparr>mem := al\<rparr>))"
    (is "delivers _ _ _ _ _ ?w")
proof -
  let ?a = "rv_stream v" and ?A = "view w" and ?wm = "w\<lparr>mem := al\<rparr>"
  let ?s = "s\<lparr>st_recv_buf := b, st_recv_window := st_recv_window s - of_nat (length xs)\<rparr>"
  have len: "length (a_in ?A) < 2 ^ 31" and bs: "busy v ?A" and ff: "frame_fits ?A" using ok pc by (auto simp: receiver_ok_def settle_def)
  have am: "heap ?wm ?a = Some s" using s by simp
  have "winv os H ?w" using winv_put_stream [of os H ?wm ?a s ?s] inv s b(1) by simp
  moreover have "reliable os ?w = reliable os w" using reliable_put_stream [OF am, of ?s os] al by simp
  ultimately have k: "keeps os H w ?w" by (simp add: keeps_def)
  have v: "view ?w = upd ?a (stores xs) ?A" using b(2) view_put_upd [OF am, of ?s "stores xs"] by (simp add: view_stream_def stores_def)
  have fits: "frame_fits (settle (V_Notify (int (length xs))) (upd ?a (stores xs) ?A))"
    using bs by (intro frame_fits_stores [OF ff _ _ xs(2)]) (simp_all add: busy_def)
  have "unat (a_remain ?A) \<le> unat (a_recv_window t)" if "a_streams ?A ?a = Some t" for t
    using frame_fits_chunk [OF _ ff _ that] bs by (simp add: busy_def word_le_nat_alt del: view_sel)
  then have bd': "buffers_bounded (upd ?a (stores xs) ?A)"
    using xs(2) by (intro bounded_upd [OF bd]) (auto simp: stores_def unat_sub_of_nat simp del: view_sel intro: order_trans)
  show ?thesis
  proof (rule deliversI [where ys = xs and f = "stores xs", OF k])
    show "receiver_ok (v\<lparr>rv_pc := V_Notify (int (length xs))\<rparr>) (view ?w)"
      unfolding v using len bs xs fits by (auto simp: receiver_ok_def busy_def simp del: view_sel)
    show "moves v ?A (V_Notify (int (length xs))) (view ?w) xs" unfolding v
      using pc split xs(2) by (intro movesI [where zs = zs]) (simp_all add: settle_def del: view_sel)
  qed (use bd' s in \<open>simp_all add: v stores_def\<close>)
qed

text \<open>A chunk that is refused half way ends the delivery; what was stored of it is its beginning.\<close>

lemma torn_delivers:
  assumes k: "keeps os H w w'" and ok: "receiver_ok v (view w)" and bd: "buffers_bounded (view w)" and pc: "rv_pc v = V_Chunk"
    and s: "heap w (rv_stream v) = Some s" and split: "a_in (view w) = xs @ zs" and xs: "length xs \<le> unat (a_remain (view w))"
    and t: "torn (rv_stream v) xs (view w) (view w')"
  shows "delivers os H v w (V_Done (- 1)) w'"
proof -
  let ?a = "rv_stream v" and ?A = "view w"
  have "busy v ?A" "frame_fits ?A" using ok pc by (auto simp: receiver_ok_def settle_def)
  then have fw: "a_remain ?A \<le> st_recv_window s"
    using frame_fits_chunk [of ?A ?a "view_stream s"] s by (auto simp: busy_def view_stream_def)
  have "torn ?a (take (unat (a_remain ?A)) (a_in ?A)) ?A (view w')" by (rule torn_more [OF t _ xs]) (unfold split, simp)
  from torn_bounded [OF this bd] have bd': "buffers_bounded (view w')" using fw s by (simp add: view_stream_def)
  from t obtain k rd where st: "a_streams (view w') = a_streams (upd ?a (\<lambda>s. (recv_bytes (take k xs) s)\<lparr>a_readable := rd\<rparr>) ?A)"
    by (auto simp: torn_def)
  show ?thesis
  proof (rule deliversI [where ys = "take k xs", OF k _ bd' _ st])
    show "moves v ?A (V_Done (- 1)) (view w') (take k xs)"
      using pc split xs by (intro movesI [where zs = "drop k xs @ zs"]) (simp_all add: settle_def)
  qed (use s in \<open>simp_all add: receiver_ok_def recv_bytes_def\<close>)
qed

definition chunk_of :: "asession \<Rightarrow> byte list" where
  "chunk_of A = take (min (unat (a_remain A)) 4096) (a_in A)"

lemma chunk_moved:
  assumes inv: "winv os H w" and H: "H \<subseteq> {Session_recv_lock}" and ok: "receiver_ok v (view w)" and bd: "buffers_bounded (view w)"
    and pc: "rv_pc v = V_Chunk" and False: "ss_frame_remain (sess w) \<noteq> 0" "a_in (view w) \<noteq> []"
  defines "xs \<equiv> chunk_of (view w)"
  shows "\<exists>pc w'. recv_turn os v w = Some (pc, w') \<and> delivers os H v w pc w' \<and>
    (reliable os w \<longrightarrow> pc = V_Notify (int (length xs)) \<and> kern w' = kern w \<and> view w' = upd (rv_stream v) (stores xs) (view w))"
proof -
  let ?a = "rv_stream v" and ?A = "view w"
  have len: "length (a_in ?A) < 2 ^ 31" and b: "busy v ?A" using ok pc by (auto simp: receiver_ok_def settle_def)
  define sz where "sz = min (unat (ss_frame_remain (sess w))) 4096"
  have xs_def: "xs = take sz (a_in ?A)" by (simp add: assms(8) chunk_of_def sz_def)
  have sz: "0 < sz" "sz \<le> 4096" "sz \<le> unat (ss_frame_remain (sess w))" using False by (auto simp: sz_def unat_gt_0)
  have xs: "0 < length xs" "length xs \<le> 4096" "length xs \<le> unat (a_remain ?A)" "length xs \<le> length (a_in ?A)"
    using sz False by (auto simp: xs_def)
  have pend: "bio_pending (ss_recv_buf (sess w)) \<noteq> 0" using pending_view [OF inv len] False by simp
  from b obtain s where s: "heap w ?a = Some s" by (auto simp: busy_def)
  have HH: "Recv_lock ?a \<notin> H" "Session_send_lock \<notin> H" using H by auto
  have m: "mutexes w (Recv_lock ?a) = Free" using winv_mutex [OF inv, of "Recv_lock ?a"] s HH by simp
  have pk: "bio_peek (ss_recv_buf (sess w)) sz = Some (int (length xs), xs)"
    using peek_chunk [of "ss_recv_buf (sess w)" sz] winv_bufs [OF inv] sz False len by (simp add: xs_def)
  have split: "a_in ?A = xs @ drop (length xs) (a_in ?A)"
    unfolding xs_def by (metis append_eq_conv_conj append_take_drop_id)
  show ?thesis
  proof (rule bio_write_view [OF winv_recv_buf [OF inv s], of "length xs" xs "mem w"])
    show "length xs \<le> length xs" "length xs < 2 ^ 31" using xs by auto
  next
    fix b' al k
    assume wr: "bio_write (st_recv_buf s) xs (length xs) (mem w) = Some (- 1, b', al)" "bio_ok b'" "succeeds al = succeeds (mem w)"
      "bio_bytes b' = bio_bytes (st_recv_buf s) @ take k xs" "k < length xs" "4096 dvd k" "\<not> never_fails (mem w)"
    from deliver_chunk_refused [OF inv s HH pk xs(1,2) wr] obtain w' where
      w': "deliver_chunk os ?a sz w = Some (None, w')" "keeps os H w w'" "torn ?a xs ?A (view w')" by blast
    have "recv_turn os v w = Some (V_Done (- 1), w')"
      using chunk_refused [OF _ pend m s] False pk xs(1) wr(1) w'(1) pc by (simp add: recv_turn_def sz_def)
    moreover have "delivers os H v w (V_Done (- 1)) w'" by (rule torn_delivers [OF w'(2) ok bd pc s split xs(3) w'(3)])
    moreover have "\<not> reliable os w" using wr(7) by (simp add: reliable_def)
    ultimately show ?thesis by blast
  next
    fix b' al
    assume wr: "bio_write (st_recv_buf s) xs (length xs) (mem w) = Some (int (length xs), b', al)" "bio_ok b'" "succeeds al = succeeds (mem w)"
      "bio_bytes b' = bio_bytes (st_recv_buf s) @ take (length xs) xs"
    note st = chunk_stored [OF inv HH(1) _ pend s _ xs(1) wr(1), folded sz_def, OF _ pk]
    let ?s = "s\<lparr>st_recv_buf := b', st_recv_window := st_recv_window s - of_nat (length xs)\<rparr>" let ?w = "put_stream ?a ?s (w\<lparr>mem := al\<rparr>)"
    have "delivers os H v w (V_Notify (int (length xs))) ?w"
      using stored_delivers [OF inv ok bd pc s _ xs(1,3,4) wr(2) _ wr(3)] wr(4) split by simp
    moreover have "view ?w = upd ?a (stores xs) ?A"
      using wr(4) s view_put_upd [of "w\<lparr>mem := al\<rparr>" ?a s ?s "stores xs"] by (simp add: view_stream_def stores_def)
    ultimately show ?thesis using st False pc by (auto simp: recv_turn_def simp del: view_sel)
  qed
qed

lemma chunk_turn_ok:
  assumes "winv os H w" and "H \<subseteq> {Session_recv_lock}" and "receiver_ok v (view w)" and "buffers_bounded (view w)" and "rv_pc v = V_Chunk"
  shows "\<exists>pc w'. recv_turn os v w = Some (pc, w') \<and> delivers os H v w pc w'"
  using chunk_done_ok [OF assms(1,3,4,5)] chunk_moved [OF assms] by blast

text \<open>Telling the application that there is data, and taking the chunk off the input.\<close>

lemma settle_upd [simp]: "settle pc (upd a f A) = upd a f (settle pc A)" "settle pc (put_out bs A) = put_out bs (settle pc A)"
  by (simp_all add: settle_def upd_def put_out_def split: recv_pc.split)

lemma settle_sel [simp]:
  "a_streams (settle pc A) = a_streams A" "buffers_bounded (settle pc A) = buffers_bounded A"
  by (simp_all add: settle_def buffers_bounded_def split: recv_pc.split)

lemma notified_delivers:
  assumes k: "keeps os H w w'" and ok: "receiver_ok v (view w)" and bd: "buffers_bounded (view w)" and pc: "rv_pc v = V_Notify r"
    and v: "view w' = upd (rv_stream v) (a_readable_update (\<lambda>_. True)) (settle (V_Notify r) (view w))"
  shows "delivers os H v w V_Chunk w'"
proof (rule deliversI [where ys = "[]" and f = "a_readable_update (\<lambda>_. True)", OF k])
  show "receiver_ok (v\<lparr>rv_pc := V_Chunk\<rparr>) (view w')" unfolding v
    using ok pc upd_keeps_bounds(2) [of "a_readable_update (\<lambda>_. True)" "settle (V_Notify r) (view w)" "rv_stream v"] bd
    by (auto simp: receiver_ok_def busy_def settle_def buffers_bounded_def simp del: view_sel)
  show "buffers_bounded (view w')" unfolding v by (rule upd_keeps_bounds(1)) (use bd in simp_all)
  show "moves v (view w) V_Chunk (view w') []" unfolding v
    using pc by (intro movesI [where zs = "drop (nat r) (a_in (view w))"]) (simp_all add: settle_def del: view_sel)
qed (simp_all add: v fun_eq_iff del: view_sel)

lemma notify_turn_ok:
  assumes inv: "winv os H w" and live: "os_live os" and H: "H \<subseteq> {Session_recv_lock}" and ok: "receiver_ok v (view w)" and bd: "buffers_bounded (view w)"
    and pc: "rv_pc v = V_Notify r"
  shows "\<exists>pc w'. recv_turn os v w = Some (pc, w') \<and> delivers os H v w pc w'"
proof -
  let ?a = "rv_stream v" and ?A = "view w"
  have r: "0 < r" "nat r \<le> length (a_in ?A)" "length (a_in ?A) < 2 ^ 31" and b: "busy v ?A"
    using ok pc by (auto simp: receiver_ok_def)
  from b obtain s where s: "heap w ?a = Some s" by (auto simp: busy_def)
  have HH: "Recv_lock ?a \<notin> H" "Session_send_lock \<notin> H" using H by auto
  from wpD [OF stream_readable_notify_wp [OF inv live s HH(1)]] obtain e w1 where
    w1: "stream_readable_notify os ?a w = Some (e, w1)" "sets os H ?a (a_readable_update (\<lambda>_. True)) w (e, w1)" by auto
  note k1 = setsD(1) [OF w1(2)]
  show ?thesis
  proof (cases "e = 0")
    case True
    then have v1: "view w1 = upd ?a (a_readable_update (\<lambda>_. True)) ?A" using setsD(2) [OF w1(2)] by auto
    let ?m = "ss_frame_remain (sess w1) - word_of_int r"
    from consume_view [OF keeps_winv [OF k1], of "nat r" ?m] r obtain y b' where
      b': "bio_consume (ss_recv_buf (sess w1)) (nat r) = Some (y, b')"
      and k2: "keeps os H w1 (put_sess ((sess w1)\<lparr>ss_recv_buf := b', ss_frame_remain := ?m\<rparr>) w1)"
      and v2: "view (put_sess ((sess w1)\<lparr>ss_recv_buf := b', ss_frame_remain := ?m\<rparr>) w1) = settle (V_Notify r) (view w1)" by (auto simp: settle_def)
    let ?w = "put_sess ((sess w1)\<lparr>ss_recv_buf := b', ss_frame_remain := ?m\<rparr>) w1"
    have "recv_turn os v w = Some (V_Chunk, ?w)" using w1(1) True b' pc by (simp add: recv_turn_def notify_turn_def)
    moreover have "delivers os H v w V_Chunk ?w"
      by (rule notified_delivers [OF _ ok bd pc]) (use k1 k2 v1 v2 in \<open>simp_all add: keeps_def del: view_sel\<close>)
    ultimately show ?thesis by blast
  next
    case False
    then have v1: "view w1 = ?A" using setsD(2) [OF w1(2)] by auto
    from go_away_spec [OF keeps_winv [OF k1] HH(2), of GO_AWAY_INTERNAL_ERR] obtain r' w2 where
      w2: "session_go_away_for_reason os GO_AWAY_INTERNAL_ERR w1 = Some (r', w2)" "goes_away os H GO_AWAY_INTERNAL_ERR w1 r' w2" by auto
    note g = goes_away_view [OF w2(2)]
    have "recv_turn os v w = Some (V_Done (- 1), w2)" using w1(1) False w2(1) pc by (simp add: recv_turn_def notify_turn_def)
    moreover have "delivers os H v w (V_Done (- 1)) w2"
    proof (rule deliversI [where ys = "[]" and f = "\<lambda>s. s"])
      show "keeps os H w w2" using k1 g(1) by (simp add: keeps_def)
      show st: "a_streams (view w2) = a_streams (upd ?a (\<lambda>s. s) ?A)" unfolding g(4) v1 using upd_id [of ?A ?a "\<lambda>s. s"] by simp
      show "buffers_bounded (view w2)" using bd unfolding buffers_bounded_def g(4) v1 .
      show "moves v ?A (V_Done (- 1)) (view w2) []" using pc by (intro movesI) simp_all
    qed (simp_all add: receiver_ok_def)
    ultimately show ?thesis by blast
  qed
qed

lemma recv_turn_ok:
  assumes "winv os H w" and "H \<subseteq> {Session_recv_lock}" and "os_live os" and "buffers_bounded (view w)" and "receiver_ok v (view w)"
  shows "\<exists>pc w'. recv_turn os v w = Some (pc, w') \<and> delivers os H v w pc w'"
proof (cases "rv_pc v")
  case V_Chunk
  show ?thesis by (rule chunk_turn_ok [OF assms(1,2,5,4) V_Chunk])
next
  case (V_Notify r)
  show ?thesis by (rule notify_turn_ok [OF assms(1,3,2,5,4) V_Notify])
next
  case (V_Done r)
  have "receiver_ok (v\<lparr>rv_pc := V_Done r\<rparr>) (view w)" using V_Done assms(5) by (simp add: receiver_ok_def)
  moreover have "moves v (view w) (V_Done r) (view w) []" using V_Done by (simp add: moves_def)
  ultimately have "delivers os H v w (V_Done r) w"
    using assms keeps_refl [OF assms(1)] upd_id [of "view w" "rv_stream v" "\<lambda>s. s"] V_Done
    by (intro deliversI [where ys = "[]" and f = "\<lambda>s. s"]) (simp_all del: view_sel)
  then show ?thesis using V_Done by (simp add: recv_turn_def)
qed

section \<open>All schedules\<close>

text \<open>What a step of one thread leaves of what the others rely on.\<close>

lemma widens_keeps:
  assumes f: "widens f" and "receiver_ok v A" and bd: "buffers_bounded A" and B: "B = put_out bs (upd a f A)"
  shows "receiver_ok v B" "buffers_bounded B"
proof -
  from f have f': "length (a_data (f s)) + unat (a_recv_window (f s)) \<le> 262144 \<and> a_recv_window s \<le> a_recv_window (f s)"
    if "length (a_data s) + unat (a_recv_window s) \<le> 262144" for s using that by (simp add: widens_def fits_def)
  show "buffers_bounded B" unfolding B using upd_keeps_bounds(1) [OF f' bd] by simp
  have "frame_fits (settle pc B)" if "frame_fits (settle pc A)" for pc
    unfolding B using upd_keeps_bounds(2) [OF f', of "settle pc A"] bd that by simp
  then show "receiver_ok v B" using assms(2) by (auto simp: receiver_ok_def busy_def B split: recv_pc.splits)
qed

lemma reads_keeps_receiver:
  assumes "reads os H x w x' w'" and "receiver_ok v (view w)" and "buffers_bounded (view w)"
  shows "receiver_ok v (view w')" "buffers_bounded (view w')"
    "\<And>pc. a_in (settle pc (view w')) = a_in (settle pc (view w))" "\<And>pc. a_remain (settle pc (view w')) = a_remain (settle pc (view w))"
    "\<And>b. b \<noteq> rd_stream x \<Longrightarrow> data_at (view w') b = data_at (view w) b"
proof -
  from assms(1) obtain f bs where v: "view w' = put_out bs (upd (rd_stream x) f (view w))" and f: "widens f" by (auto simp: reads_def)
  show "receiver_ok v (view w')" "buffers_bounded (view w')" using widens_keeps [OF f assms(2,3) v] by simp_all
  show "a_in (settle pc (view w')) = a_in (settle pc (view w))" "a_remain (settle pc (view w')) = a_remain (settle pc (view w))"
    "b \<noteq> rd_stream x \<Longrightarrow> data_at (view w') b = data_at (view w) b" for b pc
    by (simp_all add: v del: view_sel)
qed

lemma reads_keeps_reader:
  assumes "reads os H x w x' w'" and "reader_ok (view w) y" and "rd_stream y \<noteq> rd_stream x"
  shows "reader_ok (view w') y"
proof -
  from assms(1) obtain f bs where v: "view w' = put_out bs (upd (rd_stream x) f (view w))" by (auto simp: reads_def)
  show ?thesis using assms(2,3) unfolding v by (auto simp: reader_ok_def simp del: view_sel split: read_pc.splits)
qed

lemma delivers_keeps_reader:
  assumes "delivers os H v w pc w'" and "reader_ok (view w) y"
  shows "reader_ok (view w') y"
  using assms unfolding delivers_def reader_ok_def by (auto simp del: view_sel split: read_pc.splits)

text \<open>A run, or a part of one, that moves \<open>ys\<close> from the input to the stream of the receiver.\<close>

definition conveys :: "receiver \<Rightarrow> reader list \<Rightarrow> asession \<Rightarrow> receiver \<Rightarrow> reader list \<Rightarrow> asession \<Rightarrow> byte list \<Rightarrow> bool" where
  "conveys v xs A v' xs' B ys \<longleftrightarrow> rv_stream v' = rv_stream v \<and> length xs' = length xs \<and> moves v A (rv_pc v') B ys \<and>
     (\<forall>i<length xs. rd_stream (xs' ! i) = rd_stream (xs ! i) \<and>
        rd_got (xs' ! i) @ data_at B (rd_stream (xs ! i)) =
          rd_got (xs ! i) @ data_at A (rd_stream (xs ! i)) @ (if rd_stream (xs ! i) = rv_stream v then ys else []))"

lemma moves_trans:
  assumes "moves v A pc B ys" and "moves (v\<lparr>rv_pc := pc\<rparr>) B pc' C zs"
  shows "moves v A pc' C (ys @ zs)"
proof (cases "pc = V_Done (- 1)")
  case True
  with assms show ?thesis by (auto simp: moves_def)
next
  case False
  with assms have l: "length ys \<le> unat (a_remain (settle (rv_pc v) A))" "length zs \<le> unat (a_remain (settle (rv_pc v) A) - of_nat (length ys))"
    by (auto simp: moves_def)
  then have "length (ys @ zs) \<le> unat (a_remain (settle (rv_pc v) A))" by (simp add: unat_sub_of_nat)
  with assms False show ?thesis unfolding moves_def by (auto simp: algebra_simps)
qed

lemma conveys_trans:
  assumes "conveys v xs A v1 xs1 B ys" and "conveys v1 xs1 B v2 xs2 C zs"
  shows "conveys v xs A v2 xs2 C (ys @ zs)"
proof -
  have v: "v\<lparr>rv_pc := rv_pc v1\<rparr> = v1" using assms(1) by (cases v; cases v1) (simp add: conveys_def)
  have m: "moves v A (rv_pc v1) B ys" "moves (v\<lparr>rv_pc := rv_pc v1\<rparr>) B (rv_pc v2) C zs"
    unfolding v using assms by (simp_all add: conveys_def)
  have "moves v A (rv_pc v2) C (ys @ zs)" by (rule moves_trans [OF m])
  moreover have "rd_got (xs2 ! i) @ data_at C (rd_stream (xs ! i)) =
      rd_got (xs ! i) @ data_at A (rd_stream (xs ! i)) @ (if rd_stream (xs ! i) = rv_stream v then ys @ zs else [])"
    "rd_stream (xs2 ! i) = rd_stream (xs ! i)" if "i < length xs" for i
    using assms that unfolding conveys_def by auto
  ultimately show ?thesis using assms by (simp add: conveys_def)
qed

definition all_ok :: "'k os \<Rightarrow> receiver \<Rightarrow> reader list \<Rightarrow> 'k world \<Rightarrow> bool" where
  "all_ok os v xs w \<longleftrightarrow> winv os {Session_recv_lock} w \<and> buffers_bounded (view w) \<and> receiver_ok v (view w) \<and>
     (\<forall>x\<in>set xs. reader_ok (view w) x) \<and> distinct (map rd_stream xs)"

lemma all_ok_recv:
  assumes "all_ok os v xs w" and "os_live os"
  shows "\<exists>pc w' ys. recv_turn os v w = Some (pc, w') \<and> all_ok os (v\<lparr>rv_pc := pc\<rparr>) xs w' \<and> conveys v xs (view w) (v\<lparr>rv_pc := pc\<rparr>) xs (view w') ys"
proof -
  from recv_turn_ok [of os "{Session_recv_lock}" w v] assms obtain pc w' where
    t: "recv_turn os v w = Some (pc, w')" "delivers os {Session_recv_lock} v w pc w'" by (auto simp: all_ok_def)
  from t(2) obtain ys where ys: "moves v (view w) pc (view w') ys"
    "\<And>b. data_at (view w') b = data_at (view w) b @ (if b = rv_stream v then ys else [])" unfolding delivers_def by blast
  have "all_ok os (v\<lparr>rv_pc := pc\<rparr>) xs w'" using t(2) assms(1) delivers_keeps_reader [OF t(2)]
    by (auto simp: all_ok_def delivers_def keeps_winv)
  moreover have "conveys v xs (view w) (v\<lparr>rv_pc := pc\<rparr>) xs (view w') ys" using ys by (simp add: conveys_def)
  ultimately show ?thesis using t(1) by blast
qed

lemma all_ok_read:
  assumes "all_ok os v xs w" and "os_live os" and "selects_ok os" and i: "i < length xs"
  shows "\<exists>x' w'. read_turn os (xs ! i) w = Some (x', w') \<and> all_ok os v (xs[i := x']) w' \<and> conveys v xs (view w) v (xs[i := x']) (view w') []"
proof -
  have ok: "winv os {Session_recv_lock} w" "buffers_bounded (view w)" "receiver_ok v (view w)" "distinct (map rd_stream xs)"
    "\<And>j. j < length xs \<Longrightarrow> reader_ok (view w) (xs ! j)" using assms(1) by (auto simp: all_ok_def)
  from read_turn_ok [OF ok(1) order_refl assms(2,3) ok(2) ok(5) [OF i]] obtain x' w' where
    t: "read_turn os (xs ! i) w = Some (x', w')" and r: "reads os {Session_recv_lock} (xs ! i) w x' w'" by blast
  note k = reads_keeps_receiver [OF r ok(3,2)]
  have s: "rd_stream x' = rd_stream (xs ! i)" "reader_ok (view w') x'" "keeps os {Session_recv_lock} w w'"
    "rd_got x' @ data_at (view w') (rd_stream (xs ! i)) = rd_got (xs ! i) @ data_at (view w) (rd_stream (xs ! i))"
    using r unfolding reads_def by blast+
  have d: "rd_stream (xs ! j) \<noteq> rd_stream (xs ! i)" if "j < length xs" "j \<noteq> i" for j
    using ok(4) i that by (simp add: distinct_conv_nth)
  have m: "map rd_stream (xs[i := x']) = map rd_stream xs" using s(1) i by (simp add: map_update list_update_same_conv)
  have "reader_ok (view w') (xs[i := x'] ! j)" if "j < length xs" for j
    using reads_keeps_reader [OF r ok(5) [OF that]] d [OF that] s(2) that by (cases "j = i") auto
  then have "all_ok os v (xs[i := x']) w'" using k(1,2) keeps_winv [OF s(3)] ok(4) unfolding all_ok_def m by (simp add: all_set_conv_all_nth)
  moreover have "moves v (view w) (rv_pc v) (view w') []" by (simp add: moves_def k(3,4) del: view_sel)
  then have "conveys v xs (view w) v (xs[i := x']) (view w') []"
    using s(1,4) k(5) d i by (auto simp: conveys_def nth_list_update simp del: view_sel)
  ultimately show ?thesis using t by blast
qed

lemma run_readers_ok:
  assumes "all_ok os v xs w" and "os_live os" and "selects_ok os"
  shows "\<exists>v' xs' w' ys. run_readers os ts v xs w = Some (v', xs', w') \<and> all_ok os v' xs' w' \<and> conveys v xs (view w) v' xs' (view w') ys"
  using assms(1)
proof (induction ts arbitrary: v xs w)
  case Nil
  have "conveys v xs (view w) v xs (view w) []" by (simp add: conveys_def moves_def)
  with Nil show ?case by auto
next
  case (Cons t ts)
  show ?case
  proof (cases t)
    case 0
    from all_ok_recv [OF Cons.prems assms(2)] obtain pc w1 ys where
      s: "recv_turn os v w = Some (pc, w1)" "all_ok os (v\<lparr>rv_pc := pc\<rparr>) xs w1" "conveys v xs (view w) (v\<lparr>rv_pc := pc\<rparr>) xs (view w1) ys" by blast
    from Cons.IH [OF s(2)] obtain v' xs' w' zs where
      r: "run_readers os ts (v\<lparr>rv_pc := pc\<rparr>) xs w1 = Some (v', xs', w')" "all_ok os v' xs' w'"
      "conveys (v\<lparr>rv_pc := pc\<rparr>) xs (view w1) v' xs' (view w') zs" by blast
    show ?thesis using 0 s(1) r(1,2) conveys_trans [OF s(3) r(3)] by auto
  next
    case (Suc i)
    show ?thesis
    proof (cases "i < length xs")
      case True
      from all_ok_read [OF Cons.prems assms(2,3) True] obtain x' w1 where
        s: "read_turn os (xs ! i) w = Some (x', w1)" "all_ok os v (xs[i := x']) w1" "conveys v xs (view w) v (xs[i := x']) (view w1) []" by blast
      from Cons.IH [OF s(2)] obtain v' xs' w' zs where
        r: "run_readers os ts v (xs[i := x']) w1 = Some (v', xs', w')" "all_ok os v' xs' w'"
        "conveys v (xs[i := x']) (view w1) v' xs' (view w') zs" by blast
      show ?thesis using Suc True s(1) r(1,2) conveys_trans [OF s(3) r(3)] by auto
    next
      case False
      with Suc Cons.IH [OF Cons.prems] show ?thesis by simp
    qed
  qed
qed

section \<open>Schedules that go wrong\<close>

lemma sees_data:
  assumes "winv os H w" and "H \<subseteq> {Session_recv_lock}" and s: "heap w (rd_stream (xs ! i)) = Some s" and "bio_bytes (st_recv_buf s) \<noteq> []"
    and len: "length (bio_bytes (st_recv_buf s)) < 2 ^ 31" and "st_state s \<noteq> STATE_RESET"
    and i: "i < length xs" and x: "rd_pc (xs ! i) = R_Idle" "rd_sizes (xs ! i) = n # ns"
  shows "run_readers os [Suc i, Suc i, Suc i] v xs w = Some (v, xs[i := (xs ! i)\<lparr>rd_sizes := ns, rd_pc := R_Read n\<rparr>], w)"
proof -
  have H: "State_lock (rd_stream (xs ! i)) \<notin> H" "Recv_lock (rd_stream (xs ! i)) \<notin> H" using assms(2) by auto
  have m: "mutexes w (Recv_lock (rd_stream (xs ! i))) = Free" using winv_mutex [OF assms(1), of "Recv_lock (rd_stream (xs ! i))"] s H by simp
  have p: "bio_pending (st_recv_buf s) \<noteq> 0" using pending_eq_0 [OF winv_recv_buf [OF assms(1) s] len] assms(4) by simp
  have "read_state_check (rd_stream (xs ! i)) w = Some (None, w)"
    using read_state_check_eq [OF assms(1) s H] p assms(6) by auto
  then show ?thesis using i x s m p by (simp add: read_turn_def pending_turn_def mutex_lock_free mutex_unlock_held fun_upd_idem)
qed

lemma readable_waiting_last:
  assumes "winv os H w" and "reliable os w" and "heap w a = Some s" and "Recv_lock a \<notin> H" and "st_readable s"
  shows "\<exists>k. stream_readable_waiting os a w = Some (0, put_stream a (s\<lparr>st_readable := False\<rparr>) (w\<lparr>kern := k\<rparr>)) \<and>
    avail os (st_fd s) (kern w) = Suc (avail os (st_fd s) k)"
proof -
  have m: "mutexes w (Recv_lock a) = Free" using winv_mutex [OF assms(1)] assms(3,4) by simp
  have av: "0 < avail os (st_fd s) (kern w)" using wired_stream(4) [OF assms(1,3,5)] .
  from assms(2) have rl: "os_reliable os" "reads_ok os" by (auto simp: reliable_def os_reliable_def os_live_def)
  from rl(1) av obtain d k where io: "sys_read os (st_fd s) 1 (kern w) = Some (Some d, k)" unfolding os_reliable_def by (metis zero_less_one)
  from rl(2) io av have d: "length d \<le> 1" "d \<noteq> []" "avail os (st_fd s) (kern w) = avail os (st_fd s) k + length d"
    unfolding reads_ok_def by (metis option.simps(5) zero_less_one)+
  have "stream_readable_waiting os a w = Some (0, put_stream a (s\<lparr>st_readable := False\<rparr>) (w\<lparr>kern := k\<rparr>))"
    using m assms(3,5) io d(2)
    by (simp add: stream_readable_waiting_def mutex_lock_free mutex_unlock_held fun_upd_idem c_read_def put_stream_def)
  moreover have "length d = 1" using d(1,2) by (cases d) auto
  ultimately show ?thesis using d(3) by auto
qed

text \<open>The receiver of a stream that is marked as readable: both of its steps leave the descriptors alone.\<close>

lemma notify_readable:
  assumes "winv os H w" and "heap w (rv_stream v) = Some s" and "Recv_lock (rv_stream v) \<notin> H" and "st_readable s" and "rv_pc v = V_Notify r" and "nat r < 2 ^ 31"
  shows "\<exists>w'. recv_turn os v w = Some (V_Chunk, w') \<and> keeps os H w w' \<and> heap w' = heap w \<and> kern w' = kern w"
proof -
  have m: "mutexes w (Recv_lock (rv_stream v)) = Free" using winv_mutex [OF assms(1)] assms(2,3) by simp
  have "stream_readable_notify os (rv_stream v) w = Some (0, w)"
    using assms(2,4) m by (simp add: stream_readable_notify_def mutex_lock_free mutex_unlock_held fun_upd_idem)
  with consume_view [OF assms(1,6), of "ss_frame_remain (sess w) - word_of_int r"] assms(5) show ?thesis
    by (auto simp: recv_turn_def notify_turn_def)
qed

section \<open>Undisturbed threads are the sequential calls\<close>















section \<open>Properties\<close>

text \<open>A session with the payload of a frame on its way: three bytes of the frame and one of the next are in the input.
  The thread that receives holds \<^verbatim>\<open>recv_lock\<close>.\<close>

definition arriving :: "sim world" where
  "arriving = (let w = fed [1, 2, 3, 4] noted in
     (put_sess ((sess w)\<lparr>ss_new_frame := False, ss_frame_remain := 3\<rparr>) w)\<lparr>mutexes := (mutexes w)(Session_recv_lock := Held)\<rparr>)"

lemma arriving_ok:
  "winv sim_os {Session_recv_lock} arriving" "reliable sim_os arriving" "view arriving = (view noted)\<lparr>a_in := [1, 2, 3, 4], a_new_frame := False, a_remain := 3\<rparr>"
proof -
  let ?w = "fed [1, 2, 3, 4] noted" let ?s = "(sess ?w)\<lparr>ss_new_frame := False, ss_frame_remain := 3\<rparr>"
  have "length [1, 2, 3, 4 :: byte] < 2 ^ 31" by simp
  note f = fed_ok [OF noted_ok(2,3) this]
  have "winv sim_os {} (put_sess ?s ?w)" using f(2) winv_bufs [OF f(2)] by (intro winv_put_sess) auto
  from winv_mutexes_upd(1) [OF this, of Session_recv_lock]
  show "winv sim_os {Session_recv_lock} arriving" by (simp add: arriving_def Let_def put_sess_def)
  show "reliable sim_os arriving" using f(4) by (simp add: arriving_def Let_def reliable_def put_sess_def)
  have "a_in (view noted) = []" unfolding noted_ok(4) by (simp add: after_data_def met_view_def start_view_def add_stream_def)
  then show "view arriving = (view noted)\<lparr>a_in := [1, 2, 3, 4], a_new_frame := False, a_remain := 3\<rparr>"
    using f(3) by (simp add: arriving_def Let_def view_sess del: view_sel)
qed

lemma arriving_view:
  "buffers_bounded (view arriving)" "frame_fits (view arriving)" "busy \<lparr>rv_stream = 0, rv_pc = V_Chunk\<rparr> (view arriving)"
  "a_in (view arriving) = [1, 2, 3, 4]" "a_remain (view arriving) = 3" "data_at (view arriving) 0 = [7, 8, 9]"
  unfolding arriving_ok(3) noted_ok(4)
  by (simp_all add: buffers_bounded_def frame_fits_def busy_def data_at_def after_data_def met_view_def start_view_def
      add_stream_def recv_bytes_def new_stream_def MAX_STREAM_WINDOW_SIZE_def)

lemma arriving_stream:
  "\<exists>s. heap arriving 0 = Some s \<and> st_readable s \<and> st_state s = STATE_SYN_RECEIVED \<and> bio_bytes (st_recv_buf s) = [7, 8, 9]"
proof -
  have "a_streams (view arriving) 0 = Some (recv_bytes [7, 8, 9] (new_stream 1 STATE_SYN_RECEIVED))"
    unfolding arriving_ok(3) noted_ok(4) by (simp add: after_data_def met_view_def start_view_def add_stream_def)
  then show ?thesis by (auto simp: view_stream_def recv_bytes_def new_stream_def)
qed

lemma moves_take:
  assumes "moves v A pc B ys" and "rv_pc v = V_Chunk"
  shows "ys = take (length ys) (a_in A)" "length ys \<le> min (unat (a_remain A)) (length (a_in A))"
    "pc = V_Done 0 \<Longrightarrow> a_remain B = 0 \<or> a_in B = [] \<Longrightarrow> length ys = min (unat (a_remain A)) (length (a_in A))"
proof -
  from assms obtain zs where z: "a_in A = ys @ zs" "length ys \<le> unat (a_remain A)"
    "pc \<noteq> V_Done (- 1) \<Longrightarrow> a_in (settle pc B) = zs \<and> a_remain (settle pc B) = a_remain A - of_nat (length ys)"
    by (auto simp: moves_def settle_def)
  then show "ys = take (length ys) (a_in A)" "length ys \<le> min (unat (a_remain A)) (length (a_in A))" by simp_all
  show "length ys = min (unat (a_remain A)) (length (a_in A))" if "pc = V_Done 0" "a_remain B = 0 \<or> a_in B = []"
  proof -
    have "a_in B = zs" "a_remain B = a_remain A - of_nat (length ys)" using z(3) that(1) by (auto simp: settle_def)
    then have "zs = [] \<or> unat (a_remain A) = length ys" using that(2) z(2) by (metis diff_is_0_eq le_antisym unat_0 unat_sub_of_nat)
    then show ?thesis using z(1,2) by auto
  qed
qed

text \<open>C13: Readers of different streams and the thread that receives, under every schedule. Every thread that is given a step
  returns from it: nobody waits for a mutex that is not released and no assertion fails. What a reader has stored for its
  caller, followed by what is buffered for its stream, is at every moment what was buffered at the start, followed, for the stream of the
  frame, by a prefix of the input that is no longer than the frame: no byte is lost, repeated, reordered or given to another stream. When the receiver
  is through, the prefix is all there was of the frame. The bound of flow control on every buffer holds throughout.\<close>

theorem readers_receive_in_order:
  assumes "winv os {Session_recv_lock} w" and "os_live os" and "selects_ok os" and "buffers_bounded (view w)"
    and v: "rv_pc v = V_Chunk" "busy v (view w)" "frame_fits (view w)" "length (a_in (view w)) < 2 ^ 31"
    and xs: "distinct (map rd_stream xs)"
      "\<forall>x\<in>set xs. rd_pc x = R_Idle \<and> rd_got x = [] \<and> heap w (rd_stream x) \<noteq> None \<and> (\<forall>n\<in>set (rd_sizes x). 0 < n)"
  shows "\<exists>v' xs' w' k. run_readers os ts v xs w = Some (v', xs', w') \<and> winv os {Session_recv_lock} w' \<and> buffers_bounded (view w') \<and>
    k \<le> min (unat (a_remain (view w))) (length (a_in (view w))) \<and>
    (rv_pc v' = V_Done 0 \<longrightarrow> k = min (unat (a_remain (view w))) (length (a_in (view w)))) \<and> length xs' = length xs \<and>
    (\<forall>i<length xs. rd_got (xs' ! i) @ data_at (view w') (rd_stream (xs ! i)) =
       data_at (view w) (rd_stream (xs ! i)) @ (if rd_stream (xs ! i) = rv_stream v then take k (a_in (view w)) else []))"
proof -
  have "reader_ok (view w) x" if "x \<in> set xs" for x using bspec [OF xs(2) that] by (simp add: reader_ok_def)
  moreover have "receiver_ok v (view w)" using v by (simp add: receiver_ok_def settle_def del: view_sel)
  ultimately have "all_ok os v xs w" using assms(1,4) xs(1) by (simp add: all_ok_def)
  from run_readers_ok [OF this assms(2,3), of ts] obtain v' xs' w' ys where
    r: "run_readers os ts v xs w = Some (v', xs', w')" "all_ok os v' xs' w'" "conveys v xs (view w) v' xs' (view w') ys" by blast
  from r(3) have m: "moves v (view w) (rv_pc v') (view w') ys" by (simp add: conveys_def)
  note k = moves_take [OF m v(1)]
  have "rv_pc v' = V_Done 0 \<Longrightarrow> a_remain (view w') = 0 \<or> a_in (view w') = []" using r(2) by (simp add: all_ok_def receiver_ok_def)
  then have d: "rv_pc v' = V_Done 0 \<longrightarrow> length ys = min (unat (a_remain (view w))) (length (a_in (view w)))" using k(3) by blast
  have g: "rd_got (xs ! i) = []" if "i < length xs" for i using bspec [OF xs(2) nth_mem [OF that]] by simp
  have "rd_got (xs' ! i) @ data_at (view w') (rd_stream (xs ! i)) = data_at (view w) (rd_stream (xs ! i)) @
      (if rd_stream (xs ! i) = rv_stream v then take (length ys) (a_in (view w)) else [])" if "i < length xs" for i
    using r(3) g [OF that] that unfolding conveys_def k(1) [symmetric] by simp
  then show ?thesis using r(1,2) d k(2) r(3)
    by (intro exI [of _ v'] exI [of _ xs'] exI [of _ w'] exI [of _ "length ys"]) (simp add: all_ok_def conveys_def del: view_sel)
qed

theorem readers_receive_in_order_witness:
  "\<exists>v' xs' w' k. run_readers sim_os [1, 1, 0, 1, 1, 0, 1, 0, 0, 1, 1] \<lparr>rv_stream = 0, rv_pc = V_Chunk\<rparr>
      [\<lparr>rd_stream = 0, rd_sizes = [2, 9], rd_pc = R_Idle, rd_got = [], rd_results = []\<rparr>] arriving = Some (v', xs', w') \<and>
    k \<le> 3 \<and> (rv_pc v' = V_Done 0 \<longrightarrow> k = 3) \<and> rd_got (xs' ! 0) @ data_at (view w') 0 = [7, 8, 9] @ take k [1, 2, 3, 4]"
proof -
  let ?v = "\<lparr>rv_stream = 0, rv_pc = V_Chunk\<rparr>" and ?x = "\<lparr>rd_stream = 0, rd_sizes = [2, 9], rd_pc = R_Idle, rd_got = [], rd_results = []\<rparr>"
  let ?ts = "[1, 1, 0, 1, 1, 0, 1, 0, 0, 1, 1] :: nat list"
  have h: "rv_pc ?v = V_Chunk" "length (a_in (view arriving)) < 2 ^ 31" "distinct (map rd_stream [?x])"
    "\<forall>x\<in>set [?x]. rd_pc x = R_Idle \<and> rd_got x = [] \<and> heap arriving (rd_stream x) \<noteq> None \<and> (\<forall>n\<in>set (rd_sizes x). 0 < n)"
    unfolding arriving_view(4) using arriving_stream by auto
  have m: "min (unat (3 :: uint32)) (length [1, 2, 3, 4 :: byte]) = 3" by simp
  from readers_receive_in_order [OF arriving_ok(1) sim_live sim_selects arriving_view(1) h(1) arriving_view(3,2) h(2-4),
      of ?ts, unfolded arriving_view m] obtain v' xs' w' k where
    r: "run_readers sim_os ?ts ?v [?x] arriving = Some (v', xs', w')" "k \<le> 3" "rv_pc v' = V_Done 0 \<longrightarrow> k = 3"
    "\<forall>i<length [?x]. rd_got (xs' ! i) @ data_at (view w') (rd_stream ([?x] ! i)) =
       data_at (view arriving) (rd_stream ([?x] ! i)) @ (if rd_stream ([?x] ! i) = rv_stream ?v then take k [1, 2, 3, 4] else [])" by blast
  then show ?thesis using arriving_view(6) by (intro exI [of _ v'] exI [of _ xs'] exI [of _ w'] exI [of _ k]) (simp del: view_sel)
qed

text \<open>C15: Two readers of one stream. Both look whether there is data while no lock is held in between, and both see the same bytes. The first
  takes them all; when the second comes to take some, \<^verbatim>\<open>assert(r > 0)\<close> of \<^verbatim>\<open>stream_read\<close> fails and the process is aborted.\<close>

theorem second_reader_aborts:
  assumes inv: "winv os H w" "H \<subseteq> {Session_recv_lock}" and s: "heap w a = Some s" "st_state s \<noteq> STATE_RESET"
    and d: "bio_bytes (st_recv_buf s) \<noteq> []" "length (bio_bytes (st_recv_buf s)) \<le> n" "n < 2 ^ 31"
    and x: "rd_stream x = a" "rd_pc x = R_Idle" "rd_sizes x = n # ns" and y: "rd_stream y = a" "rd_pc y = R_Idle" "rd_sizes y = m # ms"
  shows "(\<exists>x' y' w'. run_readers os [1, 1, 1, 2, 2, 2, 1] v [x, y] w = Some (v, [x', y'], w') \<and> rd_got x' = rd_got x @ bio_bytes (st_recv_buf s)) \<and>
    run_readers os [1, 1, 1, 2, 2, 2, 1, 2] v [x, y] w = None"
proof -
  let ?x = "x\<lparr>rd_sizes := ns, rd_pc := R_Read n\<rparr>" and ?y = "y\<lparr>rd_sizes := ms, rd_pc := R_Read m\<rparr>" and ?d = "bio_bytes (st_recv_buf s)"
  have len: "length ?d < 2 ^ 31" "0 < n" using d by (auto simp: neq_Nil_conv)
  have sees: "run_readers os [Suc 0, Suc 0, Suc 0] v [x, y] w = Some (v, [?x, y], w)"
    "run_readers os [Suc (Suc 0), Suc (Suc 0), Suc (Suc 0)] v [?x, y] w = Some (v, [?x, ?y], w)"
    using sees_data [OF inv, of "[x, y]" 0 s n ns] sees_data [OF inv, of "[?x, y]" 1 s m ms] s d(1) len x y by simp_all
  have hx: "heap w (rd_stream ?x) = Some s" "rd_pc ?x = R_Read n" using s(1) x(1) by simp_all
  from fetch_turn_eq(1) [OF inv hx(1) len(1) hx(2) len(2) d(1)] d(2) x(1) obtain x' b where
    t: "bio_ok b" "bio_bytes b = []" "read_turn os ?x w = Some (x', put_stream a (s\<lparr>st_recv_buf := b\<rparr>) w)" "rd_got x' = rd_got x @ ?d" by auto
  let ?w = "put_stream a (s\<lparr>st_recv_buf := b\<rparr>) w"
  have "keeps os H w ?w" using inv(1) s t(1) by (intro keeps_put_stream) auto
  then have "read_turn os ?y ?w = None"
    using fetch_turn_eq(2) [OF keeps_winv inv(2), of os w ?w ?y "s\<lparr>st_recv_buf := b\<rparr>" m] y(1) t(2) by (simp add: put_stream_def)
  then show ?thesis
    using run_readers_then [OF sees(1), of "[2, 2, 2, 1]"] run_readers_then [OF sees(2), of "[1]"]
      run_readers_then [OF sees(1), of "[2, 2, 2, 1, 2]"] run_readers_then [OF sees(2), of "[1, 2]"] t(3,4)
    by (simp add: numeral_2_eq_2 del: run_readers.simps(2)) (simp add: t(3))
qed

theorem second_reader_aborts_witness:
  "run_readers sim_os [1, 1, 1, 2, 2, 2, 1, 2] \<lparr>rv_stream = 0, rv_pc = V_Chunk\<rparr>
     [\<lparr>rd_stream = 0, rd_sizes = [9], rd_pc = R_Idle, rd_got = [], rd_results = []\<rparr>,
      \<lparr>rd_stream = 0, rd_sizes = [1], rd_pc = R_Idle, rd_got = [], rd_results = []\<rparr>] arriving = None"
proof -
  from arriving_stream obtain s where s: "heap arriving 0 = Some s" "st_state s = STATE_SYN_RECEIVED" "bio_bytes (st_recv_buf s) = [7, 8, 9]" by blast
  show ?thesis
    using second_reader_aborts [OF arriving_ok(1) order_refl s(1), of 9
      "\<lparr>rd_stream = 0, rd_sizes = [9], rd_pc = R_Idle, rd_got = [], rd_results = []\<rparr>" "[]"
      "\<lparr>rd_stream = 0, rd_sizes = [1], rd_pc = R_Idle, rd_got = [], rd_results = []\<rparr>" 1 "[]"] s by simp
qed

text \<open>C16: A notification is lost. \<^verbatim>\<open>stream_read\<close> takes the last buffered bytes and releases the lock before it marks the descriptor as not
  readable. If a chunk arrives in between, the receiver finds the descriptor already marked and writes no byte to it; the reader then reads the byte
  that was in it. At the end the chunk is in the buffer, the stream is marked as not readable, and the descriptor holds one byte less than at the start (none, if it was
  one): an application that waits for the descriptor is not told of the chunk.\<close>

theorem reader_misses_notification:
  assumes inv: "winv os {Session_recv_lock} w" "reliable os w" "buffers_bounded (view w)"
    and v: "rv_pc v = V_Chunk" "busy v (view w)" "frame_fits (view w)" "length (a_in (view w)) < 2 ^ 31" "a_in (view w) \<noteq> []" "a_remain (view w) \<noteq> 0"
    and s: "heap w (rv_stream v) = Some s" "st_readable s" "st_state s \<noteq> STATE_RESET" "bio_bytes (st_recv_buf s) \<noteq> []"
    and x: "rd_stream x = rv_stream v" "rd_pc x = R_Idle" "rd_sizes x = n # ns" "length (bio_bytes (st_recv_buf s)) \<le> n"
  shows "\<exists>x' w' s'. run_readers os [1, 1, 1, 1, 0, 0, 1] v [x] w = Some (v, [x'], w') \<and> heap w' (rv_stream v) = Some s' \<and>
    bio_bytes (st_recv_buf s') = chunk_of (view w) \<and> chunk_of (view w) \<noteq> [] \<and> \<not> st_readable s' \<and>
    avail os (st_fd s') (kern w) = Suc (avail os (st_fd s') (kern w'))"
proof -
  let ?H = "{Session_recv_lock}" and ?a = "rv_stream v" and ?x = "x\<lparr>rd_sizes := ns, rd_pc := R_Read n\<rparr>" and ?d = "bio_bytes (st_recv_buf s)"
  have len: "length ?d < 2 ^ 31" by (rule bounded_data [OF inv(3) s(1)])
  have n: "0 < n" using s(4) x(4) by (auto simp: neq_Nil_conv)
  have sees: "run_readers os [Suc 0, Suc 0, Suc 0] v [x] w = Some (v, [?x], w)"
    using sees_data [OF inv(1) order_refl, of "[x]" 0 s n ns] s len x by simp
  have hx: "heap w (rd_stream ?x) = Some s" "rd_pc ?x = R_Read n" using s(1) x(1) by simp_all
  from fetch_turn_eq(1) [OF inv(1) order_refl hx(1) len hx(2) n s(4)] x(1,4) obtain x1 b where
    b: "bio_ok b" "bio_bytes b = []" "read_turn os ?x w = Some (x1, put_stream ?a (s\<lparr>st_recv_buf := b\<rparr>) w)"
    "rd_pc x1 = R_Wait (int (length ?d))" "rd_stream x1 = ?a" by (auto simp: min_def)
  let ?w1 = "put_stream ?a (s\<lparr>st_recv_buf := b\<rparr>) w"
  have k1: "keeps os ?H w ?w1" using inv(1) s(1) b(1) by (intro keeps_put_stream) auto
  have v1: "view ?w1 = put_out [] (upd ?a (a_data_update (drop n)) (view w))"
    using s(1) b(2) x(4) view_put_upd [of w ?a s "s\<lparr>st_recv_buf := b\<rparr>" "a_data_update (drop n)"] by (simp add: view_stream_def)
  have "receiver_ok v (view w)" using v by (simp add: receiver_ok_def settle_def del: view_sel)
  note ok1 = widens_keeps [OF _ this inv(3) v1]
  have A1: "a_in (view ?w1) = a_in (view w)" "a_remain (view ?w1) = a_remain (view w)" "chunk_of (view ?w1) = chunk_of (view w)"
    by (simp_all add: v1 chunk_of_def del: view_sel)
  from chunk_moved [OF keeps_winv [OF k1] order_refl ok1 v(1)] v(5,6) A1 inv(2) k1 obtain w2 where
    c: "recv_turn os v ?w1 = Some (V_Notify (int (length (chunk_of (view w)))), w2)" "delivers os ?H v ?w1 (V_Notify (int (length (chunk_of (view w))))) w2"
    "kern w2 = kern w" "view w2 = upd ?a (stores (chunk_of (view w))) (view ?w1)" by (auto simp: keeps_def put_stream_def)
  have ch: "chunk_of (view w) \<noteq> []" "length (chunk_of (view w)) < 2 ^ 31" using v(5,6) by (auto simp: chunk_of_def unat_gt_0 simp del: view_sel)
  have "a_streams (view w2) ?a = Some (stores (chunk_of (view w)) (a_data_update (drop n) (view_stream s)))"
    using s(1) unfolding c(4) v1 by (simp add: view_def)
  then obtain s2 where s2: "heap w2 ?a = Some s2" "st_readable s2" "bio_bytes (st_recv_buf s2) = chunk_of (view w)"
    using s(2) x(4) by (auto simp: view_stream_def stores_def)
  have k2: "keeps os ?H ?w1 w2" using c(2) by (simp add: delivers_def)
  let ?r = "int (length (chunk_of (view w)))"
  from notify_readable [OF keeps_winv [OF k2], of "v\<lparr>rv_pc := V_Notify ?r\<rparr>" s2 ?r] s2 ch(2) obtain w3 where
    w3: "recv_turn os (v\<lparr>rv_pc := V_Notify ?r\<rparr>) w2 = Some (V_Chunk, w3)" "keeps os ?H w2 w3" "heap w3 = heap w2" "kern w3 = kern w" using c(3) by auto
  have "reliable os w3" using inv(2) k1 k2 w3(2) by (simp add: keeps_def)
  from readable_waiting_last [OF keeps_winv [OF w3(2)] this, of ?a s2] s2 w3(3,4) obtain k where
    k: "stream_readable_waiting os ?a w3 = Some (0, put_stream ?a (s2\<lparr>st_readable := False\<rparr>) (w3\<lparr>kern := k\<rparr>))"
    "avail os (st_fd s2) (kern w) = Suc (avail os (st_fd s2) k)" by auto
  have "v\<lparr>rv_pc := V_Chunk\<rparr> = v" using v(1) by (cases v) simp
  moreover have "read_turn os x1 w3 = Some (x1\<lparr>rd_pc := R_Flags (int (length ?d))\<rparr>, put_stream ?a (s2\<lparr>st_readable := False\<rparr>) (w3\<lparr>kern := k\<rparr>))"
    using b(4,5) k(1) by (simp add: read_turn_def)
  ultimately have "run_readers os [1, 1, 1, 1, 0, 0, 1] v [x] w =
      Some (v, [x1\<lparr>rd_pc := R_Flags (int (length ?d))\<rparr>], put_stream ?a (s2\<lparr>st_readable := False\<rparr>) (w3\<lparr>kern := k\<rparr>))"
    using run_readers_then [OF sees, of "[1, 0, 0, 1]"] b(3) c(1) w3(1) by simp
  then show ?thesis using s2(3) k(2) ch(1) by (simp add: put_stream_def)
qed

theorem reader_misses_notification_witness:
  "\<exists>x' w' s'. run_readers sim_os [1, 1, 1, 1, 0, 0, 1] \<lparr>rv_stream = 0, rv_pc = V_Chunk\<rparr>
      [\<lparr>rd_stream = 0, rd_sizes = [9], rd_pc = R_Idle, rd_got = [], rd_results = []\<rparr>] arriving = Some (\<lparr>rv_stream = 0, rv_pc = V_Chunk\<rparr>, [x'], w') \<and>
    heap w' 0 = Some s' \<and> bio_bytes (st_recv_buf s') = [1, 2, 3] \<and> \<not> st_readable s'"
proof -
  from arriving_stream obtain s where s: "heap arriving 0 = Some s" "st_readable s" "st_state s = STATE_SYN_RECEIVED"
    "bio_bytes (st_recv_buf s) = [7, 8, 9]" by blast
  have "chunk_of (view arriving) = [1, 2, 3]" unfolding chunk_of_def arriving_view by simp
  then show ?thesis
    using reader_misses_notification [OF arriving_ok(1,2) arriving_view(1), of "\<lparr>rv_stream = 0, rv_pc = V_Chunk\<rparr>" s
      "\<lparr>rd_stream = 0, rd_sizes = [9], rd_pc = R_Idle, rd_got = [], rd_results = []\<rparr>" 9 "[]"] s arriving_view(2-5) by (auto simp del: view_sel)
qed



end
