(* ===== verification/Segmentation.thy ===== *)
theory Segmentation
  imports Delivery
begin

text \<open>
  The transport cuts the bytes of the peer into pieces as it likes. This theory shows that the cuts do not matter to the protocol function: processing
  the pieces one after the other is processing all of them at once, as long as no cut falls into the payload of a frame for a stream that does
  not exist.
\<close>

section \<open>More input\<close>

definition feed :: "byte list \<Rightarrow> asession \<Rightarrow> asession" where
  "feed ys A = A\<lparr>a_in := a_in A @ ys\<rparr>"

lemma feed_sel [simp]:
  "a_in (feed ys A) = a_in A @ ys" "a_hdr (feed ys A) = a_hdr A" "a_new_frame (feed ys A) = a_new_frame A" "a_remain (feed ys A) = a_remain A"
  "a_table (feed ys A) = a_table A" "a_streams (feed ys A) = a_streams A" "a_brk (feed ys A) = a_brk A" "a_local_go_away (feed ys A) = a_local_go_away A"
  by (simp_all add: feed_def)

lemma feed_Nil [simp]: "feed [] A = A"
  by (simp add: feed_def)

lemma feed_feed: "feed ys (feed xs A) = feed (xs @ ys) A"
  by (simp add: feed_def)

lemma feed_comm [simp]:
  "upd a f (feed ys A) = feed ys (upd a f A)" "put_out bs (feed ys A) = feed ys (put_out bs A)"
  "(feed ys A)\<lparr>a_local_go_away := g\<rparr> = feed ys (A\<lparr>a_local_go_away := g\<rparr>)" "(feed ys A)\<lparr>a_remote_go_away := g\<rparr> = feed ys (A\<lparr>a_remote_go_away := g\<rparr>)"
  "(feed ys A)\<lparr>a_brk := b\<rparr> = feed ys (A\<lparr>a_brk := b\<rparr>)" "add_stream a s (feed ys A) = feed ys (add_stream a s A)"
  "p_begin (feed ys A) = feed ys (p_begin A)" "(feed ys A)\<lparr>a_new_frame := n\<rparr> = feed ys (A\<lparr>a_new_frame := n\<rparr>)"
  by (simp_all add: feed_def upd_def put_out_def add_stream_def p_begin_def)

text \<open>The parts of the protocol that do not look at the payload.\<close>

lemma p_go_away_feed [simp]: "p_go_away r (feed ys A) = feed ys (p_go_away r A)"
  by (simp add: p_go_away_def)

lemma p_syn_feed [simp]: "p_syn (feed ys A) = map_prod id (feed ys) (p_syn A)"
  by (simp add: p_syn_def p_incoming_def Let_def)

lemma p_flags_feed [simp]: "p_flags a (feed ys A) = map_prod id (feed ys) (p_flags a A)"
  by (simp add: p_flags_def Let_def split: option.split)

lemma p_others_feed:
  "p_window_update (feed ys A) = map_prod id (feed ys) (p_window_update A)" "p_ping (feed ys A) = map_prod id (feed ys) (p_ping A)"
  "p_peer_go_away (feed ys A) = map_prod id (feed ys) (p_peer_go_away A)"
proof -
  obtain e B where s: "p_syn A = (e, B)" by (cases "p_syn A")
  show "p_window_update (feed ys A) = map_prod id (feed ys) (p_window_update A)"
    by (auto simp: p_window_update_def s Let_def split: option.split prod.split)
  show "p_ping (feed ys A) = map_prod id (feed ys) (p_ping A)" "p_peer_go_away (feed ys A) = map_prod id (feed ys) (p_peer_go_away A)"
    by (simp_all add: p_ping_def p_peer_go_away_def)
qed

text \<open>Payload: if all of it has arrived, more input is left alone, and if not, the rest is taken from it.\<close>

lemma p_take_all:
  assumes "unat (a_remain A) \<le> length (a_in A)"
  shows "p_take a (feed ys A) = feed ys (p_take a A)"
proof -
  have "min (unat (a_remain A)) (length (a_in A @ ys)) = unat (a_remain A)" "min (unat (a_remain A)) (length (a_in A)) = unat (a_remain A)"
    using assms by simp_all
  then show ?thesis using assms by (simp add: p_take_def feed_def upd_def Let_def)
qed

lemma p_take_part:
  assumes "length (a_in A) < unat (a_remain A)"
  shows "p_take a (feed ys A) = p_take a (feed ys (p_take a A))" "a_in (p_take a A) = []" "a_remain (p_take a A) \<noteq> 0"
proof -
  have m: "min (unat (a_remain A)) (length (a_in A)) = length (a_in A)" using assms by simp
  have "feed ys (p_take a A) = p_chunk a (length (a_in A)) (feed ys A)" unfolding p_take_def p_chunk_def Let_def m by (simp add: feed_def upd_def)
  then show "p_take a (feed ys A) = p_take a (feed ys (p_take a A))" using p_take_chunk [of "length (a_in A)" "feed ys A" a] assms by simp
  show "a_in (p_take a A) = []" by (simp add: p_take_sel m)
  have "unat (a_remain (p_take a A)) = unat (a_remain A) - length (a_in A)" using assms by (simp add: p_take_sel m unat_sub_of_nat)
  then show "a_remain (p_take a A) \<noteq> 0" using assms by auto
qed

lemma p_take_whole: "unat (a_remain A) \<le> length (a_in A) \<Longrightarrow> a_remain (p_take a A) = 0"
  by (simp add: p_take_sel min_absorb1)

lemma p_payload_all:
  assumes "unat (a_remain A) \<le> length (a_in A)"
  shows "p_payload stream (feed ys A) = feed ys (p_payload stream A)" "a_new_frame (p_payload stream A)"
proof -
  have k: "unat (a_remain A) \<le> 4096 * ((length (a_in A) + l + 4095) div 4096)" for l
    using assms by linarith
  have "p_skip (feed ys A) = feed ys (p_skip A)" "a_remain (p_skip A) = 0"
    using assms k [of "length ys"] k [of 0] by (simp_all add: p_skip_def feed_def)
  then show "p_payload stream (feed ys A) = feed ys (p_payload stream A)" "a_new_frame (p_payload stream A)"
    using p_take_all [OF assms] p_take_whole [OF assms] by (auto simp: p_payload_def Let_def split: option.split)
qed

lemma p_payload_part:
  assumes "length (a_in A) < unat (a_remain A)" and "\<not> a_new_frame A" and B_def: "B = p_payload (Some a) A"
  shows "p_payload (Some a) (feed ys A) = p_payload (Some a) (feed ys B)" "a_in B = []" "\<not> a_new_frame B"
proof -
  note t = p_take_part [OF assms(1), of a]
  have B: "B = p_take a A" using t(3) by (simp add: B_def p_payload_def)
  show "p_payload (Some a) (feed ys A) = p_payload (Some a) (feed ys B)" using t(1) by (simp add: B p_payload_def)
  show "a_in B = []" "\<not> a_new_frame B" using t(2) assms(2) by (simp_all add: B p_take_sel)
qed

section \<open>One frame\<close>

text \<open>A frame for no stream whose payload has not arrived in full: the state \<^verbatim>\<open>session_handle_data\<close> gets wrong.\<close>

definition cut_payload :: "asession \<Rightarrow> bool" where
  "cut_payload A \<longleftrightarrow> hdr_type (a_hdr A) = TYPE_DATA \<and>
     (if a_new_frame A then a_table (snd (p_syn A)) (wire_id (a_hdr A)) = None \<and> length (a_in A) < unat (wire_length (a_hdr A))
      else a_table A (wire_id (a_hdr A)) = None \<and> length (a_in A) < unat (a_remain A))"

lemma p_syn_sel: "a_in (snd (p_syn A)) = a_in A" "a_hdr (snd (p_syn A)) = a_hdr A" "a_new_frame (snd (p_syn A)) = a_new_frame A"
  by (simp_all add: p_syn_def p_incoming_def p_go_away_def Let_def add_stream_def)

lemma p_flags_sel:
  "a_in (snd (p_flags a A)) = a_in A" "a_hdr (snd (p_flags a A)) = a_hdr A" "a_new_frame (snd (p_flags a A)) = a_new_frame A"
  "a_table (snd (p_flags a A)) = a_table A"
  by (simp_all add: p_flags_def p_go_away_def Let_def split: option.split)

text \<open>\<open>goes_on G ys A r B\<close>: the function \<open>G\<close> takes \<open>A\<close> to \<open>B\<close>, and with \<open>ys\<close> after the input it either does the same and leaves \<open>ys\<close>, or
  it does what it does on \<open>B\<close> and \<open>ys\<close>.\<close>

definition goes_on :: "(asession \<Rightarrow> int \<times> asession) \<Rightarrow> byte list \<Rightarrow> asession \<Rightarrow> int \<Rightarrow> asession \<Rightarrow> bool" where
  "goes_on G ys A r B \<longleftrightarrow> (r \<noteq> 0 \<or> a_new_frame B) \<and> G (feed ys A) = (r, feed ys B) \<or>
     r = 0 \<and> \<not> a_new_frame B \<and> a_in B = [] \<and> hdr_type (a_hdr B) = TYPE_DATA \<and> G (feed ys A) = p_data (feed ys B)"

lemma goes_on_cong: "goes_on G ys A r B \<Longrightarrow> F (feed ys C) = G (feed ys A) \<Longrightarrow> goes_on F ys C r B"
  by (simp add: goes_on_def)

lemma goes_on_error: "F (feed ys A) = (r, feed ys B) \<Longrightarrow> r \<noteq> 0 \<or> a_new_frame B \<Longrightarrow> goes_on F ys A r B"
  by (simp add: goes_on_def)

lemma payload_goes_on:
  assumes "\<not> a_new_frame A" and "a_table A (wire_id (a_hdr A)) = stream" and "stream = None \<Longrightarrow> unat (a_remain A) \<le> length (a_in A)"
    and "hdr_type (a_hdr A) = TYPE_DATA"
  shows "goes_on (\<lambda>A. (0, p_payload stream A)) ys A 0 (p_payload stream A)"
proof (cases "unat (a_remain A) \<le> length (a_in A)")
  case True
  then show ?thesis using p_payload_all [OF True] by (simp add: goes_on_def)
next
  case False
  with assms(3) obtain a where a: "stream = Some a" by (cases stream) auto
  have n: "length (a_in A) < unat (a_remain A)" using False by simp
  note part = p_payload_part [OF n assms(1), where a = a]
  have "p_data (feed ys (p_payload (Some a) A)) = (0, p_payload (Some a) (feed ys (p_payload (Some a) A)))"
    using part(3) [OF refl] assms(2) a by (simp add: p_data_def p_payload_sel(1,2))
  then show ?thesis using part(1) [OF refl, of ys] part(2,3) [OF refl] assms(4) by (simp add: goes_on_def a p_payload_sel(1))
qed

lemma p_data_goes_on:
  assumes nc: "\<not> cut_payload A" and type: "hdr_type (a_hdr A) = TYPE_DATA" and run: "p_data A = (r, B)"
  shows "goes_on p_data ys A r B"
proof (cases "a_new_frame A")
  case False
  let ?t = "a_table A (wire_id (a_hdr A))"
  have "unat (a_remain A) \<le> length (a_in A)" if "?t = None" using nc type False that by (simp add: cut_payload_def not_less)
  from payload_goes_on [OF False refl this type] have "goes_on (\<lambda>A. (0, p_payload ?t A)) ys A 0 (p_payload ?t A)" .
  moreover have "r = 0" "B = p_payload ?t A" "p_data (feed ys A) = (0, p_payload ?t (feed ys A))" using run False by (simp_all add: p_data_def)
  ultimately show ?thesis by (auto intro: goes_on_cong)
next
  case True
  obtain e C where c: "p_syn A = (e, C)" by (cases "p_syn A")
  have C: "a_in C = a_in A" "a_hdr C = a_hdr A" "a_new_frame C" using p_syn_sel [of A] True by (simp_all add: c)
  let ?sid = "wire_id (a_hdr A)" and ?len = "wire_length (a_hdr A)"
  show ?thesis
  proof (cases "e = 0 \<and> a_table C ?sid = None")
    case n: True
    have "goes_on (\<lambda>A. (0, p_payload None A)) ys (p_begin C) 0 (p_payload None (p_begin C))"
      using payload_goes_on [of "p_begin C" None ys] n C nc type c True by (simp add: cut_payload_def not_less)
    moreover have "r = 0" "B = p_payload None (p_begin C)" "p_data (feed ys A) = (0, p_payload None (feed ys (p_begin C)))"
      using run True c n by (simp_all add: p_data_def)
    ultimately show ?thesis by (auto intro: goes_on_cong)
  next
    case s: False
    show ?thesis
    proof (cases "e = 0")
      case False
      then show ?thesis using run c True by (intro goes_on_error) (auto simp: p_data_def)
    next
      case e: True
      with s obtain a where a: "a_table C ?sid = Some a" by auto
      obtain q D where d: "p_flags a C = (q, D)" by (cases "p_flags a C")
      have D: "a_in D = a_in A" "a_hdr D = a_hdr A" "a_new_frame D" "a_table D ?sid = Some a" using p_flags_sel [of a C] C a by (simp_all add: d)
      show ?thesis
      proof (cases "q = 0 \<and> ?len \<noteq> 0 \<and> (\<exists>s. a_streams D a = Some s \<and> ?len \<le> a_recv_window s)")
        case True
        have "goes_on (\<lambda>A. (0, p_payload (Some a) A)) ys (p_begin D) 0 (p_payload (Some a) (p_begin D))"
          using payload_goes_on [of "p_begin D" "Some a" ys] D type by simp
        moreover have "r = 0" "B = p_payload (Some a) (p_begin D)" "p_data (feed ys A) = (0, p_payload (Some a) (feed ys (p_begin D)))"
          using run \<open>a_new_frame A\<close> c e a d True by (auto simp: p_data_def not_less [symmetric])
        ultimately show ?thesis by (auto intro: goes_on_cong)
      next
        case f: False
        then show ?thesis using run True c e a d D(3)
          by (intro goes_on_error) (auto simp: p_data_def Let_def not_less [symmetric] split: if_splits option.splits)
      qed
    qed
  qed
qed

section \<open>The frame loop\<close>

definition p_turn :: "asession \<Rightarrow> int \<times> asession" where
  "p_turn A = (if a_new_frame A \<and> hdr_version (a_hdr (p_header A)) \<noteq> VERSION then (- 1, p_header A) else p_handle (p_header A))"

lemma p_loop_turn:
  "p_loop (Suc n) A = (if \<not> more_frames A then (0, A) else let (r, B) = p_turn A in if r \<noteq> 0 then (- 1, B) else p_loop n B)"
  by (simp add: p_loop_step p_turn_def)

lemma p_header_feed: "more_frames A \<Longrightarrow> p_header (feed ys A) = feed ys (p_header A)"
  by (simp add: p_header_def more_frames_def feed_def)

lemma p_header_sel: "a_new_frame (p_header A) = a_new_frame A" "a_remain (p_header A) = a_remain A" "\<not> a_new_frame A \<Longrightarrow> p_header A = A"
  by (simp_all add: p_header_def)

lemma p_others_sel:
  "a_in (snd (p_window_update A)) = a_in A" "a_in (snd (p_ping A)) = a_in A" "a_in (snd (p_peer_go_away A)) = a_in A"
  "a_new_frame (snd (p_window_update A)) = a_new_frame A" "a_new_frame (snd (p_ping A)) = a_new_frame A" "a_new_frame (snd (p_peer_go_away A)) = a_new_frame A"
proof -
  obtain e C where c: "p_syn A = (e, C)" by (cases "p_syn A")
  have C: "a_in C = a_in A" "a_new_frame C = a_new_frame A" using p_syn_sel [of A] by (simp_all add: c)
  have D: "a_in (snd (p_flags a C)) = a_in A" "a_new_frame (snd (p_flags a C)) = a_new_frame A" for a using p_flags_sel [of a C] C by simp_all
  show "a_in (snd (p_window_update A)) = a_in A" "a_new_frame (snd (p_window_update A)) = a_new_frame A"
    using C D by (auto simp: p_window_update_def c Let_def split: option.split prod.split) (metis snd_conv)+
qed (simp_all add: p_ping_def p_peer_go_away_def)

lemma p_handle_feed:
  assumes "hdr_type (a_hdr A) \<noteq> TYPE_DATA"
  shows "p_handle (feed ys A) = map_prod id (feed ys) (p_handle A)" "a_in (snd (p_handle A)) = a_in A" "a_new_frame (snd (p_handle A)) = a_new_frame A"
  using assms by (simp_all add: p_handle_def p_others_feed p_others_sel Let_def)

lemma turn_goes_on:
  assumes "frame_ok A" and "more_frames A" and "\<not> cut_payload (p_header A)" and run: "p_turn A = (r, B)"
  shows "(r \<noteq> 0 \<or> a_new_frame B) \<and> p_turn (feed ys A) = (r, feed ys B) \<or>
    r = 0 \<and> \<not> a_new_frame B \<and> a_in B = [] \<and> p_turn (feed ys A) = p_turn (feed ys B)"
proof -
  note h = p_header_feed [OF assms(2), of ys]
  show ?thesis
  proof (cases "a_new_frame A \<and> hdr_version (a_hdr (p_header A)) \<noteq> VERSION")
    case True
    then show ?thesis using run h by (auto simp: p_turn_def)
  next
    case good: False
    have t: "p_turn A = p_handle (p_header A)" "p_turn (feed ys A) = p_handle (feed ys (p_header A))" using good h by (auto simp: p_turn_def)
    show ?thesis
    proof (cases "hdr_type (a_hdr (p_header A)) = TYPE_DATA")
      case True
      with run t have d: "p_data (p_header A) = (r, B)" "p_turn (feed ys A) = p_data (feed ys (p_header A))" by (simp_all add: p_handle_def)
      have "p_turn (feed ys B) = p_data (feed ys B)" if "\<not> a_new_frame B" "hdr_type (a_hdr B) = TYPE_DATA"
        using that by (simp add: p_turn_def p_handle_def p_header_sel(3))
      with p_data_goes_on [OF assms(3) True d(1), of ys] d(2) show ?thesis by (auto simp: goes_on_def)
    next
      case False
      then have "a_new_frame A" using assms(1) p_header_sel(3) [of A] by (cases "a_new_frame A") (auto simp: frame_ok_def)
      with run t p_handle_feed [OF False] show ?thesis by (auto simp: p_header_sel)
    qed
  qed
qed

text \<open>Every turn uses up input and leaves a frame in progress, if any, with something missing.\<close>

lemma p_data_shrinks:
  assumes "p_data A = (0, B)" and "hdr_type (a_hdr A) = TYPE_DATA"
  shows "frame_ok B" "length (a_in B) \<le> length (a_in A)" "\<not> a_new_frame A \<Longrightarrow> a_remain A \<noteq> 0 \<Longrightarrow> a_in A \<noteq> [] \<Longrightarrow> length (a_in B) < length (a_in A)"
proof -
  obtain e C where c: "p_syn A = (e, C)" by (cases "p_syn A")
  have C: "a_in C = a_in A" "a_hdr C = a_hdr A" "a_new_frame C = a_new_frame A" using p_syn_sel [of A] by (simp_all add: c)
  have D: "a_in (snd (p_flags a C)) = a_in A" "a_hdr (snd (p_flags a C)) = a_hdr A" "a_new_frame (snd (p_flags a C)) = a_new_frame A" for a
    using p_flags_sel [of a C] C by simp_all
  from assms(1) have "(\<exists>stream E. B = p_payload stream E \<and> a_in E = a_in A \<and> a_hdr E = a_hdr A \<and> (\<not> a_new_frame A \<longrightarrow> E = A)) \<or>
      a_new_frame A \<and> a_new_frame B \<and> a_in B = a_in A"
    using C D by (auto simp: p_data_def c Let_def split: if_splits option.splits prod.splits) (metis p_begin_sel(1,2) snd_conv)+
  then show "frame_ok B" "length (a_in B) \<le> length (a_in A)" "\<not> a_new_frame A \<Longrightarrow> a_remain A \<noteq> 0 \<Longrightarrow> a_in A \<noteq> [] \<Longrightarrow> length (a_in B) < length (a_in A)"
  proof (atomize (full), elim disjE exE conjE, goal_cases)
    case (1 stream E)
    from payload_progress [of stream E] obtain k where k: "a_in B = drop k (a_in E)" "a_remain E \<noteq> 0 \<longrightarrow> a_in E \<noteq> [] \<longrightarrow> 0 < k"
      using 1(1) by auto
    have "frame_ok B" using payload_frame_ok [of E stream] assms(2) 1(1,3) by simp
    then show ?case using k 1(2,4) by (cases "a_in A") auto
  next
    case 2
    then show ?case by (simp add: frame_ok_def)
  qed
qed

lemma turn_uses:
  assumes "frame_ok A" and "more_frames A" and "p_turn A = (0, B)"
  shows "frame_ok B" "length (a_in B) < length (a_in A)"
proof -
  have run: "p_handle (p_header A) = (0, B)" using assms(3) by (simp add: p_turn_def split: if_splits)
  have "frame_ok B \<and> length (a_in B) < length (a_in A)"
  proof (cases "hdr_type (a_hdr (p_header A)) = TYPE_DATA")
    case True
    with run have "p_data (p_header A) = (0, B)" by (simp add: p_handle_def)
    note d = p_data_shrinks [OF this True]
    show ?thesis
    proof (cases "a_new_frame A")
      case True
      then have "length (a_in (p_header A)) < length (a_in A)" using assms(2) by (auto simp: p_header_def more_frames_def)
      with d(1,2) show ?thesis by simp
    next
      case False
      with assms d(1,3) show ?thesis by (auto simp: p_header_sel frame_ok_def more_frames_def)
    qed
  next
    case False
    then have n: "a_new_frame A" using assms(1) p_header_sel(3) [of A] by (cases "a_new_frame A") (auto simp: frame_ok_def)
    with run p_handle_feed(2,3) [OF False] assms(2) show ?thesis
      by (auto simp: p_header_sel frame_ok_def p_header_def more_frames_def)
  qed
  then show "frame_ok B" "length (a_in B) < length (a_in A)" by simp_all
qed

lemma p_loop_fuel:
  "frame_ok A \<Longrightarrow> length (a_in A) < n \<Longrightarrow> length (a_in A) < m \<Longrightarrow> p_loop n A = p_loop m A"
proof (induction n arbitrary: A m)
  case (Suc n)
  then obtain k where m: "m = Suc k" by (cases m) auto
  show ?case
  proof (cases "more_frames A \<and> fst (p_turn A) = 0")
    case True
    then obtain B where B: "p_turn A = (0, B)" by (cases "p_turn A") auto
    from turn_uses [OF Suc.prems(1) _ B] True Suc.IH [of B k] Suc.prems(2,3) m B show ?thesis by (simp add: p_loop_turn)
  next
    case False
    then show ?thesis using m by (auto simp: p_loop_turn split: prod.split)
  qed
qed simp

text \<open>\<open>uncut\<close>: the run of the loop meets no frame for no stream whose payload is incomplete.\<close>

primrec uncut :: "nat \<Rightarrow> asession \<Rightarrow> bool" where
  "uncut 0 A = True"
| "uncut (Suc n) A = (more_frames A \<longrightarrow> \<not> cut_payload (p_header A) \<and> (let (r, B) = p_turn A in r = 0 \<longrightarrow> uncut n B))"

definition p_uncut :: "asession \<Rightarrow> bool" where
  "p_uncut A \<longleftrightarrow> uncut (Suc (length (a_in A))) A"

lemma more_frames_feed: "more_frames A \<Longrightarrow> more_frames (feed ys A)"
  by (auto simp: more_frames_def)

lemma p_loop_ok: "frame_ok A \<Longrightarrow> length (a_in A) < n \<Longrightarrow> p_loop n A = (0, B) \<Longrightarrow> frame_ok B \<and> length (a_in B) \<le> length (a_in A)"
proof (induction n arbitrary: A)
  case (Suc n)
  show ?case
  proof (cases "more_frames A")
    case True
    with Suc.prems(3) obtain C where C: "p_turn A = (0, C)" "p_loop n C = (0, B)" by (auto simp: p_loop_turn split: prod.splits if_splits)
    from turn_uses [OF Suc.prems(1) True C(1)] Suc.IH [of C] Suc.prems(2) C(2) show ?thesis by auto
  next
    case False
    with Suc.prems show ?thesis by (simp add: p_loop_turn)
  qed
qed simp

text \<open>A turn that used up the input inside a payload goes on with what comes next.\<close>

lemma p_loop_resumes:
  assumes more: "more_frames A" and C: "p_turn A = (0, C)" and fin: "\<not> a_new_frame C" "a_in C = []"
    and t: "p_turn (feed ys A) = p_turn (feed ys C)" and m: "length (a_in A) + length ys < m"
  shows "p_loop m (feed ys A) = p_loop m (feed ys C)"
proof -
  from m obtain k where k: "m = Suc k" by (cases m) auto
  show ?thesis
  proof (cases "ys = []")
    case True
    have "p_loop m A = (0, C)" using more C fin(2) k by (simp add: p_loop_turn p_loop_empty)
    then show ?thesis using True fin(2) by (simp add: p_loop_empty)
  next
    case False
    then have "more_frames (feed ys C)" using fin by (simp add: more_frames_def)
    then show ?thesis using t more k by (simp add: p_loop_turn more_frames_feed)
  qed
qed

lemma p_loop_feed:
  assumes "frame_ok A" and "length (a_in A) < n" and "uncut n A" and "p_loop n A = (r, B)" and "length (a_in A) + length ys < m"
  shows "p_loop m (feed ys A) = (if r = 0 then p_loop m (feed ys B) else (r, feed ys B))"
  using assms
proof (induction n arbitrary: A m)
  case (Suc n)
  obtain k where m: "m = Suc k" using Suc.prems(5) by (cases m) auto
  show ?case
  proof (cases "more_frames A")
    case False
    then show ?thesis using Suc.prems(4) by (simp add: p_loop_turn)
  next
    case more: True
    obtain q C where C: "p_turn A = (q, C)" by (cases "p_turn A")
    have nc: "\<not> cut_payload (p_header A)" "q = 0 \<Longrightarrow> uncut n C" using Suc.prems(3) more C by auto
    from turn_goes_on [OF Suc.prems(1) more nc(1) C, of ys] have "p_turn (feed ys A) = (q, feed ys C) \<or>
        q = 0 \<and> \<not> a_new_frame C \<and> a_in C = [] \<and> p_turn (feed ys A) = p_turn (feed ys C)" by blast
    then show ?thesis
    proof (elim disjE conjE)
      assume t: "p_turn (feed ys A) = (q, feed ys C)"
      show ?thesis
      proof (cases "q = 0")
        case False
        then show ?thesis using t more C Suc.prems(4) m by (auto simp: p_loop_turn more_frames_feed)
      next
        case True
        note u = turn_uses [OF Suc.prems(1) more, of C, unfolded C True, OF refl]
        have l: "p_loop n C = (r, B)" using Suc.prems(4) more C True by (simp add: p_loop_turn)
        have "p_loop k (feed ys C) = (if r = 0 then p_loop k (feed ys B) else (r, feed ys B))"
          using u Suc.prems(2,5) m l nc(2) [OF True] by (intro Suc.IH) auto
        moreover have "p_loop k (feed ys B) = p_loop m (feed ys B)" if "r = 0"
        proof -
          have "frame_ok B" "length (a_in B) \<le> length (a_in C)" using p_loop_ok [OF u(1), of n B] u(2) Suc.prems(2) l that by auto
          then show ?thesis using u(2) Suc.prems(5) m by (intro p_loop_fuel) (auto simp: frame_ok_def)
        qed
        ultimately show ?thesis using t more True m by (auto simp: p_loop_turn [of k] more_frames_feed)
      qed
    next
      assume t: "q = 0" "\<not> a_new_frame C" "a_in C = []" "p_turn (feed ys A) = p_turn (feed ys C)"
      have "r = 0" "B = C" using Suc.prems(4) more C t(1,3) by (auto simp: p_loop_turn p_loop_empty)
      moreover have "p_loop m (feed ys A) = p_loop m (feed ys C)"
        by (rule p_loop_resumes [OF more _ t(2-4) Suc.prems(5)]) (use C t(1) in simp)
      ultimately show ?thesis by simp
    qed
  qed
qed simp

lemma p_process_feed:
  assumes "frame_ok A" and "p_uncut A" and "p_process A = (r, B)"
  shows "p_process (feed ys A) = (if r = 0 then p_process (feed ys B) else (r, feed ys B))"
proof -
  let ?m = "Suc (length (a_in A) + length ys)"
  have "p_loop ?m (feed ys A) = (if r = 0 then p_loop ?m (feed ys B) else (r, feed ys B))"
    using assms by (intro p_loop_feed [where n = "Suc (length (a_in A))"]) (simp_all add: p_uncut_def p_process_def)
  moreover have "p_loop ?m (feed ys B) = p_process (feed ys B)" if "r = 0"
  proof -
    have "frame_ok B \<and> length (a_in B) \<le> length (a_in A)" using p_loop_ok [of A "Suc (length (a_in A))" B] assms(1,3) that by (simp add: p_process_def)
    then show ?thesis unfolding p_process_def by (intro p_loop_fuel) (auto simp: frame_ok_def)
  qed
  ultimately show ?thesis by (simp add: p_process_def)
qed

section \<open>Many pieces\<close>

primrec p_pieces :: "byte list list \<Rightarrow> asession \<Rightarrow> int \<times> asession" where
  "p_pieces [] A = (0, A)"
| "p_pieces (xs # xss) A = (let (r, B) = p_process (feed xs A) in if r \<noteq> 0 then (r, B) else p_pieces xss B)"

text \<open>No piece ends in the payload of a frame for no stream.\<close>

primrec pieces_uncut :: "byte list list \<Rightarrow> asession \<Rightarrow> bool" where
  "pieces_uncut [] A = True"
| "pieces_uncut (xs # xss) A = (p_uncut (feed xs A) \<and> (let (r, B) = p_process (feed xs A) in r = 0 \<longrightarrow> pieces_uncut xss B))"

lemma p_process_again:
  assumes "frame_ok A" and "p_process A = (0, B)"
  shows "frame_ok B" "length (a_in B) \<le> length (a_in A)"
  using p_loop_ok [of A "Suc (length (a_in A))" B] assms by (simp_all add: p_process_def)

lemma p_process_idle: "p_uncut A \<Longrightarrow> frame_ok A \<Longrightarrow> p_process A = (0, B) \<Longrightarrow> p_process B = (0, B)"
  using p_process_feed [of A 0 B "[]"] by simp

lemma p_pieces_concat:
  assumes "frame_ok A" and "p_process A = (0, A)" and "pieces_uncut xss A" and "p_pieces xss A = (r, B)"
  shows "\<exists>rest. p_process (feed (concat xss) A) = (r, feed rest B) \<and> (r = 0 \<longrightarrow> rest = [])"
  using assms
proof (induction xss arbitrary: A)
  case Nil
  then show ?case by (intro exI [of _ "[]"]) simp
next
  case (Cons xs xss)
  obtain q C where C: "p_process (feed xs A) = (q, C)" by (cases "p_process (feed xs A)")
  have ok: "frame_ok (feed xs A)" "p_uncut (feed xs A)" using Cons.prems(1,3) by (simp_all add: frame_ok_def)
  have f: "p_process (feed (concat (xs # xss)) A) = (if q = 0 then p_process (feed (concat xss) C) else (q, feed (concat xss) C))"
    using p_process_feed [OF ok C, of "concat xss"] by (simp add: feed_feed)
  show ?case
  proof (cases "q = 0")
    case True
    then have "p_process C = (0, C)" "frame_ok C" using p_process_idle [OF ok(2,1)] p_process_again(1) [OF ok(1)] C by simp_all
    with Cons.IH [of C] Cons.prems(3,4) C f True show ?thesis by auto
  next
    case False
    then show ?thesis using f Cons.prems(4) C by (intro exI [of _ "concat xss"]) auto
  qed
qed

lemma p_process_waiting: "\<not> more_frames A \<Longrightarrow> p_process A = (0, A)"
  by (simp add: p_process_def p_loop_turn)

end
