(* ===== verification/Driver.thy ===== *)
theory Driver
  imports Segmentation Simulation
begin

text \<open>
  The two threads with which the test program (\<^verbatim>\<open>tests/main.c\<close>) connects a session to a transport. \<^verbatim>\<open>recv_loop\<close> passes what it reads to the session and has it
  processed; \<^verbatim>\<open>send_loop\<close> writes out what the session wants to send. What the transport returns is a parameter.
\<close>

section \<open>The loops\<close>

text \<open>The results of the calls of \<^verbatim>\<open>read\<close>: \<open>None\<close> is an error and \<open>Some []\<close> the end of the input. The result tells whether the loop goes on, which is
  when it waits for the next \<^verbatim>\<open>read\<close>.\<close>

primrec recv_loop :: "'k os \<Rightarrow> byte list option list \<Rightarrow> 'k world \<Rightarrow> (bool \<times> 'k world) option" where
  "recv_loop os [] w = Some (True, w)"
| "recv_loop os (res # rs) w =
     (case res of
        None \<Rightarrow> Some (False, w)
      | Some buf \<Rightarrow>
          if buf = [] then Some (False, w)
          else do {
            (r, w) \<leftarrow> session_recv_buf_write buf (length buf) w;
            if r = - 1 then Some (False, w)
            else do {
              (e, w) \<leftarrow> session_process os w;
              if e \<noteq> 0 then Some (False, w) else recv_loop os rs w
            }
          })"

text \<open>At most \<open>n\<close> turns of the loop with something to send. \<open>wr k buf\<close> is what \<^verbatim>\<open>write\<close> returns when \<open>k\<close> more turns follow, and \<open>wire\<close> is what has been
  written. With nothing to send the loop sleeps until another thread adds something.\<close>

primrec send_loop :: "(nat \<Rightarrow> byte list \<Rightarrow> int) \<Rightarrow> nat \<Rightarrow> byte list \<Rightarrow> 'k world \<Rightarrow> (bool \<times> byte list \<times> 'k world) option" where
  "send_loop wr 0 wire w = Some (True, wire, w)"
| "send_loop wr (Suc n) wire w = do {
     (p, w) \<leftarrow> session_send_buf_pending w;
     if p = 0 then Some (True, wire, w)
     else do {
       (r, buf, w) \<leftarrow> session_send_buf_peek 4096 w;
       _ \<leftarrow> c_assert (r > 0);
       let r = wr n buf;
       if r = - 1 then Some (False, wire, w)
       else if r = 0 then Some (False, wire, w)
       else do {
         (_, w) \<leftarrow> session_send_buf_consume (nat r) w;
         send_loop wr n (wire @ take (nat r) buf) w
       }
     }
   }"

section \<open>Receiving\<close>

lemma recv_piece:
  assumes inv: "winv os {} w" and rel: "reliable os w" and ok: "frame_ok (view w)" and len: "length (a_in (view w)) + length xs < 2 ^ 31" and xs: "xs \<noteq> []"
  shows "\<exists>r w'. recv_loop os (Some xs # rs) w = (if r \<noteq> 0 then Some (False, w') else recv_loop os rs w') \<and> (r, view w') = p_process (feed xs (view w)) \<and>
    winv os {} w' \<and> reliable os w'"
proof -
  have live: "os_live os" using rel by (simp add: reliable_def os_reliable_def)
  from session_recv_buf_write_spec [OF inv, of "length xs" xs] len rel obtain w1 where
    w1: "session_recv_buf_write xs (length xs) w = Some (int (length xs), w1)" "keeps os {} w w1" "view w1 = feed xs (view w)"
    by (auto simp: feed_def)
  have "frame_ok (view w1)" "length (a_in (view w1)) < 2 ^ 31" using ok len unfolding w1(3) by (simp_all add: frame_ok_def)
  from session_process_spec [OF keeps_winv [OF w1(2)] live this] obtain r w2 where
    w2: "session_process os w1 = Some (r, w2)" "processed os {} p_process w1 r w2" by blast
  have "reliable os w1" using w1(2) rel by (simp add: keeps_def)
  then have p: "(r, view w2) = p_process (feed xs (view w))" "winv os {} w2" "reliable os w2"
    using w2(2) w1(3) by (simp_all add: processed_def keeps_def)
  have "recv_loop os (Some xs # rs) w = (if r \<noteq> 0 then Some (False, w2) else recv_loop os rs w2)"
    using w1(1) w2(1) xs by simp
  with p show ?thesis by blast
qed

lemma recv_loop_pieces:
  assumes "winv os {} w" and "reliable os w" and "frame_ok (view w)" and "length (a_in (view w)) + length (concat xss) < 2 ^ 31" and "\<forall>xs\<in>set xss. xs \<noteq> []"
  shows "\<exists>r w'. recv_loop os (map Some xss) w = Some (r = 0, w') \<and> p_pieces xss (view w) = (r, view w') \<and> winv os {} w'"
  using assms
proof (induction xss arbitrary: w)
  case Nil
  then show ?case by (intro exI [of _ 0]) simp
next
  case (Cons xs xss)
  have "length (a_in (view w)) + length xs < 2 ^ 31" "xs \<noteq> []" using Cons.prems(4,5) by simp_all
  from recv_piece [OF Cons.prems(1-3) this, of "map Some xss"] obtain r w1 where
    w1: "recv_loop os (map Some (xs # xss)) w = (if r \<noteq> 0 then Some (False, w1) else recv_loop os (map Some xss) w1)"
      "(r, view w1) = p_process (feed xs (view w))" "winv os {} w1" "reliable os w1" by auto
  show ?case
  proof (cases "r = 0")
    case True
    have ok: "frame_ok (feed xs (view w))" using Cons.prems(3) by (simp add: frame_ok_def)
    have "p_process (feed xs (view w)) = (0, view w1)" using w1(2) True by simp
    note a = p_process_again [OF ok this]
    then have "length (a_in (view w1)) + length (concat xss) < 2 ^ 31" using Cons.prems(4) by simp
    from Cons.IH [OF w1(3,4) a(1) this] Cons.prems(5) w1(1) True show ?thesis by (simp flip: w1(2))
  next
    case False
    then show ?thesis using w1(1,3) by (intro exI [of _ r] exI [of _ w1]) (simp flip: w1(2))
  qed
qed

text \<open>C4: The transport may cut the input anywhere. Passing the pieces to the session one by one, each processed when it arrives as \<^verbatim>\<open>recv_loop\<close> does, gives the same result
  as passing all of it at once and processing it once: the same streams, data, windows, states and answers, and after an error nothing differs but the input left unread. This holds
  when no system call and no allocation fails and no cut falls into the payload of a frame for an unknown stream (where it does not hold: the rest of that payload is taken for frames).\<close>

theorem segmentation_irrelevant:
  assumes "winv os {} w" and "reliable os w" and "frame_ok (view w)" and "\<not> more_frames (view w)"
    and "length (a_in (view w)) + length (concat xss) < 2 ^ 31" and "\<forall>xs\<in>set xss. xs \<noteq> []" and "pieces_uncut xss (view w)"
  shows "\<exists>r w' w1 w2 rest. recv_loop os (map Some xss) w = Some (r = 0, w') \<and>
    session_recv_buf_write (concat xss) (length (concat xss)) w = Some (int (length (concat xss)), w1) \<and> session_process os w1 = Some (r, w2) \<and>
    view w2 = feed rest (view w') \<and> (r = 0 \<longrightarrow> rest = [])"
proof -
  have live: "os_live os" using assms(2) by (simp add: reliable_def os_reliable_def)
  from recv_loop_pieces [OF assms(1-3,5,6)] obtain r w' where
    p: "recv_loop os (map Some xss) w = Some (r = 0, w')" "p_pieces xss (view w) = (r, view w')" by blast
  from p_pieces_concat [OF assms(3) p_process_waiting [OF assms(4)] assms(7) p(2)] obtain rest where
    c: "p_process (feed (concat xss) (view w)) = (r, feed rest (view w'))" "r = 0 \<longrightarrow> rest = []" by blast
  from session_recv_buf_write_spec [OF assms(1), of "length (concat xss)" "concat xss"] assms(2,5) obtain w1 where
    w1: "session_recv_buf_write (concat xss) (length (concat xss)) w = Some (int (length (concat xss)), w1)" "keeps os {} w w1" "view w1 = feed (concat xss) (view w)"
    by (auto simp: feed_def)
  have "frame_ok (view w1)" "length (a_in (view w1)) < 2 ^ 31" using assms(3,5) unfolding w1(3) by (simp_all add: frame_ok_def)
  from session_process_spec [OF keeps_winv [OF w1(2)] live this] obtain q w2 where
    w2: "session_process os w1 = Some (q, w2)" "processed os {} p_process w1 q w2" by blast
  then have "(q, view w2) = (r, feed rest (view w'))" using w1(2,3) assms(2) c(1) by (simp add: processed_def keeps_def)
  then show ?thesis using p(1) w1(1) w2(1) c(2) by auto
qed

lemma uncut_empty: "a_in A = [] \<Longrightarrow> uncut n A"
  by (cases n) (simp_all add: more_frames_def)

lemma p_uncutI: "\<not> cut_payload (p_header A) \<Longrightarrow> p_turn A = (r, B) \<Longrightarrow> a_in B = [] \<Longrightarrow> p_uncut A"
  by (simp add: p_uncut_def uncut_empty)

lemma p_process_one: "more_frames A \<Longrightarrow> p_turn A = (0, B) \<Longrightarrow> a_in B = [] \<Longrightarrow> p_process A = (0, B)"
  by (simp add: p_process_def p_loop_turn p_loop_empty)

text \<open>A data frame for a stream, cut in its payload.\<close>

lemma data_turn:
  assumes "a_new_frame A" and "a_in A = frame_hdr TYPE_DATA 0 sid len @ xs" and "a_table A sid = Some b" and "a_streams A b = Some s"
    and "len \<noteq> 0" "len \<le> a_recv_window s"
  defines "B \<equiv> p_payload (Some b) (p_begin (A\<lparr>a_in := xs, a_hdr := frame_hdr TYPE_DATA 0 sid len\<rparr>))"
  shows "\<not> cut_payload (p_header A)" "p_turn A = (0, B)"
proof -
  let ?A = "A\<lparr>a_in := xs, a_hdr := frame_hdr TYPE_DATA 0 sid len\<rparr>"
  have h: "p_header A = ?A" using assms(1,2) by (simp add: p_header_def)
  show "\<not> cut_payload (p_header A)" using assms(1,3) by (simp add: h cut_payload_def p_syn_def)
  show "p_turn A = (0, B)" using assms p_flags_none [of ?A b]
    by (simp add: p_turn_def h p_handle_def p_data_def p_syn_def not_less)
qed

lemma data_pieces_uncut:
  assumes A: "a_new_frame A" "a_in A = []" "a_table A sid = Some b" "a_streams A b = Some s" "len \<noteq> 0" "len \<le> a_recv_window s"
    and xs: "length xs < unat len" "length xs + length ys = unat len"
  shows "pieces_uncut [frame_hdr TYPE_DATA 0 sid len @ xs, ys] A"
proof -
  let ?x = "frame_hdr TYPE_DATA 0 sid len @ xs" let ?A = "feed ?x A"
  let ?C = "p_begin (?A\<lparr>a_in := xs, a_hdr := frame_hdr TYPE_DATA 0 sid len\<rparr>)" and ?B = "p_payload (Some b) (p_begin (?A\<lparr>a_in := xs, a_hdr := frame_hdr TYPE_DATA 0 sid len\<rparr>))"
  have t: "\<not> cut_payload (p_header ?A)" "p_turn ?A = (0, ?B)" using data_turn [of ?A sid len xs b s] A by simp_all
  have C: "length (a_in ?C) < unat (a_remain ?C)" "\<not> a_new_frame ?C" using xs(1) by simp_all
  note part = p_payload_part(2,3) [OF C refl, of b]
  have u1: "p_uncut ?A" by (rule p_uncutI [OF t part(1)])
  have "p_process ?A = (0, ?B)" using A(1,2) by (intro p_process_one [OF _ t(2) part(1)]) (simp add: more_frames_def)
  moreover have "p_uncut (feed ys ?B)"
  proof -
    have "a_remain ?B = len - of_nat (length xs)" "a_hdr ?B = frame_hdr TYPE_DATA 0 sid len" "a_table ?B = a_table A"
      using xs(1) by (simp_all add: p_payload_sel p_take_sel min_absorb2)
    moreover from this(1) have "unat (a_remain ?B) = length ys" using xs by (simp add: unat_sub_of_nat)
    ultimately have "\<not> cut_payload (p_header (feed ys ?B))" "a_in (snd (p_turn (feed ys ?B))) = []"
      using part A(3) by (simp_all add: cut_payload_def p_header_sel(3) p_turn_def p_handle_def p_data_def p_payload_sel(4) p_take_sel)
    then show ?thesis by (intro p_uncutI [OF _ prod.collapse [symmetric]])
  qed
  ultimately show ?thesis using u1 by simp
qed

theorem segmentation_irrelevant_witness:
  "\<exists>r w' w1 w2 rest. recv_loop sim_os (map Some [frame_hdr TYPE_DATA 0 1 3 @ [7], [8, 9]]) met = Some (r = 0, w') \<and>
    session_recv_buf_write note_frame 15 met = Some (15, w1) \<and> session_process sim_os w1 = Some (r, w2) \<and> view w2 = feed rest (view w') \<and> (r = 0 \<longrightarrow> rest = [])"
proof -
  let ?xss = "[frame_hdr TYPE_DATA 0 1 3 @ [7], [8, 9]]"
  have m: "a_new_frame met_view" "a_in met_view = []" "a_table met_view 1 = Some 0" "a_streams met_view 0 = Some (new_stream 1 STATE_SYN_RECEIVED)"
    by (simp_all add: met_view_def start_view_def add_stream_def new_stream_def)
  have "pieces_uncut ?xss met_view"
    using data_pieces_uncut [OF m, of 3 "[7]" "[8, 9]"] by (simp add: new_stream_def MAX_STREAM_WINDOW_SIZE_def)
  moreover have "frame_ok met_view" "\<not> more_frames met_view" using m by (simp_all add: frame_ok_def more_frames_def)
  moreover have "concat ?xss = note_frame" by (simp add: note_frame_def)
  moreover have "length note_frame = 15" by (simp add: note_frame_def)
  ultimately show ?thesis using segmentation_irrelevant [OF met_ok(2,3), of ?xss] m(2) unfolding met_ok(4) by simp
qed

section \<open>Sending\<close>

lemma send_loop_step:
  assumes inv: "winv os {} w" and len: "length (a_out (view w)) < 2 ^ 31" and out: "a_out (view w) \<noteq> []"
    and wr: "0 < wr n (take 4096 (a_out (view w)))" "wr n (take 4096 (a_out (view w))) \<le> int (length (take 4096 (a_out (view w))))"
  defines "k \<equiv> nat (wr n (take 4096 (a_out (view w))))"
  shows "\<exists>w'. send_loop wr (Suc n) wire w = send_loop wr n (wire @ take k (a_out (view w))) w' \<and> keeps os {} w w' \<and>
    view w' = (view w)\<lparr>a_out := drop k (a_out (view w))\<rparr> \<and> 0 < k"
proof -
  note s = session_send_buf_spec [OF inv len]
  from s(3) [of k] obtain x w' where w': "session_send_buf_consume k w = Some (x, w')" "keeps os {} w w'" "view w' = (view w)\<lparr>a_out := drop k (a_out (view w))\<rparr>" by blast
  have "k \<le> 4096" using wr by (simp add: k_def)
  then have t: "min k 4096 = k" by simp
  have "0 < min 4096 (length (a_out (view w)))" using out by simp
  then have "send_loop wr (Suc n) wire w = send_loop wr n (wire @ take k (a_out (view w))) w'"
    using s(1) s(2) [of 4096] wr(1) w'(1) out by (simp add: k_def [symmetric] t c_assert_def del: view_sel)
  then show ?thesis using w'(2,3) wr(1) by (auto simp: k_def)
qed

text \<open>C22: What a session wants to send goes out complete and in order. With a transport whose \<^verbatim>\<open>write\<close> takes at least one byte and at most what it is offered, the assertion of
  \<^verbatim>\<open>send_loop\<close> holds in every turn, what has been written followed by what is left in the buffer is always what was there, and after as many turns as there were bytes
  nothing is left.\<close>

theorem send_loop_drains:
  assumes "winv os {} w" and "length (a_out (view w)) < 2 ^ 31" and "\<forall>k buf. buf \<noteq> [] \<longrightarrow> 0 < wr k buf \<and> wr k buf \<le> int (length buf)"
  shows "\<exists>sent w'. send_loop wr n wire w = Some (True, wire @ sent, w') \<and> winv os {} w' \<and> sent @ a_out (view w') = a_out (view w) \<and>
    (length (a_out (view w)) \<le> n \<longrightarrow> sent = a_out (view w))"
  using assms(1,2)
proof (induction n arbitrary: wire w)
  case 0
  then show ?case by (intro exI [of _ "[]"] exI [of _ w]) simp
next
  case (Suc n)
  show ?case
  proof (cases "a_out (view w) = []")
    case True
    then show ?thesis using session_send_buf_spec(1) [OF Suc.prems] Suc.prems(1) by (intro exI [of _ "[]"] exI [of _ w]) simp
  next
    case False
    let ?k = "nat (wr n (take 4096 (a_out (view w))))"
    have "take 4096 (a_out (view w)) \<noteq> []" using False by simp
    then have wr: "0 < wr n (take 4096 (a_out (view w)))" "wr n (take 4096 (a_out (view w))) \<le> int (length (take 4096 (a_out (view w))))"
      using assms(3) by blast+
    from send_loop_step [where wr = wr and n = n, OF Suc.prems False wr, of wire] obtain w1 where
      w1: "send_loop wr (Suc n) wire w = send_loop wr n (wire @ take ?k (a_out (view w))) w1" "keeps os {} w w1"
        "view w1 = (view w)\<lparr>a_out := drop ?k (a_out (view w))\<rparr>" "0 < ?k" by blast
    have o: "a_out (view w1) = drop ?k (a_out (view w))" unfolding w1(3) by simp
    have "length (a_out (view w1)) < 2 ^ 31" using Suc.prems(2) by (simp add: o del: view_sel)
    from Suc.IH [OF keeps_winv [OF w1(2)] this, of "wire @ take ?k (a_out (view w))"] obtain sent w' where
      r: "send_loop wr n (wire @ take ?k (a_out (view w))) w1 = Some (True, (wire @ take ?k (a_out (view w))) @ sent, w')" "winv os {} w'"
        "sent @ a_out (view w') = drop ?k (a_out (view w))" "length (drop ?k (a_out (view w))) \<le> n \<longrightarrow> sent = drop ?k (a_out (view w))"
      unfolding o by blast
    show ?thesis
      by (intro exI [of _ "take ?k (a_out (view w)) @ sent"] exI [of _ w']) (use w1(1,4) r in \<open>simp del: view_sel\<close>, linarith?)
  qed
qed

theorem send_loop_drains_witness:
  "\<exists>w'. send_loop (\<lambda>_ buf. min 5 (int (length buf))) 12 [] opened = Some (True, a_out (view opened), w') \<and> a_out (view w') = []"
proof -
  have l: "length (a_out (view opened)) = 12" unfolding opened_ok(4) by (simp add: p_open_def start_view_def add_stream_def Let_def)
  then have "length (a_out (view opened)) < 2 ^ 31" by simp
  from send_loop_drains [OF opened_ok(2) this, of "\<lambda>_ buf. min 5 (int (length buf))" 12 "[]"] l show ?thesis by (auto simp del: view_sel)
qed

end
