(* ===== verification/Stream_Ids.thy ===== *)
theory Stream_Ids
  imports Api
begin

text \<open>
  Threads that open streams at the same time. \<^verbatim>\<open>session_open\<close> takes its id from the shared
  counter \<^verbatim>\<open>next_id\<close> with a loop of atomic operations; here the loops of all threads run
  interleaved, one atomic operation at a time, under an arbitrary schedule. In between, any
  other thread may be scheduled.
\<close>

section \<open>The loop as atomic steps\<close>

text \<open>Where a thread is in the loop: before the load, before the exchange with the value it has
  loaded, or out of the loop with an id or without one.\<close>

datatype id_pc = At_load | At_exchange uint32 | Has_id uint32 | Exhausted

text \<open>The shared counter, the threads, and the ids handed out so far, which no code reads.\<close>

record id_state =
  next_id :: uint32
  pcs :: "nat \<Rightarrow> id_pc"
  issued :: "uint32 list"

text \<open>One atomic operation of the thread \<open>t\<close>. A thread that is out of the loop and is scheduled again
  begins another \<^verbatim>\<open>session_open\<close>.\<close>

definition id_turn :: "nat \<Rightarrow> id_state \<Rightarrow> id_state" where
  "id_turn t s =
     (case pcs s t of
        At_load \<Rightarrow>
          if next_id s \<ge> 0xFFFFFFFF then s\<lparr>pcs := (pcs s)(t := Exhausted)\<rparr>
          else s\<lparr>pcs := (pcs s)(t := At_exchange (next_id s))\<rparr>
      | At_exchange nid \<Rightarrow>
          if next_id s = nid then s\<lparr>next_id := nid + 2, pcs := (pcs s)(t := Has_id nid), issued := issued s @ [nid]\<rparr>
          else s\<lparr>pcs := (pcs s)(t := At_load)\<rparr>
      | _ \<Rightarrow> s\<lparr>pcs := (pcs s)(t := At_load)\<rparr>)"

definition run_ids :: "nat list \<Rightarrow> id_state \<Rightarrow> id_state" where
  "run_ids ts s = fold id_turn ts s"

definition ids_from :: "uint32 \<Rightarrow> id_state" where
  "ids_from n = \<lparr>next_id = n, pcs = \<lambda>_. At_load, issued = []\<rparr>"

text \<open>A thread that is not disturbed does what the sequential model of the loop says.\<close>

lemma undisturbed:
  assumes "pcs s t = At_load"
  shows "(case next_id_loop [] (next_id s) of
      (None, n) \<Rightarrow> pcs (run_ids [t] s) t = Exhausted \<and> next_id (run_ids [t] s) = n
    | (Some nid, n) \<Rightarrow> pcs (run_ids [t, t] s) t = Has_id nid \<and> next_id (run_ids [t, t] s) = n)"
  using assms by (simp add: run_ids_def id_turn_def)

section \<open>The ids are the even or odd numbers in order\<close>

definition ids_ok :: "uint32 \<Rightarrow> id_state \<Rightarrow> bool" where
  "ids_ok n s \<longleftrightarrow> issued s = map (\<lambda>i. n + 2 * of_nat i) [0..<length (issued s)] \<and>
     next_id s = n + 2 * of_nat (length (issued s))"

lemma id_turn_ok: "ids_ok n s \<Longrightarrow> ids_ok n (id_turn t s)"
  by (auto simp: ids_ok_def id_turn_def algebra_simps split: id_pc.splits)

lemma run_ids_ok: "ids_ok n s \<Longrightarrow> ids_ok n (run_ids ts s)"
  unfolding run_ids_def by (induction ts arbitrary: s) (simp_all add: id_turn_ok)

lemma ids_from_ok: "ids_ok n (run_ids ts (ids_from n))"
  by (rule run_ids_ok) (simp add: ids_ok_def ids_from_def)

lemma double_inj:
  assumes "(2 :: uint32) * of_nat i = 2 * of_nat j" and "i < 2 ^ 31" and "j < 2 ^ 31"
  shows "i = j"
proof -
  have "unat (of_nat (2 * i) :: uint32) = unat (of_nat (2 * j) :: uint32)" using assms(1) by simp
  moreover have "2 * i < 2 ^ 32" "2 * j < 2 ^ 32" using assms(2,3) by simp_all
  ultimately show ?thesis unfolding unat_of_nat by simp
qed

lemma even_below_max:
  assumes "even (x :: uint32)"
  shows "\<not> 0xFFFFFFFF \<le> x"
proof
  assume "0xFFFFFFFF \<le> x"
  moreover have "unat x < 2 ^ 32" by (rule order_less_le_trans [OF unsigned_less]) simp
  then have "x \<le> 0xFFFFFFFF" by (simp add: word_le_nat_alt)
  ultimately have "x = 0xFFFFFFFF" by (rule antisym [rotated])
  with assms show False by simp
qed

section \<open>Properties\<close>

text \<open>C39: No two streams get the same id from \<^verbatim>\<open>session_open\<close>. Under every schedule of any number of threads
  the ids handed out are \<open>n\<close>, \<open>n + 2\<close>, \<open>n + 4\<close> and so on, without gap and in this order, and the first \<open>2 ^ 31\<close> of them
  are distinct.\<close>

theorem ids_unique:
  fixes ts :: "nat list" and n :: uint32
  defines "s \<equiv> run_ids ts (ids_from n)"
  shows "issued s = map (\<lambda>i. n + 2 * of_nat i) [0..<length (issued s)] \<and> (length (issued s) \<le> 2 ^ 31 \<longrightarrow> distinct (issued s))"
proof -
  have s: "issued s = map (\<lambda>i. n + 2 * of_nat i) [0..<length (issued s)]"
    using ids_from_ok [of n ts] by (simp add: s_def ids_ok_def)
  have "distinct (issued s)" if "length (issued s) \<le> 2 ^ 31"
    by (subst s) (use that double_inj in \<open>auto simp: distinct_map inj_on_def\<close>)
  with s show ?thesis by blast
qed

theorem ids_unique_witness:
  "issued (run_ids [0, 1, 0, 1, 1, 1] (ids_from 1)) = [1, 3] \<and> distinct (issued (run_ids [0, 1, 0, 1, 1, 1] (ids_from 1)))"
proof -
  have "issued (run_ids [0, 1, 0, 1, 1, 1] (ids_from 1)) = [1, 3]"
    by code_simp
  with ids_unique [of "[0, 1, 0, 1, 1, 1]" 1] show ?thesis by simp
qed

text \<open>C40: The check for exhausted ids never fires on a server, whose ids are even: the counter steps from
  \<open>2 ^ 32 - 2\<close> to 0, and after \<open>2 ^ 31\<close> streams the ids begin again.\<close>

theorem server_ids_reused:
  fixes ts :: "nat list" and n :: uint32
  assumes "even n"
  shows "pcs (run_ids ts (ids_from n)) t \<noteq> Exhausted \<and>
    (2 ^ 31 < length (issued (run_ids ts (ids_from n))) \<longrightarrow> issued (run_ids ts (ids_from n)) ! (2 ^ 31) = n)"
proof
  let ?P = "\<lambda>s. ids_ok n s \<and> (\<forall>t. pcs s t \<noteq> Exhausted)"
  have "?P (id_turn t s)" if "?P s" for t s
  proof -
    have "even (next_id s)" using that assms by (simp add: ids_ok_def)
    then have "\<not> next_id s \<ge> 0xFFFFFFFF" by (rule even_below_max)
    with that id_turn_ok [of n s t] show ?thesis by (auto simp: id_turn_def split: id_pc.splits)
  qed
  then have "?P (run_ids ts s)" if "?P s" for s
    using that unfolding run_ids_def by (induction ts arbitrary: s) simp_all
  moreover have "?P (ids_from n)" by (simp add: ids_ok_def ids_from_def)
  ultimately show "pcs (run_ids ts (ids_from n)) t \<noteq> Exhausted" by blast
  show "2 ^ 31 < length (issued (run_ids ts (ids_from n))) \<longrightarrow> issued (run_ids ts (ids_from n)) ! (2 ^ 31) = n"
  proof
    assume l: "2 ^ 31 < length (issued (run_ids ts (ids_from n)))"
    have "issued (run_ids ts (ids_from n)) ! (2 ^ 31) = n + 2 * of_nat (2 ^ 31)"
      using ids_from_ok [of n ts] l by (subst ids_ok_def [THEN iffD1, THEN conjunct1]) auto
    then show "issued (run_ids ts (ids_from n)) ! (2 ^ 31) = n" by simp
  qed
qed

theorem server_ids_reused_witness: "pcs (run_ids [0, 0, 0, 0] (ids_from 0xFFFFFFFE)) 0 \<noteq> Exhausted"
  using server_ids_reused [where n = "0xFFFFFFFE" and ts = "[0, 0, 0, 0]" and t = 0] by simp

end
