(* ===== verification/Event.thy ===== *)
theory Event
  imports RB_Walk
begin

text \<open>
  The event loop of \<^verbatim>\<open>event-epoll.c\<close>: the table of watched descriptors, which is a red-black
  tree of \<^verbatim>\<open>struct event\<close>, and the loop that waits in \<^verbatim>\<open>epoll_wait\<close> and calls the handlers.
  The epoll calls are a parameter, and so are the handlers, which the application supplies and
  which may change the loop; they are named by their addresses.
\<close>

section \<open>The interface of epoll\<close>

datatype ctl_op = EPOLL_CTL_ADD | EPOLL_CTL_MOD | EPOLL_CTL_DEL

definition EPOLLIN :: uint32 where "EPOLLIN = 0x001"
definition EPOLLOUT :: uint32 where "EPOLLOUT = 0x004"

text \<open>
  \<open>epoll_wait\<close> returns the events with their data pointers, or \<open>None\<close> for -1; it blocks for
  ever where its result is \<open>None\<close>. The last field is not called by the code: it is the
  interest list of an epoll descriptor, the mask and the data pointer of each descriptor.
\<close>

record 'k epoll =
  epoll_create :: "'k \<Rightarrow> int \<times> 'k"
  epoll_ctl :: "int \<Rightarrow> ctl_op \<Rightarrow> int \<Rightarrow> uint32 \<Rightarrow> addr \<Rightarrow> 'k \<Rightarrow> int \<times> 'k"
  epoll_wait :: "int \<Rightarrow> nat \<Rightarrow> 'k \<Rightarrow> ((uint32 \<times> addr) list option \<times> 'k) option"
  epoll_close :: "int \<Rightarrow> 'k \<Rightarrow> 'k"
  interest :: "int \<Rightarrow> 'k \<Rightarrow> (int \<rightharpoonup> uint32 \<times> addr)"

section \<open>Events and loops\<close>

definition EVENT_NONE :: uint32 where "EVENT_NONE = 0x00"
definition EVENT_IN :: uint32 where "EVENT_IN = 0x01"
definition EVENT_OUT :: uint32 where "EVENT_OUT = 0x02"

text \<open>\<^verbatim>\<open>struct event\<close>; its tree links are in \<^typ>\<open>rb_head\<close>.\<close>

record event =
  ev_fd :: int
  ev_flags :: uint32
  ev_send_fn :: ptr
  ev_recv_fn :: ptr
  ev_send_data :: ptr
  ev_recv_data :: ptr

text \<open>\<^verbatim>\<open>struct event_loop\<close> with the memory, the allocator and the kernel it works on.\<close>

record 'k event_loop =
  events :: rb_head
  epfd :: int
  stop :: bool
  ev_heap :: "addr \<rightharpoonup> event"
  ev_brk :: addr
  ev_mem :: alloc
  ev_kern :: 'k

definition put_event :: "addr \<Rightarrow> event \<Rightarrow> 'k event_loop \<Rightarrow> 'k event_loop" where
  "put_event a e w = w\<lparr>ev_heap := (ev_heap w)(a \<mapsto> e)\<rparr>"

text \<open>The difference of two \<^verbatim>\<open>int\<close>s, which is undefined when it overflows.\<close>

definition event_compare :: "int \<Rightarrow> int \<Rightarrow> int option" where
  "event_compare fd1 fd2 = (if - (2 ^ 31) \<le> fd1 - fd2 \<and> fd1 - fd2 < 2 ^ 31 then Some (fd1 - fd2) else None)"

definition event_probe :: "'k event_loop \<Rightarrow> int \<Rightarrow> addr \<Rightarrow> int option" where
  "event_probe w fd b = do { e \<leftarrow> ev_heap w b; event_compare fd (ev_fd e) }"

definition find_event :: "int \<Rightarrow> 'k event_loop \<Rightarrow> ptr option" where
  "find_event fd w = do {
     res \<leftarrow> RB_FIND (event_probe w fd) (events w);
     case res of
       None \<Rightarrow> Some None
     | Some b \<Rightarrow> do { e \<leftarrow> ev_heap w b; Some (if ev_fd e = fd then Some b else None) }
   }"

text \<open>The first component says whether a loop is returned.\<close>

definition event_loop_new :: "'k epoll \<Rightarrow> 'k event_loop \<Rightarrow> bool \<times> 'k event_loop" where
  "event_loop_new ep w =
     (let (ok, al) = malloc (ev_mem w); w = w\<lparr>ev_mem := al\<rparr> in
      if \<not> ok then (False, w)
      else
        let w = w\<lparr>events := RB_INIT (events w)\<rparr>; (r, k) = epoll_create ep (ev_kern w);
            w = w\<lparr>epfd := r, ev_kern := k\<rparr> in
        if r = - 1 then (False, w) else (True, w\<lparr>stop := False\<rparr>))"

definition event_new :: "int \<Rightarrow> 'k event_loop \<Rightarrow> ptr \<times> 'k event_loop" where
  "event_new fd w =
     (let (ok, al) = malloc (ev_mem w); w = w\<lparr>ev_mem := al\<rparr> in
      if \<not> ok then (None, w)
      else (Some (ev_brk w),
        (put_event (ev_brk w) \<lparr>ev_fd = fd, ev_flags = EVENT_NONE, ev_send_fn = None, ev_recv_fn = None,
           ev_send_data = None, ev_recv_data = None\<rparr> w)\<lparr>ev_brk := Suc (ev_brk w)\<rparr>))"

definition event_free :: "addr \<Rightarrow> 'k event_loop \<Rightarrow> 'k event_loop option" where
  "event_free a w = (if ev_heap w a = None then None else Some (w\<lparr>ev_heap := (ev_heap w)(a := None)\<rparr>))"

definition epoll_mask :: "uint32 \<Rightarrow> uint32" where
  "epoll_mask flags =
     or (if and flags EVENT_IN \<noteq> 0 then EPOLLIN else 0) (if and flags EVENT_OUT \<noteq> 0 then EPOLLOUT else 0)"

text \<open>The handlers \<^verbatim>\<open>event_add\<close> stores in an event.\<close>

definition set_handlers :: "uint32 \<Rightarrow> ptr \<Rightarrow> ptr \<Rightarrow> event \<Rightarrow> event" where
  "set_handlers flags fn data e =
     (let e = (if and flags EVENT_IN \<noteq> 0 then e\<lparr>ev_recv_fn := fn, ev_recv_data := data\<rparr> else e) in
      if and flags EVENT_OUT \<noteq> 0 then e\<lparr>ev_send_fn := fn, ev_send_data := data\<rparr> else e)"

text \<open>The first block of \<^verbatim>\<open>event_add\<close>: the event of the descriptor, a new one if there is none.\<close>

definition obtain_event :: "int \<Rightarrow> 'k event_loop \<Rightarrow> (ptr \<times> 'k event_loop) option" where
  "obtain_event fd w = do {
     ev \<leftarrow> find_event fd w;
     case ev of
       Some a \<Rightarrow> Some (Some a, w)
     | None \<Rightarrow>
         let (ev, w) = event_new fd w in
         case ev of
           None \<Rightarrow> Some (None, w)
         | Some a \<Rightarrow> do {
             (_, t) \<leftarrow> RB_INSERT (event_probe w fd) (events w) a;
             Some (Some a, w\<lparr>events := t\<rparr>)
           }
   }"

definition event_add ::
  "'k epoll \<Rightarrow> int \<Rightarrow> uint32 \<Rightarrow> ptr \<Rightarrow> ptr \<Rightarrow> 'k event_loop \<Rightarrow> (int \<times> 'k event_loop) option" where
  "event_add ep fd flags fn data w = do {
     (ev, w) \<leftarrow> obtain_event fd w;
     case ev of
       None \<Rightarrow> Some (- 1, w)
     | Some a \<Rightarrow> do {
         e \<leftarrow> ev_heap w a;
         let e = set_handlers flags fn data e;
         let ctl = (if ev_flags e = EVENT_NONE then EPOLL_CTL_ADD else EPOLL_CTL_MOD);
         let e = e\<lparr>ev_flags := or (ev_flags e) flags\<rparr>;
         let w = put_event a e w;
         let (r, k) = epoll_ctl ep (epfd w) ctl fd (epoll_mask (ev_flags e)) a (ev_kern w);
         let w = w\<lparr>ev_kern := k\<rparr>;
         if r \<noteq> 0 then Some (- 1, w) else Some (0, w)
       }
   }"

definition event_delete :: "'k epoll \<Rightarrow> int \<Rightarrow> uint32 \<Rightarrow> 'k event_loop \<Rightarrow> (int \<times> 'k event_loop) option" where
  "event_delete ep fd flags w = do {
     ev \<leftarrow> find_event fd w;
     case ev of
       None \<Rightarrow> Some (- 1, w)
     | Some a \<Rightarrow> do {
         e \<leftarrow> ev_heap w a;
         let e = e\<lparr>ev_flags := and (ev_flags e) (not flags)\<rparr>;
         let w = put_event a e w;
         let ctl = (if ev_flags e = EVENT_NONE then EPOLL_CTL_DEL else EPOLL_CTL_MOD);
         let (r, k) = epoll_ctl ep (epfd w) ctl fd (epoll_mask (ev_flags e)) a (ev_kern w);
         let w = w\<lparr>ev_kern := k\<rparr>;
         if r \<noteq> 0 then Some (- 1, w)
         else if ev_flags e = 0 then do {
           t \<leftarrow> RB_REMOVE (events w) a;
           w \<leftarrow> event_free a (w\<lparr>events := t\<rparr>);
           Some (0, w)
         }
         else Some (0, w)
       }
   }"

section \<open>Running the loop\<close>

type_synonym 'k handlers = "addr \<Rightarrow> int \<Rightarrow> ptr \<Rightarrow> 'k event_loop \<Rightarrow> 'k event_loop option"

definition handle_event :: "'k handlers \<Rightarrow> uint32 \<times> addr \<Rightarrow> 'k event_loop \<Rightarrow> 'k event_loop option" where
  "handle_event call ee w = do {
     w \<leftarrow> (if and (fst ee) EPOLLIN \<noteq> 0 then do {
             e \<leftarrow> ev_heap w (snd ee);
             case ev_recv_fn e of None \<Rightarrow> Some w | Some f \<Rightarrow> call f (ev_fd e) (ev_recv_data e) w
           } else Some w);
     if and (fst ee) EPOLLOUT \<noteq> 0 then do {
       e \<leftarrow> ev_heap w (snd ee);
       case ev_send_fn e of None \<Rightarrow> Some w | Some f \<Rightarrow> call f (ev_fd e) (ev_send_data e) w
     } else Some w
   }"

text \<open>The loop over the events of one \<^verbatim>\<open>epoll_wait\<close>.\<close>

fun handle_events :: "'k handlers \<Rightarrow> (uint32 \<times> addr) list \<Rightarrow> 'k event_loop \<Rightarrow> 'k event_loop option" where
  "handle_events call [] w = Some w"
| "handle_events call (ee # es) w = do { w \<leftarrow> handle_event call ee w; handle_events call es w }"

partial_function (option) event_process ::
  "'k epoll \<Rightarrow> 'k handlers \<Rightarrow> 'k event_loop \<Rightarrow> (int \<times> 'k event_loop) option" where
  "event_process ep call w =
     (if stop w then Some (0, w)
      else do {
        (res, k) \<leftarrow> epoll_wait ep (epfd w) 256 (ev_kern w);
        let w = w\<lparr>ev_kern := k\<rparr>;
        case res of
          None \<Rightarrow> Some (- 1, w)
        | Some es \<Rightarrow> do { w \<leftarrow> handle_events call es w; event_process ep call w }
      })"

definition event_stop :: "'k event_loop \<Rightarrow> 'k event_loop" where
  "event_stop w = w\<lparr>stop := True\<rparr>"

text \<open>
  \<^verbatim>\<open>event_loop_free\<close>. The loop frees every event after it has stepped from it to the next one;
  the step reads the links of nodes that may have been freed in earlier turns.
\<close>

partial_function (option) event_free_loop :: "ptr \<Rightarrow> 'k event_loop \<Rightarrow> 'k event_loop option" where
  "event_free_loop x w =
     (case x of
        None \<Rightarrow> Some w
      | Some a \<Rightarrow> do {
          y \<leftarrow> live_next (\<lambda>b. ev_heap w b \<noteq> None) (events w) x;
          w \<leftarrow> event_free a w;
          event_free_loop y w
        })"

definition event_loop_free :: "'k epoll \<Rightarrow> 'k event_loop \<Rightarrow> 'k event_loop option" where
  "event_loop_free ep w = do {
     x \<leftarrow> RB_MINMAX (events w) (- 1);
     w \<leftarrow> event_free_loop x w;
     Some (w\<lparr>ev_kern := epoll_close ep (epfd w) (ev_kern w)\<rparr>)
   }"

end
