(* ===== verification/Event_Specs.thy ===== *)
theory Event_Specs
  imports Event
begin

text \<open>
  What the event loop guarantees: the table of watched descriptors is a map whatever the epoll
  calls and the allocator do, the kernel never holds a pointer to a freed event, and if nothing
  fails \<^verbatim>\<open>event_add\<close> and \<^verbatim>\<open>event_delete\<close> are updates of that map, with the kernel in step.
\<close>

section \<open>The documented behaviour of epoll\<close>

text \<open>
  \<^verbatim>\<open>epoll_ctl\<close> changes the entry of one descriptor when it returns 0 and nothing when it returns
  -1; a new epoll descriptor has an empty interest list; \<^verbatim>\<open>epoll_wait\<close> reports entries of the
  interest list only.
\<close>

definition epoll_ok :: "'k epoll \<Rightarrow> bool" where
  "epoll_ok ep \<longleftrightarrow>
     (\<forall>efd ctl fd evs a k r k'. epoll_ctl ep efd ctl fd evs a k = (r, k') \<longrightarrow>
        r = 0 \<and> interest ep efd k' = (interest ep efd k)(fd := (if ctl = EPOLL_CTL_DEL then None else Some (evs, a))) \<or>
        r = - 1 \<and> interest ep efd k' = interest ep efd k) \<and>
     (\<forall>k fd k'. epoll_create ep k = (fd, k') \<and> fd \<noteq> - 1 \<longrightarrow> interest ep fd k' = Map.empty) \<and>
     (\<forall>efd n k es k'. epoll_wait ep efd n k = Some (es, k') \<longrightarrow> interest ep efd k' = interest ep efd k \<and>
        (case es of None \<Rightarrow> True | Some es \<Rightarrow> \<forall>(evs, a)\<in>set es. \<exists>fd evs'. interest ep efd k fd = Some (evs', a)))"

text \<open>No call fails but for the reasons that are the caller's: adding an entry twice, or
  changing one that is not there.\<close>

definition epoll_reliable :: "'k epoll \<Rightarrow> bool" where
  "epoll_reliable ep \<longleftrightarrow>
     (\<forall>efd ctl fd evs a k. (ctl = EPOLL_CTL_ADD \<longleftrightarrow> interest ep efd k fd = None) \<longrightarrow>
        fst (epoll_ctl ep efd ctl fd evs a k) = 0)"

lemma epoll_ctl_law:
  assumes "epoll_ok ep" and "epoll_ctl ep efd ctl fd evs a k = (r, k')"
  shows "r = 0 \<and> interest ep efd k' = (interest ep efd k)(fd := (if ctl = EPOLL_CTL_DEL then None else Some (evs, a))) \<or>
    r = - 1 \<and> interest ep efd k' = interest ep efd k"
  using assms(1) [unfolded epoll_ok_def, THEN conjunct1, rule_format, OF assms(2)] .

lemma epoll_reliableD:
  assumes "epoll_reliable ep" and "epoll_ctl ep efd ctl fd evs a k = (r, k')"
    and "ctl = EPOLL_CTL_ADD \<longleftrightarrow> interest ep efd k fd = None"
  shows "r = 0"
  using assms(1) [unfolded epoll_reliable_def, rule_format, OF assms(3), of evs a] assms(2) by simp

section \<open>The invariant\<close>

definition ev_key :: "'k event_loop \<Rightarrow> addr \<Rightarrow> int" where
  "ev_key w a = (case ev_heap w a of None \<Rightarrow> 0 | Some e \<Rightarrow> ev_fd e)"

text \<open>Descriptors are not negative, so their differences are \<^verbatim>\<open>int\<close>s.\<close>

definition fd_ok :: "int \<Rightarrow> bool" where
  "fd_ok fd \<longleftrightarrow> 0 \<le> fd \<and> fd < 2 ^ 31"

definition ev_tree :: "'k event_loop \<Rightarrow> (int \<rightharpoonup> addr) \<Rightarrow> bool" where
  "ev_tree w m \<longleftrightarrow> rb_map (ev_key w) (events w) m \<and> ran m = dom (ev_heap w) \<and>
     (\<forall>a e. ev_heap w a = Some e \<longrightarrow> fd_ok (ev_fd e)) \<and> (\<forall>a\<ge>ev_brk w. ev_heap w a = None)"

text \<open>\<open>m\<close> is the table; the data pointers the kernel holds are those of the table.\<close>

definition ev_inv :: "'k epoll \<Rightarrow> 'k event_loop \<Rightarrow> (int \<rightharpoonup> addr) \<Rightarrow> bool" where
  "ev_inv ep w m \<longleftrightarrow> ev_tree w m \<and>
     (\<forall>fd evs a. interest ep (epfd w) (ev_kern w) fd = Some (evs, a) \<longrightarrow> m fd = Some a)"

text \<open>What is watched, the abstract state of the loop.\<close>

definition watches :: "'k event_loop \<Rightarrow> (int \<rightharpoonup> addr) \<Rightarrow> (int \<rightharpoonup> event)" where
  "watches w m fd = Option.bind (m fd) (ev_heap w)"

text \<open>The kernel is in step: it holds exactly the entries of the table, with their masks.\<close>

definition synced :: "'k epoll \<Rightarrow> 'k event_loop \<Rightarrow> (int \<rightharpoonup> addr) \<Rightarrow> bool" where
  "synced ep w m \<longleftrightarrow> (\<forall>fd. interest ep (epfd w) (ev_kern w) fd =
     (case m fd of None \<Rightarrow> None | Some a \<Rightarrow> map_option (\<lambda>e. (epoll_mask (ev_flags e), a)) (ev_heap w a))) \<and>
     (\<forall>fd e. watches w m fd = Some e \<longrightarrow> ev_flags e \<noteq> EVENT_NONE)"

lemma ev_key_simps [simp]:
  "ev_key (w\<lparr>ev_kern := k\<rparr>) = ev_key w" "ev_key (w\<lparr>ev_mem := al\<rparr>) = ev_key w" "ev_key (w\<lparr>events := t\<rparr>) = ev_key w"
  "ev_key (w\<lparr>stop := b\<rparr>) = ev_key w"
  by (simp_all add: ev_key_def fun_eq_iff)

lemma ev_tree_simps [simp]:
  "ev_tree (w\<lparr>ev_kern := k\<rparr>) m = ev_tree w m" "ev_tree (w\<lparr>ev_mem := al\<rparr>) m = ev_tree w m"
  "ev_tree (w\<lparr>stop := b\<rparr>) m = ev_tree w m"
  by (simp_all add: ev_tree_def)

lemma put_event_simps [simp]:
  "events (put_event a e w) = events w" "epfd (put_event a e w) = epfd w" "stop (put_event a e w) = stop w"
  "ev_heap (put_event a e w) = (ev_heap w)(a \<mapsto> e)" "ev_brk (put_event a e w) = ev_brk w"
  "ev_mem (put_event a e w) = ev_mem w" "ev_kern (put_event a e w) = ev_kern w"
  by (simp_all add: put_event_def)

lemma table_iff:
  assumes "ev_tree w m"
  shows "m fd = Some a \<longleftrightarrow> (\<exists>e. ev_heap w a = Some e \<and> ev_fd e = fd)"
proof
  assume *: "m fd = Some a"
  then have "a \<in> dom (ev_heap w)" using assms unfolding ev_tree_def by (metis ranI)
  moreover have "ev_key w a = fd" using rbm.key_law [of "ev_key w" "events w" m fd a] * assms by (simp add: ev_tree_def)
  ultimately show "\<exists>e. ev_heap w a = Some e \<and> ev_fd e = fd" by (auto simp: ev_key_def)
next
  assume "\<exists>e. ev_heap w a = Some e \<and> ev_fd e = fd"
  then obtain e where e: "ev_heap w a = Some e" "ev_fd e = fd" by blast
  then have "a \<in> ran m" using assms by (auto simp: ev_tree_def)
  then obtain x where x: "m x = Some a" by (auto simp: ran_def)
  then have "ev_key w a = x" using rbm.key_law [of "ev_key w" "events w" m x a] x assms by (simp add: ev_tree_def)
  with e x show "m fd = Some a" by (simp add: ev_key_def)
qed

lemma probe_ok:
  assumes "ev_tree w m" and "fd_ok fd" and "A \<subseteq> ran m"
  shows "cmp_for (ev_key w) fd (event_probe w fd) A"
  unfolding cmp_for_def
proof
  fix a assume "a \<in> A"
  with assms obtain e where "ev_heap w a = Some e" "fd_ok (ev_fd e)" unfolding ev_tree_def by blast
  with assms(2) show "\<exists>c. event_probe w fd a = Some c \<and> (c < 0) = (fd < ev_key w a) \<and> (0 < c) = (ev_key w a < fd)"
    by (auto simp: event_probe_def event_compare_def ev_key_def fd_ok_def)
qed

lemma find_event_spec:
  assumes "ev_tree w m" and "fd_ok fd"
  shows "find_event fd w = Some (m fd)"
proof -
  have "RB_FIND (event_probe w fd) (events w) = Some (m fd)"
    using assms probe_ok [OF assms order_refl] by (auto simp: ev_tree_def intro: rbm.find_law)
  moreover have "\<exists>e. ev_heap w a = Some e \<and> ev_fd e = fd" if "m fd = Some a" for a
    using that table_iff [OF assms(1)] by simp
  ultimately show ?thesis by (cases "m fd") (auto simp: find_event_def)
qed

text \<open>Changing the fields of an event other than its descriptor.\<close>

lemma ev_key_put: "ev_heap w a = Some e \<Longrightarrow> ev_fd e' = ev_fd e \<Longrightarrow> ev_key (put_event a e' w) = ev_key w"
  by (auto simp: ev_key_def fun_eq_iff)

lemma ev_tree_put:
  assumes "ev_tree w m" and "ev_heap w a = Some e" and "ev_fd e' = ev_fd e"
  shows "ev_tree (put_event a e' w) m"
proof -
  have "a < ev_brk w" using assms(1,2) by (metis ev_tree_def linorder_not_le option.distinct(1))
  then show ?thesis using assms ev_key_put [OF assms(2,3)] unfolding ev_tree_def by (auto simp: insert_absorb domI)
qed

lemma set_handlers_simps [simp]:
  "ev_fd (set_handlers flags fn data e) = ev_fd e" "ev_flags (set_handlers flags fn data e) = ev_flags e"
  by (simp_all add: set_handlers_def Let_def)

section \<open>Adding\<close>

definition blank_event :: "int \<Rightarrow> event" where
  "blank_event fd = \<lparr>ev_fd = fd, ev_flags = EVENT_NONE, ev_send_fn = None, ev_recv_fn = None,
     ev_send_data = None, ev_recv_data = None\<rparr>"

lemma insert_event:
  assumes "ev_tree w m" and "fd_ok fd" and "m fd = None" and "a = ev_brk w"
    and "w1 = (put_event a (blank_event fd) w)\<lparr>ev_brk := Suc a\<rparr>"
  shows "\<exists>t. RB_INSERT (event_probe w1 fd) (events w1) a = Some (None, t) \<and> ev_tree (w1\<lparr>events := t\<rparr>) (m(fd \<mapsto> a))"
proof -
  have h: "ev_heap w a = None" using assms(1,4) by (simp add: ev_tree_def)
  then have na: "a \<notin> ran m" using assms(1) by (auto simp: ev_tree_def)
  have key: "ev_key w1 a = fd" "\<forall>b\<in>ran m. ev_key w1 b = ev_key w b"
    using na by (auto simp: ev_key_def assms(5) blank_event_def)
  have rb: "rb_map (ev_key w1) (events w1) m"
    using rbm.rep_cong [of "ev_key w" "events w" m "ev_key w1"] key(2) assms(1,5) by (simp add: ev_tree_def)
  have "cmp_for (ev_key w1) fd (event_probe w1 fd) (ran m)"
    using probe_ok [OF assms(1,2) order_refl] key(2) na
    unfolding cmp_for_def assms(5) event_probe_def by (auto simp: ev_key_def)
  with rbm.insert_law [OF rb, of a "event_probe w1 fd"] na key(1) assms(3) obtain t where
    t: "RB_INSERT (event_probe w1 fd) (events w1) a = Some (None, t)" "rb_map (ev_key w1) t (m(fd \<mapsto> a))" by auto
  have "ran (m(fd \<mapsto> a)) = insert a (ran m)" using assms(3) by (rule ran_map_upd)
  then have "ev_tree (w1\<lparr>events := t\<rparr>) (m(fd \<mapsto> a))"
    using t(2) assms(1,2) h unfolding ev_tree_def by (auto simp: assms(4,5) blank_event_def)
  with t(1) show ?thesis by blast
qed

lemma obtain_event_spec:
  assumes "ev_tree w m" and "fd_ok fd"
  shows "\<exists>p w'. obtain_event fd w = Some (p, w') \<and> epfd w' = epfd w \<and> ev_kern w' = ev_kern w \<and>
    succeeds (ev_mem w') = succeeds (ev_mem w) \<and>
    (case p of
       None \<Rightarrow> ev_tree w' m \<and> ev_heap w' = ev_heap w \<and> \<not> never_fails (ev_mem w)
     | Some a \<Rightarrow> ev_tree w' (m(fd \<mapsto> a)) \<and>
         (m fd = Some a \<and> ev_heap w' = ev_heap w \<or> m fd = None \<and> ev_heap w' = (ev_heap w)(a \<mapsto> blank_event fd)))"
proof (cases "m fd")
  case (Some a)
  then have "m(fd \<mapsto> a) = m" by auto
  with Some find_event_spec [OF assms] assms(1) show ?thesis by (simp add: obtain_event_def)
next
  case None
  obtain ok al where al: "malloc (ev_mem w) = (ok, al)" by (cases "malloc (ev_mem w)")
  then have s: "succeeds al = succeeds (ev_mem w)" by (rule succeeds_malloc)
  show ?thesis
  proof (cases ok)
    case False
    then have "\<not> never_fails (ev_mem w)" using al by (auto simp: malloc_def never_fails_def)
    with False None al s find_event_spec [OF assms] assms(1) show ?thesis
      by (simp add: obtain_event_def event_new_def)
  next
    case True
    let ?w = "w\<lparr>ev_mem := al\<rparr>"
    have "ev_tree ?w m" using assms(1) by simp
    from insert_event [OF this assms(2) None refl refl] True None al s find_event_spec [OF assms] show ?thesis
      by (auto simp: obtain_event_def event_new_def blank_event_def)
  qed
qed

text \<open>The entry of \<open>fd\<close> after \<^verbatim>\<open>event_add\<close>.\<close>

definition added :: "uint32 \<Rightarrow> ptr \<Rightarrow> ptr \<Rightarrow> event \<Rightarrow> event" where
  "added flags fn data e = (set_handlers flags fn data e)\<lparr>ev_flags := or (ev_flags e) flags\<rparr>"

definition watch_add :: "int \<Rightarrow> uint32 \<Rightarrow> ptr \<Rightarrow> ptr \<Rightarrow> (int \<rightharpoonup> event) \<Rightarrow> (int \<rightharpoonup> event)" where
  "watch_add fd flags fn data M =
     M(fd \<mapsto> added flags fn data (case M fd of None \<Rightarrow> blank_event fd | Some e \<Rightarrow> e))"

lemma added_fd [simp]: "ev_fd (added flags fn data e) = ev_fd e" "ev_flags (added flags fn data e) = or (ev_flags e) flags"
  by (simp_all add: added_def)

lemma or_neq_0: "flags \<noteq> 0 \<Longrightarrow> or f flags \<noteq> (0 :: uint32)"
  by (metis or_eq_0_iff)

lemma ev_invD:
  assumes "ev_inv ep w m"
  shows "ev_tree w m" "interest ep (epfd w) (ev_kern w) fd = Some (evs, a) \<Longrightarrow> m fd = Some a"
  using assms by (auto simp: ev_inv_def)

lemma watches_upd:
  assumes "\<And>x b. m x = Some b \<Longrightarrow> x \<noteq> fd \<Longrightarrow> ev_heap w' b = ev_heap w b" and "\<And>x. x \<noteq> fd \<Longrightarrow> m' x = m x"
  shows "watches w' m' = (watches w m)(fd := Option.bind (m' fd) (ev_heap w'))"
proof
  fix x show "watches w' m' x = ((watches w m)(fd := Option.bind (m' fd) (ev_heap w'))) x"
    using assms(1) [of x] assms(2) [of x] by (cases "m x") (auto simp: watches_def)
qed

text \<open>The outcome of a change of one entry: \<open>M'\<close> is what is watched if it succeeds.\<close>

definition changed :: "'k epoll \<Rightarrow> 'k event_loop \<Rightarrow> (int \<rightharpoonup> addr) \<Rightarrow> (int \<rightharpoonup> event) \<Rightarrow> int \<Rightarrow> 'k event_loop \<Rightarrow> (int \<rightharpoonup> addr) \<Rightarrow> bool" where
  "changed ep w m M' r w' m' \<longleftrightarrow> ev_inv ep w' m' \<and> epfd w' = epfd w \<and> (r = 0 \<or> r = - 1) \<and>
     succeeds (ev_mem w') = succeeds (ev_mem w) \<and> (r = 0 \<longrightarrow> watches w' m' = M') \<and>
     (synced ep w m \<and> epoll_reliable ep \<and> never_fails (ev_mem w) \<longrightarrow> r = 0 \<and> synced ep w' m')"

lemma synced_None:
  assumes "synced ep w m" and "ev_tree w m"
  shows "interest ep (epfd w) (ev_kern w) fd = None \<longleftrightarrow> m fd = None"
proof -
  have "m fd = Some a \<Longrightarrow> ev_heap w a \<noteq> None" for a using table_iff [OF assms(2), of fd a] by auto
  then show ?thesis using assms(1) by (auto simp: synced_def split: option.split)
qed

lemma synced_flags:
  assumes "synced ep w m" and "m fd = Some a" and "ev_heap w a = Some e"
  shows "ev_flags e \<noteq> EVENT_NONE"
proof -
  have "watches w m fd = Some e" using assms(2,3) by (simp add: watches_def)
  with assms(1) show ?thesis by (auto simp: synced_def)
qed

lemma synced_upd:
  assumes "synced ep w m"
    and "\<And>x b. m x = Some b \<Longrightarrow> x \<noteq> fd \<Longrightarrow> ev_heap w' b = ev_heap w b" and "\<And>x. x \<noteq> fd \<Longrightarrow> m' x = m x"
    and "epfd w' = epfd w" and i: "interest ep (epfd w) (ev_kern w') = (interest ep (epfd w) (ev_kern w))(fd := v)"
    and v: "v = (case m' fd of None \<Rightarrow> None | Some b \<Rightarrow> map_option (\<lambda>e. (epoll_mask (ev_flags e), b)) (ev_heap w' b))"
    and "\<And>e. watches w' m' fd = Some e \<Longrightarrow> ev_flags e \<noteq> EVENT_NONE"
  shows "synced ep w' m'"
proof -
  have wat: "watches w' m' = (watches w m)(fd := Option.bind (m' fd) (ev_heap w'))"
    by (rule watches_upd) (use assms(2,3) in auto)
  have "interest ep (epfd w') (ev_kern w') x =
      (case m' x of None \<Rightarrow> None | Some b \<Rightarrow> map_option (\<lambda>e. (epoll_mask (ev_flags e), b)) (ev_heap w' b))" for x
    using assms(1,4) assms(2,3) [of x] by (auto simp: i v synced_def split: option.split)
  moreover have "ev_flags e \<noteq> EVENT_NONE" if "watches w' m' x = Some e" for x e
    using that assms(1) assms(7) [of e] by (cases "x = fd") (auto simp: wat synced_def)
  ultimately show ?thesis by (simp add: synced_def)
qed

lemma table_inj:
  assumes "ev_tree w m" and "m fd = Some a" and "m x = Some b" and "x \<noteq> fd"
  shows "b \<noteq> a"
  using table_iff [OF assms(1), of x b] table_iff [OF assms(1), of fd a] assms(2-4) by auto

lemma event_add_spec:
  assumes ep: "epoll_ok ep" and inv: "ev_inv ep w m" and fd: "fd_ok fd" and flags: "flags \<noteq> 0"
  shows "\<exists>r w' m'. event_add ep fd flags fn data w = Some (r, w') \<and>
    changed ep w m (watch_add fd flags fn data (watches w m)) r w' m' \<and>
    dom (ev_heap w) \<subseteq> dom (ev_heap w') \<and>
    (r = - 1 \<longrightarrow> watches w' m' = watches w m \<or> watches w' m' = watch_add fd flags fn data (watches w m))"
proof -
  note t = ev_invD [OF inv]
  from obtain_event_spec [OF t(1) fd] obtain p w1 where
    w1: "obtain_event fd w = Some (p, w1)" "epfd w1 = epfd w" "ev_kern w1 = ev_kern w"
      "case p of None \<Rightarrow> ev_tree w1 m \<and> ev_heap w1 = ev_heap w \<and> \<not> never_fails (ev_mem w)
       | Some a \<Rightarrow> ev_tree w1 (m(fd \<mapsto> a)) \<and>
         (m fd = Some a \<and> ev_heap w1 = ev_heap w \<or> m fd = None \<and> ev_heap w1 = (ev_heap w)(a \<mapsto> blank_event fd))"
      "succeeds (ev_mem w1) = succeeds (ev_mem w)" by blast
  show ?thesis
  proof (cases p)
    case None
    with w1 t show ?thesis
      by (intro exI [of _ "- 1"] exI [of _ w1] exI [of _ m])
        (auto simp: event_add_def changed_def ev_inv_def watches_def)
  next
    case (Some a)
    let ?m = "m(fd \<mapsto> a)" let ?old = "case watches w m fd of None \<Rightarrow> blank_event fd | Some e \<Rightarrow> e"
    let ?e = "added flags fn data ?old" let ?ctl = "if ev_flags ?old = EVENT_NONE then EPOLL_CTL_ADD else EPOLL_CTL_MOD"
    have tr: "ev_tree w1 ?m" and old: "ev_heap w1 a = Some ?old" and dom: "dom (ev_heap w) \<subseteq> dom (ev_heap w1)"
      using w1(4) Some table_iff [OF t(1), of fd a] by (auto simp: watches_def)
    have fresh: "m fd = None \<Longrightarrow> ?old = blank_event fd" by (simp add: watches_def)
    have same: "m fd = Some b \<Longrightarrow> a = b" for b using w1(4) Some by auto
    have oth: "b \<noteq> a \<Longrightarrow> ev_heap w1 b = ev_heap w b" for b using w1(4) Some by auto
    obtain r k where ctl: "epoll_ctl ep (epfd w) ?ctl fd (epoll_mask (ev_flags ?e)) a (ev_kern w) = (r, k)"
      by (cases "epoll_ctl ep (epfd w) ?ctl fd (epoll_mask (ev_flags ?e)) a (ev_kern w)")
    let ?w = "(put_event a ?e w1)\<lparr>ev_kern := k\<rparr>"
    have run: "event_add ep fd flags fn data w = Some (if r \<noteq> 0 then - 1 else 0, ?w)"
      using w1(1-3) Some old ctl by (simp add: event_add_def added_def Let_def)
    note law = epoll_ctl_law [OF ep ctl]
    have keep: "m x = Some b \<Longrightarrow> x \<noteq> fd \<Longrightarrow> ev_heap ?w b = ev_heap w b" for x b
      using table_inj [OF tr, of fd a x b] oth by simp
    have "interest ep (epfd w) k x = Some (evs, b) \<Longrightarrow> ?m x = Some b" for x evs b
      using law t(2) [of x evs b] t(2) [of fd evs b] same by (auto split: if_splits)
    then have inv': "ev_inv ep ?w ?m" using ev_tree_put [OF tr old, of ?e] w1(2) by (auto simp: ev_inv_def)
    have wat: "watches ?w ?m = watch_add fd flags fn data (watches w m)"
      using keep watches_upd [of m fd ?w w ?m] by (auto simp: watch_add_def)
    have "r = 0 \<and> synced ep ?w ?m" if s: "synced ep w m" "epoll_reliable ep"
    proof
      have "?ctl = EPOLL_CTL_ADD \<longleftrightarrow> interest ep (epfd w) (ev_kern w) fd = None"
        using synced_None [OF s(1) t(1), of fd] synced_flags [OF s(1), of fd a] old oth w1(4) Some fresh
        by (auto simp: blank_event_def)
      then show r: "r = 0" by (rule epoll_reliableD [OF s(2) ctl])
      show "synced ep ?w ?m"
        by (rule synced_upd [OF s(1), where fd = fd]) (use keep law r w1(2) or_neq_0 [OF flags] in \<open>auto simp: wat watch_add_def EVENT_NONE_def\<close>)
    qed
    then show ?thesis using run inv' wat w1(2,5) dom law
      by (intro exI [of _ "if r \<noteq> 0 then - 1 else 0"] exI [of _ ?w] exI [of _ ?m]) (auto simp: changed_def)
  qed
qed

section \<open>Deleting\<close>

definition watch_delete :: "int \<Rightarrow> uint32 \<Rightarrow> (int \<rightharpoonup> event) \<Rightarrow> (int \<rightharpoonup> event)" where
  "watch_delete fd flags M =
     (case M fd of
        None \<Rightarrow> M
      | Some e \<Rightarrow>
          let f = and (ev_flags e) (not flags) in
          if f = EVENT_NONE then M(fd := None) else M(fd \<mapsto> e\<lparr>ev_flags := f\<rparr>))"

lemma ran_without:
  assumes "ev_tree w m" and "m fd = Some a"
  shows "ran (m(fd := None)) = ran m - {a}"
proof -
  have "m x = Some a \<longleftrightarrow> x = fd" for x using table_iff [OF assms(1), of x a] table_iff [OF assms(1), of fd a] assms(2) by auto
  then show ?thesis unfolding ran_def by (auto; metis option.inject)
qed

lemma remove_event:
  assumes "ev_tree w m" and "m fd = Some a"
  shows "\<exists>t. RB_REMOVE (events w) a = Some t \<and> ev_heap w a \<noteq> None \<and>
    ev_tree (w\<lparr>events := t, ev_heap := (ev_heap w)(a := None)\<rparr>) (m(fd := None))"
proof -
  from table_iff [OF assms(1), of fd a] assms(2) obtain e where e: "ev_heap w a = Some e" "ev_fd e = fd" by auto
  then have "ev_key w a = fd" by (simp add: ev_key_def)
  with rbm.remove_law [of "ev_key w" "events w" m a] assms obtain t where
    t: "RB_REMOVE (events w) a = Some t" "rb_map (ev_key w) t (m(fd := None))" by (auto simp: ev_tree_def)
  let ?w = "w\<lparr>events := t, ev_heap := (ev_heap w)(a := None)\<rparr>"
  note r = ran_without [OF assms]
  have "\<forall>b\<in>ran (m(fd := None)). ev_key ?w b = ev_key w b" unfolding r by (simp add: ev_key_def)
  from rbm.rep_cong [OF t(2) this] have "rb_map (ev_key ?w) t (m(fd := None))" .
  then have "ev_tree ?w (m(fd := None))" using assms(1) r unfolding ev_tree_def by auto
  with t(1) e(1) show ?thesis by auto
qed

lemma delete_stays:
  assumes ep: "epoll_ok ep" and inv: "ev_inv ep w m" and a: "m fd = Some a" and e: "ev_heap w a = Some e" "ev_fd e = fd"
    and f: "f = and (ev_flags e) (not flags)"
    and ctl: "epoll_ctl ep (epfd w) (if f = EVENT_NONE then EPOLL_CTL_DEL else EPOLL_CTL_MOD) fd (epoll_mask f) a (ev_kern w) = (r, k)"
    and rel: "synced ep w m \<Longrightarrow> epoll_reliable ep \<Longrightarrow> r = 0" and stays: "r \<noteq> 0 \<or> f \<noteq> EVENT_NONE"
  shows "changed ep w m (watch_delete fd flags (watches w m)) (if r \<noteq> 0 then - 1 else 0)
      ((put_event a (e\<lparr>ev_flags := f\<rparr>) w)\<lparr>ev_kern := k\<rparr>) m"
    (is "changed _ _ _ _ _ ?w _")
proof -
  note t = ev_invD [OF inv] and law = epoll_ctl_law [OF ep ctl]
  have keep: "m x = Some b \<Longrightarrow> x \<noteq> fd \<Longrightarrow> ev_heap ?w b = ev_heap w b" for x b
    using table_inj [OF t(1) a, of x b] by simp
  have wat: "watches ?w m = (watches w m)(fd \<mapsto> e\<lparr>ev_flags := f\<rparr>)"
    using a keep watches_upd [of m fd ?w w m] by auto
  have "interest ep (epfd w) k x = Some (evs, b) \<Longrightarrow> m x = Some b" for x evs b
    using law stays t(2) [of x evs b] a by (auto split: if_splits)
  then have "ev_inv ep ?w m" using ev_tree_put [OF t(1) e(1), of "e\<lparr>ev_flags := f\<rparr>"] e by (auto simp: ev_inv_def)
  moreover have "synced ep ?w m" if s: "synced ep w m" "epoll_reliable ep"
    by (rule synced_upd [OF s(1), where fd = fd]) (use keep law stays rel [OF s] a in \<open>auto simp: wat\<close>)
  moreover have "watches w m fd = Some e" using a e by (simp add: watches_def)
  ultimately show ?thesis using wat rel stays by (auto simp: changed_def watch_delete_def Let_def f)
qed

lemma delete_releases:
  assumes ep: "epoll_ok ep" and inv: "ev_inv ep w m" and a: "m fd = Some a" and e: "ev_heap w a = Some e"
    and f: "and (ev_flags e) (not flags) = EVENT_NONE"
    and i: "interest ep (epfd w) k = (interest ep (epfd w) (ev_kern w))(fd := None)"
    and u: "ev_tree (w\<lparr>ev_kern := k, events := u, ev_heap := (ev_heap w)(a := None)\<rparr>) (m(fd := None))"
  shows "changed ep w m (watch_delete fd flags (watches w m)) 0
      (w\<lparr>ev_kern := k, events := u, ev_heap := (ev_heap w)(a := None)\<rparr>) (m(fd := None))"
    (is "changed _ _ _ _ _ ?w ?m")
proof -
  note t = ev_invD [OF inv]
  have keep: "m x = Some b \<Longrightarrow> x \<noteq> fd \<Longrightarrow> ev_heap ?w b = ev_heap w b" for x b
    using table_inj [OF t(1) a, of x b] by simp
  have wat: "watches ?w ?m = (watches w m)(fd := None)" using keep watches_upd [of m fd ?w w ?m] by auto
  have "ev_inv ep ?w ?m" using u t(2) unfolding ev_inv_def by (simp add: i)
  moreover have "synced ep ?w ?m" if s: "synced ep w m"
    by (rule synced_upd [OF s, where fd = fd]) (use keep i in \<open>auto simp: wat\<close>)
  moreover have "watches w m fd = Some e" using a e by (simp add: watches_def)
  ultimately show ?thesis using wat f by (auto simp: changed_def watch_delete_def)
qed

lemma event_delete_spec:
  assumes ep: "epoll_ok ep" and inv: "ev_inv ep w m" and fd: "fd_ok fd" and a: "m fd = Some a"
  shows "\<exists>r w' m'. event_delete ep fd flags w = Some (r, w') \<and>
    changed ep w m (watch_delete fd flags (watches w m)) r w' m' \<and>
    (r = 0 \<and> watch_delete fd flags (watches w m) fd = None \<longrightarrow> ev_heap w' a = None)"
proof -
  note t = ev_invD [OF inv]
  from table_iff [OF t(1), of fd a] a obtain e where e: "ev_heap w a = Some e" "ev_fd e = fd" by auto
  define f where "f = and (ev_flags e) (not flags)"
  let ?ctl = "if f = EVENT_NONE then EPOLL_CTL_DEL else EPOLL_CTL_MOD"
  obtain r k where ctl: "epoll_ctl ep (epfd w) ?ctl fd (epoll_mask f) a (ev_kern w) = (r, k)"
    by (cases "epoll_ctl ep (epfd w) ?ctl fd (epoll_mask f) a (ev_kern w)")
  let ?w = "(put_event a (e\<lparr>ev_flags := f\<rparr>) w)\<lparr>ev_kern := k\<rparr>"
  have rel: "r = 0" if "synced ep w m" "epoll_reliable ep"
  proof -
    have "?ctl = EPOLL_CTL_ADD \<longleftrightarrow> interest ep (epfd w) (ev_kern w) fd = None"
      using synced_None [OF that(1) t(1), of fd] a by simp
    then show ?thesis by (rule epoll_reliableD [OF that(2) ctl])
  qed
  have M: "watches w m fd = Some e" using a e by (simp add: watches_def)
  show ?thesis
  proof (cases "r = 0 \<and> f = EVENT_NONE")
    case False
    then have "changed ep w m (watch_delete fd flags (watches w m)) (if r \<noteq> 0 then - 1 else 0) ?w m"
      using delete_stays [OF ep inv a e f_def ctl rel] by auto
    moreover have "event_delete ep fd flags w = Some (if r \<noteq> 0 then - 1 else 0, ?w)"
      using find_event_spec [OF t(1) fd] a e ctl False by (auto simp: event_delete_def Let_def f_def EVENT_NONE_def)
    ultimately show ?thesis using False M by (auto simp: watch_delete_def Let_def f_def)
  next
    case True
    have "ev_tree ?w m" using ev_tree_put [OF t(1) e(1), of "e\<lparr>ev_flags := f\<rparr>"] by simp
    from remove_event [OF this a] obtain u where u: "RB_REMOVE (events ?w) a = Some u"
      "ev_tree (w\<lparr>ev_kern := k, events := u, ev_heap := (ev_heap w)(a := None)\<rparr>) (m(fd := None))" by (auto simp: put_event_def)
    let ?w' = "w\<lparr>ev_kern := k, events := u, ev_heap := (ev_heap w)(a := None)\<rparr>"
    have "event_delete ep fd flags w = Some (0, ?w')"
      using find_event_spec [OF t(1) fd] a e ctl True u(1)
      by (simp add: event_delete_def Let_def event_free_def f_def put_event_def EVENT_NONE_def)
    moreover have "changed ep w m (watch_delete fd flags (watches w m)) 0 ?w' (m(fd := None))"
      by (rule delete_releases [OF ep inv a e(1) _ _ u(2)]) (use epoll_ctl_law [OF ep ctl] True in \<open>auto simp: f_def\<close>)
    ultimately show ?thesis by auto
  qed
qed

section \<open>Dispatching\<close>

text \<open>Handlers that return, keep the invariant, and release no event.\<close>

definition handlers_ok :: "'k epoll \<Rightarrow> 'k handlers \<Rightarrow> bool" where
  "handlers_ok ep call \<longleftrightarrow> (\<forall>f fd d w m. ev_inv ep w m \<longrightarrow>
     (\<exists>w' m'. call f fd d w = Some w' \<and> ev_inv ep w' m' \<and> dom (ev_heap w) \<subseteq> dom (ev_heap w')))"

lemma handlers_okD:
  assumes "handlers_ok ep call" and "ev_inv ep w m"
  obtains w' m' where "call f fd d w = Some w'" "ev_inv ep w' m'" "dom (ev_heap w) \<subseteq> dom (ev_heap w')"
  using assms unfolding handlers_ok_def by blast

lemma call_half:
  assumes "handlers_ok ep call" and "ev_inv ep w m" and "a \<in> dom (ev_heap w)"
  shows "\<exists>w' m'. (if b then do { e \<leftarrow> ev_heap w a; case fn e of None \<Rightarrow> Some w | Some f \<Rightarrow> call f (ev_fd e) (dat e) w }
      else Some w) = Some w' \<and> ev_inv ep w' m' \<and> dom (ev_heap w) \<subseteq> dom (ev_heap w')"
proof -
  from assms(3) obtain e where e: "ev_heap w a = Some e" by auto
  show ?thesis
  proof (cases "b \<and> fn e \<noteq> None")
    case True
    then obtain f where f: "fn e = Some f" by auto
    from handlers_okD [OF assms(1,2), of f "ev_fd e" "dat e"] show ?thesis using e f True by fastforce
  next
    case False
    with e assms(2) show ?thesis by (cases b) auto
  qed
qed

lemma handle_event_ok:
  assumes "handlers_ok ep call" and "ev_inv ep w m" and "snd ee \<in> dom (ev_heap w)"
  shows "\<exists>w' m'. handle_event call ee w = Some w' \<and> ev_inv ep w' m' \<and> dom (ev_heap w) \<subseteq> dom (ev_heap w')"
proof -
  from call_half [OF assms, of "and (fst ee) EPOLLIN \<noteq> 0" ev_recv_data ev_recv_fn] obtain w1 m1 where
    w1: "(if and (fst ee) EPOLLIN \<noteq> 0 then do { e \<leftarrow> ev_heap w (snd ee); case ev_recv_fn e of None \<Rightarrow> Some w
          | Some f \<Rightarrow> call f (ev_fd e) (ev_recv_data e) w } else Some w) = Some w1"
      "ev_inv ep w1 m1" "dom (ev_heap w) \<subseteq> dom (ev_heap w1)" by blast
  from call_half [OF assms(1) w1(2), of "snd ee" "and (fst ee) EPOLLOUT \<noteq> 0" ev_send_data ev_send_fn] w1(3) assms(3) obtain w2 m2 where
    w2: "(if and (fst ee) EPOLLOUT \<noteq> 0 then do { e \<leftarrow> ev_heap w1 (snd ee); case ev_send_fn e of None \<Rightarrow> Some w1
          | Some f \<Rightarrow> call f (ev_fd e) (ev_send_data e) w1 } else Some w1) = Some w2"
      "ev_inv ep w2 m2" "dom (ev_heap w1) \<subseteq> dom (ev_heap w2)" by blast
  have "handle_event call ee w = Some w2" unfolding handle_event_def w1(1) using w2(1) by simp
  with w2(2,3) w1(3) show ?thesis by blast
qed

lemma handle_events_ok:
  assumes "handlers_ok ep call" and "ev_inv ep w m" and "snd ` set es \<subseteq> dom (ev_heap w)"
  shows "\<exists>w' m'. handle_events call es w = Some w' \<and> ev_inv ep w' m'"
  using assms(2,3)
proof (induction es arbitrary: w m)
  case (Cons ee es)
  from handle_event_ok [OF assms(1) Cons.prems(1), of ee] Cons.prems(2) obtain w1 m1 where
    w1: "handle_event call ee w = Some w1" "ev_inv ep w1 m1" "dom (ev_heap w) \<subseteq> dom (ev_heap w1)" by auto
  with Cons.IH [OF w1(2)] Cons.prems(2) show ?case by auto
qed auto

text \<open>The data pointers of a batch are live events.\<close>

lemma wait_live:
  assumes "epoll_ok ep" and "ev_inv ep w m" and "epoll_wait ep (epfd w) n (ev_kern w) = Some (res, k)"
  shows "ev_inv ep (w\<lparr>ev_kern := k\<rparr>) m" and "res = Some es \<Longrightarrow> snd ` set es \<subseteq> dom (ev_heap w)"
proof -
  from assms(1) [unfolded epoll_ok_def, THEN conjunct2, THEN conjunct2, rule_format, OF assms(3)]
  have l: "interest ep (epfd w) k = interest ep (epfd w) (ev_kern w)"
    "case res of None \<Rightarrow> True | Some es \<Rightarrow> \<forall>(evs, a)\<in>set es. \<exists>fd evs'. interest ep (epfd w) (ev_kern w) fd = Some (evs', a)"
    by auto
  show "ev_inv ep (w\<lparr>ev_kern := k\<rparr>) m" using assms(2) l(1) by (simp add: ev_inv_def)
  show "snd ` set es \<subseteq> dom (ev_heap w)" if "res = Some es"
  proof
    fix a assume "a \<in> snd ` set es"
    with l(2) that obtain fd evs' where "interest ep (epfd w) (ev_kern w) fd = Some (evs', a)" by fastforce
    then have "m fd = Some a" using assms(2) by (auto simp: ev_inv_def)
    then have "\<exists>e. ev_heap w a = Some e" using table_iff [of w m fd a] assms(2) by (auto simp: ev_inv_def)
    then show "a \<in> dom (ev_heap w)" by auto
  qed
qed

text \<open>One turn of \<^verbatim>\<open>event_process\<close>.\<close>

lemma event_process_turn:
  assumes "epoll_ok ep" and "handlers_ok ep call" and "ev_inv ep w m" and "\<not> stop w"
    and "epoll_wait ep (epfd w) 256 (ev_kern w) = Some (Some es, k)"
  shows "\<exists>w1 m1. handle_events call es (w\<lparr>ev_kern := k\<rparr>) = Some w1 \<and> ev_inv ep w1 m1 \<and>
    event_process ep call w = event_process ep call w1"
proof -
  note wl = wait_live [OF assms(1,3,5)]
  from handle_events_ok [OF assms(2) wl(1), of es] wl(2) obtain w1 m1 where
    "handle_events call es (w\<lparr>ev_kern := k\<rparr>) = Some w1" "ev_inv ep w1 m1" by auto
  moreover from this have "event_process ep call w = event_process ep call w1"
    using assms(4,5) by (subst event_process.simps) simp
  ultimately show ?thesis by blast
qed

section \<open>Releasing the loop\<close>

lemma event_free_loop_None:
  assumes "rrep (events w) t" and "rb_ok t" and "3 \<le> length (addrs t)" and "addrs t = us @ vs" and "vs \<noteq> []"
    and "\<forall>b\<in>set us. ev_heap w b = None"
  shows "event_free_loop (first vs) w = None"
  using assms
proof (induction vs arbitrary: us w)
  case (Cons a vs)
  let ?n = "live_next (\<lambda>b. ev_heap w b \<noteq> None) (events w) (Some a)"
  show ?case
  proof (cases ?n)
    case None
    then show ?thesis by (subst event_free_loop.simps) simp
  next
    case (Some y)
    then have y: "y = first vs" using live_next_sound RB_NEXT_spec [OF Cons.prems(1,4)] by force
    show ?thesis
    proof (cases vs)
      case Nil
      with last_has_parent [OF Cons.prems(1,2), of us a] Cons.prems(3,4) obtain b where
        "b \<in> set us" "RB_RIGHT (events w) (Some a) = Some None" "RB_PARENT (events w) (Some a) = Some (Some b)" by auto
      with live_next_parent [OF Some] Cons.prems(6) show ?thesis by auto
    next
      case (Cons v vs')
      have "event_free_loop (first vs) w' = None" if "event_free a w = Some w'" for w'
        using that Cons.IH [of w' "us @ [a]"] Cons.prems \<open>vs = v # vs'\<close> by (auto simp: event_free_def split: if_splits)
      then show ?thesis using Some y by (subst event_free_loop.simps) (cases "event_free a w"; simp)
    qed
  qed
qed simp

lemma event_loop_free_None:
  assumes "rb_index key (events w) xs" and "3 \<le> length xs"
  shows "event_loop_free ep w = None"
proof -
  from assms obtain t where t: "rrep (events w) t" "rb_ok t" "addrs t = xs" by (auto simp: rb_index_def)
  then have "event_free_loop (first xs) w = None"
    using event_free_loop_None [OF t(1,2), of "[]" xs] assms(2) by (cases xs) auto
  then show ?thesis by (simp add: event_loop_free_def RB_MINMAX_spec [OF t(1)] t(3))
qed

lemma event_loop_free_single:
  assumes "rb_index key (events w) xs" and "length xs \<le> 1" and "set xs = dom (ev_heap w)"
  shows "\<exists>w'. event_loop_free ep w = Some w' \<and> ev_heap w' = Map.empty"
proof -
  from assms obtain t where t: "rrep (events w) t" "addrs t = xs" by (auto simp: rb_index_def)
  show ?thesis
  proof (cases xs)
    case Nil
    with assms(3) have "dom (ev_heap w) = {}" by simp
    then have "ev_heap w = Map.empty" by simp
    with Nil t show ?thesis by (simp add: event_loop_free_def RB_MINMAX_spec [OF t(1)] event_free_loop.simps)
  next
    case (Cons a ys)
    with assms(2) have xs: "xs = [a]" by simp
    then obtain c where "t = Br c Tip a Tip" using t(2) by (cases t) (auto simp: append_eq_Cons_conv elim: addrs.elims)
    then have acc: "RB_RIGHT (events w) (Some a) = Some None" "RB_PARENT (events w) (Some a) = Some None"
      using rb_access [of "events w" "[]" c Tip a Tip] t(1) by simp_all
    obtain e where e: "ev_heap w a = Some e" using assms(3) xs by auto
    have "live_next (\<lambda>b. ev_heap w b \<noteq> None) (events w) (Some a) = Some None"
      using acc e by (simp add: live_next_def live_right_def live_parent_def live_climb.simps)
    moreover have "(ev_heap w)(a := None) = Map.empty" using assms(3) xs by (auto simp: fun_eq_iff)
    ultimately show ?thesis using e xs t(2)
      by (simp add: event_loop_free_def RB_MINMAX_spec [OF t(1)] event_free_loop.simps event_free_def)
  qed
qed

end
