(* ===== verification/Event_Theorems.thy ===== *)
theory Event_Theorems
  imports Event_Specs
begin

text \<open>
  The properties of the event loop and of the tree iterations, with a small epoll in memory at
  which they are evaluated.
\<close>

section \<open>An epoll in memory\<close>

type_synonym ksim = "int \<Rightarrow> int \<rightharpoonup> uint32 \<times> addr"

definition sim_ctl :: "int \<Rightarrow> ctl_op \<Rightarrow> int \<Rightarrow> uint32 \<Rightarrow> addr \<Rightarrow> ksim \<Rightarrow> int \<times> ksim" where
  "sim_ctl efd ctl fd evs a k =
     (if ctl = EPOLL_CTL_ADD \<longleftrightarrow> k efd fd = None
      then (0, k(efd := (k efd)(fd := (if ctl = EPOLL_CTL_DEL then None else Some (evs, a))))) else (- 1, k))"

text \<open>It reports descriptor 5 as ready for all that is asked of it.\<close>

definition sim_wait :: "int \<Rightarrow> nat \<Rightarrow> ksim \<Rightarrow> ((uint32 \<times> addr) list option \<times> ksim) option" where
  "sim_wait efd n k = Some (Some (case k efd 5 of None \<Rightarrow> [] | Some ee \<Rightarrow> [ee]), k)"

definition sim_ep :: "ksim epoll" where
  "sim_ep = \<lparr>epoll_create = \<lambda>k. (3, k(3 := Map.empty)), epoll_ctl = sim_ctl, epoll_wait = sim_wait,
     epoll_close = \<lambda>efd k. k(efd := Map.empty), interest = \<lambda>efd k. k efd\<rparr>"

lemma sim_ep_ok: "epoll_ok sim_ep" "epoll_reliable sim_ep"
  by (auto simp: epoll_ok_def epoll_reliable_def sim_ep_def sim_ctl_def sim_wait_def split: if_splits option.splits)
    metis+

definition loop_mem :: "ksim event_loop" where
  "loop_mem = \<lparr>events = \<lparr>rbh_root = None, rbe = \<lambda>a. \<lparr>rbe_left = None, rbe_right = None, rbe_parent = None, rbe_color = RB_RED\<rparr>\<rparr>,
     epfd = 0, stop = True, ev_heap = Map.empty, ev_brk = 0, ev_mem = \<lparr>calls = 0, succeeds = \<lambda>_. True\<rparr>, ev_kern = \<lambda>_. Map.empty\<rparr>"

definition loop0 :: "ksim event_loop" where
  "loop0 = snd (event_loop_new sim_ep loop_mem)"

definition add_to :: "int \<Rightarrow> ksim event_loop \<Rightarrow> ksim event_loop" where
  "add_to fd w = snd (the (event_add sim_ep fd (or EVENT_IN EVENT_OUT) (Some 1) None w))"

text \<open>A loop that is in order.\<close>

definition fine :: "ksim event_loop \<Rightarrow> (int \<rightharpoonup> addr) \<Rightarrow> bool" where
  "fine w m \<longleftrightarrow> ev_inv sim_ep w m \<and> synced sim_ep w m \<and> never_fails (ev_mem w)"

lemma fineD: "fine w m \<Longrightarrow> ev_inv sim_ep w m" "fine w m \<Longrightarrow> synced sim_ep w m" "fine w m \<Longrightarrow> never_fails (ev_mem w)"
  by (simp_all add: fine_def)

section \<open>The initial loop\<close>

lemma event_loop_new_spec:
  assumes "epoll_ok ep" and "ev_heap w = Map.empty" and "event_loop_new ep w = (True, w')"
  shows "ev_inv ep w' Map.empty \<and> synced ep w' Map.empty \<and> \<not> stop w' \<and> succeeds (ev_mem w') = succeeds (ev_mem w)"
proof -
  obtain b al where al: "malloc (ev_mem w) = (b, al)" by (cases "malloc (ev_mem w)")
  obtain r k where k: "epoll_create ep (ev_kern w) = (r, k)" by (cases "epoll_create ep (ev_kern w)")
  let ?w = "w\<lparr>ev_mem := al, events := RB_INIT (events w), epfd := r, ev_kern := k, stop := False\<rparr>"
  have w': "w' = ?w" "r \<noteq> - 1" using assms(3) al k by (auto simp: event_loop_new_def Let_def split: if_splits)
  have "interest ep r k = Map.empty"
    using assms(1) [unfolded epoll_ok_def, THEN conjunct2, THEN conjunct1, rule_format] k w'(2) by blast
  moreover have "ev_tree ?w Map.empty" using assms(2) rb_map_INIT [of "ev_key ?w" "events w"] by (simp add: ev_tree_def)
  ultimately show ?thesis using w'(1) succeeds_malloc [OF al] by (simp add: ev_inv_def synced_def watches_def)
qed

lemma loop0_fine: "fine loop0 Map.empty"
proof -
  have "event_loop_new sim_ep loop_mem = (True, loop0)"
    by (simp add: loop0_def event_loop_new_def loop_mem_def malloc_def sim_ep_def)
  from event_loop_new_spec [OF sim_ep_ok(1) _ this] show ?thesis
    by (simp add: fine_def never_fails_def loop_mem_def)
qed

lemma add_to_fine:
  assumes "fine w m" and "fd_ok fd"
  shows "\<exists>m'. fine (add_to fd w) m' \<and>
    watches (add_to fd w) m' = watch_add fd (or EVENT_IN EVENT_OUT) (Some 1) None (watches w m)"
proof -
  have "or EVENT_IN EVENT_OUT \<noteq> 0" by (simp add: EVENT_IN_def EVENT_OUT_def)
  from event_add_spec [OF sim_ep_ok(1) fineD(1) [OF assms(1)] assms(2) this, of "Some 1" None] obtain r w' m' where
    w': "event_add sim_ep fd (or EVENT_IN EVENT_OUT) (Some 1) None w = Some (r, w')"
      "changed sim_ep w m (watch_add fd (or EVENT_IN EVENT_OUT) (Some 1) None (watches w m)) r w' m'" by blast
  from w'(2) have "r = 0" "ev_inv sim_ep w' m'" "synced sim_ep w' m'"
    "watches w' m' = watch_add fd (or EVENT_IN EVENT_OUT) (Some 1) None (watches w m)"
    using assms(1) sim_ep_ok(2) by (auto simp: changed_def fine_def)
  moreover have "never_fails (ev_mem w')" using w'(2) assms(1) by (simp add: changed_def fine_def never_fails_def)
  ultimately show ?thesis using w'(1) by (auto simp: add_to_def fine_def)
qed

lemma fd_ok_small [simp]: "fd_ok 5" "fd_ok 6" "fd_ok 7"
  by (simp_all add: fd_ok_def)

text \<open>Loops that watch one and three descriptors, with the handler at address 1.\<close>

definition loop1 :: "ksim event_loop" where "loop1 = add_to 5 loop0"
definition loop3 :: "ksim event_loop" where "loop3 = add_to 7 (add_to 6 loop1)"

lemma loop1_fine: "\<exists>m. fine loop1 m \<and> watches loop1 m = watch_add 5 (or EVENT_IN EVENT_OUT) (Some 1) None Map.empty"
  using add_to_fine [OF loop0_fine, of 5] by (simp add: loop1_def watches_def [abs_def])

lemma loop1_stop: "\<not> stop loop1"
  by (simp add: loop1_def add_to_def loop0_def event_loop_new_def loop_mem_def malloc_def sim_ep_def sim_ctl_def event_add_def
      obtain_event_def find_event_def RB_FIND_def RB_FIND_loop.simps RB_INIT_def event_new_def put_event_def Let_def
      RB_INSERT_def RB_INSERT_search.simps RB_SET_def set_parent_def set_right_def set_left_def set_color_def upd_entry_def
      RB_INSERT_COLOR_def RB_INSERT_COLOR_loop.simps RB_PARENT_def RB_COLOR_def is_red_def)

lemma loop3_fine:
  "\<exists>m. fine loop3 m \<and> watches loop3 m = watch_add 7 (or EVENT_IN EVENT_OUT) (Some 1) None
     (watch_add 6 (or EVENT_IN EVENT_OUT) (Some 1) None (watch_add 5 (or EVENT_IN EVENT_OUT) (Some 1) None Map.empty))"
proof -
  obtain m where m: "fine loop1 m" "watches loop1 m = watch_add 5 (or EVENT_IN EVENT_OUT) (Some 1) None Map.empty"
    using loop1_fine by blast
  from add_to_fine [OF m(1), of 6] obtain m' where m': "fine (add_to 6 loop1) m'"
    "watches (add_to 6 loop1) m' = watch_add 6 (or EVENT_IN EVENT_OUT) (Some 1) None (watches loop1 m)" by auto
  from add_to_fine [OF m'(1), of 7] m'(2) m(2) show ?thesis by (simp add: loop3_def)
qed

section \<open>The table of watched descriptors\<close>



text \<open>\<^verbatim>\<open>event_delete\<close> of a watched descriptor takes the given flags off its entry, and removes and
  frees the event when none is left; the kernel stays in step. For a descriptor that is not
  watched it returns -1 and changes nothing.\<close>

theorem event_delete_refines:
  assumes "epoll_ok ep" and "epoll_reliable ep" and "never_fails (ev_mem w)" and "ev_inv ep w m" and "synced ep w m"
    and "fd_ok fd"
  shows "case m fd of
      None \<Rightarrow> event_delete ep fd flags w = Some (- 1, w)
    | Some a \<Rightarrow> \<exists>w' m'. event_delete ep fd flags w = Some (0, w') \<and> ev_inv ep w' m' \<and> synced ep w' m' \<and>
        watches w' m' = watch_delete fd flags (watches w m) \<and>
        (watch_delete fd flags (watches w m) fd = None \<longrightarrow> ev_heap w' a = None)"
proof (cases "m fd")
  case None
  then show ?thesis using find_event_spec [OF ev_invD(1) [OF assms(4)] assms(6)] by (simp add: event_delete_def)
next
  case (Some a)
  from event_delete_spec [OF assms(1,4,6) Some, of flags] assms(2,3,5) Some show ?thesis
    unfolding changed_def by auto
qed

lemma watched:
  assumes "watches w m fd = Some e" obtains a where "m fd = Some a" "ev_heap w a = Some e"
  using assms by (cases "m fd") (auto simp: watches_def)

theorem event_delete_refines_witness:
  "\<exists>a w' m'. event_delete sim_ep 5 (or EVENT_IN EVENT_OUT) loop1 = Some (0, w') \<and> ev_inv sim_ep w' m' \<and>
    watches w' m' = Map.empty \<and> ev_heap w' a = None \<and> ev_heap loop1 a \<noteq> None"
proof -
  obtain m where m: "fine loop1 m" "watches loop1 m = watch_add 5 (or EVENT_IN EVENT_OUT) (Some 1) None Map.empty"
    using loop1_fine by blast
  have "\<exists>e. watches loop1 m 5 = Some e" unfolding m(2) by (simp add: watch_add_def)
  then obtain a e where a: "m 5 = Some a" "ev_heap loop1 a = Some e" using watched by metis
  have "watch_delete 5 (or EVENT_IN EVENT_OUT) (watches loop1 m) = Map.empty"
    unfolding m(2) by (simp add: watch_delete_def watch_add_def blank_event_def EVENT_IN_def EVENT_OUT_def EVENT_NONE_def)
  with event_delete_refines [OF sim_ep_ok fineD(3,1,2) [OF m(1)], of 5 "or EVENT_IN EVENT_OUT"] a show ?thesis
    by auto
qed

text \<open>C35: The table survives every failure. Whatever \<^verbatim>\<open>malloc\<close> and \<^verbatim>\<open>epoll_ctl\<close> return, \<^verbatim>\<open>event_add\<close> and
  \<^verbatim>\<open>event_delete\<close> return 0 or -1, the table is a red-black tree of exactly the allocated events,
  sorted by descriptor, and every pointer the kernel holds is that of the live event of its
  descriptor.\<close>

theorem event_table_invariant:
  assumes "epoll_ok ep" and "ev_inv ep w m" and "fd_ok fd" and "flags \<noteq> 0"
  shows "(\<exists>r w' m'. event_add ep fd flags fn data w = Some (r, w') \<and> (r = 0 \<or> r = - 1) \<and> ev_inv ep w' m') \<and>
    (\<exists>r w' m'. event_delete ep fd flags w = Some (r, w') \<and> (r = 0 \<or> r = - 1) \<and> ev_inv ep w' m')"
proof
  show "\<exists>r w' m'. event_add ep fd flags fn data w = Some (r, w') \<and> (r = 0 \<or> r = - 1) \<and> ev_inv ep w' m'"
    using event_add_spec [OF assms, of fn data] unfolding changed_def by blast
  show "\<exists>r w' m'. event_delete ep fd flags w = Some (r, w') \<and> (r = 0 \<or> r = - 1) \<and> ev_inv ep w' m'"
  proof (cases "m fd")
    case None
    then show ?thesis using find_event_spec [OF ev_invD(1) [OF assms(2)] assms(3)] assms(2) by (auto simp: event_delete_def)
  next
    case (Some a)
    from event_delete_spec [OF assms(1-3) Some, of flags] show ?thesis unfolding changed_def by blast
  qed
qed

theorem event_table_invariant_witness:
  "(\<exists>r w' m'. event_add sim_ep 5 EVENT_IN None None loop0 = Some (r, w') \<and> (r = 0 \<or> r = - 1) \<and> ev_inv sim_ep w' m') \<and>
    (\<exists>r w' m'. event_delete sim_ep 5 EVENT_IN loop0 = Some (r, w') \<and> (r = 0 \<or> r = - 1) \<and> ev_inv sim_ep w' m')"
  by (rule event_table_invariant [OF sim_ep_ok(1) fineD(1) [OF loop0_fine]]) (simp_all add: EVENT_IN_def)

section \<open>Dispatching\<close>

text \<open>C36: Dispatching touches live events only. If the handlers keep the invariant and release no event,
  then every batch \<^verbatim>\<open>epoll_wait\<close> returns is handled to its end, the invariant holds afterwards, and the
  loop goes on from there; it returns 0 if a handler has called \<^verbatim>\<open>event_stop\<close>.\<close>

theorem dispatch_live_events:
  assumes "epoll_ok ep" and "handlers_ok ep call" and "ev_inv ep w m" and "\<not> stop w"
    and "epoll_wait ep (epfd w) 256 (ev_kern w) = Some (Some es, k)"
  shows "\<exists>w1 m1. handle_events call es (w\<lparr>ev_kern := k\<rparr>) = Some w1 \<and> ev_inv ep w1 m1 \<and>
    event_process ep call w = (if stop w1 then Some (0, w1) else event_process ep call w1)"
proof -
  from event_process_turn [OF assms] obtain w1 m1 where
    w1: "handle_events call es (w\<lparr>ev_kern := k\<rparr>) = Some w1" "ev_inv ep w1 m1"
      "event_process ep call w = event_process ep call w1" by blast
  moreover have "stop w1 \<Longrightarrow> event_process ep call w1 = Some (0, w1)" by (simp add: event_process.simps)
  ultimately show ?thesis by auto
qed

text \<open>A handler that stops the loop.\<close>

definition stopper :: "ksim handlers" where
  "stopper f fd d w = Some (event_stop w)"

lemma stopper_ok: "handlers_ok sim_ep stopper"
  unfolding handlers_ok_def stopper_def event_stop_def by (auto simp: ev_inv_def)

theorem dispatch_live_events_witness:
  "\<exists>w1 es k. handle_events stopper es (loop1\<lparr>ev_kern := k\<rparr>) = Some w1 \<and>
    event_process sim_ep stopper loop1 = (if stop w1 then Some (0, w1) else event_process sim_ep stopper w1)"
proof -
  obtain m where m: "fine loop1 m" using loop1_fine by blast
  obtain es k where k: "epoll_wait sim_ep (epfd loop1) 256 (ev_kern loop1) = Some (Some es, k)"
    by (simp add: sim_ep_def sim_wait_def)
  have "\<not> stop loop1" by (simp add: loop1_stop)
  from dispatch_live_events [OF sim_ep_ok(1) stopper_ok fineD(1) [OF m] this k] show ?thesis by blast
qed

text \<open>C37: A handler that deletes its own event crashes the loop: if the descriptor is ready for
  reading and for writing, and the read handler takes both flags off it, then \<^verbatim>\<open>handle_event\<close>
  reads the write handler from the freed event.\<close>

theorem self_delete_use_after_free:
  assumes "epoll_ok ep" and "epoll_reliable ep" and "never_fails (ev_mem w)" and "ev_inv ep w m" and "synced ep w m"
    and "ev_heap w a = Some e" and "ev_recv_fn e = Some f" and "and (ev_flags e) (not (or EVENT_IN EVENT_OUT)) = 0"
    and "call f (ev_fd e) (ev_recv_data e) w = map_option snd (event_delete ep (ev_fd e) (or EVENT_IN EVENT_OUT) w)"
    and "and evs EPOLLIN \<noteq> 0" and "and evs EPOLLOUT \<noteq> 0"
  shows "handle_event call (evs, a) w = None"
proof -
  note t = ev_invD(1) [OF assms(4)]
  have fd: "fd_ok (ev_fd e)" using t assms(6) by (auto simp: ev_tree_def)
  have a: "m (ev_fd e) = Some a" using table_iff [OF t] assms(6) by auto
  then have w: "watches w m (ev_fd e) = Some e" using assms(6) by (simp add: watches_def)
  from event_delete_spec [OF assms(1,4) fd a, of "or EVENT_IN EVENT_OUT"] assms(2,3,5) obtain w' where
    w': "event_delete ep (ev_fd e) (or EVENT_IN EVENT_OUT) w = Some (0, w')"
      "watch_delete (ev_fd e) (or EVENT_IN EVENT_OUT) (watches w m) (ev_fd e) = None \<longrightarrow> ev_heap w' a = None"
    by (auto simp: changed_def)
  have "ev_heap w' a = None" using w'(2) w assms(8) by (simp add: watch_delete_def EVENT_NONE_def)
  with assms(6,7,9-11) w'(1) show ?thesis by (simp add: handle_event_def)
qed

text \<open>The handler that deletes its own event.\<close>

definition quitter :: "ksim handlers" where
  "quitter f fd d w = map_option snd (event_delete sim_ep fd (or EVENT_IN EVENT_OUT) w)"

theorem self_delete_use_after_free_witness:
  "\<exists>a. ev_heap loop1 a \<noteq> None \<and> handle_event quitter (or EPOLLIN EPOLLOUT, a) loop1 = None"
proof -
  obtain m where m: "fine loop1 m" "watches loop1 m = watch_add 5 (or EVENT_IN EVENT_OUT) (Some 1) None Map.empty"
    using loop1_fine by blast
  let ?e = "added (or EVENT_IN EVENT_OUT) (Some 1) None (blank_event 5)"
  have "watches loop1 m 5 = Some ?e" unfolding m(2) by (simp add: watch_add_def)
  then obtain a where a: "ev_heap loop1 a = Some ?e" using watched by metis
  have "ev_recv_fn ?e = Some 1" by (simp add: added_def set_handlers_def EVENT_IN_def EVENT_OUT_def)
  with self_delete_use_after_free [OF sim_ep_ok fineD(3,1,2) [OF m(1)] a, of 1 quitter "or EPOLLIN EPOLLOUT"] a show ?thesis
    by (auto simp: quitter_def EVENT_IN_def EVENT_OUT_def blank_event_def EVENT_NONE_def EPOLLIN_def EPOLLOUT_def)
qed

text \<open>C38: \<^verbatim>\<open>event_loop_free\<close> reads freed memory when three or more descriptors are watched: the
  iteration steps from the last event to its parent, which it has freed before. With one event or
  none it returns and all memory of the events is released.\<close>

theorem event_loop_free_use_after_free:
  assumes "ev_inv ep w m"
  shows "(3 \<le> card (dom (ev_heap w)) \<longrightarrow> event_loop_free ep w = None) \<and>
    (card (dom (ev_heap w)) \<le> 1 \<longrightarrow> (\<exists>w'. event_loop_free ep w = Some w' \<and> ev_heap w' = Map.empty))"
proof -
  from ev_invD(1) [OF assms] have t: "rb_map (ev_key w) (events w) m" "ran m = dom (ev_heap w)" by (auto simp: ev_tree_def)
  from rb_mapE [OF t(1)] obtain xs where
    xs: "rb_index (ev_key w) (events w) xs" "dom (ev_heap w) = set xs" "card (dom (ev_heap w)) = length xs" using t(2) by metis
  then show ?thesis using event_loop_free_None [OF xs(1)] event_loop_free_single [OF xs(1)] by auto
qed

theorem event_loop_free_use_after_free_witness: "event_loop_free sim_ep loop3 = None"
proof -
  obtain m where m: "fine loop3 m" "watches loop3 m = watch_add 7 (or EVENT_IN EVENT_OUT) (Some 1) None
     (watch_add 6 (or EVENT_IN EVENT_OUT) (Some 1) None (watch_add 5 (or EVENT_IN EVENT_OUT) (Some 1) None Map.empty))"
    using loop3_fine by blast
  note t = ev_invD(1) [OF fineD(1) [OF m(1)]]
  have "\<exists>e. watches loop3 m fd = Some e" if "fd \<in> {5, 6, 7}" for fd using that unfolding m(2) by (auto simp: watch_add_def)
  then have sub: "\<exists>a e. ev_heap loop3 a = Some e \<and> ev_fd e = fd" if "fd \<in> {5, 6, 7}" for fd
    using that table_iff [OF t, of fd] watched by metis
  have "{5, 6, 7} \<subseteq> ev_key loop3 ` dom (ev_heap loop3)"
  proof
    fix fd :: int assume "fd \<in> {5, 6, 7}"
    with sub obtain a e where "ev_heap loop3 a = Some e" "ev_fd e = fd" by blast
    then show "fd \<in> ev_key loop3 ` dom (ev_heap loop3)" by (intro image_eqI [of _ _ a]) (auto simp: ev_key_def)
  qed
  moreover have fin: "finite (dom (ev_heap loop3))" using t rb_mapE [of "ev_key loop3" "events loop3" m]
    by (metis List.finite_set ev_tree_def)
  ultimately have "card {5, 6, 7 :: int} \<le> card (dom (ev_heap loop3))" by (metis surj_card_le)
  with event_loop_free_use_after_free [OF fineD(1) [OF m(1)]] show ?thesis by simp
qed

end
