(* ===== verification/Misc.thy ===== *)
theory Misc
  imports Yamux_Prelude
begin

text \<open>
  The string helpers of \<^verbatim>\<open>misc.c\<close> and the debug output of \<^verbatim>\<open>debug.c\<close>. A C string is the list of
  the bytes of its object from the pointer on; a loop that runs past the object is undefined.
  The descriptor helpers of \<^verbatim>\<open>misc.c\<close> are with the system calls in \<^verbatim>\<open>Platform\<close>.
\<close>

section \<open>Strings\<close>

definition NUL :: byte where "NUL = 0"
definition slash :: byte where "slash = 0x2F"

text \<open>The string in a buffer, up to its terminator.\<close>

definition cstring :: "byte list \<Rightarrow> byte list" where
  "cstring buf = takeWhile (\<lambda>b. b \<noteq> NUL) buf"

text \<open>The loop of \<^verbatim>\<open>xbasename\<close>: \<open>pos\<close> is the offset of \<^verbatim>\<open>str\<close>, \<open>s\<close> that of the variable \<^verbatim>\<open>s\<close>, which is
  \<^verbatim>\<open>NULL\<close> at first.\<close>

fun xbasename_loop :: "byte list \<Rightarrow> nat \<Rightarrow> nat option \<Rightarrow> nat option option" where
  "xbasename_loop [] pos s = None"
| "xbasename_loop (b # bs) pos s =
     (if b = NUL then Some s
      else xbasename_loop bs (Suc pos) (if b = slash then Some (Suc pos) else s))"

definition xbasename :: "byte list \<Rightarrow> nat option option" where
  "xbasename str = xbasename_loop str 0 None"

text \<open>The first loop of \<^verbatim>\<open>xstrdup\<close>: the number of bytes up to and with the terminator.\<close>

fun xstrdup_count :: "byte list \<Rightarrow> nat \<Rightarrow> nat option" where
  "xstrdup_count [] n = None"
| "xstrdup_count (b # bs) n = (if b = NUL then Some (Suc n) else xstrdup_count bs (Suc n))"

text \<open>The second loop, which copies \<open>n\<close> bytes.\<close>

fun xstrdup_copy :: "byte list \<Rightarrow> nat \<Rightarrow> byte list option" where
  "xstrdup_copy str 0 = Some []"
| "xstrdup_copy [] (Suc n) = None"
| "xstrdup_copy (b # bs) (Suc n) = do { r \<leftarrow> xstrdup_copy bs n; Some (b # r) }"

text \<open>The argument is \<open>None\<close> for \<^verbatim>\<open>NULL\<close>, the result the new object or \<open>None\<close> for \<^verbatim>\<open>NULL\<close>.\<close>

definition xstrdup :: "byte list option \<Rightarrow> alloc \<Rightarrow> (byte list option \<times> alloc) option" where
  "xstrdup str al = do {
     _ \<leftarrow> c_assert (str \<noteq> None);
     s \<leftarrow> str;
     n \<leftarrow> xstrdup_count s 0;
     let (ok, al) = malloc al;
     if \<not> ok then Some (None, al)
     else do { p \<leftarrow> xstrdup_copy s n; Some (Some p, al) }
   }"

text \<open>\<^verbatim>\<open>localtime\<close> and \<^verbatim>\<open>strftime\<close> are parameters; \<^verbatim>\<open>snprintf\<close> stores at most \<open>n - 1\<close> bytes and a terminator, and
  returns the length of the whole text.\<close>

definition zero_time :: "byte list" where
  "zero_time = map (\<lambda>c. of_nat (of_char c)) ''0000-00-00 00:00:00''"

definition xstrftime ::
  "(int \<Rightarrow> 'tm) \<Rightarrow> (nat \<Rightarrow> 'tm \<Rightarrow> nat \<times> byte list) \<Rightarrow> nat \<Rightarrow> int \<Rightarrow> nat \<times> byte list" where
  "xstrftime localtime strftime n time =
     (let tp = localtime time in
      if time > 0 then strftime n tp
      else (length zero_time, if n = 0 then [] else take (n - 1) zero_time @ [NUL]))"

section \<open>Debug output\<close>

text \<open>A number in decimal.\<close>

fun dec :: "nat \<Rightarrow> string" where
  "dec n = (if n < 10 then [char_of (48 + n)] else dec (n div 10) @ [char_of (48 + n mod 10)])"

definition text_bytes :: "string \<Rightarrow> byte list" where
  "text_bytes s = map (\<lambda>c. of_nat (of_char c)) s"

text \<open>
  \<^verbatim>\<open>vdebug\<close>: the text it prints on \<^verbatim>\<open>stderr\<close>, for a message \<open>msg\<close> already formatted, of which the buffer
  of 8192 bytes holds a part. Passing \<^verbatim>\<open>NULL\<close> for \<^verbatim>\<open>%s\<close> is undefined.
\<close>

definition vdebug :: "byte list option \<Rightarrow> int \<Rightarrow> byte list \<Rightarrow> byte list option" where
  "vdebug file line msg = do {
     let buf = take 8191 msg;
     case file of
       Some f \<Rightarrow>
         if line > 0 then do {
           base \<leftarrow> xbasename f;
           b \<leftarrow> base;
           Some (cstring (drop b f) @ text_bytes '':'' @ text_bytes (dec (nat line)) @ text_bytes '': '' @ buf @ [10])
         }
         else Some (buf @ [10])
     | None \<Rightarrow> Some (buf @ [10])
   }"

text \<open>\<^verbatim>\<open>debug\<close>, which \<^verbatim>\<open>dbg\<close> calls with the name of the source file and the line. \<open>fmt_args\<close> is what \<^verbatim>\<open>vsnprintf\<close> makes of a format and
  its arguments, in a buffer large enough.\<close>

definition debug :: "('f \<Rightarrow> 'a \<Rightarrow> byte list) \<Rightarrow> byte list option \<Rightarrow> int \<Rightarrow> 'f \<Rightarrow> 'a \<Rightarrow> byte list option" where
  "debug fmt_args file line fmt ap = vdebug file line (fmt_args fmt ap)"

section \<open>What the helpers compute\<close>

text \<open>The part of a string after its last slash, if it has one.\<close>

definition last_slash :: "byte list \<Rightarrow> nat option" where
  "last_slash s = (if slash \<in> set s then Some (length s - length (takeWhile (\<lambda>b. b \<noteq> slash) (rev s))) else None)"

lemma last_slash_snoc: "last_slash (s @ [b]) = (if b = slash then Some (Suc (length s)) else last_slash s)"
proof -
  have "length (takeWhile (\<lambda>b. b \<noteq> slash) (rev s)) \<le> length s" using length_takeWhile_le [of _ "rev s"] by simp
  then show ?thesis by (auto simp: last_slash_def Suc_diff_le)
qed

lemma xbasename_loop_spec:
  assumes "NUL \<notin> set t"
  shows "xbasename_loop (t @ NUL # rest) (length s) (last_slash s) = Some (last_slash (s @ t))"
  using assms
proof (induction t arbitrary: s)
  case (Cons b t)
  from Cons.IH [of "s @ [b]"] Cons.prems show ?case by (auto simp: last_slash_snoc)
qed simp

lemma xbasename_spec: "NUL \<notin> set s \<Longrightarrow> xbasename (s @ NUL # rest) = Some (last_slash s)"
  using xbasename_loop_spec [of s rest "[]"] by (simp add: xbasename_def last_slash_def)

lemma xstrdup_count_spec: "NUL \<notin> set s \<Longrightarrow> xstrdup_count (s @ NUL # rest) n = Some (n + Suc (length s))"
  by (induction s arbitrary: n) auto

lemma xstrdup_copy_spec: "n \<le> length s \<Longrightarrow> xstrdup_copy s n = Some (take n s)"
  by (induction s n rule: xstrdup_copy.induct) auto

text \<open>The copy is the string with its terminator, and nothing behind it.\<close>

lemma xstrdup_spec:
  assumes "NUL \<notin> set s"
  shows "\<exists>p al'. xstrdup (Some (s @ NUL # rest)) al = Some (p, al') \<and>
    (p = Some (s @ [NUL]) \<or> p = None \<and> \<not> never_fails al)"
proof -
  obtain ok al' where al: "malloc al = (ok, al')" by (cases "malloc al")
  have "\<not> ok \<Longrightarrow> \<not> never_fails al" using al by (auto simp: malloc_def never_fails_def)
  with al xstrdup_count_spec [OF assms, of rest 0] xstrdup_copy_spec [of "Suc (length s)" "s @ NUL # rest"]
  show ?thesis by (auto simp: xstrdup_def)
qed

text \<open>Debug output is undefined for a file name without a slash, since \<^verbatim>\<open>xbasename\<close> returns \<^verbatim>\<open>NULL\<close>.\<close>

lemma debug_plain_name:
  assumes "NUL \<notin> set f" and "slash \<notin> set f" and "line > 0"
  shows "debug fmt_args (Some (f @ NUL # rest)) line fmt ap = None"
  using xbasename_spec [OF assms(1), of rest] assms(2,3) by (simp add: debug_def vdebug_def last_slash_def)

lemma debug_path:
  assumes "NUL \<notin> set f" and "last_slash f = Some b" and "line > 0"
  shows "debug fmt_args (Some (f @ NUL # rest)) line fmt ap =
    Some (drop b f @ text_bytes '':'' @ text_bytes (dec (nat line)) @ text_bytes '': '' @ take 8191 (fmt_args fmt ap) @ [10])"
proof -
  have "b \<le> length f" using assms(2) by (auto simp: last_slash_def split: if_splits)
  moreover have "takeWhile (\<lambda>x. x \<noteq> NUL) (drop b f @ NUL # rest) = drop b f"
    using assms(1) by (subst takeWhile_append2) (auto dest: in_set_dropD)
  ultimately show ?thesis using xbasename_spec [OF assms(1), of rest] assms(2,3)
    by (simp add: debug_def vdebug_def cstring_def)
qed

end
