(* ===== verification/Spec2Isabelle.thy ===== *)
theory Spec2Isabelle
  imports Splay_Proofs Rank_Trees Queue_Xor Readers Driver Stream_Ids Event_Theorems Misc
begin

text \<open>
  This is a verification of yamux, a stream multiplexer in C: a session carries many streams over
  one reliable byte transport, with flow control per stream. The program does no transport input and
  output itself. The application moves bytes between the transport and two buffers of the session
  (\<^verbatim>\<open>session_recv_buf_write\<close>, \<^verbatim>\<open>session_send_buf_peek\<close> and \<^verbatim>\<open>session_send_buf_consume\<close>), runs
  \<^verbatim>\<open>session_process\<close> on what has arrived, and reads and writes streams (\<^verbatim>\<open>stream_read\<close>, \<^verbatim>\<open>stream_write\<close>),
  which it gets from \<^verbatim>\<open>session_open\<close> and \<^verbatim>\<open>session_accept\<close>.

  \<^bold>\<open>The parts of the program and their theories.\<close> Each model theory translates its source function by
  function; the definitions keep the C names.

  \<^item> \<^verbatim>\<open>Yamux_Prelude\<close>: the C types, \<^verbatim>\<open>assert\<close>, \<^verbatim>\<open>malloc\<close> (which may fail at any call), and the calculus
    of total correctness \<open>wp\<close>.
  \<^item> \<^verbatim>\<open>Queue_Model\<close> (\<^verbatim>\<open>src/queue.h\<close>, \<^verbatim>\<open>STAILQ\<close>): the tail queue at pointer level. Its contract is the
    locale \<open>tail_queue\<close>, interpreted by the macros as \<open>stq\<close>.
  \<^item> \<^verbatim>\<open>Link_Memory\<close>, \<^verbatim>\<open>Queue_Lists\<close>, \<^verbatim>\<open>Queue_Tails\<close> (\<^verbatim>\<open>src/queue.h\<close>, the other kinds): a memory of links in
    which many lists live, the macros \<^verbatim>\<open>SLIST\<close>, \<^verbatim>\<open>LIST\<close>, \<^verbatim>\<open>SIMPLEQ\<close> and \<^verbatim>\<open>TAILQ\<close> and the rest of \<^verbatim>\<open>STAILQ\<close>,
    and a lemma for each that gives the list it leaves. \<^verbatim>\<open>Queue_Laws\<close>: their contracts, the locales
    \<open>linked_list\<close>, \<open>removable_list\<close> and \<open>tail_list\<close>, interpreted as \<open>sl\<close>, \<open>li\<close>, \<open>sq\<close> and \<open>tq\<close>. \<^verbatim>\<open>Queue_Xor\<close>:
    the \<^verbatim>\<open>XSIMPLEQ\<close> macros on machine words, simulated by \<^verbatim>\<open>SIMPLEQ\<close>.
  \<^item> \<^verbatim>\<open>Bio\<close> (\<^verbatim>\<open>src/bio.c\<close>): byte queues as tail queues of buffers of up to 4096 bytes. \<open>bio_bytes\<close> is the
    content; the contract is the locale \<open>byte_queue\<close>, interpreted as \<open>bq\<close>.
  \<^item> \<^verbatim>\<open>RB_Tree\<close> (\<^verbatim>\<open>src/tree.h\<close>, \<^verbatim>\<open>RB\<close>): red-black trees at pointer level. \<^verbatim>\<open>RB_Repr\<close>, \<^verbatim>\<open>RB_Insert\<close>,
    \<^verbatim>\<open>RB_Remove\<close>: the pointers spell a functional tree in a one-hole context, and every step of the
    macros is a step on that tree. \<^verbatim>\<open>RB_Map\<close>: the contract of a finite map, locale \<open>ordered_index\<close>,
    interpreted as \<open>rbm\<close>. \<^verbatim>\<open>RB_Walk\<close>: neighbours, iterations, nearest match, depth. \<^verbatim>\<open>RB_Safe\<close>: the
    loops that allow the current element to be removed.
  \<^item> \<^verbatim>\<open>Rank_Trees\<close> (\<^verbatim>\<open>src/tree.h\<close>, \<^verbatim>\<open>RBT\<close>): the macros around functions that the repository only declares.
    What these promise is the locale \<open>rank_tree\<close>; red-black trees keep the promise (\<open>art\<close>).
  \<^item> \<^verbatim>\<open>Splay_Tree\<close>, \<^verbatim>\<open>Splay_Proofs\<close> (\<^verbatim>\<open>src/tree.h\<close>, \<^verbatim>\<open>SPLAY\<close>): splay trees at pointer level, and the loop of splaying
    as a tree in three parts whose in-order sequence does not change.
  \<^item> \<^verbatim>\<open>Frame\<close> (\<^verbatim>\<open>src/mux.c\<close>, first part): the constants and the header of 12 bytes, on hosts of either byte
    order.
  \<^item> \<^verbatim>\<open>Platform\<close>: the records of \<^verbatim>\<open>src/mux.h\<close>, the mutexes, and the system calls, which are a parameter.
  \<^item> \<^verbatim>\<open>Streams\<close>, \<^verbatim>\<open>Session\<close>, \<^verbatim>\<open>Api\<close> (\<^verbatim>\<open>src/mux.c\<close>): the stream layer, the receive machine with its frame
    handlers, and the calls of the application. \<^verbatim>\<open>Stream_Ids\<close>: the loop of \<^verbatim>\<open>session_open\<close> that takes an
    id, for many threads, one atomic operation at a time.
  \<^item> \<^verbatim>\<open>View\<close>: the representation invariant \<open>winv\<close> of a session and the abstract session \<open>view w\<close>: a table
    of streams with data, windows, state and readiness, the input and the output.
  \<^item> \<^verbatim>\<open>Protocol\<close>: what the protocol makes of input, as a function \<open>p_process\<close> on abstract sessions.
  \<^item> \<^verbatim>\<open>Stream_Specs\<close>, \<^verbatim>\<open>Session_Specs\<close>, \<^verbatim>\<open>Receive\<close>, \<^verbatim>\<open>Api_Specs\<close>: every operation keeps the invariant on
    every path, and without failures has the effect on the view that its abstract function says.
  \<^item> \<^verbatim>\<open>System\<close>: a session under an arbitrary sequence of calls, as a step relation, and the invariant of the
    reachable states. \<^verbatim>\<open>Delivery\<close>: two sessions end to end. \<^verbatim>\<open>Simulation\<close>: a kernel in memory and
    concrete sessions, at which the theorems are evaluated. \<^verbatim>\<open>Writers\<close>: any number of threads in
    \<^verbatim>\<open>stream_write\<close>, which take turns wherever the code holds no mutex. \<^verbatim>\<open>Readers\<close>: the same for threads in
    \<^verbatim>\<open>stream_read\<close> beside the thread that receives, in the loop of \<^verbatim>\<open>session_handle_data\<close>.
  \<^item> \<^verbatim>\<open>Segmentation\<close>: the protocol function on input that arrives in pieces. \<^verbatim>\<open>Driver\<close>
    (\<^verbatim>\<open>src/tests/main.c\<close>): the two loops that connect a session to a transport.
  \<^item> \<^verbatim>\<open>Event\<close>, \<^verbatim>\<open>Event_Specs\<close>, \<^verbatim>\<open>Event_Theorems\<close> (\<^verbatim>\<open>src/event-epoll.c\<close>): the event loop, its table of
    watched descriptors over the same red-black trees, and its handlers.
  \<^item> \<^verbatim>\<open>Misc\<close> (\<^verbatim>\<open>src/misc.c\<close>, \<^verbatim>\<open>src/debug.c\<close>): string helpers and debug output.

  \<^bold>\<open>Conventions.\<close> A C function is a function with result type \<open>option\<close>. \<open>None\<close> stands for every way not to
  return: a failed assertion, a dereference of \<^verbatim>\<open>NULL\<close> or of freed memory, a mutex locked twice, a system
  call that blocks for ever, a loop that does not end. So a theorem that a call is \<open>Some\<close> says that none
  of this happens, and an error the code reports is an ordinary result \<open>- 1\<close>. Loops of the code whose end is
  not evident are \<^verbatim>\<open>partial_function\<close>, and their end is proved. The one function with fuel, \<open>p_loop\<close> of the
  abstract protocol, gets a turn more than there are bytes of input and uses up a byte in every turn.

  \<^bold>\<open>What is assumed.\<close> System calls, epoll and the handlers of the application are not part of the program
  and are parameters. \<open>os_live os\<close> says that a call the code makes does not block for ever in the states in
  which the code makes it, and what a call that succeeds does to a socket pair; calls may still fail.
  \<open>reliable os w\<close> adds that no call and no allocation fails. \<open>epoll_ok\<close> and \<open>epoll_reliable\<close> do the same
  for epoll. The fields \<open>avail\<close>, \<open>peer\<close> and \<open>interest\<close> observe the kernel and are not called by the code.
  \<open>sim_os\<close> and \<open>sim_ep\<close> satisfy all of these. A call that waits in \<^verbatim>\<open>select\<close> takes what other threads do
  meanwhile as a parameter \<open>env\<close>; in \<^verbatim>\<open>Writers\<close> and \<^verbatim>\<open>Readers\<close>, where the threads are explicit, \<open>selects_ok\<close> says that \<^verbatim>\<open>select\<close>
  reports the descriptor it was asked for and touches no socket. \<open>layout_ok\<close>, for the XOR queues, says that
  elements have distinct addresses other than \<^verbatim>\<open>NULL\<close>. The functions \<^verbatim>\<open>_rb_insert\<close> to \<^verbatim>\<open>_rb_check\<close> behind the \<^verbatim>\<open>RBT\<close> macros are a
  parameter too. The lengths of the buffers are below \<open>2 ^ 31\<close>, because \<^verbatim>\<open>bio.c\<close> reports them
  as \<^verbatim>\<open>int\<close>.

  \<^bold>\<open>What is shown.\<close> For sessions: the invariant of all reachable states, safety of the receiver on any
  input, refinement of the protocol function, bounded memory by flow control, that every call returns, the
  effect of every call on every path, that it does not matter how the transport cuts the input, that all output goes out in
  order, and delivery from one session to another. For the data structures:
  refinement of maps, byte sequences, lists and ordered sequences, iteration in order, logarithmic search. For
  concurrent writers: no charge of a window is lost and the invariant holds under every schedule. For
  concurrent readers: each gets the bytes of its stream in order, and none is lost or repeated. For the event
  loop: refinement of a map that the kernel mirrors, the invariant under failures, and safe
  dispatch. Theorems also record where the code falls short of this: frames for unknown streams that
  arrive in parts, ids a peer has used, ids that wrap around, writers whose frames mix or
  overrun the window, a second reader that aborts, a notification that gets lost, events freed while they are in use, and a macro that does not insert.

  \<^bold>\<open>What is not modelled.\<close> Apart from \<open>env\<close>, \<^verbatim>\<open>Stream_Ids\<close>, \<^verbatim>\<open>Writers\<close> and \<^verbatim>\<open>Readers\<close> the calls run one at a time, without
  interleaving of threads inside a call; readers and writers of one stream together are not considered. The text of debug messages
  (\<^verbatim>\<open>dbg\<close>) changes no state and is left out of the callers. \<^verbatim>\<open>session_close\<close>, \<^verbatim>\<open>session_ping\<close> and \<^verbatim>\<open>stream_close\<close> are stubs in
  the source and in the model, and what the source excludes with \<^verbatim>\<open>#if 0\<close> is left out. \<^verbatim>\<open>_Q_INVALIDATE\<close> of \<^verbatim>\<open>queue.h\<close> is empty in a
  build without the debugging of queues. The remaining lines of the headers are comments, prototypes and initialisers. Of the test program only the two loops are
  modelled; the rest sets up sockets and threads.
\<close>

section \<open>The life of a session\<close>





text \<open>C3: When no system call and no allocation fails, \<^verbatim>\<open>session_process\<close> computes the receive
  function \<open>p_process\<close> of the protocol: the same result, and the same streams, windows, states,
  buffered bytes and answers to the peer.\<close>

theorem session_process_refines:
  assumes "winv os {} w" and "reliable os w" and "frame_ok (view w)" and "length (a_in (view w)) < 2 ^ 31"
  shows "\<exists>r w'. session_process os w = Some (r, w') \<and> (r, view w') = p_process (view w)"
proof -
  have "os_live os" using assms(2) by (simp add: reliable_def os_reliable_def)
  from session_process_spec [OF assms(1) this assms(3,4)] assms(2) show ?thesis by (auto simp: processed_def)
qed

theorem session_process_refines_witness:
  "\<exists>r w'. session_process sim_os (fed (frame_hdr TYPE_PING FLAG_SYN 0 7) (started True)) = Some (r, w') \<and>
    (r, view w') = p_process (view (fed (frame_hdr TYPE_PING FLAG_SYN 0 7) (started True)))"
proof -
  let ?bs = "frame_hdr TYPE_PING FLAG_SYN 0 7"
  note f = fed_ok [OF started_ok(2,4), of ?bs True]
  have v: "view (fed ?bs (started True)) = (start_view True 0)\<lparr>a_in := ?bs\<rparr>"
    using f(3) unfolding started_ok(3) by (simp add: start_view_def)
  show ?thesis
    by (rule session_process_refines)
      (use f(2,4) in \<open>simp_all only: v frame_ok_def, simp_all add: start_view_def\<close>)
qed





section \<open>Streams\<close>

text \<open>C7: \<^verbatim>\<open>stream_read\<close> on a stream with data returns at once and stores the oldest
  bytes of the stream, in order. If no system call fails, the result is their number, they
  are removed from the buffer, an emptied stream is marked not readable, and the peer is granted
  the window \<open>p_read\<close> says.\<close>

theorem stream_read_delivers:
  assumes "winv os {} w" and "os_live os" and "heap w a = Some s" and "buffers_bounded (view w)"
    and "st_state s \<noteq> STATE_RESET" and "0 < n" and "bio_bytes (st_recv_buf s) \<noteq> []"
  shows "\<exists>r w'. stream_read os env a n w = Some (r, take n (bio_bytes (st_recv_buf s)), w') \<and> winv os {} w' \<and>
    (r = int (min n (length (bio_bytes (st_recv_buf s)))) \<or> r = - 1 \<and> \<not> reliable os w) \<and>
    (reliable os w \<longrightarrow> view w' = p_read a n (view w))"
  using stream_read_data [OF assms, of env] unfolding read_post_def keeps_def by blast

theorem stream_read_delivers_witness:
  "\<exists>s r w'. heap noted 0 = Some s \<and> bio_bytes (st_recv_buf s) = [7, 8, 9] \<and>
    stream_read sim_os id 0 2 noted = Some (r, take 2 (bio_bytes (st_recv_buf s)), w') \<and> winv sim_os {} w' \<and>
    (r = int (min 2 (length (bio_bytes (st_recv_buf s)))) \<or> r = - 1 \<and> \<not> reliable sim_os noted) \<and>
    (reliable sim_os noted \<longrightarrow> view w' = p_read 0 2 (view noted))"
proof -
  obtain s where s: "heap noted 0 = Some s" "view_stream s = recv_bytes [7, 8, 9] (new_stream 1 STATE_SYN_RECEIVED)"
    using noted_stream by blast
  have d: "bio_bytes (st_recv_buf s) = [7, 8, 9]" "st_state s = STATE_SYN_RECEIVED"
    using arg_cong [OF s(2), of a_data] arg_cong [OF s(2), of a_state] by (simp_all add: recv_bytes_def new_stream_def)
  have "buffers_bounded (view noted)" using noted_bounded by (simp add: sound_def)
  from stream_read_delivers [OF noted_ok(2) sim_live s(1) this, of 2 id] d s(1) show ?thesis by auto
qed

text \<open>\<^verbatim>\<open>stream_read\<close> without data to return. A drained stream whose peer has closed it, or
  that is closed on this side, reports the end of the stream with 0; a reset stream reports -1, even if data is
  left; otherwise a non-blocking stream reports -1 with \<^verbatim>\<open>EAGAIN\<close>. Nothing else changes.\<close>

theorem stream_read_no_data:
  assumes "winv os {} w" and "heap w a = Some s" and "buffers_bounded (view w)"
  shows "(st_state s = STATE_RESET \<longrightarrow> stream_read os env a n w = Some (- 1, [], w)) \<and>
    (bio_bytes (st_recv_buf s) = [] \<and> st_state s \<noteq> STATE_RESET \<longrightarrow>
      (if st_state s \<in> {STATE_LOCAL_CLOSE, STATE_REMOTE_CLOSE, STATE_CLOSED} then stream_read os env a n w = Some (0, [], w)
       else \<not> would_block os (st_fd s) w \<longrightarrow> stream_read os env a n w = Some (- 1, [], w\<lparr>errno := EAGAIN\<rparr>)))"
  by (auto simp: stream_read_unfold [OF assms(1,2) bounded_data [OF assms(3,2)]])

lemma met_stream: "\<exists>s. heap met 0 = Some s \<and> view_stream s = new_stream 1 STATE_SYN_RECEIVED"
proof -
  have "a_streams (view met) 0 = Some (new_stream 1 STATE_SYN_RECEIVED)"
    unfolding met_ok(4) by (simp add: met_view_def start_view_def add_stream_def)
  then show ?thesis by auto
qed

lemma met_sound: "sound (view met)"
  unfolding met_ok(4)
  by (simp add: sound_def buffers_bounded_def frame_fits_def frame_ok_def met_view_def start_view_def
      add_stream_def new_stream_def MAX_STREAM_WINDOW_SIZE_def)

theorem stream_read_no_data_witness:
  "stream_read sim_os id 0 10 met = Some (- 1, [], met\<lparr>errno := EAGAIN\<rparr>)"
proof -
  obtain s where s: "heap met 0 = Some s" "view_stream s = new_stream 1 STATE_SYN_RECEIVED" using met_stream by blast
  have d: "bio_bytes (st_recv_buf s) = []" "st_state s = STATE_SYN_RECEIVED"
    using arg_cong [OF s(2), of a_data] arg_cong [OF s(2), of a_state] by (simp_all add: new_stream_def)
  have "\<not> would_block sim_os (st_fd s) met" by (simp add: would_block_def sim_os_def Let_def)
  moreover have "buffers_bounded (view met)" using met_sound by (simp add: sound_def)
  ultimately show ?thesis using stream_read_no_data [OF met_ok(2) s(1), of id 10] d by simp
qed

text \<open>C8: \<^verbatim>\<open>stream_write\<close> on an open stream with send window appends one frame to the output of
  the session: a header with the flags the state calls for, and as much of the data as the
  window admits. If nothing fails the result is that number of bytes, and the stream is
  charged for them (\<open>p_write\<close>).\<close>

theorem stream_write_frames:
  assumes "winv os {} w" and "os_live os" and "heap w a = Some s"
    and "st_state s \<notin> {STATE_LOCAL_CLOSE, STATE_CLOSED, STATE_RESET}"
    and "st_send_window s \<noteq> 0" and "n \<le> length data" and "n < 2 ^ 31"
  shows "\<exists>r w'. stream_write os env a data n w = Some (r, w') \<and> winv os {} w' \<and>
    (r = int (min (unat (st_send_window s)) n) \<or> r = - 1 \<and> \<not> reliable os w) \<and>
    (reliable os w \<longrightarrow> view w' = p_write a data n (view w))"
  using stream_write_data [OF assms, of env] unfolding write_post_def keeps_def by auto

theorem stream_write_frames_witness:
  "\<exists>s r w'. heap opened 0 = Some s \<and> stream_write sim_os id 0 [1, 2, 3] 3 opened = Some (r, w') \<and> winv sim_os {} w' \<and>
    (r = int (min (unat (st_send_window s)) 3) \<or> r = - 1 \<and> \<not> reliable sim_os opened) \<and>
    (reliable sim_os opened \<longrightarrow> view w' = p_write 0 [1, 2, 3] 3 (view opened))"
proof -
  obtain s where s: "heap opened 0 = Some s" "view_stream s = (new_stream 1 STATE_INIT)\<lparr>a_state := STATE_SYN_SENT\<rparr>"
    using opened_stream by blast
  have d: "st_send_window s = 262144" "st_state s = STATE_SYN_SENT"
    using arg_cong [OF s(2), of a_send_window] arg_cong [OF s(2), of a_state] by (simp_all add: new_stream_def MAX_STREAM_WINDOW_SIZE_def)
  from stream_write_frames [OF opened_ok(2) sim_live s(1), of 3 "[1, 2, 3]" id] d s(1) show ?thesis by auto
qed

text \<open>A write never exceeds what the peer has granted and never wraps the window around: the
  payload is at most the send window, the new window is the old one less the payload, the output
  grows by a header and the payload, and a stream without window is not writeable.\<close>

theorem write_respects_window:
  assumes "winv os {} w" and "reliable os w" and "heap w a = Some s"
    and "st_state s \<notin> {STATE_LOCAL_CLOSE, STATE_CLOSED, STATE_RESET}"
    and "st_send_window s \<noteq> 0" and "n \<le> length data" and "n < 2 ^ 31"
  shows "\<exists>k w' s'. stream_write os env a data n w = Some (int k, w') \<and> heap w' a = Some s' \<and> k \<le> n \<and>
    unat (st_send_window s') + k = unat (st_send_window s) \<and>
    length (a_out (view w')) = length (a_out (view w)) + 12 + k \<and> (st_send_window s' = 0 \<longrightarrow> \<not> st_writeable s')"
proof -
  let ?t = "view_stream s" let ?k = "unat (write_len n ?t)"
  have live: "os_live os" using assms(2) by (simp add: reliable_def os_reliable_def)
  have k: "?k = min (unat (st_send_window s)) n" by (simp add: unat_write_len)
  from stream_write_data [OF assms(1) live assms(3-7), of env] assms(2) k obtain w' where
    w': "stream_write os env a data n w = Some (int ?k, w')" "view w' = p_write a data n (view w)"
    by (auto simp: write_post_def)
  have v: "view w' = put_out (data_frame data n ?t) (upd a (sent n) (view w))"
    unfolding w'(2) using assms(3) by (simp add: p_write_def)
  then have "a_streams (view w') a = Some (sent n ?t)" using assms(3) by (simp add: del: view_sel) simp
  then obtain s' where s': "heap w' a = Some s'" "view_stream s' = sent n ?t" by auto
  have win: "unat (st_send_window s - write_len n ?t) = unat (st_send_window s) - ?k"
    using write_len_le [of n ?t] by (simp add: unat_sub)
  have f: "st_send_window s' = st_send_window s - write_len n ?t" "st_writeable s' = (st_writeable s \<and> st_send_window s \<noteq> write_len n ?t)"
    using arg_cong [OF s'(2), of a_send_window] arg_cong [OF s'(2), of a_writeable] by (simp_all add: sent_def)
  have "length (a_out (view w')) = length (a_out (view w)) + 12 + ?k"
    unfolding v using assms(6) k by (simp add: data_frame_def)
  then show ?thesis using w'(1) s'(1) k win f
    by (intro exI [of _ ?k] exI [of _ w'] exI [of _ s']) auto
qed

theorem write_respects_window_witness:
  "\<exists>s k w' s'. heap opened 0 = Some s \<and> stream_write sim_os id 0 [1, 2, 3] 3 opened = Some (int k, w') \<and> heap w' 0 = Some s' \<and>
    k \<le> 3 \<and> unat (st_send_window s') + k = unat (st_send_window s) \<and>
    length (a_out (view w')) = length (a_out (view opened)) + 12 + k \<and> (st_send_window s' = 0 \<longrightarrow> \<not> st_writeable s')"
proof -
  obtain s where s: "heap opened 0 = Some s" "view_stream s = (new_stream 1 STATE_INIT)\<lparr>a_state := STATE_SYN_SENT\<rparr>"
    using opened_stream by blast
  have d: "st_send_window s = 262144" "st_state s = STATE_SYN_SENT"
    using arg_cong [OF s(2), of a_send_window] arg_cong [OF s(2), of a_state] by (simp_all add: new_stream_def MAX_STREAM_WINDOW_SIZE_def)
  from write_respects_window [OF opened_ok(2,3) s(1), of 3 "[1, 2, 3]" id] d s(1) show ?thesis by auto
qed

text \<open>C9: \<^verbatim>\<open>stream_write\<close> on a stream that is closed for sending returns 0; without window
  on a non-blocking stream it returns -1 with \<^verbatim>\<open>EAGAIN\<close>. Nothing is sent.\<close>

theorem stream_write_refused:
  assumes "winv os {} w" and "heap w a = Some s"
  shows "if st_state s \<in> {STATE_LOCAL_CLOSE, STATE_CLOSED, STATE_RESET} then stream_write os env a data n w = Some (0, w)
    else st_send_window s = 0 \<and> \<not> would_block os (st_fd s) w \<longrightarrow> stream_write os env a data n w = Some (- 1, w\<lparr>errno := EAGAIN\<rparr>)"
  by (simp add: stream_write_unfold [OF assms])

text \<open>A session whose stream was closed on this side.\<close>

definition shut :: "sim world" where
  "shut = put_stream 0 ((the (heap opened 0))\<lparr>st_state := STATE_CLOSED\<rparr>) opened"

theorem stream_write_refused_witness: "stream_write sim_os id 0 [1] 1 shut = Some (0, shut)"
proof -
  obtain s where s: "heap opened 0 = Some s" using opened_stream by blast
  let ?s = "s\<lparr>st_state := STATE_CLOSED\<rparr>"
  have e: "shut = put_stream 0 ?s opened" by (simp add: shut_def s)
  have "winv sim_os {} shut" unfolding e using s winv_recv_buf [OF opened_ok(2) s]
    by (intro winv_put_stream [OF opened_ok(2) s]) auto
  moreover have "heap shut 0 = Some ?s" by (simp add: e)
  ultimately show ?thesis using stream_write_refused [of sim_os shut 0 ?s id "[1]" 1] by simp
qed

lemma unat_window_delta:
  assumes "length (a_data s) + unat (a_recv_window s) \<le> 262144"
  shows "unat (window_delta s) = 262144 - length (a_data s) - unat (a_recv_window s)"
proof -
  let ?d = "of_nat (length (a_data s)) :: uint32"
  have M: "unat MAX_STREAM_WINDOW_SIZE = 262144" by (simp add: MAX_STREAM_WINDOW_SIZE_def)
  have "unat ?d = length (a_data s)" using assms by (intro unat_of_nat32) simp
  then have "unat (MAX_STREAM_WINDOW_SIZE - ?d) = 262144 - length (a_data s)"
    using assms M by (simp add: unat_sub word_le_nat_alt)
  then show ?thesis using assms by (simp add: window_delta_def unat_sub word_le_nat_alt)
qed

lemma no_update_iff:
  assumes "length (a_data s) + unat (a_recv_window s) \<le> 262144"
  shows "no_update s \<longleftrightarrow> 262144 - length (a_data s) - unat (a_recv_window s) < 131072 \<and>
    a_state s \<notin> {STATE_INIT, STATE_SYN_RECEIVED}"
proof -
  have "unat (MAX_STREAM_WINDOW_SIZE div 2) = 131072" by (simp add: MAX_STREAM_WINDOW_SIZE_def)
  moreover have "fst (send_step st) = 0 \<longleftrightarrow> st \<notin> {STATE_INIT, STATE_SYN_RECEIVED}" for st
    by (cases st) (simp_all add: flag_defs)
  ultimately show ?thesis using unat_window_delta [OF assms] by (simp add: no_update_def word_less_nat_alt)
qed

text \<open>C17: What a reader grants. \<^verbatim>\<open>send_window_update\<close> on a stream within the bound sends a frame whose length is
  exactly the growth of its receive window, and after it window and buffer make up the full
  256 KiB; or it sends nothing and changes nothing, when the growth would be less than half the maximum
  and no flag is due. The subtractions do not wrap.\<close>

theorem window_update_grants:
  assumes "winv os {} w" and "reliable os w" and "heap w a = Some s"
    and "length (bio_bytes (st_recv_buf s)) + unat (st_recv_window s) \<le> 262144"
  shows "\<exists>w' s'. send_window_update os a w = Some (0, w') \<and> heap w' a = Some s' \<and>
    (let d = 262144 - length (bio_bytes (st_recv_buf s)) - unat (st_recv_window s) in
     if d < 131072 \<and> st_state s \<notin> {STATE_INIT, STATE_SYN_RECEIVED} then view w' = view w
     else unat (st_recv_window s') = unat (st_recv_window s) + d \<and>
       a_out (view w') = a_out (view w) @ frame_hdr TYPE_WINDOW_UPDATE (fst (send_step (st_state s))) (st_id s) (of_nat d))"
proof -
  let ?t = "view_stream s" let ?d = "262144 - length (bio_bytes (st_recv_buf s)) - unat (st_recv_window s)"
  have b: "length (a_data ?t) + unat (a_recv_window ?t) \<le> 262144" using assms(4) by simp
  from send_window_update_spec [OF assms(1,3)] assms(2) obtain w' where
    w': "send_window_update os a w = Some (0, w')" "view w' = put_out (window_frame ?t) (upd a granted (view w))" by auto
  have "a_streams (view w') a = Some (granted ?t)" unfolding w'(2) using assms(3) by simp
  then obtain s' where s': "heap w' a = Some s'" "view_stream s' = granted ?t" by auto
  have win: "st_recv_window s' = a_recv_window (granted ?t)" using arg_cong [OF s'(2), of a_recv_window] by simp
  show ?thesis
  proof (cases "no_update ?t")
    case True
    have "upd a granted (view w) = view w" using True assms(3) by (intro upd_id) (auto simp: granted_def)
    with True w' s'(1) no_update_iff [OF b] show ?thesis by (simp add: window_frame_def Let_def)
  next
    case False
    have u: "unat (window_delta ?t) = ?d" using unat_window_delta [OF b] by simp
    have "unat (st_recv_window s + window_delta ?t) = unat (st_recv_window s) + ?d"
      using u assms(4) by (simp add: unat_word_ariths(1))
    moreover have "window_delta ?t = of_nat ?d" using arg_cong [OF u, of "of_nat :: nat \<Rightarrow> uint32"] by simp
    moreover have "a_out (view w') = a_out (view w) @ window_frame ?t" unfolding w'(2) by simp
    ultimately show ?thesis using False w'(1) s'(1) win no_update_iff [OF b]
      by (auto simp: window_frame_def granted_def Let_def simp del: view_sel(4))
  qed
qed

theorem window_update_grants_witness:
  "\<exists>s w' s'. heap noted 0 = Some s \<and> send_window_update sim_os 0 noted = Some (0, w') \<and> heap w' 0 = Some s' \<and>
    unat (st_recv_window s') = unat (st_recv_window s)"
proof -
  obtain s where s: "heap noted 0 = Some s" "view_stream s = recv_bytes [7, 8, 9] (new_stream 1 STATE_SYN_RECEIVED)"
    using noted_stream by blast
  have d: "bio_bytes (st_recv_buf s) = [7, 8, 9]" "st_state s = STATE_SYN_RECEIVED" "unat (st_recv_window s) = 262141"
    using arg_cong [OF s(2), of a_data] arg_cong [OF s(2), of a_state] arg_cong [OF s(2), of a_recv_window]
    by (simp_all add: recv_bytes_def new_stream_def MAX_STREAM_WINDOW_SIZE_def)
  from window_update_grants [OF noted_ok(2,3) s(1)] d s(1) show ?thesis by auto
qed





text \<open>C20: A peer can make \<^verbatim>\<open>session_open\<close> abort. The receiver accepts a \<^verbatim>\<open>SYN\<close> for any unused id, also for
  one that this side is going to use; when it gets there, the assertion of \<^verbatim>\<open>session_insert_stream\<close> fails.\<close>

theorem session_open_collides:
  assumes "winv os {} w" and "reliable os w" and "\<not> ss_remote_go_away (sess w)" and "ss_next_id (sess w) < 0xFFFFFFFF"
    and "table w (ss_next_id (sess w)) \<noteq> None"
  shows "session_open os [] w = None"
  using assms by (rule session_open_duplicate)

text \<open>A client whose peer has announced stream 1, the first one the client would open.\<close>

definition squatted :: "sim world" where
  "squatted = run (fed syn_frame (started True))"

lemma squatted_ok:
  "winv sim_os {} squatted" "reliable sim_os squatted"
  "view squatted = add_stream 0 (new_stream 1 STATE_SYN_RECEIVED) ((start_view True 0)\<lparr>a_hdr := syn_frame, a_brk := 1\<rparr>)"
proof -
  have "length syn_frame < 2 ^ 31" by simp
  note f = fed_ok [OF started_ok(2,4) this, of True]
  let ?A = "add_stream 0 (new_stream 1 STATE_SYN_RECEIVED) ((start_view True 0)\<lparr>a_hdr := syn_frame, a_brk := 1\<rparr>)"
  have v: "view (fed syn_frame (started True)) = (start_view True 0)\<lparr>a_in := syn_frame\<rparr>"
    using f(3) unfolding started_ok(3) by (simp add: start_view_def)
  have "p_process ((start_view True 0)\<lparr>a_in := syn_frame\<rparr>) = (0, ?A)"
    using p_process_syn [of "(start_view True 0)\<lparr>a_in := syn_frame\<rparr>" 1] by (simp add: syn_frame_def start_view_def)
  then show "winv sim_os {} squatted" "reliable sim_os squatted" "view squatted = ?A"
    using run_ok(2-4) [OF f(2,4), of ?A] unfolding v squatted_def by (auto simp: frame_ok_def start_view_def)
qed

theorem session_open_collides_witness: "session_open sim_os [] squatted = None"
proof -
  have f: "a_remote_go_away (view squatted) = False" "a_next_id (view squatted) = 1" "a_table (view squatted) 1 = Some 0"
    unfolding squatted_ok(3) by (simp_all add: start_view_def add_stream_def new_stream_def)
  show ?thesis by (rule session_open_collides [OF squatted_ok(1,2)]) (use f in auto)
qed

text \<open>Accepting a stream. When the id that arrives on the session's descriptor is that of a live
  stream, \<^verbatim>\<open>session_accept\<close> returns this stream and answers the peer: a stream in state
  \<^verbatim>\<open>SYN_RECEIVED\<close> becomes established by a window update with \<^verbatim>\<open>ACK\<close>.\<close>

theorem session_accept_establishes:
  assumes "winv os {} w" and "reliable os w" and "heap w a = Some s" and "st_state s = STATE_SYN_RECEIVED"
    and "sys_read os (ss_fd (sess w)) 4 (kern w) = Some (Some (store32 (host_le os) (st_id s)), k)"
  shows "\<exists>w' s' n. session_accept os w = Some (0, Some a, w') \<and> winv os {} w' \<and> heap w' a = Some s' \<and>
    st_state s' = STATE_ESTABLISHED \<and>
    a_out (view w') = a_out (view w) @ frame_hdr TYPE_WINDOW_UPDATE FLAG_ACK (st_id s) n"
proof -
  have live: "os_live os" using assms(2) by (simp add: reliable_def os_reliable_def)
  have "table w (st_id s) = Some a" using assms(3) by (simp add: winv_table [OF assms(1)])
  from session_accept_spec [OF assms(1) live assms(5) this] assms(2) obtain w' where
    w': "session_accept os w = Some (0, Some a, w')" "keeps os {} w w'" "view w' = p_accept a (view w)" by auto
  have v: "view w' = put_out (window_frame (view_stream s)) (upd a granted (view w))"
    unfolding w'(3) using assms(3) by (simp add: p_accept_def)
  have "a_streams (view w') a = Some (granted (view_stream s))" unfolding v using assms(3) by simp
  then obtain s' where s': "heap w' a = Some s'" "view_stream s' = granted (view_stream s)" by auto
  have nu: "\<not> no_update (view_stream s)" using assms(4) by (simp add: no_update_def flag_defs)
  have "st_state s' = STATE_ESTABLISHED"
    using arg_cong [OF s'(2), of a_state] nu assms(4) by (simp add: granted_def)
  moreover have "a_out (view w') = a_out (view w) @ frame_hdr TYPE_WINDOW_UPDATE FLAG_ACK (st_id s) (window_delta (view_stream s))"
    unfolding v using nu assms(4) by (simp add: window_frame_def)
  ultimately show ?thesis using w'(1) keeps_winv [OF w'(2)] s'(1) by blast
qed

text \<open>The session that met stream 1, with that id in its socket.\<close>

definition ringing :: "sim world" where
  "ringing = met\<lparr>kern := (kern met)\<lparr>queue := (queue (kern met))(ss_fd (sess met) := store32 True 1)\<rparr>\<rparr>"

lemma ringing_ok: "winv sim_os {} ringing" "reliable sim_os ringing" "heap ringing = heap met"
proof -
  have "wired sim_os ringing" unfolding ringing_def
    by (rule wired_sess_read [OF winv_wired [OF met_ok(2)]]) (auto simp: sim_os_def sim_peer_def)
  then show "winv sim_os {} ringing" using winv_kern [OF met_ok(2)] by (simp add: ringing_def)
  show "reliable sim_os ringing" "heap ringing = heap met" using met_ok(3) by (simp_all add: ringing_def)
qed

theorem session_accept_establishes_witness:
  "\<exists>w' s' n. session_accept sim_os ringing = Some (0, Some 0, w') \<and> winv sim_os {} w' \<and> heap w' 0 = Some s' \<and>
    st_state s' = STATE_ESTABLISHED \<and>
    a_out (view w') = a_out (view ringing) @ frame_hdr TYPE_WINDOW_UPDATE FLAG_ACK 1 n"
proof -
  obtain s where s: "heap met 0 = Some s" "view_stream s = new_stream 1 STATE_SYN_RECEIVED" using met_stream by blast
  have d: "st_id s = 1" "st_state s = STATE_SYN_RECEIVED"
    using arg_cong [OF s(2), of a_id] arg_cong [OF s(2), of a_state] by (simp_all add: new_stream_def)
  let ?q = "store32 True 1" and ?fd = "ss_fd (sess ringing)"
  have q: "queue (kern ringing) ?fd = ?q" "?q \<noteq> []" by (simp_all add: ringing_def store32_def Let_def)
  have "sys_read sim_os ?fd 4 (kern ringing) =
      Some (Some (store32 (host_le sim_os) (st_id s)), (kern ringing)\<lparr>queue := (queue (kern ringing))(?fd := drop 4 ?q)\<rparr>)"
    using q d(1) by (simp add: sim_os_def sim_read_def)
  from session_accept_establishes [OF ringing_ok(1,2) _ d(2) this, of 0] s(1) ringing_ok(3) d(1) show ?thesis by simp
qed

text \<open>\<^verbatim>\<open>session_init\<close> establishes the invariant: it returns 0 with an idle session without streams, whose
  first id is 1 for a client and 2 for a server, or -1 after an allocation or
  \<^verbatim>\<open>socketpair\<close> failed.\<close>

theorem session_init_idle:
  assumes "heap w = Map.empty" and "os_live os"
  shows "\<exists>r w'. session_init os client w = Some (r, w') \<and>
    (r = 0 \<and> winv os {} w' \<and> view w' = start_view client (brk w) \<or> r = - 1 \<and> \<not> reliable os w)"
  using session_init_spec [OF assms, of client] by auto

theorem session_init_idle_witness:
  "\<exists>r w'. session_init sim_os True blank = Some (r, w') \<and>
    (r = 0 \<and> winv sim_os {} w' \<and> view w' = start_view True (brk blank) \<or> r = - 1 \<and> \<not> reliable sim_os blank)"
  by (rule session_init_idle [OF blank_reliable(1) sim_live])

section \<open>Two sessions\<close>

text \<open>C21: End to end. What one session writes on a stream, carried by the transport from its
  send buffer to the receive buffer of the other session and processed there, is what a read
  on the other end returns: the same bytes, as many as were written.\<close>

theorem end_to_end_delivery:
  assumes sender: "winv os {} wa" "reliable os wa" "heap wa a = Some s" "a_out (view wa) = []"
      "st_state s \<in> {STATE_SYN_SENT, STATE_ESTABLISHED, STATE_REMOTE_CLOSE}"
    and receiver: "healthy os' wb" "reliable os' wb" "ss_new_frame (sess wb)" "a_in (view wb) = []"
      "table wb (st_id s) = Some b" "heap wb b = Some t" "bio_bytes (st_recv_buf t) = []" "st_state t \<noteq> STATE_RESET"
    and amount: "n \<le> length data" "n < 2 ^ 30" "k = min (unat (st_send_window s)) n" "0 < k" "k \<le> unat (st_recv_window t)"
  shows "\<exists>wa' bs wb1 wb2 wb3. stream_write os env a data n wa = Some (int k, wa') \<and>
    session_send_buf_peek (12 + k) wa' = Some (int (12 + k), bs, wa') \<and>
    session_recv_buf_write bs (12 + k) wb = Some (int (12 + k), wb1) \<and>
    session_process os' wb1 = Some (0, wb2) \<and>
    stream_read os' env' b k wb2 = Some (int k, take k data, wb3)"
proof -
  let ?xs = "take k data"
  have lx: "length ?xs = k" "?xs \<noteq> []" "k < 2 ^ 30" using amount by auto
  from write_then_peek [OF sender(1-5) amount(1,2), of env] amount(3,4) obtain wa' where
    "stream_write os env a data n wa = Some (int k, wa')"
    "session_send_buf_peek (12 + k) wa' = Some (int (12 + k), frame_hdr TYPE_DATA 0 (st_id s) (of_nat k) @ ?xs, wa')" by auto
  moreover from receive_then_read [OF receiver lx(2), of env'] lx amount(5) obtain wb1 wb2 wb3 where
    "session_recv_buf_write (frame_hdr TYPE_DATA 0 (st_id s) (of_nat k) @ ?xs) (12 + k) wb = Some (int (12 + k), wb1)"
    "session_process os' wb1 = Some (0, wb2)" "stream_read os' env' b k wb2 = Some (int k, ?xs, wb3)" by auto
  ultimately show ?thesis by blast
qed

text \<open>The client of before, whose announcement is on its way.\<close>

definition flushed :: "sim world" where
  "flushed = snd (the (session_send_buf_consume 12 opened))"

lemma flushed_ok: "winv sim_os {} flushed" "reliable sim_os flushed" "view flushed = (p_open (start_view True 0))\<lparr>a_out := []\<rparr>"
proof -
  have o: "length (a_out (view opened)) = 12" unfolding opened_ok(4) by (simp add: p_open_def start_view_def add_stream_def Let_def)
  then obtain r w' where w': "session_send_buf_consume 12 opened = Some (r, w')" "keeps sim_os {} opened w'"
    "view w' = (view opened)\<lparr>a_out := drop 12 (a_out (view opened))\<rparr>"
    using session_send_buf_spec(3) [OF opened_ok(2), of 12] by auto
  moreover have "drop 12 (a_out (view opened)) = []" using o by simp
  ultimately show "winv sim_os {} flushed" "reliable sim_os flushed" "view flushed = (p_open (start_view True 0))\<lparr>a_out := []\<rparr>"
    using opened_ok(3,4) by (simp_all add: flushed_def keeps_def del: view_sel)
qed

theorem end_to_end_delivery_witness:
  "\<exists>wa' bs wb1 wb2 wb3. stream_write sim_os id 0 [5, 6] 2 flushed = Some (int 2, wa') \<and>
    session_send_buf_peek (12 + 2) wa' = Some (int (12 + 2), bs, wa') \<and>
    session_recv_buf_write bs (12 + 2) met = Some (int (12 + 2), wb1) \<and>
    session_process sim_os wb1 = Some (0, wb2) \<and>
    stream_read sim_os id 0 2 wb2 = Some (int 2, take 2 [5, 6], wb3)"
proof -
  have "a_streams (view flushed) 0 = Some ((new_stream 1 STATE_INIT)\<lparr>a_state := STATE_SYN_SENT\<rparr>)"
    unfolding flushed_ok(3) by (simp add: p_open_def start_view_def add_stream_def Let_def)
  then obtain s where s: "heap flushed 0 = Some s" "view_stream s = (new_stream 1 STATE_INIT)\<lparr>a_state := STATE_SYN_SENT\<rparr>" by auto
  obtain t where t: "heap met 0 = Some t" "view_stream t = new_stream 1 STATE_SYN_RECEIVED" using met_stream by blast
  have fs: "st_id s = 1" "st_state s = STATE_SYN_SENT" "unat (st_send_window s) = 262144"
    using arg_cong [OF s(2), of a_id] arg_cong [OF s(2), of a_state] arg_cong [OF s(2), of a_send_window]
    by (simp_all add: new_stream_def MAX_STREAM_WINDOW_SIZE_def)
  have ft: "bio_bytes (st_recv_buf t) = []" "st_state t = STATE_SYN_RECEIVED" "unat (st_recv_window t) = 262144"
    using arg_cong [OF t(2), of a_data] arg_cong [OF t(2), of a_state] arg_cong [OF t(2), of a_recv_window]
    by (simp_all add: new_stream_def MAX_STREAM_WINDOW_SIZE_def)
  have v: "a_in (view met) = []" "a_new_frame (view met)" "a_table (view met) 1 = Some 0" "a_out (view flushed) = []"
    unfolding met_ok(4) flushed_ok(3) by (simp_all add: met_view_def start_view_def add_stream_def new_stream_def)
  have "healthy sim_os met" using met_ok(2) met_sound v(1) by (simp add: healthy_def)
  then show ?thesis using v fs ft
    by (intro end_to_end_delivery [OF flushed_ok(1,2) s(1) _ _ _ met_ok(3) _ _ _ t(1)]) simp_all
qed

text \<open>C23: Opening reaches the peer. The announcement that \<^verbatim>\<open>session_open\<close> sends makes an idle peer create
  a stream with the same id, in state \<^verbatim>\<open>SYN_RECEIVED\<close> and with the full window.\<close>

theorem open_reaches_peer:
  assumes "winv os {} wa" "reliable os wa" "\<not> ss_remote_go_away (sess wa)" "ss_next_id (sess wa) < 0xFFFFFFFF"
      "table wa (ss_next_id (sess wa)) = None" "a_out (view wa) = []"
    and "winv os' {} wb" "reliable os' wb" "ss_new_frame (sess wb)" "a_in (view wb) = []" "\<not> ss_local_go_away (sess wb)"
      "table wb (ss_next_id (sess wa)) = None"
  shows "\<exists>a wa' wb1 wb2 s. session_open os [] wa = Some (0, Some a, wa') \<and>
    session_recv_buf_write (a_out (view wa')) 12 wb = Some (12, wb1) \<and> session_process os' wb1 = Some (0, wb2) \<and>
    table wb2 (ss_next_id (sess wa)) = Some (brk wb) \<and> heap wb2 (brk wb) = Some s \<and>
    st_state s = STATE_SYN_RECEIVED \<and> unat (st_recv_window s) = 262144"
proof -
  let ?i = "ss_next_id (sess wa)" let ?f = "frame_hdr TYPE_WINDOW_UPDATE FLAG_SYN ?i 0"
  have live: "os_live os" "os_live os'" using assms(2,8) by (simp_all add: reliable_def os_reliable_def)
  from session_open_spec [OF assms(1) live(1) assms(3-5)] assms(2) obtain wa' where
    wa': "session_open os [] wa = Some (0, Some (brk wa), wa')" "view wa' = p_open (view wa)" by auto
  have out: "a_out (view wa') = ?f" unfolding wa'(2) using assms(6) by (simp add: p_open_def add_stream_def Let_def)
  from session_recv_buf_write_spec [OF assms(7), of 12 ?f] assms(8,10) obtain wb1 where
    wb1: "session_recv_buf_write ?f 12 wb = Some (12, wb1)" "keeps os' {} wb wb1" "view wb1 = (view wb)\<lparr>a_in := ?f\<rparr>" by auto
  have i1: "winv os' {} wb1" "reliable os' wb1" using wb1(2) assms(8) by (simp_all add: keeps_def)
  let ?B = "add_stream (brk wb) (new_stream ?i STATE_SYN_RECEIVED) ((view wb1)\<lparr>a_in := [], a_hdr := ?f, a_brk := Suc (brk wb)\<rparr>)"
  have f: "frame_ok (view wb1)" "length (a_in (view wb1)) < 2 ^ 31" "a_new_frame (view wb1)" "a_in (view wb1) = ?f"
    "\<not> a_local_go_away (view wb1)" "a_table (view wb1) ?i = None" "a_brk (view wb1) = brk wb"
    unfolding wb1(3) using assms(9-12) by (simp_all add: frame_ok_def)
  from p_process_syn [OF f(3-6)] have p: "p_process (view wb1) = (0, ?B)" unfolding f(7) .
  from session_process_spec [OF i1(1) live(2) f(1,2)] i1(2) p obtain wb2 where
    wb2: "session_process os' wb1 = Some (0, wb2)" "view wb2 = ?B" by (auto simp: processed_def)
  have "a_streams (view wb2) (brk wb) = Some (new_stream ?i STATE_SYN_RECEIVED)" "a_table (view wb2) ?i = Some (brk wb)"
    unfolding wb2(2) by (simp_all add: add_stream_def new_stream_def)
  then obtain s where s: "heap wb2 (brk wb) = Some s" "view_stream s = new_stream ?i STATE_SYN_RECEIVED" "table wb2 ?i = Some (brk wb)" by auto
  have "st_state s = STATE_SYN_RECEIVED" "unat (st_recv_window s) = 262144"
    using arg_cong [OF s(2), of a_state] arg_cong [OF s(2), of a_recv_window] by (simp_all add: new_stream_def MAX_STREAM_WINDOW_SIZE_def)
  with wa'(1) wb1(1) wb2(1) s(1,3) out show ?thesis by (metis (no_types, lifting))
qed

theorem open_reaches_peer_witness:
  "\<exists>a wa' wb1 wb2 s. session_open sim_os [] (started True) = Some (0, Some a, wa') \<and>
    session_recv_buf_write (a_out (view wa')) 12 (started False) = Some (12, wb1) \<and> session_process sim_os wb1 = Some (0, wb2) \<and>
    table wb2 (ss_next_id (sess (started True))) = Some (brk (started False)) \<and> heap wb2 (brk (started False)) = Some s \<and>
    st_state s = STATE_SYN_RECEIVED \<and> unat (st_recv_window s) = 262144"
proof -
  have f: "\<not> a_remote_go_away (view (started True))" "a_next_id (view (started True)) = 1" "a_out (view (started True)) = []"
    "a_table (view (started True)) = Map.empty" "a_table (view (started False)) = Map.empty"
    "a_new_frame (view (started False))" "a_in (view (started False)) = []" "\<not> a_local_go_away (view (started False))"
    unfolding started_ok(3) by (simp_all add: start_view_def)
  show ?thesis
    by (rule open_reaches_peer [OF started_ok(2,4) _ _ _ _ started_ok(2,4)]) (use f in simp_all)
qed

text \<open>C24: A frame that exceeds the window is refused: \<^verbatim>\<open>session_process\<close> returns -1, delivers nothing, and
  tells the peer to go away for a protocol error.\<close>

theorem window_violation_refused:
  assumes "winv os {} w" and "reliable os w" and "ss_new_frame (sess w)" and "heap w b = Some s" and "st_recv_window s < len"
    and "a_in (view w) = frame_hdr TYPE_DATA 0 (st_id s) len @ xs" and "length xs < 2 ^ 30"
  shows "\<exists>w' s'. session_process os w = Some (- 1, w') \<and> winv os {} w' \<and> heap w' b = Some s' \<and>
    bio_bytes (st_recv_buf s') = bio_bytes (st_recv_buf s) \<and> ss_local_go_away (sess w') \<and>
    a_out (view w') = a_out (view w) @ frame_hdr TYPE_GO_AWAY 0 0 GO_AWAY_PROTO_ERR"
proof -
  have live: "os_live os" using assms(2) by (simp add: reliable_def os_reliable_def)
  have tab: "table w (st_id s) = Some b" using assms(4) by (simp add: winv_table [OF assms(1)])
  let ?B = "p_go_away GO_AWAY_PROTO_ERR ((view w)\<lparr>a_in := xs, a_hdr := frame_hdr TYPE_DATA 0 (st_id s) len\<rparr>)"
  have p: "p_process (view w) = (- 1, ?B)"
    by (rule p_process_too_long [OF _ assms(6), of b "view_stream s"]) (use assms(3-5) tab in simp_all)
  have f: "frame_ok (view w)" "length (a_in (view w)) < 2 ^ 31" using assms(3,7) unfolding assms(6) by (simp_all add: frame_ok_def)
  from session_process_spec [OF assms(1) live f] assms(2) p obtain w' where
    w': "session_process os w = Some (- 1, w')" "keeps os {} w w'" "view w' = ?B" by (auto simp: processed_def)
  have "a_streams (view w') b = Some (view_stream s)" "a_local_go_away (view w')"
    "a_out (view w') = a_out (view w) @ frame_hdr TYPE_GO_AWAY 0 0 GO_AWAY_PROTO_ERR"
    unfolding w'(3) using assms(4) by (simp_all add: p_go_away_def)
  then obtain s' where "heap w' b = Some s'" "view_stream s' = view_stream s" "ss_local_go_away (sess w')"
    "a_out (view w') = a_out (view w) @ frame_hdr TYPE_GO_AWAY 0 0 GO_AWAY_PROTO_ERR" by auto
  moreover from this(2) have "bio_bytes (st_recv_buf s') = bio_bytes (st_recv_buf s)" using view_stream_sel(5) by metis
  ultimately show ?thesis using w'(1) keeps_winv [OF w'(2)] by blast
qed

theorem window_violation_refused_witness:
  "\<exists>s w' s'. heap met 0 = Some s \<and>
    session_process sim_os (fed (frame_hdr TYPE_DATA 0 1 300000) met) = Some (- 1, w') \<and> winv sim_os {} w' \<and> heap w' 0 = Some s' \<and>
    ss_local_go_away (sess w') \<and>
    a_out (view w') = a_out (view (fed (frame_hdr TYPE_DATA 0 1 300000) met)) @ frame_hdr TYPE_GO_AWAY 0 0 GO_AWAY_PROTO_ERR"
proof -
  let ?bs = "frame_hdr TYPE_DATA 0 1 300000"
  have "length ?bs < 2 ^ 31" by simp
  note f = fed_ok [OF met_ok(2,3) this]
  have v: "a_in (view (fed ?bs met)) = ?bs" "a_new_frame (view (fed ?bs met))"
    "a_streams (view (fed ?bs met)) 0 = Some (new_stream 1 STATE_SYN_RECEIVED)"
    using f(3) unfolding met_ok(4) by (simp_all add: met_view_def start_view_def add_stream_def)
  obtain s where s: "heap (fed ?bs met) 0 = Some s" "view_stream s = new_stream 1 STATE_SYN_RECEIVED" using v(3) by auto
  have d: "st_id s = 1" "st_recv_window s = 262144"
    using arg_cong [OF s(2), of a_id] arg_cong [OF s(2), of a_recv_window] by (simp_all add: new_stream_def MAX_STREAM_WINDOW_SIZE_def)
  obtain s0 where "heap met 0 = Some s0" using met_stream by blast
  moreover have "\<exists>w' s'. session_process sim_os (fed ?bs met) = Some (- 1, w') \<and> winv sim_os {} w' \<and> heap w' 0 = Some s' \<and>
    bio_bytes (st_recv_buf s') = bio_bytes (st_recv_buf s) \<and> ss_local_go_away (sess w') \<and>
    a_out (view w') = a_out (view (fed ?bs met)) @ frame_hdr TYPE_GO_AWAY 0 0 GO_AWAY_PROTO_ERR"
    by (rule window_violation_refused [OF f(2,4) _ s(1), of 300000 "[]"]) (use v d in simp_all)
  ultimately show ?thesis by blast
qed

text \<open>C25: A frame for a stream that does not exist desynchronises the receiver. If part of its
  payload has arrived, \<^verbatim>\<open>session_process\<close> counts the whole chunk as dropped and expects the next header,
  although the rest of the payload is still to come: the loop subtracts the size it wanted to drop
  from \<^verbatim>\<open>frame_remain\<close>, not the number of bytes it dropped.\<close>

theorem partial_skip_desynchronises:
  assumes "winv os {} w" and "reliable os w" and "ss_new_frame (sess w)" and "table w sid = None"
    and "a_in (view w) = frame_hdr TYPE_DATA 0 sid len @ xs" and "xs \<noteq> []" and "length xs < unat len" and "unat len \<le> 4096"
  shows "\<exists>w'. session_process os w = Some (0, w') \<and> a_in (view w') = [] \<and> ss_new_frame (sess w') \<and> ss_frame_remain (sess w') = 0"
proof -
  have live: "os_live os" using assms(2) by (simp add: reliable_def os_reliable_def)
  have f: "frame_ok (view w)" "length (a_in (view w)) < 2 ^ 31" using assms(3,7,8) unfolding assms(5) by (simp_all add: frame_ok_def)
  have "p_process (view w) = (0, (view w)\<lparr>a_in := [], a_hdr := frame_hdr TYPE_DATA 0 sid len, a_remain := 0, a_new_frame := True\<rparr>)"
    using assms(3,4) by (intro p_process_skip [OF _ assms(5) _ assms(6-8)]) simp_all
  with session_process_spec [OF assms(1) live f] assms(2) obtain w' where
    w': "session_process os w = Some (0, w')"
      "view w' = (view w)\<lparr>a_in := [], a_hdr := frame_hdr TYPE_DATA 0 sid len, a_remain := 0, a_new_frame := True\<rparr>"
    by (auto simp: processed_def)
  have "a_in (view w') = []" "a_new_frame (view w')" "a_remain (view w') = 0" unfolding w'(2) by simp_all
  with w'(1) show ?thesis by simp
qed

theorem partial_skip_desynchronises_witness:
  "\<exists>w'. session_process sim_os (fed (frame_hdr TYPE_DATA 0 5 100 @ [1, 2]) (started True)) = Some (0, w') \<and>
    a_in (view w') = [] \<and> ss_new_frame (sess w') \<and> ss_frame_remain (sess w') = 0"
proof -
  let ?bs = "frame_hdr TYPE_DATA 0 5 100 @ [1, 2]" let ?w = "fed ?bs (started True)"
  have "length ?bs < 2 ^ 31" by simp
  note f = fed_ok [OF started_ok(2,4) this, of True]
  have v: "a_in (view ?w) = ?bs" "a_new_frame (view ?w)" "a_table (view ?w) 5 = None"
    using f(3) unfolding started_ok(3) by (simp_all add: start_view_def)
  show ?thesis by (rule partial_skip_desynchronises [OF f(2,4), of 5 100 "[1, 2]"]) (use v in simp_all)
qed

section \<open>The stream table: red-black trees\<close>

text \<open>C26: \<^verbatim>\<open>RB_INSERT\<close> implements the insertion into a map. On the tree that holds \<open>m\<close>, a node with a new key
  is added, and the result is a red-black tree (sorted, with no red node below a red one and the
  same number of black nodes on every path) that holds the updated map; a node whose key is
  present is refused, the present one is returned and the tree is left alone.\<close>

theorem rb_insert_refines:
  assumes "rb_map key h m" and "cmp_for key (key e) cmp (ran m)" and "e \<notin> ran m"
  shows "\<exists>h'. RB_INSERT cmp h e = Some (m (key e), h') \<and>
    (if m (key e) = None then rb_map key h' (m(key e \<mapsto> e)) else h' = h)"
  using assms by (rule rbm.insert_law)

text \<open>An empty tree, and the comparison of the node 5 with others by their addresses.\<close>

definition tree0 :: rb_head where
  "tree0 = RB_INIT (ss_streams (sess blank))"

definition probe5 :: "addr \<Rightarrow> int option" where
  "probe5 b = Some (if 5 < b then - 1 else if b < 5 then 1 else 0)"

lemma tree0_ok: "rb_map (\<lambda>a. a) tree0 Map.empty" "cmp_for (\<lambda>a. a) 5 probe5 A"
  unfolding tree0_def by (rule rb_map_INIT) (auto simp: cmp_for_def probe5_def)

theorem rb_insert_refines_witness:
  "\<exists>h'. RB_INSERT probe5 tree0 5 = Some (None, h') \<and> rb_map (\<lambda>a. a) h' (Map.empty(5 \<mapsto> 5))"
  using rb_insert_refines [OF tree0_ok(1), of 5 probe5] tree0_ok(2) by simp

text \<open>C27: \<^verbatim>\<open>RB_REMOVE\<close> of a node of the tree removes it from the map and keeps the tree red-black.\<close>

theorem rb_remove_refines:
  assumes "rb_map key h m" and "m (key a) = Some a"
  shows "\<exists>h'. RB_REMOVE h a = Some h' \<and> rb_map key h' (m(key a := None))"
  using assms by (rule rbm.remove_law)

definition tree5 :: rb_head where
  "tree5 = snd (the (RB_INSERT probe5 tree0 5))"

lemma tree5_ok: "rb_map (\<lambda>a. a) tree5 (Map.empty(5 \<mapsto> 5))"
  using rbm.insert_law [OF tree0_ok(1), of 5 probe5] tree0_ok(2) by (auto simp: tree5_def)

theorem rb_remove_refines_witness:
  "\<exists>h'. RB_REMOVE tree5 5 = Some h' \<and> rb_map (\<lambda>a. a) h' ((Map.empty(5 \<mapsto> 5))(5 := None))"
  by (rule rb_remove_refines [OF tree5_ok]) simp

text \<open>Lookups see insertions and removals: after a node was inserted \<^verbatim>\<open>RB_FIND\<close> returns it for its key
  and what it returned before for any other, and after it was removed again the old map is back.\<close>

theorem rb_find_after_update:
  assumes "rb_map key h m" and "cmp_for key (key e) cmp (ran m)" and "m (key e) = None"
    and "cmp_for key x cmp' (insert e (ran m))"
  shows "\<exists>h' h''. RB_INSERT cmp h e = Some (None, h') \<and> RB_FIND cmp' h' = Some (if x = key e then Some e else m x) \<and>
    RB_REMOVE h' e = Some h'' \<and> RB_FIND cmp' h'' = Some (m x)"
proof -
  from rbm.insert_find [OF assms] obtain h' where
    h': "RB_INSERT cmp h e = Some (None, h')" "RB_FIND cmp' h' = Some (if x = key e then Some e else m x)" by blast
  from rbm.insert_remove [OF assms(1-3)] h'(1) obtain h'' where h'': "RB_REMOVE h' e = Some h''" "rb_map key h'' m" by auto
  have "cmp_for key x cmp' (ran m)" using assms(4) by (auto simp: cmp_for_def)
  from rbm.find_law [OF h''(2) this] h' h''(1) show ?thesis by blast
qed

theorem rb_find_after_update_witness:
  "\<exists>h' h''. RB_INSERT probe5 tree0 5 = Some (None, h') \<and> RB_FIND probe5 h' = Some (Some 5) \<and>
    RB_REMOVE h' 5 = Some h'' \<and> RB_FIND probe5 h'' = Some None"
  using rb_find_after_update [OF tree0_ok(1), of 5 probe5 5 probe5] tree0_ok(2) by simp

text \<open>The iterations visit every node once and in order: \<^verbatim>\<open>RB_FOREACH\<close> by increasing key and
  \<^verbatim>\<open>RB_FOREACH_REVERSE\<close> the other way round, so the neighbours \<^verbatim>\<open>RB_NEXT\<close> and \<^verbatim>\<open>RB_PREV\<close> compute are right and
  both loops end.\<close>

theorem rb_iteration_in_order:
  assumes "rb_map key h m"
  shows "\<exists>xs. RB_FOREACH h = Some xs \<and> RB_FOREACH_REVERSE h = Some (rev xs) \<and> sorted_wrt (<) (map key xs) \<and>
    distinct xs \<and> set xs = ran m"
proof -
  from rb_mapE [OF assms] obtain xs where xs: "rb_index key h xs" "ran m = set xs" "card (ran m) = length xs" by metis
  moreover have "sorted_wrt (<) (map key xs)" using rb_index_sorted [OF xs(1)] by (simp add: key_sorted_def)
  moreover have "distinct xs" using xs(2,3) by (intro card_distinct) simp
  ultimately show ?thesis using rb_index_FOREACH [OF xs(1)] by blast
qed

theorem rb_iteration_in_order_witness:
  "\<exists>xs. RB_FOREACH tree5 = Some xs \<and> RB_FOREACH_REVERSE tree5 = Some (rev xs) \<and> set xs = {5}"
  using rb_iteration_in_order [OF tree5_ok] by auto



section \<open>Frame headers\<close>

text \<open>C30: A header written by \<^verbatim>\<open>hdr_encode\<close> on a host of either byte order has 12 bytes, and
  the accessor macros read the same version, type, flags, stream id and length back on a host
  of either byte order.\<close>

theorem header_round_trip:
  "length (hdr_encode le type flags sid len) = 12 \<and>
   hdr_version (hdr_encode le type flags sid len) = VERSION \<and>
   hdr_type (hdr_encode le type flags sid len) = type \<and>
   hdr_flags le' (hdr_encode le type flags sid len) = flags \<and>
   hdr_stream_id le' (hdr_encode le type flags sid len) = sid \<and>
   hdr_length le' (hdr_encode le type flags sid len) = len"
  by (simp add: hdr_encode_frame)

text \<open>Conversely, every 12 bytes with the right version are the header of the fields the macros
  read from them, so no two frames on the wire are taken for the same one.\<close>

theorem header_determined_by_fields:
  assumes "length h = 12" and "hdr_version h = VERSION"
  shows "hdr_encode le (hdr_type h) (hdr_flags le' h) (hdr_stream_id le' h) (hdr_length le' h) = h"
  using hdr_reencode [OF assms, of le'] by (simp add: hdr_encode_frame)

theorem header_determined_by_fields_witness:
  "hdr_encode True (hdr_type [0, 1, 0, 2, 0, 0, 1, 4, 9, 8, 7, 6]) (hdr_flags False [0, 1, 0, 2, 0, 0, 1, 4, 9, 8, 7, 6])
     (hdr_stream_id False [0, 1, 0, 2, 0, 0, 1, 4, 9, 8, 7, 6]) (hdr_length False [0, 1, 0, 2, 0, 0, 1, 4, 9, 8, 7, 6]) =
   [0, 1, 0, 2, 0, 0, 1, 4, 9, 8, 7, 6]"
  by (rule header_determined_by_fields) (simp_all add: hdr_version_def VERSION_def)

section \<open>Byte queues\<close>

text \<open>\<^verbatim>\<open>bio_write\<close> appends to the queue. It returns on every outcome of \<^verbatim>\<open>malloc\<close> and leaves
  a well-formed queue: either all \<open>n\<close> bytes are appended and the result is \<open>n\<close>, or the result is
  -1, \<^verbatim>\<open>malloc\<close> has failed and a whole number of 4096 byte buffers, fewer than \<open>n\<close> bytes, has been appended.\<close>

theorem bio_write_appends:
  assumes "bio_ok b" and "n \<le> length buf" and "n < 2 ^ 31"
  shows "\<exists>r b' al' k. bio_write b buf n al = Some (r, b', al') \<and> bio_ok b' \<and> bio_bytes b' = bio_bytes b @ take k buf \<and>
    (r = int n \<and> k = n \<or> r = - 1 \<and> k < n \<and> 4096 dvd k \<and> \<not> never_fails al)"
  using bq.write_law [OF assms(1,2), of al] to_int_small [OF assms(3)] by metis

theorem bio_write_appends_witness:
  "\<exists>r b' al' k. bio_write bio0 [1, 2, 3] 3 al0 = Some (r, b', al') \<and> bio_ok b' \<and> bio_bytes b' = bio_bytes bio0 @ take k [1, 2, 3] \<and>
    (r = int 3 \<and> k = 3 \<or> r = - 1 \<and> k < 3 \<and> 4096 dvd k \<and> \<not> never_fails al0)"
  by (rule bio_write_appends) simp_all



text \<open>First in, first out. What is written to a queue is read back after what was there before: reading
  as many bytes as the queue held, and then as many as were written, gives the old contents, then
  the written bytes, and an empty queue.\<close>

theorem bio_write_then_read:
  assumes "bio_ok b" and "never_fails al" and "length (bio_bytes b) = m" and "m < 2 ^ 31" and "length buf < 2 ^ 31"
  shows "\<exists>b1 al' b2 b3. bio_write b buf (length buf) al = Some (int (length buf), b1, al') \<and>
    bio_read b1 m = Some (int m, bio_bytes b, b2) \<and>
    bio_read b2 (length buf) = Some (int (length buf), buf, b3) \<and> bio_ok b3 \<and> bio_bytes b3 = []"
proof -
  from bq.write_ok [OF assms(1) order_refl assms(2), of buf] assms(5) obtain b1 al' where
    b1: "bio_write b buf (length buf) al = Some (int (length buf), b1, al')" "bio_ok b1" "bio_bytes b1 = bio_bytes b @ buf"
    by (auto simp: to_int_small)
  from bq.read_law [OF b1(2), of m] b1(3) assms(3,4) obtain b2 where
    b2: "bio_read b1 m = Some (int m, bio_bytes b, b2)" "bio_ok b2" "bio_bytes b2 = buf" by (auto simp: to_int_small)
  from bq.read_law [OF b2(2), of "length buf"] b2(3) assms(5) have
    "\<exists>b3. bio_read b2 (length buf) = Some (int (length buf), buf, b3) \<and> bio_ok b3 \<and> bio_bytes b3 = []" by (auto simp: to_int_small)
  with b1(1) b2(1) show ?thesis by blast
qed

theorem bio_write_then_read_witness:
  "\<exists>b1 al' b2 b3. bio_write bio0 [4, 5] (length [4, 5 :: byte]) al0 = Some (int (length [4, 5 :: byte]), b1, al') \<and>
    bio_read b1 0 = Some (int 0, bio_bytes bio0, b2) \<and>
    bio_read b2 (length [4, 5 :: byte]) = Some (int (length [4, 5 :: byte]), [4, 5], b3) \<and> bio_ok b3 \<and> bio_bytes b3 = []"
  by (rule bio_write_then_read) simp_all

text \<open>Peeking and then consuming what was peeked is reading: \<^verbatim>\<open>bio_peek\<close> returns a prefix and leaves the queue
  alone, and \<^verbatim>\<open>bio_consume\<close> of its result removes exactly this prefix.\<close>

theorem bio_peek_consume_is_read:
  assumes "bio_ok b" and "length (bio_bytes b) < 2 ^ 31"
  shows "\<exists>b' b''. bio_peek b n = Some (int (min n (length (bio_bytes b))), take n (bio_bytes b)) \<and>
    bio_consume b (min n (length (bio_bytes b))) = Some (int (min n (length (bio_bytes b))), b') \<and>
    bio_read b n = Some (int (min n (length (bio_bytes b))), take n (bio_bytes b), b'') \<and>
    bio_ok b' \<and> bio_bytes b' = bio_bytes b'' \<and> bio_bytes b = take n (bio_bytes b) @ bio_bytes b'"
proof -
  let ?k = "min n (length (bio_bytes b))"
  have i: "to_int ?k = int ?k" using assms(2) by (intro to_int_small) simp
  from bq.peek_law [OF assms(1), of n] i have p: "bio_peek b n = Some (int ?k, take n (bio_bytes b))" by simp
  from bq.peek_then_consume [OF assms p] obtain b' where
    b': "bio_consume b ?k = Some (int ?k, b')" "bio_ok b'" "bio_bytes b = take n (bio_bytes b) @ bio_bytes b'" by auto
  from bq.read_law [OF assms(1), of n] i obtain b'' where
    b'': "bio_read b n = Some (int ?k, take n (bio_bytes b), b'')" "bio_bytes b'' = drop n (bio_bytes b)" by auto
  have "bio_bytes b' = bio_bytes b''"
    using b'(3) b''(2) append_take_drop_id [of n "bio_bytes b"] by (metis same_append_eq)
  with p b' b''(1) show ?thesis by blast
qed

theorem bio_peek_consume_is_read_witness:
  "\<exists>b' b''. bio_peek bio0 4 = Some (int (min 4 (length (bio_bytes bio0))), take 4 (bio_bytes bio0)) \<and>
    bio_consume bio0 (min 4 (length (bio_bytes bio0))) = Some (int (min 4 (length (bio_bytes bio0))), b') \<and>
    bio_read bio0 4 = Some (int (min 4 (length (bio_bytes bio0))), take 4 (bio_bytes bio0), b'') \<and>
    bio_ok b' \<and> bio_bytes b' = bio_bytes b'' \<and> bio_bytes bio0 = take 4 (bio_bytes bio0) @ bio_bytes b'"
  by (rule bio_peek_consume_is_read) simp_all

section \<open>Tail queues\<close>

text \<open>The tail queue is a queue: a cell inserted at the tail is the last one of a traversal, whatever was
  there before, and removing at the head takes off the first.\<close>

theorem stailq_fifo:
  assumes "stailq_rep q xs Map.empty" and "cell_new q x = (a, q1)"
  shows "\<exists>q2 q3. STAILQ_INSERT_TAIL q1 a = Some q2 \<and> STAILQ_FOREACH q2 = Some (xs @ [(a, x)]) \<and>
    STAILQ_REMOVE_HEAD q2 = Some q3 \<and> STAILQ_FOREACH q3 = Some (tl (xs @ [(a, x)]))"
proof -
  from stq.enqueue [OF assms] obtain q2 where q2: "STAILQ_INSERT_TAIL q1 a = Some q2" "stailq_rep q2 (xs @ [(a, x)]) Map.empty" by blast
  obtain b y ys where l: "xs @ [(a, x)] = (b, y) # ys" by (cases "xs @ [(a, x)]") auto
  from stq.remove_law [OF q2(2) [unfolded l]] obtain q3 where
    q3: "STAILQ_REMOVE_HEAD q2 = Some q3" "stailq_rep q3 ys (Map.empty(b \<mapsto> y))" by blast
  have "STAILQ_FOREACH q2 = Some (xs @ [(a, x)])" by (rule stq.foreach_law [OF q2(2)])
  moreover have "STAILQ_FOREACH q3 = Some ys" by (rule stq.foreach_law [OF q3(2)])
  ultimately show ?thesis using q2(1) q3(1) l by auto
qed

definition queue1 :: "nat stailq" where
  "queue1 = snd (cell_new stailq_new 7)"

lemma queue1_ok: "stailq_rep queue1 [] (Map.empty(0 \<mapsto> 7))" "cell_new stailq_new 7 = (0, queue1)"
proof -
  show c: "cell_new stailq_new 7 = (0, queue1)" by (simp add: queue1_def cell_new_def stailq_new_def STAILQ_INIT_def)
  from stq.new_law [OF stailq_new_rep c] show "stailq_rep queue1 [] (Map.empty(0 \<mapsto> 7))" by simp
qed

theorem stailq_fifo_witness:
  "\<exists>q2 q3. STAILQ_INSERT_TAIL queue1 0 = Some q2 \<and> STAILQ_FOREACH q2 = Some ([] @ [(0, 7)]) \<and>
    STAILQ_REMOVE_HEAD q2 = Some q3 \<and> STAILQ_FOREACH q3 = Some (tl ([] @ [(0, 7)]))"
  by (rule stailq_fifo [OF stailq_new_rep queue1_ok(2)])



end
